(* ===== verification/Codec_Prelude.thy ===== *)
theory Codec_Prelude
  imports Main "HOL-Library.Word" "HOL-Library.List_Lexorder"
begin

text \<open>
  Shared vocabulary of the development: the outcome type every fallible operation returns, byte
  strings with the slice operations of Rust, integers as byte strings in either byte order, and the
  generic lemmas on them. Nothing here models a file of the crate; it models the parts of the Rust
  language and standard library the crate uses.

  Outcomes. A run ends in \<open>Ok x\<close>, in \<open>Err e\<close> (an \<open>Err\<close> value of Rust), in \<open>Panic\<close> (an index or
  slice out of range, an arithmetic overflow, a failed \<open>debug_assert!\<close>) or in \<open>Diverge\<close> (a loop
  whose fuel ran out). The model follows the debug build: an overflow is a panic, not a wrap-around;
  where a theorem shows that no panic is reached, the release build computes the same.
  Lengths and offsets (\<open>usize\<close>) are \<open>nat\<close>: a slice of a running program has at most \<open>2 ^ 63 - 1\<close>
  bytes, so sums of an offset and a field width do not overflow.
\<close>

named_theorems codec_defs \<open>definitions of the small readers, writers and constants\<close>
named_theorems outcome_simps \<open>how outcomes are taken apart\<close>

section \<open>Outcomes\<close>

datatype 'e fault = Fail 'e | Panic | Diverge

type_synonym ('e, 'a) outcome = "'e fault + 'a"

abbreviation Ok :: "'a \<Rightarrow> ('e, 'a) outcome" where
  "Ok \<equiv> Inr"

abbreviation Err :: "'e \<Rightarrow> ('e, 'a) outcome" where
  "Err e \<equiv> Inl (Fail e)"

abbreviation Crash :: "('e, 'a) outcome" where
  "Crash \<equiv> Inl Panic"

text \<open>The question mark operator: go on with the value, or return the fault.\<close>

definition and_then :: "'x + 'a \<Rightarrow> ('a \<Rightarrow> 'x + 'b) \<Rightarrow> 'x + 'b" where
  "and_then m f = (case m of Inl e \<Rightarrow> Inl e | Inr x \<Rightarrow> f x)"

definition ok_or :: "'a option \<Rightarrow> 'e \<Rightarrow> ('e, 'a) outcome" where
  "ok_or x e = (case x of None \<Rightarrow> Err e | Some y \<Rightarrow> Ok y)"

definition is_ok :: "'x + 'a \<Rightarrow> bool" where
  "is_ok m = (case m of Inl _ \<Rightarrow> False | Inr _ \<Rightarrow> True)"

lemma and_then_simps [simp]:
  "and_then (Inl e) f = Inl e"
  "and_then (Inr x) f = f x"
  by (simp_all add: and_then_def)

lemma and_then_eq_Inr [outcome_simps]:
  "and_then m f = Inr y \<longleftrightarrow> (\<exists>x. m = Inr x \<and> f x = Inr y)"
  by (cases m) auto

lemma and_then_eq_Inl [outcome_simps]:
  "and_then m f = Inl e \<longleftrightarrow> m = Inl e \<or> (\<exists>x. m = Inr x \<and> f x = Inl e)"
  by (cases m) auto

lemma and_then_cong [fundef_cong]:
  "m = m' \<Longrightarrow> (\<And>x. m' = Inr x \<Longrightarrow> f x = f' x) \<Longrightarrow> and_then m f = and_then m' f'"
  by (cases m') auto

lemma and_then_assoc: "and_then (and_then m f) g = and_then m (\<lambda>x. and_then (f x) g)"
  by (cases m) auto

lemma ok_or_simps [simp]:
  "ok_or None e = Err e"
  "ok_or (Some x) e = Ok x"
  by (simp_all add: ok_or_def)

lemma ok_or_eq_Inr [outcome_simps]: "ok_or x e = Inr y \<longleftrightarrow> x = Some y"
  by (cases x) auto

lemma ok_or_eq_Inl [outcome_simps]: "ok_or x e = Inl f \<longleftrightarrow> x = None \<and> f = Fail e"
  by (cases x) auto

lemma is_ok_simps [simp]: "\<not> is_ok (Inl e)" "is_ok (Inr x)"
  by (simp_all add: is_ok_def)

lemma is_ok_iff: "is_ok m \<longleftrightarrow> (\<exists>x. m = Inr x)"
  by (cases m) auto

lemma if_eq_Inr_Err [outcome_simps]:
  "(if c then Inl e else m) = Inr y \<longleftrightarrow> \<not> c \<and> m = Inr y"
  by auto

text \<open>
  A clean outcome is a value or an error the code returns on purpose: no panic, no endless loop.
\<close>

definition clean :: "('e, 'a) outcome \<Rightarrow> bool" where
  "clean m \<longleftrightarrow> m \<noteq> Inl Panic \<and> m \<noteq> Inl Diverge"

lemma clean_simps [simp]: "clean (Inr x)" "clean (Inl (Fail e))" "\<not> clean (Inl Panic)" "\<not> clean (Inl Diverge)"
  by (simp_all add: clean_def)

lemma clean_and_then: "clean m \<Longrightarrow> (\<And>x. m = Inr x \<Longrightarrow> clean (f x)) \<Longrightarrow> clean (and_then m f)"
  by (cases m) (auto simp: clean_def)

lemma clean_ok_or [simp]: "clean (ok_or x e)"
  by (cases x) auto

text \<open>A good outcome is clean, and its value, if there is one, satisfies the postcondition. The rule for
  \<open>and_then\<close> is the rule of sequential composition.\<close>

definition good :: "('a \<Rightarrow> bool) \<Rightarrow> ('e, 'a) outcome \<Rightarrow> bool" where
  "good P m \<longleftrightarrow> clean m \<and> (\<forall>x. m = Inr x \<longrightarrow> P x)"

lemma good_simps [simp]:
  "good P (Inr x) \<longleftrightarrow> P x" "good P (Inl (Fail e))" "\<not> good P (Inl Panic)" "\<not> good P (Inl Diverge)"
  by (simp_all add: good_def)

lemma good_and_then: "good P m \<Longrightarrow> (\<And>x. m = Inr x \<Longrightarrow> P x \<Longrightarrow> good Q (f x)) \<Longrightarrow> good Q (and_then m f)"
  by (cases m) (auto simp: good_def clean_def)

lemma goodI: "clean m \<Longrightarrow> (\<And>x. m = Inr x \<Longrightarrow> P x) \<Longrightarrow> good P m"
  by (simp add: good_def)

lemma good_clean: "good P m \<Longrightarrow> clean m"
  by (simp add: good_def)

lemma goodD: "good P m \<Longrightarrow> m = Inr x \<Longrightarrow> P x"
  by (simp add: good_def)

lemma good_mono: "good P m \<Longrightarrow> (\<And>x. P x \<Longrightarrow> Q x) \<Longrightarrow> good Q m"
  by (simp add: good_def)

text \<open>Collecting the results of a fallible function over a list, left to right.\<close>

fun traverse :: "('a \<Rightarrow> 'x + 'b) \<Rightarrow> 'a list \<Rightarrow> 'x + 'b list" where
  "traverse f [] = Inr []"
| "traverse f (x # xs) = and_then (f x) (\<lambda>y. and_then (traverse f xs) (\<lambda>ys. Inr (y # ys)))"

lemma traverse_cong [fundef_cong]:
  "xs = ys \<Longrightarrow> (\<And>x. x \<in> set ys \<Longrightarrow> f x = g x) \<Longrightarrow> traverse f xs = traverse g ys"
proof (induction xs arbitrary: ys)
  case (Cons x xs)
  then obtain ys' where ys: "ys = x # ys'" "xs = ys'" by auto
  with Cons.prems(2) have "f x = g x" by simp
  moreover have "traverse f xs = traverse g ys'"
    using Cons.IH [OF ys(2)] Cons.prems(2) ys by auto
  ultimately show ?case by (simp add: ys)
qed auto

lemma traverse_eq_Inr:
  "traverse f xs = Inr ys \<longleftrightarrow> list_all2 (\<lambda>x y. f x = Inr y) xs ys"
  by (induction xs arbitrary: ys) (auto simp: outcome_simps list_all2_Cons1)

lemma clean_traverse: "(\<And>x. x \<in> set xs \<Longrightarrow> clean (f x)) \<Longrightarrow> clean (traverse f xs)"
  by (induction xs) (auto intro!: clean_and_then)

lemma list_all2_right: "list_all2 P xs ys \<Longrightarrow> y \<in> set ys \<Longrightarrow> \<exists>x\<in>set xs. P x y"
  by (induction rule: list_all2_induct) auto

section \<open>Byte strings and slices\<close>

type_synonym u8 = "8 word"
type_synonym u16 = "16 word"
type_synonym u32 = "32 word"
type_synonym u64 = "64 word"
type_synonym bytes = "8 word list"

definition ascii :: "string \<Rightarrow> bytes" where
  "ascii s = map (\<lambda>c. of_nat (of_char c)) s"

text \<open>\<open>sub a n xs\<close>: the \<open>n\<close> bytes from offset \<open>a\<close>.\<close>

definition sub :: "nat \<Rightarrow> nat \<Rightarrow> 'a list \<Rightarrow> 'a list" where
  "sub a n xs = take n (drop a xs)"

text \<open>\<open>xs.get(a..b)\<close>, \<open>&xs[a..b]\<close> and \<open>xs[i]\<close>: the checked read, and the two that panic.\<close>

definition get_range :: "'a list \<Rightarrow> nat \<Rightarrow> nat \<Rightarrow> 'a list option" where
  "get_range xs a b = (if a \<le> b \<and> b \<le> length xs then Some (sub a (b - a) xs) else None)"

definition slice_of :: "'a list \<Rightarrow> nat \<Rightarrow> nat \<Rightarrow> ('e, 'a list) outcome" where
  "slice_of xs a b = (if a \<le> b \<and> b \<le> length xs then Ok (sub a (b - a) xs) else Crash)"

definition at_index :: "'a list \<Rightarrow> nat \<Rightarrow> ('e, 'a) outcome" where
  "at_index xs i = (if i < length xs then Ok (xs ! i) else Crash)"

definition get_at :: "'a list \<Rightarrow> nat \<Rightarrow> 'a option" where
  "get_at xs i = (if i < length xs then Some (xs ! i) else None)"

definition checked_add_usize :: "nat \<Rightarrow> nat \<Rightarrow> nat option" where
  "checked_add_usize a b = (if a + b < 2 ^ 64 then Some (a + b) else None)"

lemma sub_0 [simp]: "sub a 0 xs = []"
  by (simp add: sub_def)

lemma sub_Nil [simp]: "sub a n [] = []"
  by (simp add: sub_def)

lemma length_sub [simp]: "length (sub a n xs) = min n (length xs - a)"
  by (simp add: sub_def)

lemma sub_whole [simp]: "length xs \<le> n \<Longrightarrow> sub 0 n xs = xs"
  by (simp add: sub_def)

lemma sub_join: "sub a n xs @ sub (a + n) m xs = sub a (n + m) xs"
proof -
  have "drop (a + n) xs = drop n (drop a xs)" by (simp add: add.commute)
  then show ?thesis by (simp only: sub_def take_add)
qed

lemma sub_joinI: "b = a + n \<Longrightarrow> sub a n xs @ sub b m xs = sub a (n + m) xs"
  by (simp add: sub_join)

lemma sub_join_rest: "b = a + n \<Longrightarrow> sub a n xs @ sub b m xs @ ys = sub a (n + m) xs @ ys"
  using sub_join [of a n xs m] by (metis append.assoc)

lemma sub_append_skip: "length xs \<le> a \<Longrightarrow> sub a n (xs @ ys) = sub (a - length xs) n ys"
  by (simp add: sub_def)

lemma sub_append_here: "length ys = n \<Longrightarrow> sub 0 n (ys @ zs) = ys"
  by (simp add: sub_def)

lemma sub_append_inside: "a + n \<le> length xs \<Longrightarrow> sub a n (xs @ ys) = sub a n xs"
  by (simp add: sub_def)

lemma sub_append_at: "length xs = a \<Longrightarrow> length ys = n \<Longrightarrow> sub a n (xs @ ys @ zs) = ys"
  by (simp add: sub_def)

lemma sub_append_last: "length xs = a \<Longrightarrow> length ys = n \<Longrightarrow> sub a n (xs @ ys) = ys"
  by (simp add: sub_def)

lemma sub_single: "i < length xs \<Longrightarrow> sub i 1 xs = [xs ! i]"
  by (simp add: sub_def take_Suc_conv_app_nth hd_drop_conv_nth take_Suc)

lemma get_range_at: "length xs = a \<Longrightarrow> a + length ys = b \<Longrightarrow> get_range (xs @ ys @ zs) a b = Some ys"
  by (auto simp: get_range_def sub_def)

lemma get_range_eq_Some [outcome_simps]:
  "get_range xs a b = Some ys \<longleftrightarrow> a \<le> b \<and> b \<le> length xs \<and> ys = sub a (b - a) xs"
  by (auto simp: get_range_def)

lemma slice_of_eq_Inr [outcome_simps]:
  "slice_of xs a b = Inr ys \<longleftrightarrow> a \<le> b \<and> b \<le> length xs \<and> ys = sub a (b - a) xs"
  by (auto simp: slice_of_def)

lemma at_index_eq_Inr [outcome_simps]: "at_index xs i = Inr x \<longleftrightarrow> i < length xs \<and> x = xs ! i"
  by (auto simp: at_index_def)

lemma clean_slice_of: "a \<le> b \<Longrightarrow> b \<le> length xs \<Longrightarrow> clean (slice_of xs a b)"
  by (simp add: slice_of_def)

lemma clean_at_index: "i < length xs \<Longrightarrow> clean (at_index xs i)"
  by (simp add: at_index_def)

text \<open>\<open>starts_with\<close> and \<open>strip_prefix\<close> of a slice.\<close>

fun strip_prefix :: "'a list \<Rightarrow> 'a list \<Rightarrow> 'a list option" where
  "strip_prefix [] ys = Some ys"
| "strip_prefix (x # xs) [] = None"
| "strip_prefix (x # xs) (y # ys) = (if x = y then strip_prefix xs ys else None)"

definition starts_with :: "'a list \<Rightarrow> 'a list \<Rightarrow> bool" where
  "starts_with xs p \<longleftrightarrow> take (length p) xs = p"

lemma strip_prefix_eq_Some: "strip_prefix p xs = Some r \<longleftrightarrow> xs = p @ r"
  by (induction p xs rule: strip_prefix.induct) auto

lemma strip_prefix_append [simp]: "strip_prefix p (p @ r) = Some r"
  by (simp add: strip_prefix_eq_Some)

lemma starts_with_iff: "starts_with xs p \<longleftrightarrow> (\<exists>r. xs = p @ r)"
  unfolding starts_with_def by (metis append_eq_conv_conj append_take_drop_id)

lemma starts_with_append [simp]: "starts_with (p @ r) p"
  by (auto simp: starts_with_iff)

section \<open>Integers as byte strings\<close>

primrec to_le :: "nat \<Rightarrow> nat \<Rightarrow> bytes" where
  "to_le 0 v = []"
| "to_le (Suc n) v = of_nat v # to_le n (v div 256)"

primrec from_le :: "bytes \<Rightarrow> nat" where
  "from_le [] = 0"
| "from_le (b # bs) = unat b + 256 * from_le bs"

definition to_be :: "nat \<Rightarrow> nat \<Rightarrow> bytes" where
  "to_be n v = rev (to_le n v)"

definition from_be :: "bytes \<Rightarrow> nat" where
  "from_be bs = from_le (rev bs)"

lemma length_to_le [simp]: "length (to_le n v) = n"
  by (induction n arbitrary: v) auto

lemma length_to_be [simp]: "length (to_be n v) = n"
  by (simp add: to_be_def)

lemma unat_of_nat_u8: "unat (of_nat v :: u8) = v mod 256"
  by (simp add: unat_of_nat)

lemma from_le_to_le: "from_le (to_le n v) = v mod 256 ^ n"
  by (induction n arbitrary: v) (auto simp: unat_of_nat_u8 mod_mult2_eq)

lemma from_le_bound: "from_le bs < 256 ^ length bs"
proof (induction bs)
  case (Cons b bs)
  have "unat b < 256" using unsigned_less [of b] by simp
  with Cons show ?case by simp
qed simp

lemma to_le_from_le: "length bs = n \<Longrightarrow> to_le n (from_le bs) = bs"
proof (induction bs arbitrary: n)
  case (Cons b bs)
  have b: "unat b < 256" using unsigned_less [of b] by simp
  then have "(unat b + 256 * from_le bs) div 256 = from_le bs" by simp
  moreover have "(of_nat (256 * from_le bs) :: u8) = 0"
    by (subst word_unat_eq_iff) (simp only: unat_of_nat_u8, simp)
  then have "(of_nat (unat b + 256 * from_le bs) :: u8) = b"
    by (simp only: of_nat_add) simp
  ultimately show ?case using Cons by (auto simp del: of_nat_add of_nat_mult)
qed simp

lemma from_be_to_be: "from_be (to_be n v) = v mod 256 ^ n"
  by (simp add: from_be_def to_be_def from_le_to_le)

lemma to_be_from_be: "length bs = n \<Longrightarrow> to_be n (from_be bs) = bs"
  by (simp add: from_be_def to_be_def to_le_from_le)

lemma from_be_bound: "from_be bs < 256 ^ length bs"
  using from_le_bound [of "rev bs"] by (simp add: from_be_def)

text \<open>\<open>to_le_bytes\<close>, \<open>from_le_bytes\<close> and their big-endian forms at the widths the crate uses.\<close>

definition le_bytes :: "'w::len word \<Rightarrow> bytes" where
  "le_bytes v = to_le (LENGTH('w) div 8) (unat v)"

definition be_bytes :: "'w::len word \<Rightarrow> bytes" where
  "be_bytes v = to_be (LENGTH('w) div 8) (unat v)"

definition from_le_bytes :: "bytes \<Rightarrow> 'w::len word" where
  "from_le_bytes bs = of_nat (from_le bs)"

definition from_be_bytes :: "bytes \<Rightarrow> 'w::len word" where
  "from_be_bytes bs = of_nat (from_be bs)"

lemma length_le_bytes [simp]: "length (le_bytes (v :: 'w::len word)) = LENGTH('w) div 8"
  by (simp add: le_bytes_def)

lemma length_be_bytes [simp]: "length (be_bytes (v :: 'w::len word)) = LENGTH('w) div 8"
  by (simp add: be_bytes_def)

lemma of_nat_unat_mod: "of_nat (unat v mod 2 ^ LENGTH('w)) = (v :: 'w::len word)"
  using unsigned_less [of v, where 'a = nat] by simp

lemma pow_256: "8 * k = l \<Longrightarrow> (256::nat) ^ k = 2 ^ l"
  using power_mult [of "2::nat" 8 k] by simp

lemma le_bytes_inverse:
  "8 * (LENGTH('w) div 8) = LENGTH('w) \<Longrightarrow> from_le_bytes (le_bytes v) = (v :: 'w::len word)"
  using of_nat_unat_mod [of v]
  by (simp add: from_le_bytes_def le_bytes_def from_le_to_le pow_256)

lemma be_bytes_inverse:
  "8 * (LENGTH('w) div 8) = LENGTH('w) \<Longrightarrow> from_be_bytes (be_bytes v) = (v :: 'w::len word)"
  using of_nat_unat_mod [of v]
  by (simp add: from_be_bytes_def be_bytes_def from_be_to_be pow_256)

lemma le_bytes_inverses [simp]:
  "from_le_bytes (le_bytes (v :: u16)) = v"
  "from_le_bytes (le_bytes (w :: u32)) = w"
  "from_le_bytes (le_bytes (x :: u64)) = x"
  by (simp_all add: le_bytes_inverse)

lemma be_bytes_inverses [simp]:
  "from_be_bytes (be_bytes (v :: u16)) = v"
  "from_be_bytes (be_bytes (w :: u32)) = w"
  by (simp_all add: be_bytes_inverse)

lemma from_le_bytes_inverse_u16: "length bs = 2 \<Longrightarrow> le_bytes (from_le_bytes bs :: u16) = bs"
  and from_le_bytes_inverse_u32: "length bs = 4 \<Longrightarrow> le_bytes (from_le_bytes bs :: u32) = bs"
  and from_le_bytes_inverse_u64: "length bs = 8 \<Longrightarrow> le_bytes (from_le_bytes bs :: u64) = bs"
  using from_le_bound [of bs]
  by (simp_all add: from_le_bytes_def le_bytes_def unat_of_nat to_le_from_le)

lemma from_be_bytes_inverse_u16: "length bs = 2 \<Longrightarrow> be_bytes (from_be_bytes bs :: u16) = bs"
  and from_be_bytes_inverse_u32: "length bs = 4 \<Longrightarrow> be_bytes (from_be_bytes bs :: u32) = bs"
  using from_be_bound [of bs]
  by (simp_all add: from_be_bytes_def be_bytes_def unat_of_nat to_be_from_be)

lemma unat_u64_bound: "unat (x :: u64) < 2 ^ 64"
  using unsigned_less [of x, where 'a = nat] by simp

lemma unat_of_nat_u64: "n < 2 ^ 64 \<Longrightarrow> unat (of_nat n :: u64) = n"
  by (simp add: unat_of_nat)

lemma unat_u32_bound: "unat (x :: u32) < 2 ^ 32"
  using unsigned_less [of x, where 'a = nat] by simp

lemma unat_u16_bound: "unat (x :: u16) < 2 ^ 16"
  using unsigned_less [of x, where 'a = nat] by simp

text \<open>Checked word arithmetic: an overflow is a panic, as in the debug build.\<close>

definition add64 :: "u64 \<Rightarrow> u64 \<Rightarrow> ('e, u64) outcome" where
  "add64 a b = (if unat a + unat b < 2 ^ 64 then Ok (a + b) else Crash)"

definition sub64 :: "u64 \<Rightarrow> u64 \<Rightarrow> ('e, u64) outcome" where
  "sub64 a b = (if b \<le> a then Ok (a - b) else Crash)"

definition mul64 :: "u64 \<Rightarrow> u64 \<Rightarrow> ('e, u64) outcome" where
  "mul64 a b = (if unat a * unat b < 2 ^ 64 then Ok (a * b) else Crash)"

definition checked_add64 :: "u64 \<Rightarrow> u64 \<Rightarrow> u64 option" where
  "checked_add64 a b = (if unat a + unat b < 2 ^ 64 then Some (a + b) else None)"

definition checked_add32 :: "u32 \<Rightarrow> u32 \<Rightarrow> u32 option" where
  "checked_add32 a b = (if unat a + unat b < 2 ^ 32 then Some (a + b) else None)"

lemma unat_add64: "unat a + unat b < 2 ^ 64 \<Longrightarrow> unat (a + b :: u64) = unat a + unat b"
  by (simp add: unat_word_ariths)

lemma unat_add32: "unat a + unat b < 2 ^ 32 \<Longrightarrow> unat (a + b :: u32) = unat a + unat b"
  by (simp add: unat_word_ariths)

lemma unat_mul64: "unat a * unat b < 2 ^ 64 \<Longrightarrow> unat (a * b :: u64) = unat a * unat b"
  by (simp add: unat_word_ariths)

lemma checked_add64_eq_Some:
  "checked_add64 a b = Some c \<longleftrightarrow> unat a + unat b < 2 ^ 64 \<and> unat c = unat a + unat b"
  by (auto simp: checked_add64_def unat_add64 word_unat_eq_iff)

lemma checked_add32_eq_Some:
  "checked_add32 a b = Some c \<longleftrightarrow> unat a + unat b < 2 ^ 32 \<and> unat c = unat a + unat b"
  by (auto simp: checked_add32_def unat_add32 word_unat_eq_iff)

section \<open>Splitting a byte string at an offset\<close>

lemma drop_sub: "drop a xs = sub a n xs @ drop (a + n) xs"
  by (simp add: sub_def) (metis add.commute append_take_drop_id drop_drop)

lemma drop_append_iff:
  "off \<le> length p \<Longrightarrow> drop off p = x @ y \<longleftrightarrow>
     off + length x \<le> length p \<and> sub off (length x) p = x \<and> drop (off + length x) p = y"
proof
  assume "off \<le> length p" and d: "drop off p = x @ y"
  then have "length p - off = length x + length y" by (metis length_append length_drop)
  then have "off + length x \<le> length p" using \<open>off \<le> length p\<close> by linarith
  moreover have "drop (off + length x) p = drop (length x) (drop off p)" by (simp only: drop_drop add.commute)
  then have "drop (off + length x) p = y" unfolding d by simp
  ultimately show "off + length x \<le> length p \<and> sub off (length x) p = x \<and> drop (off + length x) p = y"
    using \<open>off + length x \<le> length p\<close> d by (simp add: sub_def)
next
  assume "off + length x \<le> length p \<and> sub off (length x) p = x \<and> drop (off + length x) p = y"
  then show "drop off p = x @ y" using drop_sub [of off p "length x"] by simp
qed

lemma le_bytes_inject:
  "le_bytes (a :: u16) = le_bytes b \<longleftrightarrow> a = b" "le_bytes (c :: u32) = le_bytes d \<longleftrightarrow> c = d"
  "le_bytes (e :: u64) = le_bytes f \<longleftrightarrow> e = f"
  by (metis le_bytes_inverses)+

text \<open>The two leading 16-bit fields of a payload.\<close>

lemma head_words: "payload = sub 0 2 payload @ sub 2 2 payload @ drop 4 payload"
proof -
  have "payload = sub 0 2 payload @ drop 2 payload" using drop_sub [of 0 payload 2] by (simp only: drop_0 add_0)
  moreover have "drop 2 payload = sub 2 2 payload @ drop 4 payload" using drop_sub [of 2 payload 2] by simp
  ultimately show ?thesis by simp
qed

end
