(* ===== verification/Rust_Str.thy ===== *)
theory Rust_Str
  imports Codec_Prelude
begin

text \<open>
  Rust strings. A \<open>String\<close> or \<open>&str\<close> is the byte string of its UTF-8 encoding; the type's own
  invariant, that the bytes are valid UTF-8, is the predicate \<open>is_utf8\<close>. \<open>utf8_chars\<close> is the
  decoder of the standard library (\<open>core::str::validations\<close>, the table of the Unicode standard,
  which excludes overlong forms and surrogates), \<open>encode_utf8\<close> is \<open>char::encode_utf8\<close>, and
  \<open>from_utf8\<close> is \<open>std::str::from_utf8\<close>. The lemmas show that the two are inverse to each other on
  scalar values and that validity is compatible with concatenation. \<open>split_on\<close> is \<open>str::split\<close>
  with an ASCII separator, which on valid UTF-8 is a split of the bytes.
\<close>

section \<open>UTF-8\<close>

definition scalar :: "nat \<Rightarrow> bool" where
  "scalar c \<longleftrightarrow> c < 0xD800 \<or> 0xE000 \<le> c \<and> c < 0x110000"

definition cont_byte :: "u8 \<Rightarrow> bool" where
  "cont_byte b \<longleftrightarrow> 0x80 \<le> b \<and> b \<le> 0xBF"

definition second_byte :: "u8 \<Rightarrow> u8 \<Rightarrow> bool" where
  "second_byte b0 b1 \<longleftrightarrow>
     (if b0 = 0xE0 then 0xA0 \<le> b1 \<and> b1 \<le> 0xBF
      else if b0 = 0xED then 0x80 \<le> b1 \<and> b1 \<le> 0x9F
      else if b0 = 0xF0 then 0x90 \<le> b1 \<and> b1 \<le> 0xBF
      else if b0 = 0xF4 then 0x80 \<le> b1 \<and> b1 \<le> 0x8F
      else cont_byte b1)"

fun utf8_chars :: "bytes \<Rightarrow> nat list option" where
  "utf8_chars [] = Some []"
| "utf8_chars (b0 # r) =
     (if b0 < 0x80 then map_option ((#) (unat b0)) (utf8_chars r)
      else if 0xC2 \<le> b0 \<and> b0 \<le> 0xDF then
        (case r of
           b1 # r1 \<Rightarrow>
             if cont_byte b1
             then map_option ((#) ((unat b0 mod 32) * 64 + unat b1 mod 64)) (utf8_chars r1)
             else None
         | _ \<Rightarrow> None)
      else if 0xE0 \<le> b0 \<and> b0 \<le> 0xEF then
        (case r of
           b1 # b2 # r2 \<Rightarrow>
             if second_byte b0 b1 \<and> cont_byte b2
             then map_option ((#) (((unat b0 mod 16) * 64 + unat b1 mod 64) * 64 + unat b2 mod 64))
                    (utf8_chars r2)
             else None
         | _ \<Rightarrow> None)
      else if 0xF0 \<le> b0 \<and> b0 \<le> 0xF4 then
        (case r of
           b1 # b2 # b3 # r3 \<Rightarrow>
             if second_byte b0 b1 \<and> cont_byte b2 \<and> cont_byte b3
             then map_option ((#) ((((unat b0 mod 8) * 64 + unat b1 mod 64) * 64 + unat b2 mod 64) * 64
                    + unat b3 mod 64)) (utf8_chars r3)
             else None
         | _ \<Rightarrow> None)
      else None)"

declare utf8_chars.simps(2) [simp del]

definition encode_utf8 :: "nat \<Rightarrow> bytes" where
  "encode_utf8 c =
     (if c < 0x80 then [of_nat c]
      else if c < 0x800 then [of_nat (0xC0 + c div 64), of_nat (0x80 + c mod 64)]
      else if c < 0x10000 then
        [of_nat (0xE0 + c div 64 div 64), of_nat (0x80 + c div 64 mod 64), of_nat (0x80 + c mod 64)]
      else
        [of_nat (0xF0 + c div 64 div 64 div 64), of_nat (0x80 + c div 64 div 64 mod 64),
         of_nat (0x80 + c div 64 mod 64), of_nat (0x80 + c mod 64)])"

definition is_utf8 :: "bytes \<Rightarrow> bool" where
  "is_utf8 bs \<longleftrightarrow> utf8_chars bs \<noteq> None"

definition from_utf8 :: "bytes \<Rightarrow> bytes option" where
  "from_utf8 bs = (if is_utf8 bs then Some bs else None)"

lemma from_utf8_eq_Some [outcome_simps]: "from_utf8 bs = Some s \<longleftrightarrow> is_utf8 bs \<and> s = bs"
  by (auto simp: from_utf8_def)

lemma from_utf8_eq_None [outcome_simps]: "from_utf8 bs = None \<longleftrightarrow> \<not> is_utf8 bs"
  by (auto simp: from_utf8_def)

lemma unat_u8_bound: "unat (b :: u8) < 256"
  using unsigned_less [of b, where 'a = nat] by simp

lemma u8_less_iff: "(b :: u8) < c \<longleftrightarrow> unat b < unat c"
  by (rule word_less_nat_alt)

lemma u8_le_iff: "(b :: u8) \<le> c \<longleftrightarrow> unat b \<le> unat c"
  by (rule word_le_nat_alt)

lemma u8_eq_iff: "(b :: u8) = c \<longleftrightarrow> unat b = unat c"
  by (rule word_unat_eq_iff)

lemmas u8_order = u8_less_iff u8_le_iff u8_eq_iff

lemma six_bits: "(b::nat) < 64 \<Longrightarrow> (a * 64 + b) div 64 = a" "b < 64 \<Longrightarrow> (a * 64 + b) mod 64 = b"
  by simp_all

lemma high_bits:
  "(k::nat) < 32 \<Longrightarrow> (0xC0 + k) mod 32 = k"
  "k < 16 \<Longrightarrow> (0xE0 + k) mod 16 = k"
  "k < 8 \<Longrightarrow> (0xF0 + k) mod 8 = k"
  "k < 64 \<Longrightarrow> (0x80 + k) mod 64 = k"
  using mod_mult_self1 [of k 6 32] mod_mult_self1 [of k 14 16] mod_mult_self1 [of k 30 8]
    mod_mult_self1 [of k 2 64] by (simp_all add: add.commute)

lemma low_bits:
  "0xC0 \<le> (n::nat) \<Longrightarrow> n < 0xE0 \<Longrightarrow> n = 0xC0 + n mod 32"
  "0xE0 \<le> n \<Longrightarrow> n < 0xF0 \<Longrightarrow> n = 0xE0 + n mod 16"
  "0xF0 \<le> n \<Longrightarrow> n < 0xF8 \<Longrightarrow> n = 0xF0 + n mod 8"
  "0x80 \<le> n \<Longrightarrow> n < 0xC0 \<Longrightarrow> n = 0x80 + n mod 64"
  using high_bits(1) [of "n - 0xC0"] high_bits(2) [of "n - 0xE0"] high_bits(3) [of "n - 0xF0"]
    high_bits(4) [of "n - 0x80"] by simp_all

lemma utf8_chars_encode:
  assumes "scalar c"
  shows "utf8_chars (encode_utf8 c @ bs) = map_option ((#) c) (utf8_chars bs)"
proof -
  consider (one) "c < 0x80" | (two) "0x80 \<le> c" "c < 0x800" | (three) "0x800 \<le> c" "c < 0x10000"
    | (four) "0x10000 \<le> c" "c < 0x110000"
    using assms unfolding scalar_def by linarith
  then show ?thesis
  proof cases
    case one
    then show ?thesis
      by (simp add: encode_utf8_def utf8_chars.simps u8_order unat_of_nat_u8)
  next
    case two
    define a where "a = c div 64"
    define b where "b = c mod 64"
    have c: "c = a * 64 + b" "b < 64" by (simp_all add: a_def b_def)
    then have a: "2 \<le> a" "a < 32" using two by linarith+
    have e: "encode_utf8 c = [of_nat (0xC0 + a), of_nat (0x80 + b)]"
      using two by (simp add: encode_utf8_def a_def b_def)
    have u: "unat (of_nat (0xC0 + a) :: u8) = 0xC0 + a" "unat (of_nat (0x80 + b) :: u8) = 0x80 + b"
      unfolding unat_of_nat_u8 using a c by simp_all
    have m: "(0xC0 + a) mod 32 = a" "(0x80 + b) mod 64 = b" using a c high_bits by simp_all
    show ?thesis
      unfolding e utf8_chars.simps append_Cons list.case cont_byte_def u8_order u
      using a c m by simp
  next
    case three
    define a where "a = c div 64 div 64"
    define b where "b = c div 64 mod 64"
    define d where "d = c mod 64"
    have c: "c = (a * 64 + b) * 64 + d" "b < 64" "d < 64" by (simp_all add: a_def b_def d_def)
    then have a: "a < 16" using three by (simp add: distrib_right)
    have sur: "a = 13 \<Longrightarrow> b \<le> 31" and over: "a = 0 \<Longrightarrow> 32 \<le> b"
      using three c assms by (auto simp: scalar_def)
    have e: "encode_utf8 c = [of_nat (0xE0 + a), of_nat (0x80 + b), of_nat (0x80 + d)]"
      using three by (simp add: encode_utf8_def a_def b_def d_def)
    have u: "unat (of_nat (0xE0 + a) :: u8) = 0xE0 + a" "unat (of_nat (0x80 + b) :: u8) = 0x80 + b"
        "unat (of_nat (0x80 + d) :: u8) = 0x80 + d"
      unfolding unat_of_nat_u8 using a c by simp_all
    have m: "(0xE0 + a) mod 16 = a" "(0x80 + b) mod 64 = b" "(0x80 + d) mod 64 = d"
      using a c high_bits by simp_all
    show ?thesis
      unfolding e utf8_chars.simps append_Cons list.case cont_byte_def second_byte_def u8_order u
      using a c m sur over by simp
  next
    case four
    define a where "a = c div 64 div 64 div 64"
    define b where "b = c div 64 div 64 mod 64"
    define d where "d = c div 64 mod 64"
    define f where "f = c mod 64"
    have c: "c = ((a * 64 + b) * 64 + d) * 64 + f" "b < 64" "d < 64" "f < 64"
      by (simp_all add: a_def b_def d_def f_def)
    then have a: "a \<le> 4" using four by (simp add: distrib_right)
    have hi: "a = 4 \<Longrightarrow> b \<le> 15" and over: "a = 0 \<Longrightarrow> 16 \<le> b"
      using four c by (simp_all add: distrib_right)
    have e: "encode_utf8 c = [of_nat (0xF0 + a), of_nat (0x80 + b), of_nat (0x80 + d), of_nat (0x80 + f)]"
      using four by (simp add: encode_utf8_def a_def b_def d_def f_def)
    have u: "unat (of_nat (0xF0 + a) :: u8) = 0xF0 + a" "unat (of_nat (0x80 + b) :: u8) = 0x80 + b"
        "unat (of_nat (0x80 + d) :: u8) = 0x80 + d" "unat (of_nat (0x80 + f) :: u8) = 0x80 + f"
      unfolding unat_of_nat_u8 using a c by simp_all
    have m: "(0xF0 + a) mod 8 = a" "(0x80 + b) mod 64 = b" "(0x80 + d) mod 64 = d" "(0x80 + f) mod 64 = f"
      using a c high_bits by simp_all
    show ?thesis
      unfolding e utf8_chars.simps append_Cons list.case cont_byte_def second_byte_def u8_order u
      using a c m hi over by simp
  qed
qed

lemma of_nat_eq_u8: "unat b = n \<Longrightarrow> of_nat n = (b :: u8)"
  by (simp add: u8_eq_iff unat_of_nat_u8) (metis mod_less unat_u8_bound)

lemma decode_two:
  assumes "0xC2 \<le> b0" "b0 \<le> 0xDF" "cont_byte b1"
  defines "c \<equiv> (unat b0 mod 32) * 64 + unat b1 mod 64"
  shows "scalar c" "encode_utf8 c = [b0, b1]"
proof -
  have b: "0xC2 \<le> unat b0" "unat b0 \<le> 0xDF" "0x80 \<le> unat b1" "unat b1 \<le> 0xBF"
    using assms by (simp_all add: cont_byte_def u8_order)
  define x y where "x = unat b0 mod 32" and "y = unat b1 mod 64"
  have xy: "unat b0 = 0xC0 + x" "unat b1 = 0x80 + y" "2 \<le> x" "x < 32" "y < 64"
    using low_bits(1) [of "unat b0"] low_bits(4) [of "unat b1"] b unfolding x_def y_def by simp_all
  have c: "c = x * 64 + y" by (simp add: c_def x_def y_def)
  then show "scalar c" using xy by (simp add: scalar_def)
  have "c div 64 = x" "c mod 64 = y" "0x80 \<le> c" "c < 0x800"
    unfolding c using xy six_bits by simp_all
  then show "encode_utf8 c = [b0, b1]"
    using xy by (simp add: encode_utf8_def of_nat_eq_u8 del: of_nat_add)
qed

lemma decode_three:
  assumes "0xE0 \<le> b0" "b0 \<le> 0xEF" "second_byte b0 b1" "cont_byte b2"
  defines "c \<equiv> ((unat b0 mod 16) * 64 + unat b1 mod 64) * 64 + unat b2 mod 64"
  shows "scalar c" "encode_utf8 c = [b0, b1, b2]"
proof -
  have b: "0xE0 \<le> unat b0" "unat b0 \<le> 0xEF" "0x80 \<le> unat b1" "unat b1 \<le> 0xBF"
      "0x80 \<le> unat b2" "unat b2 \<le> 0xBF"
      "unat b0 = 0xE0 \<Longrightarrow> 0xA0 \<le> unat b1" "unat b0 = 0xED \<Longrightarrow> unat b1 \<le> 0x9F"
    using assms by (auto simp: cont_byte_def second_byte_def u8_order split: if_splits)
  define x y z where "x = unat b0 mod 16" and "y = unat b1 mod 64" and "z = unat b2 mod 64"
  have xyz: "unat b0 = 0xE0 + x" "unat b1 = 0x80 + y" "unat b2 = 0x80 + z" "x < 16" "y < 64" "z < 64"
    using low_bits(2) [of "unat b0"] low_bits(4) [of "unat b1"] low_bits(4) [of "unat b2"] b(1-6)
    unfolding x_def y_def z_def by simp_all
  have lim: "x = 0 \<Longrightarrow> 32 \<le> y" "x = 13 \<Longrightarrow> y < 32" using b(7,8) xyz by simp_all
  have c: "c = (x * 64 + y) * 64 + z" by (simp add: c_def x_def y_def z_def)
  have "x \<le> 12 \<or> x = 13 \<or> 14 \<le> x" by linarith
  then show "scalar c" unfolding scalar_def c using xyz(4-6) lim by auto
  have cd: "c div 64 = x * 64 + y" "c mod 64 = z" unfolding c using xyz(6) six_bits by blast+
  moreover have "c div 64 div 64 = x" "c div 64 mod 64 = y" unfolding cd using xyz(5) six_bits by blast+
  moreover have "0x800 \<le> c" "c < 0x10000" unfolding c using xyz(4-6) lim by (cases "x = 0"; simp)+
  ultimately show "encode_utf8 c = [b0, b1, b2]"
    using xyz by (simp add: encode_utf8_def of_nat_eq_u8 del: of_nat_add)
qed

lemma decode_four:
  assumes "0xF0 \<le> b0" "b0 \<le> 0xF4" "second_byte b0 b1" "cont_byte b2" "cont_byte b3"
  defines "c \<equiv> (((unat b0 mod 8) * 64 + unat b1 mod 64) * 64 + unat b2 mod 64) * 64 + unat b3 mod 64"
  shows "scalar c" "encode_utf8 c = [b0, b1, b2, b3]"
proof -
  have b: "0xF0 \<le> unat b0" "unat b0 \<le> 0xF4" "0x80 \<le> unat b1" "unat b1 \<le> 0xBF"
      "0x80 \<le> unat b2" "unat b2 \<le> 0xBF" "0x80 \<le> unat b3" "unat b3 \<le> 0xBF"
      "unat b0 = 0xF0 \<Longrightarrow> 0x90 \<le> unat b1" "unat b0 = 0xF4 \<Longrightarrow> unat b1 \<le> 0x8F"
    using assms by (auto simp: cont_byte_def second_byte_def u8_order split: if_splits)
  define x y z w where "x = unat b0 mod 8" and "y = unat b1 mod 64" and "z = unat b2 mod 64"
    and "w = unat b3 mod 64"
  have v: "unat b0 = 0xF0 + x" "unat b1 = 0x80 + y" "unat b2 = 0x80 + z" "unat b3 = 0x80 + w"
      "x \<le> 4" "y < 64" "z < 64" "w < 64"
    using low_bits(3) [of "unat b0"] low_bits(4) [of "unat b1"] low_bits(4) [of "unat b2"]
      low_bits(4) [of "unat b3"] b(1-8)
    unfolding x_def y_def z_def w_def by simp_all
  have lim: "x = 0 \<Longrightarrow> 16 \<le> y" "x = 4 \<Longrightarrow> y < 16" using b(9,10) v by simp_all
  have c: "c = ((x * 64 + y) * 64 + z) * 64 + w" by (simp add: c_def x_def y_def z_def w_def)
  have "x = 0 \<or> x = 4 \<or> 1 \<le> x \<and> x \<le> 3" using v(5) by linarith
  then have big: "0x10000 \<le> c" "c < 0x110000" unfolding c using v(6-8) lim by auto
  then show "scalar c" by (simp add: scalar_def)
  have cd: "c div 64 = (x * 64 + y) * 64 + z" "c mod 64 = w"
    unfolding c using v(8) six_bits by blast+
  have cd2: "c div 64 div 64 = x * 64 + y" "c div 64 mod 64 = z"
    unfolding cd using v(7) six_bits by blast+
  have "c div 64 div 64 div 64 = x" "c div 64 div 64 mod 64 = y"
    unfolding cd2 using v(6) six_bits by blast+
  then show "encode_utf8 c = [b0, b1, b2, b3]"
    using v big cd cd2 by (simp add: encode_utf8_def of_nat_eq_u8 del: of_nat_add)
qed

lemma decode_one: "b0 < 0x80 \<Longrightarrow> scalar (unat b0) \<and> encode_utf8 (unat b0) = [b0]"
  by (simp add: scalar_def encode_utf8_def u8_order of_nat_eq_u8)

text \<open>The decoder accepts exactly the encodings of lists of scalar values.\<close>

lemma utf8_chars_sound:
  "utf8_chars bs = Some cs \<Longrightarrow> (\<forall>c\<in>set cs. scalar c) \<and> concat (map encode_utf8 cs) = bs"
proof (induction bs arbitrary: cs rule: utf8_chars.induct)
  case (2 b0 r)
  note prems = "2.prems" [unfolded utf8_chars.simps(2)]
  show ?case
  proof (cases "b0 < 0x80")
    case True
    with prems "2.IH"(1) decode_one [of b0] show ?thesis by auto
  next
    case not1: False
    show ?thesis
    proof (cases "0xC2 \<le> b0 \<and> b0 \<le> 0xDF")
      case two: True
      obtain b1 r1 where r: "r = b1 # r1" using prems not1 two by (cases r) auto
      have c1: "cont_byte b1" using prems not1 two r by (auto split: if_splits)
      show ?thesis using prems not1 two r c1 "2.IH"(2) [OF not1 two r c1] decode_two [of b0 b1] by auto
    next
      case not2: False
      show ?thesis
      proof (cases "0xE0 \<le> b0 \<and> b0 \<le> 0xEF")
        case three: True
        obtain b1 b2 r2 where r: "r = b1 # b2 # r2"
          using prems not1 not2 three by (auto split: list.splits)
        have c: "second_byte b0 b1 \<and> cont_byte b2"
          using prems not1 not2 three r by (auto split: if_splits)
        show ?thesis
          using prems not1 not2 three r c "2.IH"(3) [OF not1 not2 three r refl c] decode_three [of b0 b1 b2]
          by auto
      next
        case not3: False
        have four: "0xF0 \<le> b0 \<and> b0 \<le> 0xF4" using prems not1 not2 not3 by (auto split: if_splits)
        obtain b1 b2 b3 r3 where r: "r = b1 # b2 # b3 # r3"
          using prems not1 not2 not3 four by (auto split: list.splits)
        have c: "second_byte b0 b1 \<and> cont_byte b2 \<and> cont_byte b3"
          using prems not1 not2 not3 four r by (auto split: if_splits)
        show ?thesis
          using prems not1 not2 not3 four r c "2.IH"(4) [OF not1 not2 not3 four r refl refl c]
            decode_four [of b0 b1 b2 b3]
          by auto
      qed
    qed
  qed
qed simp

lemma utf8_chars_concat:
  "(\<forall>c\<in>set cs. scalar c) \<Longrightarrow>
     utf8_chars (concat (map encode_utf8 cs) @ bs) = map_option ((@) cs) (utf8_chars bs)"
proof (induction cs)
  case Nil
  show ?case by (cases "utf8_chars bs") auto
next
  case (Cons c cs)
  then show ?case by (cases "utf8_chars bs") (auto simp: utf8_chars_encode)
qed

lemma utf8_chars_append:
  "utf8_chars a = Some cs \<Longrightarrow> utf8_chars (a @ b) = map_option ((@) cs) (utf8_chars b)"
  using utf8_chars_sound [of a cs] utf8_chars_concat [of cs b] by simp

lemma is_utf8_append: "is_utf8 a \<Longrightarrow> is_utf8 (a @ b) \<longleftrightarrow> is_utf8 b"
  by (auto simp: is_utf8_def utf8_chars_append)

lemma is_utf8_encode [simp]: "scalar c \<Longrightarrow> is_utf8 (encode_utf8 c)"
  using utf8_chars_encode [of c "[]"] by (simp add: is_utf8_def)

lemma utf8_chars_ascii: "(\<forall>b\<in>set bs. b < 0x80) \<Longrightarrow> utf8_chars bs = Some (map unat bs)"
  by (induction bs) (simp_all add: utf8_chars.simps(2))

lemma is_utf8_ascii: "(\<forall>b\<in>set bs. b < 0x80) \<Longrightarrow> is_utf8 bs"
  by (simp add: is_utf8_def utf8_chars_ascii)

lemma is_utf8_Nil [simp]: "is_utf8 []"
  by (simp add: is_utf8_def)

lemma is_utf8_Cons_ascii: "b < 0x80 \<Longrightarrow> is_utf8 (b # bs) \<longleftrightarrow> is_utf8 bs"
  by (simp add: is_utf8_def utf8_chars.simps(2))

text \<open>Every byte of a multi-byte character has its top bit set.\<close>

lemma encode_utf8_high: "0x80 \<le> c \<Longrightarrow> scalar c \<Longrightarrow> b \<in> set (encode_utf8 c) \<Longrightarrow> 0x80 \<le> b"
  by (auto simp: encode_utf8_def u8_le_iff unat_of_nat_u8 scalar_def simp del: of_nat_add
      split: if_splits)

section \<open>Splitting at a separator\<close>

fun split_on :: "u8 \<Rightarrow> bytes \<Rightarrow> bytes list" where
  "split_on c [] = [[]]"
| "split_on c (x # xs) =
     (if x = c then [] # split_on c xs
      else (case split_on c xs of [] \<Rightarrow> [[x]] | p # ps \<Rightarrow> (x # p) # ps))"

fun join_with :: "u8 \<Rightarrow> bytes list \<Rightarrow> bytes" where
  "join_with c [] = []"
| "join_with c [p] = p"
| "join_with c (p # q # ps) = p @ c # join_with c (q # ps)"

lemma split_on_not_Nil [simp]: "split_on c xs \<noteq> []"
  by (induction xs) (auto split: list.splits)

lemma join_split [simp]: "join_with c (split_on c xs) = xs"
proof (induction xs)
  case (Cons x xs)
  obtain p ps where s: "split_on c xs = p # ps" by (cases "split_on c xs") auto
  show ?case using Cons s by (cases ps) auto
qed simp

lemma split_on_no_sep: "p \<in> set (split_on c xs) \<Longrightarrow> c \<notin> set p"
proof (induction xs arbitrary: p)
  case (Cons x xs)
  obtain q qs where "split_on c xs = q # qs" by (cases "split_on c xs") auto
  with Cons show ?case by (auto split: if_splits)
qed simp

lemma split_on_append: "c \<notin> set p \<Longrightarrow> split_on c (p @ c # xs) = p # split_on c xs"
  by (induction p) auto

lemma split_on_single: "c \<notin> set p \<Longrightarrow> split_on c p = [p]"
  by (induction p) auto

lemma split_join: "ps \<noteq> [] \<Longrightarrow> (\<forall>p\<in>set ps. c \<notin> set p) \<Longrightarrow> split_on c (join_with c ps) = ps"
  by (induction c ps rule: join_with.induct) (auto simp: split_on_append split_on_single)

lemma set_join_with: "set (join_with c ps) \<subseteq> insert c (\<Union>(set ` set ps))"
  by (induction c ps rule: join_with.induct) auto

lemma set_split_on: "p \<in> set (split_on c xs) \<Longrightarrow> set p \<subseteq> set xs"
proof (induction xs arbitrary: p)
  case (Cons x xs)
  obtain q qs where "split_on c xs = q # qs" by (cases "split_on c xs") auto
  with Cons.prems Cons.IH [of q] Cons.IH [of p] show ?case by (auto split: if_splits)
qed simp

end
