(* ===== verification/Codec_Lib.thy ===== *)
theory Codec_Lib
  imports Rust_Str
begin

text \<open>
  \<^verbatim>\<open>src/lib.rs\<close>: the error type of the crate, the digest over several parts, the bounds-checked
  little-endian readers and writers every format uses, and the rule for canonical names.

  SHA-256 is the crate \<^verbatim>\<open>sha2\<close>, code outside the repository: it is the parameter \<open>H\<close> of every
  definition that hashes, a function from byte strings to byte strings. What the formats rely on is
  that a digest has 32 bytes, the hypothesis \<open>sha_ok H\<close>; that two given inputs do not collide is
  stated, where a theorem needs it, for those inputs only. A fixed-size array such as \<open>[u8; 32]\<close> is a
  byte string; its length, which Rust's types fix, is a well-formedness condition here.
\<close>

section \<open>Errors\<close>

datatype codec_error =
    Truncated string
  | BadConstant string
  | BadLength string
  | Overflow string
  | BadName string
  | BadOrdering string
  | DigestMismatch string
  | Duplicate string
  | Unsupported string

type_synonym 'a res = "(codec_error, 'a) outcome"

fun codec_error_fmt :: "codec_error \<Rightarrow> string" where
  "codec_error_fmt (Truncated w) = ''truncated input while reading '' @ w"
| "codec_error_fmt (BadConstant w) = ''bad constant or version: '' @ w"
| "codec_error_fmt (BadLength w) = ''length out of range: '' @ w"
| "codec_error_fmt (Overflow w) = ''arithmetic overflow: '' @ w"
| "codec_error_fmt (BadName w) = ''non-canonical name or path: '' @ w"
| "codec_error_fmt (BadOrdering w) = ''ordering or structure violated: '' @ w"
| "codec_error_fmt (DigestMismatch w) = ''digest mismatch: '' @ w"
| "codec_error_fmt (Duplicate w) = ''duplicate value: '' @ w"
| "codec_error_fmt (Unsupported w) = ''unsupported by this codec profile: '' @ w"

lemma codec_error_fmt_inj: "codec_error_fmt d = codec_error_fmt e \<longleftrightarrow> d = e"
  by (cases d; cases e) simp_all

section \<open>Digests\<close>

type_synonym digest = bytes
type_synonym hash = "bytes \<Rightarrow> bytes"

definition sha256 :: "hash \<Rightarrow> bytes list \<Rightarrow> digest" where
  "sha256 H parts = H (concat parts)"

definition sha_ok :: "hash \<Rightarrow> bool" where
  "sha_ok H \<longleftrightarrow> (\<forall>m. length (H m) = 32)"

lemma length_sha256 [simp]: "sha_ok H \<Longrightarrow> length (sha256 H parts) = 32"
  by (simp add: sha_ok_def sha256_def)

text \<open>Absence of a collision among given inputs.\<close>

definition collision_free :: "hash \<Rightarrow> bytes set \<Rightarrow> bool" where
  "collision_free H S \<longleftrightarrow> inj_on H S"

lemma collision_freeD: "collision_free H S \<Longrightarrow> x \<in> S \<Longrightarrow> y \<in> S \<Longrightarrow> H x = H y \<Longrightarrow> x = y"
  by (auto simp: collision_free_def inj_on_def)

lemma collision_free_mono: "collision_free H S \<Longrightarrow> T \<subseteq> S \<Longrightarrow> collision_free H T"
  unfolding collision_free_def by (rule inj_on_subset)

section \<open>Readers and writers\<close>

definition read_u16 :: "bytes \<Rightarrow> nat \<Rightarrow> u16 res" where
  "read_u16 buf off =
     ok_or (map_option from_le_bytes (get_range buf off (off + 2))) (Truncated ''u16'')"

definition read_u32 :: "bytes \<Rightarrow> nat \<Rightarrow> u32 res" where
  "read_u32 buf off =
     ok_or (map_option from_le_bytes (get_range buf off (off + 4))) (Truncated ''u32'')"

definition read_u64 :: "bytes \<Rightarrow> nat \<Rightarrow> u64 res" where
  "read_u64 buf off =
     ok_or (map_option from_le_bytes (get_range buf off (off + 8))) (Truncated ''u64'')"

definition write_u16 :: "bytes \<Rightarrow> u16 \<Rightarrow> bytes" where
  "write_u16 out v = out @ le_bytes v"

definition write_u32 :: "bytes \<Rightarrow> u32 \<Rightarrow> bytes" where
  "write_u32 out v = out @ le_bytes v"

definition write_u64 :: "bytes \<Rightarrow> u64 \<Rightarrow> bytes" where
  "write_u64 out v = out @ le_bytes v"

lemmas write_defs = write_u16_def write_u32_def write_u64_def

text \<open>A successful read says which bytes stand at the offset: the form both directions of a round
  trip use.\<close>

lemma read_u16_eq_Ok [outcome_simps]:
  "read_u16 buf off = Inr v \<longleftrightarrow> off + 2 \<le> length buf \<and> sub off 2 buf = le_bytes v"
  by (auto simp: read_u16_def outcome_simps get_range_def from_le_bytes_inverse_u16)

lemma read_u32_eq_Ok [outcome_simps]:
  "read_u32 buf off = Inr v \<longleftrightarrow> off + 4 \<le> length buf \<and> sub off 4 buf = le_bytes v"
  by (auto simp: read_u32_def outcome_simps get_range_def from_le_bytes_inverse_u32)

lemma read_u64_eq_Ok [outcome_simps]:
  "read_u64 buf off = Inr v \<longleftrightarrow> off + 8 \<le> length buf \<and> sub off 8 buf = le_bytes v"
  by (auto simp: read_u64_def outcome_simps get_range_def from_le_bytes_inverse_u64)

lemma clean_reads [simp]:
  "clean (read_u16 buf off)" "clean (read_u32 buf off)" "clean (read_u64 buf off)"
  by (simp_all add: read_u16_def read_u32_def read_u64_def)

section \<open>Canonical names\<close>

definition slash :: u8 where "slash = 0x2F"
definition dot :: u8 where "dot = 0x2E"

definition validate_name :: "bytes \<Rightarrow> unit res" where
  "validate_name name =
     (if name = [] then Err (BadName ''empty name'')
      else if length name > 255 then Err (BadName ''name longer than 255 bytes'')
      else and_then (ok_or (from_utf8 name) (BadName ''not UTF-8'')) (\<lambda>s.
        if 0 \<in> set s then Err (BadName ''NUL in name'')
        else if slash \<in> set s then Err (BadName ''slash in name'')
        else if s = [dot] \<or> s = [dot, dot] then Err (BadName ''dot component'')
        else Ok ()))"

definition canonical_name :: "bytes \<Rightarrow> bool" where
  "canonical_name n \<longleftrightarrow> n \<noteq> [] \<and> length n \<le> 255 \<and> is_utf8 n \<and> 0 \<notin> set n \<and> slash \<notin> set n
     \<and> n \<noteq> [dot] \<and> n \<noteq> [dot, dot]"

lemma validate_name_eq_Ok [outcome_simps]: "validate_name n = Inr u \<longleftrightarrow> canonical_name n"
  by (auto simp: validate_name_def canonical_name_def outcome_simps)

lemma clean_validate_name [simp]: "clean (validate_name n)"
  by (auto simp: validate_name_def intro!: clean_and_then)

section \<open>The contract of a strict codec\<close>

text \<open>
  Every fixed format of the crate promises the same: the decoder accepts exactly the bytes the
  encoder produces for a well-formed value, and gives that value back. The interface is stated once;
  each format interprets it on its own encoder and decoder. What follows from the contract, one byte
  string per value and identities that determine the value, is proved here.
\<close>

locale strict_codec =
  fixes enc :: "'a \<Rightarrow> bytes res"
    and dec :: "bytes \<Rightarrow> 'a res"
    and wf :: "'a \<Rightarrow> bool"
  assumes dec_iff: "dec b = Inr x \<longleftrightarrow> wf x \<and> enc x = Inr b"
begin

lemma dec_enc: "wf x \<Longrightarrow> enc x = Inr b \<Longrightarrow> dec b = Inr x"
  by (simp add: dec_iff)

lemma enc_dec: "dec b = Inr x \<Longrightarrow> enc x = Inr b"
  by (simp add: dec_iff)

lemma dec_wf: "dec b = Inr x \<Longrightarrow> wf x"
  by (simp add: dec_iff)

lemma enc_inj: "wf x \<Longrightarrow> wf y \<Longrightarrow> enc x = Inr b \<Longrightarrow> enc y = Inr b \<Longrightarrow> x = y"
  using dec_enc [of x b] dec_enc [of y b] by simp

lemma dec_inj: "dec a = Inr x \<Longrightarrow> dec b = Inr x \<Longrightarrow> a = b"
  using enc_dec [of a x] enc_dec [of b x] by simp

text \<open>An identity \<open>H (domain @ bytes)\<close> determines the value, unless the two inputs collide.\<close>

lemma id_inj:
  assumes "wf x" "wf y" "enc x = Inr a" "enc y = Inr b"
    and "collision_free H {d @ a, d @ b}" and "sha256 H [d, a] = sha256 H [d, b]"
  shows "x = y"
proof -
  have "d @ a = d @ b"
    using assms(5,6) by (auto simp: sha256_def dest: collision_freeD)
  with assms(1-4) show ?thesis using enc_inj by simp
qed

end

end
