(* ===== verification/Chunkmap.thy ===== *)
theory Chunkmap
  imports Codec_Lib
begin

text \<open>
  \<^verbatim>\<open>src/chunkmap.rs\<close>: the chunk map MCM2, its leaf pages MCL2, the Merkle tree over the leaf hashes
  with its proofs, and the arithmetic of range reads. Counts and indices are 64-bit words with
  checked arithmetic; \<open>merkle_spec\<close> and \<open>path_spec\<close> are the tree and the path written as
  recursions on the list of leaves, against which the loops of the code are proved.
\<close>

section \<open>Chunk maps\<close>

definition CHUNK_SIZE :: u32 where "CHUNK_SIZE = 1048576"
definition CHUNKS_PER_PAGE :: nat where "CHUNKS_PER_PAGE = 256"
definition MAP_LEN :: nat where "MAP_LEN = 100"
definition MAP_DOMAIN :: bytes where "MAP_DOMAIN = ascii ''mega.mst2.chunkmap'' @ [0]"
definition LEAF_DOMAIN :: bytes where "LEAF_DOMAIN = ascii ''mega.mst2.chunkleaf'' @ [0]"
definition BRANCH_DOMAIN :: bytes where "BRANCH_DOMAIN = ascii ''mega.mst2.chunkbranch'' @ [0]"
definition MAP_MAGIC :: bytes where "MAP_MAGIC = ascii ''MCM2''"
definition LEAF_MAGIC :: bytes where "LEAF_MAGIC = ascii ''MCL2''"

record chunk_map =
  file_content_id :: digest
  file_size :: u64
  chunk_count :: u64
  page_count :: u64
  pages_root :: digest

record chunk_leaf =
  page_index :: u64
  chunk_sha256 :: "digest list"

datatype proof_side = Left | Right

record proof_step =
  side :: proof_side
  sibling_pages :: u64
  digest :: digest

definition div_ceil :: "u64 \<Rightarrow> u64 \<Rightarrow> u64" where
  "div_ceil a b = (let d = a div b; r = a mod b in if r > 0 then d + 1 else d)"

definition chunk_map_new :: "digest \<Rightarrow> u64 \<Rightarrow> digest \<Rightarrow> chunk_map res" where
  "chunk_map_new cid fsize root =
     (if fsize = 0 then Err (BadLength ''empty file must not have a chunk map'')
      else
        let chunks = div_ceil fsize (ucast CHUNK_SIZE);
            pages = div_ceil chunks (of_nat CHUNKS_PER_PAGE)
        in Ok \<lparr>file_content_id = cid, file_size = fsize, chunk_count = chunks,
               page_count = pages, pages_root = root\<rparr>)"

definition chunk_map_encode :: "chunk_map \<Rightarrow> bytes" where
  "chunk_map_encode m =
     (let out = MAP_MAGIC;
          out = write_u16 out 2;
          out = write_u16 out 0;
          out = out @ file_content_id m;
          out = write_u64 out (file_size m);
          out = write_u32 out CHUNK_SIZE;
          out = write_u64 out (chunk_count m);
          out = write_u64 out (page_count m);
          out = out @ pages_root m
      in out)"

definition chunk_map_decode :: "bytes \<Rightarrow> chunk_map res" where
  "chunk_map_decode buf =
     (if length buf \<noteq> MAP_LEN then Err (BadLength ''chunk map must be exactly 100 bytes'') else
      and_then (slice_of buf 0 4) (\<lambda>magic.
      if magic \<noteq> MAP_MAGIC then Err (BadConstant ''MCM2 magic'') else
      and_then (read_u16 buf 4) (\<lambda>schema.
      if schema \<noteq> 2 then Err (BadConstant ''chunk map schema_version'') else
      and_then (read_u16 buf 6) (\<lambda>reserved.
      if reserved \<noteq> 0 then Err (BadConstant ''chunk map reserved'') else
      and_then (slice_of buf 8 40) (\<lambda>cid.
      and_then (read_u64 buf 40) (\<lambda>fsize.
      and_then (read_u32 buf 48) (\<lambda>csize.
      if csize \<noteq> CHUNK_SIZE then Err (BadConstant ''only chunk_size 1MiB accepted this profile'') else
      and_then (read_u64 buf 52) (\<lambda>chunks.
      and_then (read_u64 buf 60) (\<lambda>pages.
      and_then (slice_of buf 68 100) (\<lambda>root.
      if fsize = 0 then Err (BadLength ''empty file must not have a chunk map'') else
      if chunks \<noteq> div_ceil fsize (ucast CHUNK_SIZE)
      then Err (BadLength ''chunk_count != ceil(file_size/chunk_size)'') else
      if chunks = 0 then Err (BadLength ''chunk_count must be at least 1'') else
      if pages \<noteq> div_ceil chunks (of_nat CHUNKS_PER_PAGE)
      then Err (BadLength ''page_count != ceil(chunk_count/256)'') else
      Ok \<lparr>file_content_id = cid, file_size = fsize, chunk_count = chunks,
          page_count = pages, pages_root = root\<rparr>))))))))))"

definition map_id :: "hash \<Rightarrow> chunk_map \<Rightarrow> digest" where
  "map_id H m = sha256 H [MAP_DOMAIN, chunk_map_encode m]"

definition last_chunk_index :: "chunk_map \<Rightarrow> u64 res" where
  "last_chunk_index m = sub64 (chunk_count m) 1"

definition chunk_len :: "chunk_map \<Rightarrow> u64 \<Rightarrow> u64 res" where
  "chunk_len m index =
     (if index \<ge> chunk_count m then Err (BadLength ''chunk index out of range'') else
      and_then (last_chunk_index m) (\<lambda>last.
      if index < last then Ok (ucast CHUNK_SIZE)
      else and_then (mul64 index (ucast CHUNK_SIZE)) (\<lambda>start. sub64 (file_size m) start)))"

text \<open>The values the constructor makes and the decoder accepts.\<close>

definition chunk_map_wf :: "chunk_map \<Rightarrow> bool" where
  "chunk_map_wf m \<longleftrightarrow> length (file_content_id m) = 32 \<and> length (pages_root m) = 32
     \<and> file_size m \<noteq> 0
     \<and> chunk_count m = div_ceil (file_size m) (ucast CHUNK_SIZE)
     \<and> page_count m = div_ceil (chunk_count m) (of_nat CHUNKS_PER_PAGE)"

subsection \<open>Ceiling division\<close>

lemma unat_chunk_size [simp]: "unat (ucast CHUNK_SIZE :: u64) = 1048576"
  by (simp add: CHUNK_SIZE_def)

lemma unat_chunks_per_page [simp]: "unat (of_nat CHUNKS_PER_PAGE :: u64) = 256"
  by (simp add: CHUNKS_PER_PAGE_def)

lemma ceiling_div:
  assumes "0 < (b::nat)"
  shows "(a + (b - 1)) div b = a div b + (if a mod b = 0 then 0 else 1)"
proof -
  define q r where "q = a div b" and "r = a mod b"
  have a: "a = r + b * q" and r: "r < b" using assms by (simp_all add: q_def r_def)
  have "(a + (b - 1)) div b = ((r + (b - 1)) + b * q) div b"
    by (simp only: a add.commute add.left_commute)
  also have "\<dots> = q + (r + (b - 1)) div b" by (rule div_mult_self2) (use assms in simp)
  also have "(r + (b - 1)) div b = (if r = 0 then 0 else 1)"
  proof (cases "r = 0")
    case False
    then have "r + (b - 1) = (r - 1) + b" using assms by simp
    moreover have "(r - 1) div b = 0" using r by simp
    moreover have "((r - 1) + b) div b = (r - 1) div b + 1" using assms by (intro div_add_self2) simp
    ultimately show ?thesis using False by simp
  qed (use assms in simp)
  finally show ?thesis by (simp add: q_def r_def)
qed

lemma unat_div_ceil:
  assumes "2 \<le> unat b"
  shows "unat (div_ceil a b) = (unat a + (unat b - 1)) div unat b"
proof -
  have "unat a div unat b \<le> unat a div 2" using assms by (intro div_le_mono2) auto
  then have lt: "unat a div unat b + 1 < 2 ^ 64" using unat_u64_bound [of a] by simp
  then show ?thesis
    using assms ceiling_div [of "unat b" "unat a"] unat_add64 [of "a div b" 1]
    by (auto simp: div_ceil_def Let_def word_less_nat_alt unat_mod_distrib unat_div_distrib)
qed

lemma ceiling_bounds:
  assumes "0 < (b::nat)" "0 < a"
  shows "0 < (a + (b - 1)) div b" "a \<le> (a + (b - 1)) div b * b" "((a + (b - 1)) div b - 1) * b < a"
proof -
  define c where "c = (a + (b - 1)) div b"
  have "c * b \<le> a + (b - 1)" "a + (b - 1) < (c + 1) * b"
    using assms(1) by (simp_all add: c_def dividend_less_times_div times_div_less_eq_dividend mult.commute add.commute)
  then have "0 < c" "a \<le> c * b" "(c - 1) * b < a"
    using assms by (cases c; simp add: algebra_simps)+
  then show "0 < (a + (b - 1)) div b" "a \<le> (a + (b - 1)) div b * b" "((a + (b - 1)) div b - 1) * b < a"
    by (simp_all add: c_def)
qed

subsection \<open>The wire format\<close>

lemma length_magics [simp]: "length MAP_MAGIC = 4" "length LEAF_MAGIC = 4"
  by (simp_all add: MAP_MAGIC_def LEAF_MAGIC_def ascii_def)

lemma length_chunk_map_encode:
  "length (chunk_map_encode m) = 36 + length (file_content_id m) + length (pages_root m)"
  by (simp add: chunk_map_encode_def write_defs Let_def)

lemma div_ceil_nonzero: "2 \<le> unat b \<Longrightarrow> a \<noteq> 0 \<Longrightarrow> div_ceil a b \<noteq> 0"
  using ceiling_bounds(1) [of "unat b" "unat a"] unat_div_ceil [of b a]
  by (auto simp: word_unat_eq_iff)

lemma chunk_count_nonzero: "chunk_map_wf m \<Longrightarrow> chunk_count m \<noteq> 0"
  by (simp add: chunk_map_wf_def div_ceil_nonzero)

lemma chunk_map_decode_encode:
  assumes "chunk_map_wf m"
  shows "chunk_map_decode (chunk_map_encode m) = Ok m"
proof -
  have len: "length (file_content_id m) = 32" "length (pages_root m) = 32"
    using assms by (simp_all add: chunk_map_wf_def)
  show ?thesis
    using assms chunk_count_nonzero [OF assms] len
    by (simp add: chunk_map_decode_def chunk_map_encode_def write_defs Let_def MAP_LEN_def
        read_u16_def read_u32_def read_u64_def slice_of_def get_range_def sub_def chunk_map_wf_def)
qed

lemma chunk_map_encode_decode:
  assumes "chunk_map_decode buf = Ok m"
  shows "chunk_map_wf m \<and> chunk_map_encode m = buf"
proof -
  have f: "length buf = 100" "MAP_MAGIC = sub 0 4 buf" "le_bytes (2 :: u16) = sub 4 2 buf"
    "le_bytes (0 :: u16) = sub 6 2 buf" "file_content_id m = sub 8 32 buf"
    "le_bytes (file_size m) = sub 40 8 buf" "le_bytes CHUNK_SIZE = sub 48 4 buf"
    "le_bytes (chunk_count m) = sub 52 8 buf" "le_bytes (page_count m) = sub 60 8 buf"
    "pages_root m = sub 68 32 buf"
    and w: "chunk_map_wf m"
    using assms
    by (auto simp: chunk_map_decode_def outcome_simps chunk_map_wf_def MAP_LEN_def)
  have "chunk_map_encode m = sub 0 100 buf"
    by (simp add: chunk_map_encode_def write_defs f(2-10) sub_join_rest sub_joinI)
  with f(1) w show ?thesis by simp
qed

interpretation map_codec: strict_codec "\<lambda>m. Ok (chunk_map_encode m)" chunk_map_decode chunk_map_wf
proof unfold_locales
  show "chunk_map_decode b = Inr m \<longleftrightarrow> chunk_map_wf m \<and> Inr (chunk_map_encode m) = Inr b" for b m
    using chunk_map_decode_encode [of m] chunk_map_encode_decode [of b m] by auto
qed

lemma chunk_map_new_wf:
  "length cid = 32 \<Longrightarrow> length root = 32 \<Longrightarrow> chunk_map_new cid fsize root = Ok m \<Longrightarrow> chunk_map_wf m"
  by (auto simp: chunk_map_new_def chunk_map_wf_def Let_def split: if_splits)

lemma clean_chunk_map_decode [simp]: "clean (chunk_map_decode buf)"
  unfolding chunk_map_decode_def
  by (auto intro!: clean_and_then clean_slice_of simp: MAP_LEN_def)

subsection \<open>Chunks tile the file\<close>

lemma chunk_count_value:
  "chunk_map_wf m \<Longrightarrow> unat (chunk_count m) = (unat (file_size m) + 1048575) div 1048576"
  by (simp add: chunk_map_wf_def unat_div_ceil)

lemma chunk_count_bounds:
  assumes "chunk_map_wf m"
  shows "0 < unat (chunk_count m)" "unat (file_size m) \<le> unat (chunk_count m) * 1048576"
    "(unat (chunk_count m) - 1) * 1048576 < unat (file_size m)"
proof -
  have "0 < unat (file_size m)"
    using assms by (simp add: chunk_map_wf_def unat_gt_0)
  then show "0 < unat (chunk_count m)" "unat (file_size m) \<le> unat (chunk_count m) * 1048576"
    "(unat (chunk_count m) - 1) * 1048576 < unat (file_size m)"
    using ceiling_bounds [of 1048576 "unat (file_size m)"] by (simp_all add: chunk_count_value [OF assms])
qed

lemma chunk_len_value:
  assumes "chunk_map_wf m" "unat index < unat (chunk_count m)"
  shows "\<exists>len. chunk_len m index = Ok len
    \<and> unat len = min 1048576 (unat (file_size m) - unat index * 1048576)"
proof -
  let ?n = "unat (chunk_count m)" and ?s = "unat (file_size m)" and ?i = "unat index"
  note b = chunk_count_bounds [OF assms(1)]
  have last: "last_chunk_index m = Ok (chunk_count m - 1)" "unat (chunk_count m - 1) = ?n - 1"
    using b(1) by (simp_all add: last_chunk_index_def sub64_def word_le_nat_alt unat_sub)
  have notge: "\<not> chunk_count m \<le> index" using assms(2) by (simp add: word_le_nat_alt)
  show ?thesis
  proof (cases "?i < ?n - 1")
    case True
    then have "(?i + 1) * 1048576 \<le> (?n - 1) * 1048576" by (intro mult_le_mono1) simp
    with True b notge last show ?thesis
      by (simp add: chunk_len_def word_less_nat_alt)
  next
    case False
    with assms(2) have i: "?i = ?n - 1" by simp
    with b have lt: "?i * 1048576 < ?s" "?s - ?i * 1048576 \<le> 1048576"
      by (auto simp: diff_mult_distrib)
    then have "?i * 1048576 < 2 ^ 64" using unat_u64_bound [of "file_size m"] by linarith
    then have m: "mul64 index (ucast CHUNK_SIZE) = (Ok (index * ucast CHUNK_SIZE) :: u64 res)"
      "unat (index * ucast CHUNK_SIZE) = ?i * 1048576"
      using unat_mul64 [of index "ucast CHUNK_SIZE"] by (simp_all add: mul64_def)
    with False lt notge last show ?thesis
      by (simp add: chunk_len_def word_less_nat_alt word_le_nat_alt sub64_def unat_sub)
  qed
qed

lemma chunk_len_out_of_range:
  "unat (chunk_count m) \<le> unat index \<Longrightarrow>
     chunk_len m index = Err (BadLength ''chunk index out of range'')"
  by (simp add: chunk_len_def word_le_nat_alt)

lemma sum_min_blocks:
  "s \<le> n * b \<Longrightarrow> (\<Sum>i<n. min b (s - i * b)) = (s::nat)"
proof (induction n arbitrary: s)
  case (Suc n)
  have shift: "(\<Sum>i<n. min b (s - Suc i * b)) = (\<Sum>i<n. min b ((s - b) - i * b))"
    by simp
  have "s - b \<le> n * b" using Suc.prems by simp
  then have "(\<Sum>i<n. min b (s - Suc i * b)) = s - b"
    using Suc.IH unfolding shift by blast
  then show ?case
    using sum.lessThan_Suc_shift [of "\<lambda>i. min b (s - i * b)" n] by simp
qed simp

subsection \<open>Range reads\<close>

definition range_chunks :: "u64 \<Rightarrow> u64 \<Rightarrow> u64 \<Rightarrow> (u64 \<times> u64) res" where
  "range_chunks offset len fsize =
     (if len = 0 then Err (BadLength ''zero-length read'')
      else if offset \<ge> fsize then Err (BadLength ''offset at or past EOF'')
      else
        and_then (sub64 fsize offset) (\<lambda>rest.
        and_then (if len \<ge> rest then Ok fsize else add64 offset len) (\<lambda>stop.
        let chunk = ucast CHUNK_SIZE; start_chunk = offset div chunk in
        and_then (sub64 stop 1) (\<lambda>final.
        Ok (start_chunk, final div chunk)))))"

lemma range_chunks_value:
  assumes "len \<noteq> 0" "offset < fsize"
  shows "\<exists>s e. range_chunks offset len fsize = Ok (s, e)
    \<and> unat s = unat offset div 1048576
    \<and> unat e = (min (unat fsize) (unat offset + unat len) - 1) div 1048576"
proof -
  have o: "unat offset < unat fsize" using assms by (simp add: word_less_nat_alt)
  have l: "0 < unat len" using assms by (simp add: unat_gt_0)
  have rest: "sub64 fsize offset = (Ok (fsize - offset) :: u64 res)" "unat (fsize - offset) = unat fsize - unat offset"
    using o by (simp_all add: sub64_def word_le_nat_alt unat_sub)
  define stop where "stop = (if len \<ge> fsize - offset then fsize else offset + len)"
  have stop: "(if len \<ge> fsize - offset then Ok fsize else add64 offset len) = (Ok stop :: u64 res)"
    "unat stop = min (unat fsize) (unat offset + unat len)"
    using rest(2) o unat_u64_bound [of fsize] unat_add64 [of offset len]
    by (auto simp: stop_def word_le_nat_alt add64_def)
  have fin: "sub64 stop 1 = (Ok (stop - 1) :: u64 res)" "unat (stop - 1) = unat stop - 1"
    using stop(2) o l by (simp_all add: sub64_def word_le_nat_alt unat_sub)
  show ?thesis
    using assms rest(1) stop fin
    by (simp add: range_chunks_def Let_def unat_div_distrib not_le)
qed

section \<open>Leaf pages\<close>

definition chunk_leaf_encode :: "chunk_leaf \<Rightarrow> bytes res" where
  "chunk_leaf_encode l =
     (if chunk_sha256 l = [] \<or> length (chunk_sha256 l) > CHUNKS_PER_PAGE
      then Err (BadLength ''leaf count must be 1..256'') else
      let out = LEAF_MAGIC;
          out = write_u64 out (page_index l);
          out = write_u16 out (of_nat (length (chunk_sha256 l)));
          out = write_u16 out 0;
          out = foldl (\<lambda>out d. out @ d) out (chunk_sha256 l)
      in Ok out)"

definition chunk_leaf_decode :: "bytes \<Rightarrow> chunk_leaf res" where
  "chunk_leaf_decode buf =
     (if length buf < 16 then Err (Truncated ''chunk leaf header'') else
      and_then (slice_of buf 0 4) (\<lambda>magic.
      if magic \<noteq> LEAF_MAGIC then Err (BadConstant ''MCL2 magic'') else
      and_then (read_u64 buf 4) (\<lambda>index.
      and_then (read_u16 buf 12) (\<lambda>cnt.
      let count = unat cnt in
      if \<not> (1 \<le> count \<and> count \<le> CHUNKS_PER_PAGE) then Err (BadLength ''leaf count must be 1..256'') else
      and_then (read_u16 buf 14) (\<lambda>reserved.
      if reserved \<noteq> 0 then Err (BadConstant ''chunk leaf reserved'') else
      if length buf \<noteq> 16 + 32 * count then Err (BadLength ''leaf length must be 16 + 32*count'') else
      and_then (traverse (\<lambda>i. slice_of buf (16 + i * 32) (16 + (i + 1) * 32)) [0..<count]) (\<lambda>ds.
      Ok \<lparr>page_index = index, chunk_sha256 = ds\<rparr>))))))"

definition leaf_hash :: "hash \<Rightarrow> chunk_leaf \<Rightarrow> digest res" where
  "leaf_hash H l = and_then (chunk_leaf_encode l) (\<lambda>bytes. Ok (sha256 H [LEAF_DOMAIN, bytes]))"

definition expected_count :: "u64 \<Rightarrow> u64 \<Rightarrow> u64" where
  "expected_count chunks index =
     (let full = chunks div of_nat CHUNKS_PER_PAGE; rest = chunks mod of_nat CHUNKS_PER_PAGE in
      if index < full then of_nat CHUNKS_PER_PAGE else max rest 1)"

definition chunk_leaf_wf :: "chunk_leaf \<Rightarrow> bool" where
  "chunk_leaf_wf l \<longleftrightarrow> (\<forall>d\<in>set (chunk_sha256 l). length d = 32)"

lemma foldl_append: "foldl (\<lambda>out d. out @ d) out ds = out @ concat ds"
  by (induction ds arbitrary: out) auto

lemma length_concat_blocks: "(\<forall>d\<in>set ds. length d = n) \<Longrightarrow> length (concat ds) = n * length ds"
  by (induction ds) auto

lemma sub_concat_block:
  assumes "\<forall>d\<in>set ds. length d = n" "i < length ds"
  shows "sub (length pre + i * n) n (pre @ concat ds) = ds ! i"
  using assms
proof (induction ds arbitrary: pre i)
  case (Cons d ds)
  show ?case
  proof (cases i)
    case 0
    with Cons.prems show ?thesis by (simp add: sub_def)
  next
    case (Suc j)
    have "sub (length (pre @ d) + j * n) n ((pre @ d) @ concat ds) = ds ! j"
      using Cons.prems Suc by (intro Cons.IH) auto
    with Suc Cons.prems show ?thesis by (simp add: add.assoc)
  qed
qed simp

lemma concat_sub_blocks:
  "concat (map (\<lambda>i. sub (a + i * n) n xs) [0..<k]) = sub a (n * k) xs"
proof (induction k)
  case (Suc k)
  then show ?case by (simp add: sub_joinI mult.commute add.commute)
qed simp

lemma traverse_slices:
  assumes "\<And>i. i < k \<Longrightarrow> slice_of buf (f i) (g i) = (Ok (h i) :: bytes res)"
  shows "traverse (\<lambda>i. slice_of buf (f i) (g i)) [0..<k] = (Ok (map h [0..<k]) :: bytes list res)"
  using assms unfolding traverse_eq_Inr list_all2_conv_all_nth by simp

lemma leaf_slices:
  assumes "length buf = 16 + 32 * k"
  shows "traverse (\<lambda>i. slice_of buf (16 + i * 32) (48 + i * 32)) [0..<k]
    = (Ok (map (\<lambda>i. sub (16 + i * 32) 32 buf) [0..<k]) :: bytes list res)"
proof (rule traverse_slices)
  fix i assume "i < k"
  then have "(i + 1) * 32 \<le> k * 32" by (intro mult_le_mono1) simp
  with assms show "slice_of buf (16 + i * 32) (48 + i * 32) = (Ok (sub (16 + i * 32) 32 buf) :: bytes res)"
    by (simp add: slice_of_def)
qed

lemma chunk_leaf_decode_encode:
  assumes wf: "chunk_leaf_wf l" and enc: "chunk_leaf_encode l = Ok buf"
  shows "chunk_leaf_decode buf = Ok l"
proof -
  let ?n = "length (chunk_sha256 l)"
  have n: "1 \<le> ?n" "?n \<le> 256" and buf: "buf = (LEAF_MAGIC @ le_bytes (page_index l)
      @ le_bytes (of_nat ?n :: u16) @ le_bytes (0 :: u16)) @ concat (chunk_sha256 l)"
    using enc by (auto simp: chunk_leaf_encode_def write_defs Let_def foldl_append CHUNKS_PER_PAGE_def
        Suc_le_eq split: if_splits)
  have blocks: "\<forall>d\<in>set (chunk_sha256 l). length d = 32" using wf by (simp add: chunk_leaf_wf_def)
  have len: "length buf = 16 + 32 * ?n" using length_concat_blocks [OF blocks] by (simp add: buf)
  have cnt: "unat (of_nat ?n :: u16) = ?n" using n by (simp add: unat_of_nat)
  have parts: "sub 0 4 buf = LEAF_MAGIC" "read_u64 buf 4 = Ok (page_index l)"
    "read_u16 buf 12 = Ok (of_nat ?n)" "read_u16 buf 14 = Ok 0"
    using len by (simp_all add: read_u64_eq_Ok read_u16_eq_Ok) (simp_all add: buf sub_def)
  have "map (\<lambda>i. sub (16 + i * 32) 32 buf) [0..<?n] = chunk_sha256 l"
  proof (rule nth_equalityI)
    fix i assume "i < length (map (\<lambda>i. sub (16 + i * 32) 32 buf) [0..<?n])"
    then have i: "i < ?n" by simp
    have "sub (16 + i * 32) 32 buf = chunk_sha256 l ! i"
      using sub_concat_block [OF blocks i, of "LEAF_MAGIC @ le_bytes (page_index l)
        @ le_bytes (of_nat ?n :: u16) @ le_bytes (0 :: u16)"] by (simp add: buf)
    with i show "map (\<lambda>i. sub (16 + i * 32) 32 buf) [0..<?n] ! i = chunk_sha256 l ! i" by simp
  qed simp
  with parts n len cnt leaf_slices [OF len] show ?thesis
    by (simp add: chunk_leaf_decode_def slice_of_def CHUNKS_PER_PAGE_def Let_def)
qed

lemma chunk_leaf_encode_decode:
  assumes "chunk_leaf_decode buf = Ok l"
  shows "chunk_leaf_wf l \<and> chunk_leaf_encode l = Ok buf"
proof -
  from assms obtain cnt :: u16 where "read_u16 buf 12 = Ok cnt" and g: "sub 0 4 buf = LEAF_MAGIC"
    "read_u64 buf 4 = Ok (page_index l)" "read_u16 buf 14 = Ok 0"
    "1 \<le> unat cnt" "unat cnt \<le> 256" "length buf = 16 + 32 * unat cnt"
    "traverse (\<lambda>i. slice_of buf (16 + i * 32) (48 + i * 32)) [0..<unat cnt] = (Ok (chunk_sha256 l) :: bytes list res)"
    by (auto simp: chunk_leaf_decode_def and_then_eq_Inr if_eq_Inr_Err slice_of_eq_Inr Let_def
        CHUNKS_PER_PAGE_def)
  then have f: "LEAF_MAGIC = sub 0 4 buf" "le_bytes (page_index l) = sub 4 8 buf"
    "le_bytes cnt = sub 12 2 buf" "le_bytes (0 :: u16) = sub 14 2 buf"
    "1 \<le> unat cnt" "unat cnt \<le> 256" "length buf = 16 + 32 * unat cnt"
    "traverse (\<lambda>i. slice_of buf (16 + i * 32) (48 + i * 32)) [0..<unat cnt] = (Ok (chunk_sha256 l) :: bytes list res)"
    by (simp_all add: outcome_simps)
  have ds: "chunk_sha256 l = map (\<lambda>i. sub (16 + i * 32) 32 buf) [0..<unat cnt]"
    using f(8) leaf_slices [OF f(7)] by simp
  have "length (sub (16 + i * 32) 32 buf) = 32" if "i < unat cnt" for i
    using that f(7) by simp
  then have wf: "chunk_leaf_wf l" by (auto simp: chunk_leaf_wf_def ds)
  have cat: "concat (chunk_sha256 l) = sub 16 (32 * unat cnt) buf"
    unfolding ds by (rule concat_sub_blocks)
  have n: "length (chunk_sha256 l) = unat cnt" by (simp add: ds)
  then have "chunk_leaf_encode l = Ok (sub 0 (length buf) buf)"
    using f(5,6)
    by (auto simp: chunk_leaf_encode_def write_defs Let_def foldl_append CHUNKS_PER_PAGE_def
        f(1-4) cat sub_join_rest sub_joinI f(7))
  with wf show ?thesis by simp
qed

interpretation leaf_codec: strict_codec chunk_leaf_encode chunk_leaf_decode chunk_leaf_wf
proof unfold_locales
  show "chunk_leaf_decode b = Inr l \<longleftrightarrow> chunk_leaf_wf l \<and> chunk_leaf_encode l = Inr b" for b l
    using chunk_leaf_decode_encode [of l b] chunk_leaf_encode_decode [of b l] by auto
qed

lemma clean_chunk_leaf_decode [simp]: "clean (chunk_leaf_decode buf)"
  unfolding chunk_leaf_decode_def Let_def
  by (auto intro!: clean_and_then clean_slice_of clean_traverse)

text \<open>The leaves of a map hold its chunks: all but the last have 256, and they sum up.\<close>

lemma expected_count_value:
  assumes "unat index < (unat chunks + 255) div 256"
  shows "unat (expected_count chunks index) = min 256 (unat chunks - unat index * 256)"
proof -
  let ?c = "unat chunks" and ?i = "unat index"
  define q r where "q = ?c div 256" and "r = ?c mod 256"
  have c: "?c = q * 256 + r" "r < 256" by (simp_all add: q_def r_def)
  have u: "unat (chunks div of_nat CHUNKS_PER_PAGE) = q" "unat (chunks mod of_nat CHUNKS_PER_PAGE) = r"
    by (simp_all add: unat_div_distrib unat_mod_distrib q_def r_def)
  have i: "?i < q + (if r = 0 then 0 else 1)"
    using assms ceiling_div [of 256 ?c] by (simp add: q_def r_def)
  show ?thesis
  proof (cases "?i < q")
    case True
    then have "(?i + 1) * 256 \<le> q * 256" by (intro mult_le_mono1) simp
    with True u c show ?thesis
      by (simp add: expected_count_def Let_def word_less_nat_alt CHUNKS_PER_PAGE_def)
  next
    case False
    with i have "?i = q" "r \<noteq> 0" by (auto split: if_splits)
    with u c show ?thesis
      by (simp add: expected_count_def Let_def word_less_nat_alt max_def word_le_nat_alt)
  qed
qed

section \<open>The Merkle tree over the leaf hashes\<close>

definition branch_input :: "digest \<Rightarrow> digest \<Rightarrow> u64 \<Rightarrow> u64 \<Rightarrow> bytes" where
  "branch_input left right left_count right_count =
     (let buf = BRANCH_DOMAIN;
          buf = buf @ le_bytes left_count;
          buf = buf @ left;
          buf = buf @ le_bytes right_count;
          buf = buf @ right
      in buf)"

definition branch_hash :: "hash \<Rightarrow> digest \<Rightarrow> digest \<Rightarrow> u64 \<Rightarrow> u64 \<Rightarrow> digest" where
  "branch_hash H left right left_count right_count =
     sha256 H [branch_input left right left_count right_count]"

text \<open>
  The loop halves \<open>k\<close> while \<open>k \<ge> n\<close>. For \<open>n = 0\<close> it would never end; the \<open>debug_assert!\<close> in front
  of it excludes that, and the conjunct \<open>0 < n\<close> makes the recursion total.
\<close>

lemma unat_half: "unat (drop_bit (Suc 0) (k :: u64)) = unat k div 2"
  by (simp add: drop_bit_eq_div unat_div_distrib)

function pow2_loop :: "u64 \<Rightarrow> u64 \<Rightarrow> u64" where
  "pow2_loop n k = (if n \<le> k \<and> 0 < n then pow2_loop n (drop_bit 1 k) else k)"
  by pat_completeness auto
termination
  by (relation "measure (\<lambda>(n, k). unat k)")
    (auto simp: unat_half word_le_nat_alt word_less_nat_alt)

declare pow2_loop.simps [simp del]

definition largest_pow2_below :: "u64 \<Rightarrow> u64 res" where
  "largest_pow2_below n = (if n > 1 then Ok (pow2_loop n (push_bit 63 1)) else Crash)"

lemma pow2_loop_bounds:
  assumes "1 < unat n" "\<exists>e. unat k = 2 ^ e" "unat n \<le> 2 * unat k"
  shows "\<exists>e. unat (pow2_loop n k) = 2 ^ e
    \<and> unat (pow2_loop n k) < unat n \<and> unat n \<le> 2 * unat (pow2_loop n k)"
  using assms
proof (induction n k rule: pow2_loop.induct)
  case (1 n k)
  show ?case
  proof (cases "unat n \<le> unat k")
    case True
    then have c: "n \<le> k \<and> 0 < n" using "1.prems" by (auto simp: word_le_nat_alt word_less_nat_alt)
    obtain e where e: "unat k = 2 ^ e" using "1.prems" by blast
    with True "1.prems"(1) have "0 < e" by (cases e) auto
    then have "unat k div 2 = 2 ^ (e - 1)" "2 * (unat k div 2) = unat k"
      using e by (cases e; simp)+
    then have "\<exists>e. unat (pow2_loop n (drop_bit 1 k)) = 2 ^ e \<and> unat (pow2_loop n (drop_bit 1 k)) < unat n
        \<and> unat n \<le> 2 * unat (pow2_loop n (drop_bit 1 k))"
      using "1.IH" [OF c] "1.prems"(1) True unat_half [of k] by auto
    with c show ?thesis by (subst (1 2 3) pow2_loop.simps) simp
  next
    case False
    then have "pow2_loop n k = k" by (subst pow2_loop.simps) (simp add: word_le_nat_alt)
    with False "1.prems" show ?thesis by simp
  qed
qed

lemma largest_pow2_below_Ok:
  assumes "1 < unat n"
  shows "\<exists>k. largest_pow2_below n = Ok k \<and> (\<exists>e. unat k = 2 ^ e) \<and> unat k < unat n \<and> unat n \<le> 2 * unat k"
proof -
  have top: "unat (push_bit 63 1 :: u64) = 2 ^ 63" by (simp add: push_bit_eq_mult)
  then have "\<exists>e. unat (push_bit 63 1 :: u64) = 2 ^ e" by blast
  moreover have "unat n \<le> 2 * 2 ^ 63" using unat_u64_bound [of n] by simp
  ultimately show ?thesis
    using pow2_loop_bounds [of n "push_bit 63 1"] assms
    unfolding top by (auto simp: largest_pow2_below_def word_less_nat_alt)
qed

lemma largest_pow2_belowD:
  assumes "largest_pow2_below n = Ok k"
  shows "1 < unat n" "0 < unat k" "unat k < unat n"
proof -
  show n: "1 < unat n" using assms by (auto simp: largest_pow2_below_def word_less_nat_alt split: if_splits)
  then show "0 < unat k" "unat k < unat n" using largest_pow2_below_Ok [OF n] assms by auto
qed

function build_subtree :: "hash \<Rightarrow> digest list \<Rightarrow> (digest \<times> u64) res" where
  "build_subtree H leaves =
     (let n = of_nat (length leaves) :: u64 in
      if n = 1 then and_then (at_index leaves 0) (\<lambda>leaf. Ok (leaf, 1)) else
      and_then (largest_pow2_below n) (\<lambda>k.
      and_then (build_subtree H (take (unat k) leaves)) (\<lambda>(left, lc).
      and_then (build_subtree H (drop (unat k) leaves)) (\<lambda>(right, rc).
      Ok (branch_hash H left right lc rc, n)))))"
  by pat_completeness auto
termination
proof (relation "measure (\<lambda>(H, leaves). length leaves)", goal_cases)
  case (2 H leaves n k)
  then have "unat k < unat (of_nat (length leaves) :: u64)" using largest_pow2_belowD(3) by blast
  moreover have "unat (of_nat (length leaves) :: u64) \<le> length leaves" by (simp add: unat_of_nat)
  ultimately show ?case by simp
next
  case (3 H leaves n k)
  then have "0 < unat k" "1 < unat (of_nat (length leaves) :: u64)" using largest_pow2_belowD by blast+
  then show ?case by (cases leaves) auto
qed simp

declare build_subtree.simps [simp del]

definition merkle_root :: "hash \<Rightarrow> digest list \<Rightarrow> digest res" where
  "merkle_root H leaves =
     (if leaves = [] then Err (BadLength ''merkle over zero leaves'')
      else and_then (build_subtree H leaves) (\<lambda>(root, _). Ok root))"

function shape_loop :: "u64 \<Rightarrow> u64 \<Rightarrow> (proof_side \<times> u64) list \<Rightarrow> (proof_side \<times> u64) list res" where
  "shape_loop idx n steps =
     (if n > 1 then
        and_then (largest_pow2_below n) (\<lambda>k.
        if idx < k then shape_loop idx k (steps @ [(Right, n - k)])
        else shape_loop (idx - k) (n - k) (steps @ [(Left, k)]))
      else Ok steps)"
  by pat_completeness auto
termination
proof (relation "measure (\<lambda>(idx, n, steps). unat n)", goal_cases)
  case (2 idx n steps k)
  then show ?case using largest_pow2_belowD(3) by auto
next
  case (3 idx n steps k)
  then have "0 < unat k" "unat k < unat n" using largest_pow2_belowD by blast+
  then show ?case by (simp add: unat_sub word_le_nat_alt)
qed simp

declare shape_loop.simps [simp del]

definition expected_proof_shape :: "u64 \<Rightarrow> u64 \<Rightarrow> (proof_side \<times> u64) list res" where
  "expected_proof_shape pages index =
     (if pages = 0 \<or> index \<ge> pages then Err (BadLength ''page_index out of range'')
      else and_then (shape_loop index pages []) (\<lambda>steps. Ok (rev steps)))"

fun verify_loop ::
  "hash \<Rightarrow> digest \<Rightarrow> u64 \<Rightarrow> (proof_step \<times> proof_side \<times> u64) list \<Rightarrow> (digest \<times> u64) res" where
  "verify_loop H cur cur_count [] = Ok (cur, cur_count)"
| "verify_loop H cur cur_count ((step, sd, sib_count) # rest) =
     (if side step \<noteq> sd \<or> sibling_pages step \<noteq> sib_count
      then Err (BadOrdering ''proof step does not match derived path'') else
      let cur' = (case sd of
          Right \<Rightarrow> branch_hash H cur (digest step) cur_count sib_count
        | Left \<Rightarrow> branch_hash H (digest step) cur sib_count cur_count) in
      and_then (add64 cur_count sib_count) (\<lambda>cur_count'. verify_loop H cur' cur_count' rest))"

definition verify_leaf :: "hash \<Rightarrow> u64 \<Rightarrow> u64 \<Rightarrow> digest \<Rightarrow> proof_step list \<Rightarrow> digest \<Rightarrow> unit res" where
  "verify_leaf H pages index leaf proof root =
     and_then (expected_proof_shape pages index) (\<lambda>shape.
     if length proof \<noteq> length shape then Err (BadLength ''proof length does not match tree shape'') else
     and_then (verify_loop H leaf 1 (zip proof shape)) (\<lambda>(cur, _).
     if cur \<noteq> root then Err (DigestMismatch ''pages_root'') else Ok ()))"

function proof_loop :: "hash \<Rightarrow> nat \<Rightarrow> digest list \<Rightarrow> proof_step list \<Rightarrow> proof_step list res" where
  "proof_loop H idx rest steps =
     (if length rest > 1 then
        and_then (largest_pow2_below (of_nat (length rest))) (\<lambda>k.
        if idx < unat k then
          and_then (build_subtree H (drop (unat k) rest)) (\<lambda>(root, count).
          proof_loop H idx (take (unat k) rest)
            (steps @ [\<lparr>side = Right, sibling_pages = count, digest = root\<rparr>]))
        else
          and_then (build_subtree H (take (unat k) rest)) (\<lambda>(root, count).
          proof_loop H (idx - unat k) (drop (unat k) rest)
            (steps @ [\<lparr>side = Left, sibling_pages = count, digest = root\<rparr>])))
      else Ok steps)"
  by pat_completeness auto
termination
proof (relation "measure (\<lambda>(H, idx, rest, steps). length rest)", goal_cases)
  case (2 H idx rest steps k)
  then have "unat k < unat (of_nat (length rest) :: u64)" using largest_pow2_belowD(3) by blast
  moreover have "unat (of_nat (length rest) :: u64) \<le> length rest" by (simp add: unat_of_nat)
  ultimately show ?case by simp
next
  case (3 H idx rest steps k)
  then have "0 < unat k" using largest_pow2_belowD by blast
  with 3 show ?case by simp
qed simp

declare proof_loop.simps [simp del]

definition leaf_proof :: "hash \<Rightarrow> digest list \<Rightarrow> u64 \<Rightarrow> proof_step list res" where
  "leaf_proof H leaves index =
     (if unat index \<ge> length leaves then Err (BadLength ''page_index out of range'')
      else and_then (proof_loop H (unat index) leaves []) (\<lambda>steps. Ok (rev steps)))"

subsection \<open>The tree and its paths as recursions on the leaves\<close>

fun split_point :: "nat \<Rightarrow> nat" where
  "split_point n = (if n \<le> 2 then 1 else 2 * split_point ((n + 1) div 2))"

declare split_point.simps [simp del]

lemma split_point_bounds:
  "2 \<le> n \<Longrightarrow> (\<exists>e. split_point n = 2 ^ e) \<and> split_point n < n \<and> n \<le> 2 * split_point n"
proof (induction n rule: split_point.induct)
  case (1 n)
  show ?case
  proof (cases "n \<le> 2")
    case True
    with "1.prems" have "n = 2" by simp
    then show ?thesis by (auto simp: split_point.simps [of 2] intro: exI [of _ 0])
  next
    case False
    let ?m = "(n + 1) div 2"
    from False have "(\<exists>e. split_point ?m = 2 ^ e) \<and> split_point ?m < ?m \<and> ?m \<le> 2 * split_point ?m"
      using "1.IH" by simp
    moreover from this obtain e where "split_point ?m = 2 ^ e" by blast
    then have "2 * split_point ?m = 2 ^ Suc e" by simp
    ultimately show ?thesis
      using False unfolding split_point.simps [of n] by (simp add: exI [of _ "Suc e"]) linarith
  qed
qed

lemma pow2_between_unique:
  assumes "(k::nat) = 2 ^ e" "k' = 2 ^ f" "k < n" "n \<le> 2 * k" "k' < n" "n \<le> 2 * k'"
  shows "k = k'"
proof -
  have "2 ^ e < (2::nat) ^ Suc f" "2 ^ f < (2::nat) ^ Suc e" using assms by simp_all
  then have "e < Suc f" "f < Suc e" by (metis one_less_numeral_iff power_less_imp_less_exp semiring_norm(76))+
  with assms show ?thesis by simp
qed

lemma largest_pow2_below_split:
  assumes "2 \<le> n" "n < 2 ^ 64"
  shows "largest_pow2_below (of_nat n) = Ok (of_nat (split_point n))"
    "unat (of_nat (split_point n) :: u64) = split_point n"
proof -
  have n: "unat (of_nat n :: u64) = n" using assms by (simp add: unat_of_nat)
  note sp = split_point_bounds [OF assms(1)]
  then show u: "unat (of_nat (split_point n) :: u64) = split_point n"
    using assms by (simp add: unat_of_nat)
  obtain k where k: "largest_pow2_below (of_nat n) = Ok k" "\<exists>e. unat k = 2 ^ e" "unat k < n" "n \<le> 2 * unat k"
    using largest_pow2_below_Ok [of "of_nat n"] n assms(1) by auto
  then have "unat k = split_point n" using pow2_between_unique [of "unat k" _ "split_point n" _ n] sp by auto
  then have "k = of_nat (split_point n)" using u by (simp add: word_unat_eq_iff)
  with k(1) show "largest_pow2_below (of_nat n) = Ok (of_nat (split_point n))" by simp
qed

function merkle_spec :: "hash \<Rightarrow> digest list \<Rightarrow> digest" where
  "merkle_spec H leaves =
     (if length leaves \<le> 1 then concat leaves else
      let k = split_point (length leaves) in
      branch_hash H (merkle_spec H (take k leaves)) (merkle_spec H (drop k leaves))
        (of_nat k) (of_nat (length leaves - k)))"
  by pat_completeness auto
termination
proof (relation "measure (\<lambda>(H, leaves). length leaves)", goal_cases)
  case (2 H leaves k)
  then show ?case using split_point_bounds [of "length leaves"] by simp
next
  case (3 H leaves k)
  then have "0 < k" using split_point_bounds [of "length leaves"] by (cases k) auto
  with 3 show ?case by simp
qed simp

function path_spec :: "hash \<Rightarrow> digest list \<Rightarrow> nat \<Rightarrow> proof_step list" where
  "path_spec H leaves i =
     (if length leaves \<le> 1 then [] else
      let k = split_point (length leaves) in
      if i < k then \<lparr>side = Right, sibling_pages = of_nat (length leaves - k),
                     digest = merkle_spec H (drop k leaves)\<rparr> # path_spec H (take k leaves) i
      else \<lparr>side = Left, sibling_pages = of_nat k, digest = merkle_spec H (take k leaves)\<rparr>
             # path_spec H (drop k leaves) (i - k))"
  by pat_completeness auto
termination
proof (relation "measure (\<lambda>(H, leaves, i). length leaves)", goal_cases)
  case (2 H leaves i k)
  then show ?case using split_point_bounds [of "length leaves"] by simp
next
  case (3 H leaves i k)
  then have "0 < k" using split_point_bounds [of "length leaves"] by (cases k) auto
  with 3 show ?case by simp
qed simp

function shape_spec :: "nat \<Rightarrow> nat \<Rightarrow> (proof_side \<times> u64) list" where
  "shape_spec n i =
     (if n \<le> 1 then [] else
      let k = split_point n in
      if i < k then (Right, of_nat (n - k)) # shape_spec k i
      else (Left, of_nat k) # shape_spec (n - k) (i - k))"
  by pat_completeness auto
termination
proof (relation "measure (\<lambda>(n, i). n)", goal_cases)
  case (2 n i k)
  then show ?case using split_point_bounds [of n] by simp
next
  case (3 n i k)
  then have "0 < k" using split_point_bounds [of n] by (cases k) auto
  with 3 show ?case by simp
qed simp

declare merkle_spec.simps [simp del] path_spec.simps [simp del] shape_spec.simps [simp del]

lemma split_list:
  assumes "2 \<le> length ls"
  defines "k \<equiv> split_point (length ls)"
  shows "0 < k" "k < length ls" "take k ls \<noteq> []" "drop k ls \<noteq> []"
    "length (take k ls) = k" "length (drop k ls) = length ls - k"
proof -
  show "k < length ls" "0 < k"
    using split_point_bounds [OF assms(1)] unfolding k_def by (auto intro: gr0I)
  then show "take k ls \<noteq> []" "drop k ls \<noteq> []" "length (take k ls) = k" "length (drop k ls) = length ls - k"
    by auto
qed

lemma merkle_induct [consumes 1, case_names Leaf Node]:
  assumes "ls \<noteq> []"
    and leaf: "\<And>l. P [l]"
    and node: "\<And>ls. 2 \<le> length ls \<Longrightarrow> P (take (split_point (length ls)) ls)
      \<Longrightarrow> P (drop (split_point (length ls)) ls) \<Longrightarrow> P ls"
  shows "P ls"
  using assms(1)
proof (induction ls rule: length_induct)
  case (1 ls)
  show ?case
  proof (cases "2 \<le> length ls")
    case True
    note s = split_list [OF True]
    show ?thesis by (rule node [OF True]) (use 1 s in auto)
  next
    case False
    with "1.prems" obtain l where "ls = [l]" by (cases ls; cases "tl ls") auto
    with leaf show ?thesis by simp
  qed
qed

lemma merkle_spec_leaf [simp]: "merkle_spec H [l] = l"
  by (simp add: merkle_spec.simps)

lemma merkle_spec_node:
  "2 \<le> length ls \<Longrightarrow> merkle_spec H ls =
     branch_hash H (merkle_spec H (take (split_point (length ls)) ls))
       (merkle_spec H (drop (split_point (length ls)) ls))
       (of_nat (split_point (length ls))) (of_nat (length ls - split_point (length ls)))"
  by (subst merkle_spec.simps) (simp add: Let_def)

lemma path_spec_leaf [simp]: "path_spec H [l] i = []"
  by (simp add: path_spec.simps)

lemma path_spec_node:
  "2 \<le> length ls \<Longrightarrow> path_spec H ls i =
     (let k = split_point (length ls) in
      if i < k then \<lparr>side = Right, sibling_pages = of_nat (length ls - k),
                     digest = merkle_spec H (drop k ls)\<rparr> # path_spec H (take k ls) i
      else \<lparr>side = Left, sibling_pages = of_nat k, digest = merkle_spec H (take k ls)\<rparr>
             # path_spec H (drop k ls) (i - k))"
  by (subst path_spec.simps) simp

lemma shape_spec_leaf [simp]: "n \<le> 1 \<Longrightarrow> shape_spec n i = []"
  by (subst shape_spec.simps) simp

lemma shape_spec_node:
  "2 \<le> n \<Longrightarrow> shape_spec n i =
     (if i < split_point n then (Right, of_nat (n - split_point n)) # shape_spec (split_point n) i
      else (Left, of_nat (split_point n)) # shape_spec (n - split_point n) (i - split_point n))"
  by (subst shape_spec.simps) (simp add: Let_def)

subsection \<open>The code computes them\<close>

lemma build_subtree_spec:
  "ls \<noteq> [] \<Longrightarrow> length ls < 2 ^ 64 \<Longrightarrow> build_subtree H ls = Ok (merkle_spec H ls, of_nat (length ls))"
proof (induction ls rule: merkle_induct)
  case (Leaf l)
  show ?case by (subst build_subtree.simps) (simp add: at_index_def)
next
  case (Node ls)
  let ?k = "split_point (length ls)"
  note s = split_list [OF Node.hyps]
  have n1: "(of_nat (length ls) :: u64) \<noteq> 1"
    using Node by (simp add: word_unat_eq_iff unat_of_nat)
  note lp = largest_pow2_below_split [OF Node.hyps Node.prems]
  have "build_subtree H (take ?k ls) = Ok (merkle_spec H (take ?k ls), of_nat ?k)"
    using Node.IH(1) Node.prems s by simp
  moreover have "build_subtree H (drop ?k ls) = Ok (merkle_spec H (drop ?k ls), of_nat (length ls - ?k))"
    using Node.IH(2) Node.prems s by simp
  ultimately show ?case
    using n1 lp Node.hyps
    by (subst build_subtree.simps) (simp add: Let_def merkle_spec_node)
qed

lemma merkle_root_spec: "ls \<noteq> [] \<Longrightarrow> length ls < 2 ^ 64 \<Longrightarrow> merkle_root H ls = Ok (merkle_spec H ls)"
  by (simp add: merkle_root_def build_subtree_spec)

lemma shape_loop_spec:
  "n < 2 ^ 64 \<Longrightarrow> i < n \<Longrightarrow> shape_loop (of_nat i) (of_nat n) steps = Ok (steps @ shape_spec n i)"
proof (induction n arbitrary: i steps rule: less_induct)
  case (less n)
  show ?case
  proof (cases "2 \<le> n")
    case True
    let ?k = "split_point n"
    note sp = split_point_bounds [OF True]
    have k0: "0 < ?k" using sp by (auto intro: gr0I)
    note lp = largest_pow2_below_split [OF True less.prems(1)]
    have u: "unat (of_nat n :: u64) = n" "unat (of_nat i :: u64) = i"
      using less.prems by (simp_all add: unat_of_nat_u64)
    have g: "(1 :: u64) < of_nat n" using u True by (simp add: word_less_nat_alt)
    have c: "(of_nat i :: u64) < of_nat ?k \<longleftrightarrow> i < ?k" using u lp by (simp add: word_less_nat_alt)
    have d: "(of_nat n - of_nat ?k :: u64) = of_nat (n - ?k)" using sp by (simp add: of_nat_diff)
    show ?thesis
    proof (cases "i < ?k")
      case True
      then have "shape_loop (of_nat i) (of_nat ?k) (steps @ [(Right, of_nat (n - ?k))])
          = Ok ((steps @ [(Right, of_nat (n - ?k))]) @ shape_spec ?k i)"
        using sp less by simp
      with True \<open>2 \<le> n\<close> g lp c d show ?thesis
        by (subst shape_loop.simps) (simp add: shape_spec_node)
    next
      case False
      then have e: "(of_nat i - of_nat ?k :: u64) = of_nat (i - ?k)" by (simp add: of_nat_diff)
      have "shape_loop (of_nat (i - ?k)) (of_nat (n - ?k)) (steps @ [(Left, of_nat ?k)])
          = Ok ((steps @ [(Left, of_nat ?k)]) @ shape_spec (n - ?k) (i - ?k))"
        using less.IH [of "n - ?k" "i - ?k" "steps @ [(Left, of_nat ?k)]"] sp less.prems False k0 by simp
      with False \<open>2 \<le> n\<close> g lp c d e show ?thesis
        by (subst shape_loop.simps) (simp add: shape_spec_node)
    qed
  next
    case False
    with less.prems have "n = 1" by simp
    then show ?thesis by (subst shape_loop.simps) simp
  qed
qed

lemma expected_proof_shape_spec:
  "unat i < unat n \<Longrightarrow> expected_proof_shape n i = Ok (rev (shape_spec (unat n) (unat i)))"
  using shape_loop_spec [of "unat n" "unat i" "[]"] unat_u64_bound [of n]
  by (auto simp: expected_proof_shape_def word_le_nat_alt)

lemma proof_loop_spec:
  "ls \<noteq> [] \<Longrightarrow> length ls < 2 ^ 64 \<Longrightarrow> proof_loop H i ls steps = Ok (steps @ path_spec H ls i)"
proof (induction ls arbitrary: i steps rule: merkle_induct)
  case (Leaf l)
  show ?case by (subst proof_loop.simps) simp
next
  case (Node ls)
  note s = split_list [OF Node.hyps] and lp = largest_pow2_below_split [OF Node.hyps Node.prems]
  have d: "(of_nat (length ls) - of_nat (split_point (length ls)) :: u64)
      = of_nat (length ls - split_point (length ls))" using s by (simp add: of_nat_diff)
  show ?case
    using Node s lp
    by (subst proof_loop.simps) (simp add: path_spec_node Let_def build_subtree_spec)
qed

lemma leaf_proof_spec:
  "unat i < length ls \<Longrightarrow> length ls < 2 ^ 64 \<Longrightarrow> leaf_proof H ls i = Ok (rev (path_spec H ls (unat i)))"
  using proof_loop_spec [of ls H "unat i" "[]"] by (cases "ls = []") (auto simp: leaf_proof_def)

lemma path_spec_shape:
  "ls \<noteq> [] \<Longrightarrow> map (\<lambda>s. (side s, sibling_pages s)) (path_spec H ls i) = shape_spec (length ls) i"
proof (induction ls arbitrary: i rule: merkle_induct)
  case (Node ls)
  then show ?case
    using split_list [OF Node.hyps] by (simp add: path_spec_node shape_spec_node Let_def)
qed simp

subsection \<open>What a proof establishes\<close>

text \<open>The value a proof computes, read from the root down, and the number of pages it covers.\<close>

definition path_pages :: "proof_step list \<Rightarrow> nat" where
  "path_pages ts = 1 + sum_list (map (\<lambda>t. unat (sibling_pages t)) ts)"

fun climb_spec :: "hash \<Rightarrow> digest \<Rightarrow> proof_step list \<Rightarrow> digest" where
  "climb_spec H leaf [] = leaf"
| "climb_spec H leaf (t # ts) =
     (case side t of
        Right \<Rightarrow> branch_hash H (climb_spec H leaf ts) (digest t) (of_nat (path_pages ts)) (sibling_pages t)
      | Left \<Rightarrow> branch_hash H (digest t) (climb_spec H leaf ts) (sibling_pages t) (of_nat (path_pages ts)))"

text \<open>The inputs hashed by the builder of the tree and by the verifier of a proof.\<close>

function merkle_inputs :: "hash \<Rightarrow> digest list \<Rightarrow> bytes set" where
  "merkle_inputs H leaves =
     (if length leaves \<le> 1 then {} else
      let k = split_point (length leaves) in
      insert (branch_input (merkle_spec H (take k leaves)) (merkle_spec H (drop k leaves))
                (of_nat k) (of_nat (length leaves - k)))
        (merkle_inputs H (take k leaves) \<union> merkle_inputs H (drop k leaves)))"
  by pat_completeness auto
termination
proof (relation "measure (\<lambda>(H, leaves). length leaves)", goal_cases)
  case (2 H leaves k)
  then show ?case using split_point_bounds [of "length leaves"] by simp
next
  case (3 H leaves k)
  then have "0 < k" using split_point_bounds [of "length leaves"] by (cases k) auto
  with 3 show ?case by simp
qed simp

declare merkle_inputs.simps [simp del]

fun climb_inputs :: "hash \<Rightarrow> digest \<Rightarrow> proof_step list \<Rightarrow> bytes set" where
  "climb_inputs H leaf [] = {}"
| "climb_inputs H leaf (t # ts) = insert
     (case side t of
        Right \<Rightarrow> branch_input (climb_spec H leaf ts) (digest t) (of_nat (path_pages ts)) (sibling_pages t)
      | Left \<Rightarrow> branch_input (digest t) (climb_spec H leaf ts) (sibling_pages t) (of_nat (path_pages ts)))
     (climb_inputs H leaf ts)"

lemma merkle_inputs_leaf [simp]: "merkle_inputs H [l] = {}"
  by (subst merkle_inputs.simps) simp

lemma merkle_inputs_node:
  "2 \<le> length ls \<Longrightarrow> merkle_inputs H ls =
     insert (branch_input (merkle_spec H (take (split_point (length ls)) ls))
               (merkle_spec H (drop (split_point (length ls)) ls))
               (of_nat (split_point (length ls))) (of_nat (length ls - split_point (length ls))))
       (merkle_inputs H (take (split_point (length ls)) ls)
        \<union> merkle_inputs H (drop (split_point (length ls)) ls))"
  by (subst merkle_inputs.simps) (simp add: Let_def)

definition proof_wf :: "proof_step list \<Rightarrow> bool" where
  "proof_wf ts \<longleftrightarrow> (\<forall>t\<in>set ts. length (digest t) = 32)"

lemma branch_hash_input: "branch_hash H l r lc rc = H (branch_input l r lc rc)"
  by (simp add: branch_hash_def sha256_def)

lemma branch_input_inj:
  "branch_input l r lc rc = branch_input l' r' lc' rc' \<Longrightarrow> length l = length l' \<Longrightarrow>
     l = l' \<and> r = r'"
  by (simp add: branch_input_def Let_def)

lemma length_climb [simp]: "sha_ok H \<Longrightarrow> length leaf = 32 \<Longrightarrow> length (climb_spec H leaf ts) = 32"
  by (cases ts) (auto simp: branch_hash_def split: proof_side.split)

lemma length_merkle_spec:
  "ls \<noteq> [] \<Longrightarrow> sha_ok H \<Longrightarrow> \<forall>l\<in>set ls. length l = 32 \<Longrightarrow> length (merkle_spec H ls) = 32"
proof (induction ls rule: merkle_induct)
  case (Node ls)
  then show ?case by (simp add: merkle_spec_node branch_hash_def)
qed simp

lemma shape_pages:
  "0 < n \<Longrightarrow> n < 2 ^ 64 \<Longrightarrow> i < n \<Longrightarrow> 1 + sum_list (map (\<lambda>(_, c). unat c) (shape_spec n i)) = n"
proof (induction n arbitrary: i rule: less_induct)
  case (less n)
  show ?case
  proof (cases "2 \<le> n")
    case True
    let ?k = "split_point n"
    note sp = split_point_bounds [OF True]
    have k0: "0 < ?k" using sp by (auto intro: gr0I)
    have "n - ?k < 2 ^ 64" "?k < 2 ^ 64" using sp less.prems by linarith+
    then have u: "unat (of_nat (n - ?k) :: u64) = n - ?k" "unat (of_nat ?k :: u64) = ?k"
      using unat_of_nat_u64 by blast+
    show ?thesis
    proof (cases "i < ?k")
      case True
      then have "1 + sum_list (map (\<lambda>(_, c). unat c) (shape_spec ?k i)) = ?k"
        using less.IH [of ?k i] sp k0 less.prems by simp
      moreover have "sum_list (map (\<lambda>(_, c). unat c) (shape_spec n i))
          = (n - ?k) + sum_list (map (\<lambda>(_, c). unat c) (shape_spec ?k i))"
        using True u \<open>2 \<le> n\<close> by (simp add: shape_spec_node del: of_nat_diff)
      ultimately show ?thesis using sp by linarith
    next
      case False
      then have "1 + sum_list (map (\<lambda>(_, c). unat c) (shape_spec (n - ?k) (i - ?k))) = n - ?k"
        using less.IH [of "n - ?k" "i - ?k"] sp k0 less.prems by simp
      then show ?thesis using False sp u \<open>2 \<le> n\<close> by (simp add: shape_spec_node del: of_nat_diff)
    qed
  qed (use less.prems in simp)
qed

lemma path_pages_shape:
  assumes "map (\<lambda>s. (side s, sibling_pages s)) ts = shape_spec n i" "n < 2 ^ 64" "i < n"
  shows "path_pages ts = n"
proof -
  have "map (\<lambda>t. unat (sibling_pages t)) ts = map (\<lambda>(_, c). unat c) (shape_spec n i)"
    unfolding assms(1) [symmetric] by (simp add: o_def)
  with shape_pages [of n i] assms(2,3) show ?thesis by (simp add: path_pages_def)
qed

lemma verify_loop_append:
  "verify_loop H cur n (xs @ ys) = and_then (verify_loop H cur n xs) (\<lambda>(c, m). verify_loop H c m ys)"
proof (induction H cur n xs rule: verify_loop.induct)
  case (2 H cur n step sd c rest)
  then show ?case by (cases "add64 n c :: u64 res") (auto simp: Let_def)
qed simp

lemma verify_loop_climb:
  assumes "path_pages ts < 2 ^ 64"
  shows "verify_loop H leaf 1 (map (\<lambda>t. (t, side t, sibling_pages t)) (rev ts))
    = Ok (climb_spec H leaf ts, of_nat (path_pages ts))"
  using assms
proof (induction ts)
  case (Cons t ts)
  have p: "path_pages (t # ts) = path_pages ts + unat (sibling_pages t)"
    by (simp add: path_pages_def)
  then have "unat (of_nat (path_pages ts) :: u64) + unat (sibling_pages t) < 2 ^ 64"
    using Cons.prems by (simp add: unat_of_nat_u64)
  with Cons p show ?case
    by (auto simp: verify_loop_append add64_def Let_def split: proof_side.split)
qed (simp add: path_pages_def)

lemma zip_shape:
  "length ts = length shape \<Longrightarrow> map (\<lambda>s. (side s, sibling_pages s)) ts = shape \<Longrightarrow>
     zip ts shape = map (\<lambda>t. (t, side t, sibling_pages t)) ts"
  by (induction ts shape rule: list_induct2) auto

lemma verify_loop_shape:
  "verify_loop H cur n (zip ts shape) = Ok r \<Longrightarrow> length ts = length shape \<Longrightarrow>
     map (\<lambda>s. (side s, sibling_pages s)) ts = shape"
proof (induction ts arbitrary: shape cur n)
  case (Cons t ts)
  then obtain sd c rest where s: "shape = (sd, c) # rest" by (cases shape) auto
  with Cons.prems obtain cur' n' where
    "side t = sd" "sibling_pages t = c" "verify_loop H cur' n' (zip ts rest) = Ok r"
    by (auto simp: outcome_simps Let_def split: if_splits)
  with Cons s show ?case by auto
qed simp

text \<open>
  What \<open>verify_leaf\<close> accepts, in terms of the specification: the index is in range, the steps have
  the shape of the path, and the computed value is the root.
\<close>

lemma verify_leaf_iff:
  "verify_leaf H n i leaf proof root = Ok () \<longleftrightarrow>
     unat i < unat n
     \<and> map (\<lambda>s. (side s, sibling_pages s)) (rev proof) = shape_spec (unat n) (unat i)
     \<and> climb_spec H leaf (rev proof) = root"
proof (cases "unat i < unat n")
  case True
  let ?s = "shape_spec (unat n) (unat i)"
  note shp = expected_proof_shape_spec [OF True]
  have shape: "map (\<lambda>s. (side s, sibling_pages s)) (rev proof) = ?s \<longleftrightarrow>
      map (\<lambda>s. (side s, sibling_pages s)) proof = rev ?s"
    by (simp only: rev_map [symmetric] rev_swap)
  have climb: "verify_loop H leaf 1 (zip proof (rev ?s)) = Ok (climb_spec H leaf (rev proof), n)"
    if eq: "map (\<lambda>s. (side s, sibling_pages s)) proof = rev ?s"
  proof -
    have pp: "path_pages (rev proof) = unat n"
      by (rule path_pages_shape [of _ "unat n" "unat i"])
        (use eq shape True unat_u64_bound [of n] in auto)
    have "length proof = length (rev ?s)" using arg_cong [OF eq, of length] by simp
    then have "zip proof (rev ?s) = map (\<lambda>t. (t, side t, sibling_pages t)) (rev (rev proof))"
      using zip_shape [OF _ eq] by simp
    then show ?thesis
      using verify_loop_climb [of "rev proof" H leaf] pp unat_u64_bound [of n] by simp
  qed
  show ?thesis
  proof (cases "map (\<lambda>s. (side s, sibling_pages s)) proof = rev ?s")
    case eq: True
    have len: "length proof = length ?s" using arg_cong [OF eq, of length] by simp
    show ?thesis
      using climb [OF eq] len shp True eq shape by (simp add: verify_leaf_def)
  next
    case neq: False
    have "verify_leaf H n i leaf proof root \<noteq> Ok ()"
    proof
      assume "verify_leaf H n i leaf proof root = Ok ()"
      then obtain r where "verify_loop H leaf 1 (zip proof (rev ?s)) = Ok r" "length proof = length (rev ?s)"
        using shp by (auto simp: verify_leaf_def outcome_simps split: if_splits)
      with verify_loop_shape neq show False by blast
    qed
    with neq shape show ?thesis by simp
  qed
next
  case False
  then show ?thesis by (simp add: verify_leaf_def expected_proof_shape_def word_le_nat_alt)
qed

lemma climb_path:
  "ls \<noteq> [] \<Longrightarrow> length ls < 2 ^ 64 \<Longrightarrow> i < length ls \<Longrightarrow>
     climb_spec H (ls ! i) (path_spec H ls i) = merkle_spec H ls"
proof (induction ls arbitrary: i rule: merkle_induct)
  case (Node ls)
  let ?k = "split_point (length ls)"
  note s = split_list [OF Node.hyps]
  show ?case
  proof (cases "i < ?k")
    case True
    have "path_pages (path_spec H (take ?k ls) i) = ?k"
      using path_pages_shape [OF path_spec_shape [OF s(3)], of i H] s Node.prems True by simp
    with True Node s show ?thesis by (simp add: path_spec_node merkle_spec_node Let_def)
  next
    case False
    then have "path_pages (path_spec H (drop ?k ls) (i - ?k)) = length ls - ?k"
      using path_pages_shape [OF path_spec_shape [OF s(4)], of "i - ?k" H] s Node.prems by simp
    moreover have "climb_spec H (drop ?k ls ! (i - ?k)) (path_spec H (drop ?k ls) (i - ?k))
        = merkle_spec H (drop ?k ls)"
      using Node.IH(2) [of "i - ?k"] False s Node.prems by simp
    ultimately show ?thesis
      using False Node.hyps s by (simp add: path_spec_node merkle_spec_node Let_def)
  qed
qed simp

lemma climb_sound:
  "ls \<noteq> [] \<Longrightarrow> length ls < 2 ^ 64 \<Longrightarrow> i < length ls \<Longrightarrow> sha_ok H \<Longrightarrow>
   \<forall>l\<in>set ls. length l = 32 \<Longrightarrow> length leaf = 32 \<Longrightarrow> proof_wf ts \<Longrightarrow>
   map (\<lambda>s. (side s, sibling_pages s)) ts = shape_spec (length ls) i \<Longrightarrow>
   climb_spec H leaf ts = merkle_spec H ls \<Longrightarrow>
   collision_free H (merkle_inputs H ls \<union> climb_inputs H leaf ts) \<Longrightarrow>
   leaf = ls ! i \<and> ts = path_spec H ls i"
proof (induction ls arbitrary: i ts rule: merkle_induct)
  case (Node ls)
  let ?k = "split_point (length ls)"
  let ?L = "take ?k ls" and ?R = "drop ?k ls"
  note s = split_list [OF Node.hyps]
  have wfL: "\<forall>l\<in>set ?L. length l = 32" and wfR: "\<forall>l\<in>set ?R. length l = 32"
    using Node.prems(4) by (auto dest: in_set_takeD in_set_dropD)
  have lenL: "length (merkle_spec H ?L) = 32" and lenR: "length (merkle_spec H ?R) = 32"
    using length_merkle_spec s wfL wfR Node.prems(3) by blast+
  note inj = collision_freeD [OF Node.prems(9)]
  note root = merkle_spec_node [OF Node.hyps, of H] and inputs = merkle_inputs_node [OF Node.hyps, of H]
  show ?case
  proof (cases "i < ?k")
    case True
    then obtain t ts' where ts: "ts = t # ts'" "side t = Right" "sibling_pages t = of_nat (length ls - ?k)"
      "map (\<lambda>s. (side s, sibling_pages s)) ts' = shape_spec ?k i"
      using Node.prems(7) shape_spec_node [OF Node.hyps, of i] by auto
    have pp: "path_pages ts' = ?k" using path_pages_shape [OF ts(4)] True s Node.prems by simp
    have "H (branch_input (climb_spec H leaf ts') (digest t) (of_nat ?k) (sibling_pages t))
        = H (branch_input (merkle_spec H ?L) (merkle_spec H ?R) (of_nat ?k) (of_nat (length ls - ?k)))"
      using Node.prems(8) unfolding ts(1) root branch_hash_input by (simp only: climb_spec.simps
        ts(2) pp proof_side.case branch_hash_input)
    then have "branch_input (climb_spec H leaf ts') (digest t) (of_nat ?k) (sibling_pages t)
        = branch_input (merkle_spec H ?L) (merkle_spec H ?R) (of_nat ?k) (of_nat (length ls - ?k))"
      by (rule inj [rotated 2]) (simp_all only: ts(1,2) inputs pp climb_inputs.simps proof_side.case Un_iff insert_iff simp_thms)
    moreover have "length (climb_spec H leaf ts') = length (merkle_spec H ?L)"
      using lenL Node.prems(3,5) by simp
    ultimately have eq: "climb_spec H leaf ts' = merkle_spec H ?L" "digest t = merkle_spec H ?R"
      using branch_input_inj by blast+
    have "leaf = ?L ! i \<and> ts' = path_spec H ?L i"
    proof (rule Node.IH(1))
      show "collision_free H (merkle_inputs H ?L \<union> climb_inputs H leaf ts')"
        by (rule collision_free_mono [OF Node.prems(9)]) (auto simp: inputs ts(1))
      show "proof_wf ts'" using Node.prems(6) by (simp add: proof_wf_def ts(1))
    qed (use True s ts eq wfL Node.prems in simp_all)
    with True ts eq Node.hyps show ?thesis by (simp add: path_spec_node Let_def)
  next
    case False
    then obtain t ts' where ts: "ts = t # ts'" "side t = Left" "sibling_pages t = of_nat ?k"
      "map (\<lambda>s. (side s, sibling_pages s)) ts' = shape_spec (length ls - ?k) (i - ?k)"
      using Node.prems(7) shape_spec_node [OF Node.hyps, of i] by auto
    have pp: "path_pages ts' = length ls - ?k"
      using path_pages_shape [OF ts(4)] False s Node.prems by simp
    have "H (branch_input (digest t) (climb_spec H leaf ts') (sibling_pages t) (of_nat (length ls - ?k)))
        = H (branch_input (merkle_spec H ?L) (merkle_spec H ?R) (of_nat ?k) (of_nat (length ls - ?k)))"
      using Node.prems(8) unfolding ts(1) root branch_hash_input by (simp only: climb_spec.simps
        ts(2) pp proof_side.case branch_hash_input)
    then have "branch_input (digest t) (climb_spec H leaf ts') (sibling_pages t) (of_nat (length ls - ?k))
        = branch_input (merkle_spec H ?L) (merkle_spec H ?R) (of_nat ?k) (of_nat (length ls - ?k))"
      by (rule inj [rotated 2]) (simp_all only: ts(1,2) inputs pp climb_inputs.simps proof_side.case Un_iff insert_iff simp_thms)
    moreover have "length (digest t) = length (merkle_spec H ?L)"
      using lenL Node.prems(6) by (simp add: proof_wf_def ts(1))
    ultimately have eq: "digest t = merkle_spec H ?L" "climb_spec H leaf ts' = merkle_spec H ?R"
      using branch_input_inj by blast+
    have "leaf = ?R ! (i - ?k) \<and> ts' = path_spec H ?R (i - ?k)"
    proof (rule Node.IH(2))
      show "collision_free H (merkle_inputs H ?R \<union> climb_inputs H leaf ts')"
        by (rule collision_free_mono [OF Node.prems(9)]) (auto simp: inputs ts(1))
      show "proof_wf ts'" using Node.prems(6) by (simp add: proof_wf_def ts(1))
    qed (use False s ts eq wfR Node.prems in simp_all)
    with False ts eq Node.hyps s show ?thesis by (simp add: path_spec_node Let_def)
  qed
qed (simp add: proof_wf_def)

lemma clean_verify_loop:
  "unat cnt + sum_list (map (\<lambda>(_, _, c). unat c) xs) < 2 ^ 64 \<Longrightarrow> clean (verify_loop H cur cnt xs)"
proof (induction H cur cnt xs rule: verify_loop.induct)
  case (2 H cur cnt step sd c rest)
  have lt: "unat cnt + unat c < 2 ^ 64" using "2.prems" by simp
  then have "add64 cnt c = (Ok (cnt + c) :: u64 res)" "unat (cnt + c) = unat cnt + unat c"
    by (simp_all add: add64_def unat_add64)
  with 2 show ?case by (auto simp: Let_def)
qed simp

section \<open>Properties\<close>

text \<open>C32. The chunk map decoder accepts exactly the 100-byte encodings of well-formed maps (positive
  file size, chunk and page counts the ceilings of the sizes), and returns the encoded map.\<close>

theorem chunk_map_codec:
  "chunk_map_decode buf = Ok m \<longleftrightarrow> chunk_map_wf m \<and> chunk_map_encode m = buf"
  using map_codec.dec_iff [of buf m] by simp

text \<open>C38. The chunks of a well-formed map tile the file: every index below the chunk count has a length
  between 1 byte and 1 MiB, computed without overflow or underflow, and the lengths sum to the size.\<close>

theorem chunk_lens_tile_file:
  assumes "chunk_map_wf m"
  shows "\<exists>f. (\<forall>i < unat (chunk_count m). chunk_len m (of_nat i) = Ok (f i) \<and> 0 < f i
              \<and> f i \<le> ucast CHUNK_SIZE)
    \<and> (\<Sum>i < unat (chunk_count m). unat (f i)) = unat (file_size m)"
proof -
  let ?n = "unat (chunk_count m)" and ?s = "unat (file_size m)"
  have idx: "unat (of_nat i :: u64) = i" if "i < ?n" for i
    by (rule unat_of_nat_u64) (use that unat_u64_bound [of "chunk_count m"] in linarith)
  define f where "f i = (case chunk_len m (of_nat i) of Inr l \<Rightarrow> l | Inl _ \<Rightarrow> 0)" for i
  have f: "chunk_len m (of_nat i) = Ok (f i)" "unat (f i) = min 1048576 (?s - i * 1048576)"
    if "i < ?n" for i
    using chunk_len_value [OF assms, of "of_nat i"] that idx by (auto simp: f_def)
  have pos: "i * 1048576 < ?s" if "i < ?n" for i
  proof -
    have "i * 1048576 \<le> (?n - 1) * 1048576" using that by (intro mult_le_mono1) simp
    with chunk_count_bounds(3) [OF assms] show ?thesis by simp
  qed
  have "(\<Sum>i<?n. unat (f i)) = (\<Sum>i<?n. min 1048576 (?s - i * 1048576))"
    using f by (intro sum.cong) auto
  also have "\<dots> = ?s" using sum_min_blocks chunk_count_bounds(2) [OF assms] by blast
  finally show ?thesis
    using f pos by (intro exI [of _ f]) (auto simp: word_less_nat_alt word_le_nat_alt)
qed

theorem chunk_lens_tile_file_witness:
  "\<exists>m f. chunk_map_wf m \<and> unat (chunk_count m) = 3
     \<and> (\<forall>i < 3. chunk_len m (of_nat i) = Ok (f i) \<and> 0 < f i \<and> f i \<le> ucast CHUNK_SIZE)
     \<and> (\<Sum>i < 3. unat (f i)) = 3000000"
proof -
  let ?m = "\<lparr>file_content_id = replicate 32 1, file_size = 3000000, chunk_count = 3, page_count = 1,
    pages_root = replicate 32 2\<rparr>"
  have wf: "chunk_map_wf ?m"
    by (simp add: chunk_map_wf_def div_ceil_def CHUNK_SIZE_def CHUNKS_PER_PAGE_def)
  from chunk_lens_tile_file [OF this] show ?thesis
    using wf by (intro exI [of _ ?m]) simp
qed

text \<open>C39. A range read selects exactly the chunks that hold a requested byte of the file; it is refused
  exactly for an empty request or an offset at or past the end, and never overflows.\<close>

theorem range_chunks_exact:
  "range_chunks offset len fsize = Ok (s, e) \<longleftrightarrow>
     len \<noteq> 0 \<and> offset < fsize
     \<and> {unat s..unat e} = (\<lambda>x. x div 1048576) ` {unat offset..<min (unat fsize) (unat offset + unat len)}"
proof (cases "len \<noteq> 0 \<and> offset < fsize")
  case True
  define a b where "a = unat offset" and "b = min (unat fsize) (unat offset + unat len)"
  have ab: "a < b" using True by (auto simp: a_def b_def word_less_nat_alt unat_gt_0)
  have img: "(\<lambda>x. x div 1048576) ` {a..<b} = {a div 1048576..(b - 1) div 1048576}"
  proof (intro equalityI subsetI)
    fix c assume "c \<in> (\<lambda>x. x div 1048576) ` {a..<b}"
    then obtain x where "c = x div 1048576" "a \<le> x" "x \<le> b - 1" by auto
    then show "c \<in> {a div 1048576..(b - 1) div 1048576}" by (simp add: div_le_mono)
  next
    fix c assume c: "c \<in> {a div 1048576..(b - 1) div 1048576}"
    have "c * 1048576 \<le> b - 1" using c by (simp add: less_eq_div_iff_mult_less_eq)
    moreover have "a < (c + 1) * 1048576" using c div_less_iff_less_mult [of 1048576 a "c + 1"] by simp
    ultimately have x: "max a (c * 1048576) \<in> {a..<b}" "max a (c * 1048576) div 1048576 = c"
      using ab by (auto simp: max_def div_nat_eqI)
    show "c \<in> (\<lambda>x. x div 1048576) ` {a..<b}" 
      using x by (intro image_eqI [where x = "max a (c * 1048576)"]) simp_all
  qed
  obtain s' e' where r: "range_chunks offset len fsize = Ok (s', e')"
    "unat s' = a div 1048576" "unat e' = (b - 1) div 1048576"
    using range_chunks_value True unfolding a_def b_def by blast
  have "unat s' \<le> unat e'" using r ab by (simp add: div_le_mono)
  then have "{unat s..unat e} = {unat s'..unat e'} \<longleftrightarrow> s = s' \<and> e = e'"
    by (auto simp: Icc_eq_Icc word_unat_eq_iff)
  then show ?thesis using True r img by (auto simp: a_def b_def)
qed (auto simp: range_chunks_def)

lemma own_proof_verifies:
  assumes "unat i < length ls" "length ls < 2 ^ 64"
  shows "verify_leaf H (of_nat (length ls)) i (ls ! unat i) (rev (path_spec H ls (unat i))) (merkle_spec H ls) = Ok ()"
proof -
  have ne: "ls \<noteq> []" using assms(1) by auto
  show ?thesis using assms climb_path [OF ne assms(2,1)] path_spec_shape [OF ne]
    by (simp add: verify_leaf_iff unat_of_nat_u64)
qed

text \<open>C29. Merkle proofs are complete: for every list of leaf hashes and every index, the generated proof
  verifies against the root built from the leaves.\<close>

theorem leaf_proof_verifies:
  assumes "unat i < length ls" "length ls < 2 ^ 64"
  shows "\<exists>proof root. leaf_proof H ls i = Ok proof \<and> merkle_root H ls = Ok root
    \<and> verify_leaf H (of_nat (length ls)) i (ls ! unat i) proof root = Ok ()"
  using own_proof_verifies [OF assms] leaf_proof_spec [OF assms] merkle_root_spec [OF _ assms(2)] assms(1) by fastforce

theorem leaf_proof_verifies_witness:
  "\<exists>proof root. leaf_proof (replicate 32 \<circ> of_nat \<circ> length) [replicate 32 1, replicate 32 2, replicate 32 3] 2
      = Ok proof
    \<and> merkle_root (replicate 32 \<circ> of_nat \<circ> length) [replicate 32 1, replicate 32 2, replicate 32 3] = Ok root
    \<and> verify_leaf (replicate 32 \<circ> of_nat \<circ> length) 3 2 (replicate 32 3) proof root = Ok ()"
  using leaf_proof_verifies [of 2 "[replicate 32 1, replicate 32 2, replicate 32 3]"
      "replicate 32 \<circ> of_nat \<circ> length"] by simp

text \<open>C11. Merkle proofs are sound: a leaf and proof accepted against the root of a list of leaves are the
  leaf at that index and the very proof the generator makes, unless two of the inputs hashed by the
  builder and the verifier collide.\<close>

theorem verify_leaf_sound:
  assumes "merkle_root H ls = Ok root" "length ls < 2 ^ 64"
    and "verify_leaf H (of_nat (length ls)) i leaf proof root = Ok ()"
    and "sha_ok H" "\<forall>l\<in>set ls. length l = 32" "length leaf = 32" "proof_wf proof"
    and "collision_free H (merkle_inputs H ls \<union> climb_inputs H leaf (rev proof))"
  shows "leaf = ls ! unat i \<and> leaf_proof H ls i = Ok proof"
proof -
  have ne: "ls \<noteq> []" using assms(1) by (auto simp: merkle_root_def)
  have n: "unat (of_nat (length ls) :: u64) = length ls" using assms(2) by (rule unat_of_nat_u64)
  have v: "unat i < length ls" "climb_spec H leaf (rev proof) = root"
    "map (\<lambda>s. (side s, sibling_pages s)) (rev proof) = shape_spec (length ls) (unat i)"
    using assms(3) by (simp_all add: verify_leaf_iff n)
  have root: "root = merkle_spec H ls" using merkle_root_spec [OF ne assms(2)] assms(1) by simp
  have "leaf = ls ! unat i \<and> rev proof = path_spec H ls (unat i)"
    using assms(4-8) v root by (intro climb_sound [OF ne assms(2)]) (simp_all add: proof_wf_def)
  then show ?thesis
    using leaf_proof_spec [OF v(1) assms(2)] by (metis rev_rev_ident)
qed

theorem verify_leaf_sound_witness:
  "\<exists>H. sha_ok H \<and> leaf_proof H [replicate 32 1, replicate 32 2] 1
      = Ok [\<lparr>side = Left, sibling_pages = 1, digest = replicate 32 1\<rparr>]"
proof -
  define H :: hash where "H = (\<lambda>_. replicate 32 0)"
  let ?ls = "[replicate 32 1, replicate 32 (2 :: u8)]"
  let ?p = "[\<lparr>side = Left, sibling_pages = 1, digest = replicate 32 1\<rparr>]"
  have sp: "split_point 2 = 1" "split_point (Suc (Suc 0)) = 1"
    by (simp_all add: split_point.simps [of 2] split_point.simps [of "Suc (Suc 0)"])
  have m: "merkle_spec H ?ls = replicate 32 0"
    using merkle_spec_node [of ?ls H] by (simp add: sp branch_hash_def sha256_def H_def)
  have "merkle_root H ?ls = Ok (replicate 32 0)" using merkle_root_spec [of ?ls H] m by simp
  moreover have "shape_spec 2 1 = [(Left, 1)]" using shape_spec_node [of 2 1] by (simp add: sp)
  then have "verify_leaf H (of_nat (length ?ls)) 1 (replicate 32 2) ?p (replicate 32 0) = Ok ()"
    by (simp add: verify_leaf_iff branch_hash_def sha256_def H_def)
  moreover have "merkle_inputs H ?ls = {branch_input (replicate 32 1) (replicate 32 2) 1 1}"
    using merkle_inputs_node [of ?ls H] by (simp add: sp)
  then have "collision_free H (merkle_inputs H ?ls \<union> climb_inputs H (replicate 32 2) (rev ?p))"
    by (simp add: path_pages_def collision_free_def)
  ultimately have "leaf_proof H ?ls 1 = Ok ?p"
    using verify_leaf_sound [of H ?ls "replicate 32 0" 1 "replicate 32 2" ?p]
    by (simp add: sha_ok_def H_def proof_wf_def)
  then show ?thesis by (intro exI [of _ H]) (simp add: sha_ok_def H_def)
qed

text \<open>Verification of a received proof never panics or loops, whatever the page count, index, leaf,
  proof and root are: in particular the running page count cannot overflow.\<close>

theorem verify_leaf_clean: "clean (verify_leaf H n i leaf proof root)"
proof (cases "unat i < unat n")
  case True
  let ?s = "rev (shape_spec (unat n) (unat i))"
  have "1 + sum_list (map (\<lambda>(_, c). unat c) (shape_spec (unat n) (unat i))) < 2 ^ 64"
    using shape_pages [of "unat n" "unat i"] True unat_u64_bound [of n] by simp
  then have total: "1 + sum_list (map (\<lambda>(_, c). unat c) ?s) < 2 ^ 64"
    by (simp only: rev_map [symmetric] sum_list_rev)
  have "sum_list (map (\<lambda>(_, _, c). unat c) (zip proof ?s)) = sum_list (map (\<lambda>(_, c). unat c) ?s)"
    if "length proof = length ?s"
  proof -
    have "map (\<lambda>(_, _, c). unat c) (zip proof ?s) = map (\<lambda>(_, c). unat c) (map snd (zip proof ?s))"
      by (simp add: case_prod_unfold)
    also have "map snd (zip proof ?s) = ?s" using that by (rule map_snd_zip)
    finally show ?thesis by simp
  qed
  then show ?thesis
    using expected_proof_shape_spec [OF True] total
    by (auto simp: verify_leaf_def intro!: clean_and_then clean_verify_loop)
qed (simp add: verify_leaf_def expected_proof_shape_def word_le_nat_alt)

text \<open>The leaf page decoder accepts exactly the encodings of leaves with 1 to 256 digests of 32 bytes,
  and returns the encoded leaf.\<close>

theorem chunk_leaf_codec:
  "chunk_leaf_decode buf = Ok l \<longleftrightarrow> chunk_leaf_wf l \<and> chunk_leaf_encode l = Ok buf"
  by (rule leaf_codec.dec_iff)

text \<open>The expected digest counts of the pages of a well-formed map lie between 1 and 256 and sum to
  its chunk count.\<close>

theorem expected_counts_sum:
  assumes "chunk_map_wf m"
  shows "(\<Sum>i < unat (page_count m). unat (expected_count (chunk_count m) (of_nat i))) = unat (chunk_count m)
    \<and> (\<forall>i < unat (page_count m). unat (expected_count (chunk_count m) (of_nat i)) \<in> {1..256})"
proof -
  let ?p = "unat (page_count m)" and ?c = "unat (chunk_count m)"
  have p: "?p = (?c + 255) div 256" using assms by (simp add: chunk_map_wf_def unat_div_ceil)
  have c0: "0 < ?c" by (rule chunk_count_bounds(1) [OF assms])
  note b = ceiling_bounds [of 256 ?c, simplified, OF c0]
  have v: "unat (expected_count (chunk_count m) (of_nat i)) = min 256 (?c - i * 256)" if "i < ?p" for i
  proof -
    have "unat (of_nat i :: u64) = i"
      by (rule unat_of_nat_u64) (use that unat_u64_bound [of "page_count m"] in linarith)
    with that p show ?thesis using expected_count_value [of "of_nat i" "chunk_count m"] by simp
  qed
  have "i * 256 < ?c" if "i < ?p" for i
  proof -
    have "i * 256 \<le> (?p - 1) * 256" using that by (intro mult_le_mono1) simp
    with b p show ?thesis by simp
  qed
  moreover have "(\<Sum>i<?p. min 256 (?c - i * 256)) = ?c" using sum_min_blocks b(2) p by simp
  ultimately show ?thesis using v by (auto simp: Suc_le_eq)
qed

theorem expected_counts_sum_witness:
  "\<exists>m. chunk_map_wf m \<and> (\<Sum>i < unat (page_count m). unat (expected_count (chunk_count m) (of_nat i))) = 257"
proof -
  let ?m = "\<lparr>file_content_id = replicate 32 1, file_size = 269484032, chunk_count = 257, page_count = 2,
    pages_root = replicate 32 2\<rparr>"
  have "chunk_map_wf ?m" by (simp add: chunk_map_wf_def div_ceil_def CHUNK_SIZE_def CHUNKS_PER_PAGE_def)
  then show ?thesis using expected_counts_sum [of ?m] by (intro exI [of _ ?m]) simp
qed

end
