(* ===== verification/Descriptor.thy ===== *)
theory Descriptor
  imports Codec_Lib
begin

text \<open>
  \<^verbatim>\<open>src/descriptor.rs\<close>: the serving descriptor MSD2 and the rule for its scope. The scope is a Rust
  \<open>String\<close>, so its bytes are valid UTF-8 in every value of the type; the decoder establishes this and
  the encoder may assume it. \<open>canonical_scope\<close> states the scope rule on the list of components, apart
  from the byte scan of \<open>validate_scope\<close>.
\<close>

section \<open>Constants and data\<close>

definition SCHEMA_VERSION :: u16 where "SCHEMA_VERSION = 2"
definition METADATA_CODEC :: u16 where "METADATA_CODEC = 1"
definition MATERIALIZATION_POLICY_GIT_RAW_V1 :: u16 where "MATERIALIZATION_POLICY_GIT_RAW_V1 = 1"
definition FS_SEMANTICS_LINUX_CODE_V1 :: u16 where "FS_SEMANTICS_LINUX_CODE_V1 = 1"
definition ACCESS_PROJECTION_EXACT_FULL :: u16 where "ACCESS_PROJECTION_EXACT_FULL = 0"
definition BASE_LENGTH :: nat where "BASE_LENGTH = 98"
definition DOMAIN :: bytes where "DOMAIN = ascii ''mega.mst2.descriptor'' @ [0]"
definition MSD2_MAGIC :: bytes where "MSD2_MAGIC = ascii ''MSD2''"

record serving_descriptor =
  instance_uuid :: bytes
  namespace_view_id :: digest
  scope :: bytes
  metadata_root :: digest

section \<open>Operations\<close>

fun validate_components :: "nat \<Rightarrow> bytes list \<Rightarrow> unit res" where
  "validate_components index [] = Ok ()"
| "validate_components index (part # comps) =
     (if index \<ge> 256 then Err (BadLength ''scope over 256 components'')
      else if part = [] then Err (BadName ''empty path component'')
      else if part = [dot] \<or> part = [dot, dot] then Err (BadName ''dot component'')
      else if length part > 255 then Err (BadName ''path component over 255 bytes'')
      else validate_components (index + 1) comps)"

definition validate_scope :: "bytes \<Rightarrow> unit res" where
  "validate_scope s =
     (if s = [] \<or> \<not> starts_with s [slash] then Err (BadName ''scope must be absolute'')
      else if 0 \<in> set s then Err (BadName ''NUL in scope'')
      else if length s > 4096 then Err (BadLength ''scope over 4096 UTF-8 bytes'')
      else if length s > 1 \<and> last s = slash then Err (BadName ''trailing slash'')
      else if s = [slash] then Ok ()
      else validate_components 0 (split_on slash (drop 1 s)))"

definition validate_instance_uuid :: "bytes \<Rightarrow> unit res" where
  "validate_instance_uuid uuid =
     (if uuid = replicate 16 0 then Err (BadConstant ''instance UUID must be non-nil'') else Ok ())"

definition descriptor_encode :: "serving_descriptor \<Rightarrow> bytes res" where
  "descriptor_encode d =
     and_then (validate_instance_uuid (instance_uuid d)) (\<lambda>_.
     and_then (validate_scope (scope d)) (\<lambda>_.
     let out = MSD2_MAGIC;
         out = write_u16 out SCHEMA_VERSION;
         out = write_u16 out METADATA_CODEC;
         out = out @ instance_uuid d;
         out = out @ namespace_view_id d;
         out = write_u16 out (of_nat (length (scope d)));
         out = out @ scope d;
         out = write_u16 out MATERIALIZATION_POLICY_GIT_RAW_V1;
         out = write_u16 out FS_SEMANTICS_LINUX_CODE_V1;
         out = write_u16 out ACCESS_PROJECTION_EXACT_FULL;
         out = write_u16 out 0;
         out = out @ metadata_root d
     in if length out \<noteq> BASE_LENGTH + length (scope d) then Crash else Ok out))"

definition snapshot_id :: "hash \<Rightarrow> serving_descriptor \<Rightarrow> digest res" where
  "snapshot_id H d = and_then (descriptor_encode d) (\<lambda>bytes. Ok (sha256 H [DOMAIN, bytes]))"

definition descriptor_decode :: "bytes \<Rightarrow> serving_descriptor res" where
  "descriptor_decode buf =
     (if length buf < BASE_LENGTH then Err (Truncated ''descriptor header'') else
      and_then (slice_of buf 0 4) (\<lambda>magic.
      if magic \<noteq> MSD2_MAGIC then Err (BadConstant ''MSD2 magic'') else
      and_then (read_u16 buf 4) (\<lambda>schema.
      if schema \<noteq> SCHEMA_VERSION then Err (BadConstant ''schema_version'') else
      and_then (read_u16 buf 6) (\<lambda>codec.
      if codec \<noteq> METADATA_CODEC then Err (BadConstant ''metadata_codec'') else
      and_then (read_u16 buf 56) (\<lambda>slen.
      let scope_len = unat slen in
      if length buf \<noteq> BASE_LENGTH + scope_len
      then Err (BadLength ''descriptor must be exactly 98 + scope_byte_length'') else
      and_then (read_u16 buf (58 + scope_len)) (\<lambda>policy.
      if policy \<noteq> MATERIALIZATION_POLICY_GIT_RAW_V1 then Err (BadConstant ''materialization_policy'') else
      and_then (read_u16 buf (60 + scope_len)) (\<lambda>fs.
      if fs \<noteq> FS_SEMANTICS_LINUX_CODE_V1 then Err (BadConstant ''fs_semantics'') else
      and_then (read_u16 buf (62 + scope_len)) (\<lambda>access.
      if access \<noteq> ACCESS_PROJECTION_EXACT_FULL then Err (BadConstant ''access_projection'') else
      and_then (read_u16 buf (64 + scope_len)) (\<lambda>reserved.
      if reserved \<noteq> 0 then Err (BadConstant ''reserved must be zero'') else
      and_then (slice_of buf 8 24) (\<lambda>uuid.
      and_then (validate_instance_uuid uuid) (\<lambda>_.
      and_then (slice_of buf 24 56) (\<lambda>view.
      and_then (slice_of buf 58 (58 + scope_len)) (\<lambda>scope_bytes.
      and_then (ok_or (from_utf8 scope_bytes) (BadName ''scope not UTF-8'')) (\<lambda>s.
      and_then (validate_scope s) (\<lambda>_.
      and_then (slice_of buf (66 + scope_len) (98 + scope_len)) (\<lambda>root.
      Ok \<lparr>instance_uuid = uuid, namespace_view_id = view, scope = s, metadata_root = root\<rparr>))))))))))))))))"

text \<open>What Rust's types fix: the array lengths, and that a \<open>String\<close> is UTF-8.\<close>

definition descriptor_wf :: "serving_descriptor \<Rightarrow> bool" where
  "descriptor_wf d \<longleftrightarrow> length (instance_uuid d) = 16 \<and> length (namespace_view_id d) = 32
     \<and> length (metadata_root d) = 32 \<and> is_utf8 (scope d)"

section \<open>The scope rule\<close>

definition scope_component :: "bytes \<Rightarrow> bool" where
  "scope_component c \<longleftrightarrow> c \<noteq> [] \<and> length c \<le> 255 \<and> c \<noteq> [dot] \<and> c \<noteq> [dot, dot]
     \<and> slash \<notin> set c \<and> 0 \<notin> set c"

definition scope_of :: "bytes list \<Rightarrow> bytes" where
  "scope_of comps = (if comps = [] then [slash] else concat (map ((#) slash) comps))"

definition canonical_scope :: "bytes \<Rightarrow> bool" where
  "canonical_scope s \<longleftrightarrow> (\<exists>comps. length comps \<le> 256 \<and> (\<forall>c\<in>set comps. scope_component c)
     \<and> s = scope_of comps) \<and> length s \<le> 4096"

lemma validate_components_Ok:
  "validate_components i comps = Inr u \<longleftrightarrow> (comps = [] \<or> i + length comps \<le> 256)
     \<and> (\<forall>c\<in>set comps. c \<noteq> [] \<and> length c \<le> 255 \<and> c \<noteq> [dot] \<and> c \<noteq> [dot, dot])"
proof (induction i comps rule: validate_components.induct)
  case (2 i c comps)
  show ?case
  proof (cases "i < 256 \<and> c \<noteq> [] \<and> \<not> (c = [dot] \<or> c = [dot, dot]) \<and> length c \<le> 255")
    case True
    then have "validate_components i (c # comps) = validate_components (i + 1) comps" by simp
    with 2 True show ?thesis by (cases comps) auto
  next
    case False
    then show ?thesis by (simp split: if_splits) linarith
  qed
qed simp

lemma clean_validate_components [simp]: "clean (validate_components i comps)"
  by (induction i comps rule: validate_components.induct) auto

lemma clean_validate_scope [simp]: "clean (validate_scope s)"
  by (simp add: validate_scope_def)

lemma join_slash: "comps \<noteq> [] \<Longrightarrow> concat (map ((#) slash) comps) = slash # join_with slash comps"
proof (induction comps)
  case (Cons c comps)
  then show ?case by (cases comps) auto
qed simp

lemma last_scope_of:
  "comps \<noteq> [] \<Longrightarrow> \<forall>c\<in>set comps. c \<noteq> [] \<and> slash \<notin> set c \<Longrightarrow> last (concat (map ((#) slash) comps)) \<noteq> slash"
proof (induction comps rule: rev_induct)
  case (snoc c comps)
  then have "last c \<in> set c" "slash \<notin> set c" "c \<noteq> []" by auto
  then show ?case by (cases "last c = slash") auto
qed simp

lemma validate_scope_canonical: "validate_scope s = Ok () \<longleftrightarrow> canonical_scope s"
proof
  assume v: "validate_scope s = Ok ()"
  then have s: "s \<noteq> []" "starts_with s [slash]" "0 \<notin> set s" "length s \<le> 4096"
    by (auto simp: validate_scope_def split: if_splits)
  show "canonical_scope s"
  proof (cases "s = [slash]")
    case True
    then show ?thesis unfolding canonical_scope_def
      by (intro conjI exI [of _ "[]"]) (simp_all add: scope_of_def)
  next
    case False
    let ?cs = "split_on slash (drop 1 s)"
    have sl: "s = slash # drop 1 s" using s(2) by (auto simp: starts_with_iff)
    have cs: "length ?cs \<le> 256" "\<forall>c\<in>set ?cs. c \<noteq> [] \<and> length c \<le> 255 \<and> c \<noteq> [dot] \<and> c \<noteq> [dot, dot]"
      using v s False by (auto simp: validate_scope_def validate_components_Ok split: if_splits)
    have "scope_component c" if "c \<in> set ?cs" for c
    proof -
      have "set c \<subseteq> set (drop 1 s)" by (rule set_split_on [OF that])
      with s(3) have "0 \<notin> set c" by (auto dest: in_set_dropD)
      with that cs split_on_no_sep [OF that] show ?thesis by (simp add: scope_component_def)
    qed
    moreover have "s = scope_of ?cs"
      using sl by (simp add: scope_of_def join_slash)
    ultimately show ?thesis using cs s(4) unfolding canonical_scope_def by blast
  qed
next
  assume "canonical_scope s"
  then obtain comps where c: "length comps \<le> 256" "\<forall>c\<in>set comps. scope_component c" "s = scope_of comps"
    "length s \<le> 4096" unfolding canonical_scope_def by blast
  show "validate_scope s = Ok ()"
  proof (cases "comps = []")
    case True
    with c show ?thesis by (simp add: validate_scope_def scope_of_def starts_with_def slash_def)
  next
    case False
    then have s: "s = slash # join_with slash comps" "s = concat (map ((#) slash) comps)"
      using c(3) by (simp_all add: scope_of_def join_slash)
    have sp: "split_on slash (drop 1 s) = comps"
      using s(1) False c(2) by (simp add: split_join scope_component_def)
    have "last s \<noteq> slash" unfolding s(2)
      by (rule last_scope_of [OF False]) (use c(2) in \<open>simp add: scope_component_def\<close>)
    moreover have "0 \<notin> set s" unfolding s(2) using c(2) by (auto simp: scope_component_def slash_def)
    moreover have "validate_components 0 comps = Ok ()"
      using c by (simp add: validate_components_Ok scope_component_def)
    ultimately show ?thesis
      using c(4) sp s(1) by (auto simp: validate_scope_def starts_with_def)
  qed
qed

section \<open>The wire format\<close>

lemma length_MSD2_MAGIC [simp]: "length MSD2_MAGIC = 4"
  by (simp add: MSD2_MAGIC_def ascii_def)

lemma scope_length: "validate_scope s = Inr u \<Longrightarrow> length s \<le> 4096"
  by (auto simp: validate_scope_def split: if_splits)

lemma descriptor_bytes:
  assumes "descriptor_wf d" "descriptor_encode d = Ok buf"
  shows "validate_instance_uuid (instance_uuid d) = Ok ()" "validate_scope (scope d) = Ok ()"
    "unat (of_nat (length (scope d)) :: u16) = length (scope d)"
    "length buf = 98 + length (scope d)"
    "buf = MSD2_MAGIC @ le_bytes SCHEMA_VERSION @ le_bytes METADATA_CODEC @ instance_uuid d
       @ namespace_view_id d @ le_bytes (of_nat (length (scope d)) :: u16) @ scope d
       @ le_bytes MATERIALIZATION_POLICY_GIT_RAW_V1 @ le_bytes FS_SEMANTICS_LINUX_CODE_V1
       @ le_bytes ACCESS_PROJECTION_EXACT_FULL @ le_bytes (0 :: u16) @ metadata_root d"
proof -
  show v: "validate_instance_uuid (instance_uuid d) = Ok ()" "validate_scope (scope d) = Ok ()"
    using assms(2) by (auto simp: descriptor_encode_def outcome_simps)
  show "unat (of_nat (length (scope d)) :: u16) = length (scope d)"
    using scope_length [OF v(2)] by (simp add: unat_of_nat)
  show b: "buf = MSD2_MAGIC @ le_bytes SCHEMA_VERSION @ le_bytes METADATA_CODEC @ instance_uuid d
       @ namespace_view_id d @ le_bytes (of_nat (length (scope d)) :: u16) @ scope d
       @ le_bytes MATERIALIZATION_POLICY_GIT_RAW_V1 @ le_bytes FS_SEMANTICS_LINUX_CODE_V1
       @ le_bytes ACCESS_PROJECTION_EXACT_FULL @ le_bytes (0 :: u16) @ metadata_root d"
    using assms(2) by (auto simp: descriptor_encode_def outcome_simps write_defs Let_def split: if_splits)
  show "length buf = 98 + length (scope d)" unfolding b using assms(1) by (simp add: descriptor_wf_def)
qed

lemma descriptor_decode_encode:
  assumes "descriptor_wf d" "descriptor_encode d = Ok buf"
  shows "descriptor_decode buf = Ok d"
proof -
  note b = descriptor_bytes [OF assms]
  let ?n = "length (scope d)"
  have l: "length (instance_uuid d) = 16" "length (namespace_view_id d) = 32" "length (metadata_root d) = 32"
    using assms(1) by (simp_all add: descriptor_wf_def)
  have r: "read_u16 buf 4 = Ok SCHEMA_VERSION" "read_u16 buf 6 = Ok METADATA_CODEC"
    "read_u16 buf 56 = Ok (of_nat ?n)" "read_u16 buf (58 + ?n) = Ok MATERIALIZATION_POLICY_GIT_RAW_V1"
    "read_u16 buf (60 + ?n) = Ok FS_SEMANTICS_LINUX_CODE_V1"
    "read_u16 buf (62 + ?n) = Ok ACCESS_PROJECTION_EXACT_FULL" "read_u16 buf (64 + ?n) = Ok 0"
    unfolding read_u16_eq_Ok b(4) by (simp_all add: b(5) l sub_def)
  have s: "sub 0 4 buf = MSD2_MAGIC" "sub 8 16 buf = instance_uuid d" "sub 24 32 buf = namespace_view_id d"
    "sub 58 ?n buf = scope d" "sub (66 + ?n) 32 buf = metadata_root d"
    by (simp_all add: b(5) l sub_def)
  show ?thesis
    using b(1-4) r s assms(1)
    by (simp add: descriptor_decode_def slice_of_def BASE_LENGTH_def Let_def from_utf8_def descriptor_wf_def)
qed

lemma descriptor_encode_decode:
  assumes "descriptor_decode buf = Ok d"
  shows "descriptor_wf d \<and> descriptor_encode d = Ok buf"
proof -
  from assms obtain slen :: u16 where "read_u16 buf 56 = Ok slen"
    and g: "sub 0 4 buf = MSD2_MAGIC" "read_u16 buf 4 = Ok SCHEMA_VERSION" "read_u16 buf 6 = Ok METADATA_CODEC"
    "length buf = 98 + unat slen" "read_u16 buf (58 + unat slen) = Ok MATERIALIZATION_POLICY_GIT_RAW_V1"
    "read_u16 buf (60 + unat slen) = Ok FS_SEMANTICS_LINUX_CODE_V1"
    "read_u16 buf (62 + unat slen) = Ok ACCESS_PROJECTION_EXACT_FULL" "read_u16 buf (64 + unat slen) = Ok 0"
    "instance_uuid d = sub 8 16 buf" "namespace_view_id d = sub 24 32 buf" "scope d = sub 58 (unat slen) buf"
    "metadata_root d = sub (66 + unat slen) 32 buf"
    and v: "validate_instance_uuid (instance_uuid d) = Ok ()" "validate_scope (scope d) = Ok ()" "is_utf8 (scope d)"
    by (auto simp: descriptor_decode_def and_then_eq_Inr if_eq_Inr_Err slice_of_eq_Inr Let_def
        BASE_LENGTH_def ok_or_eq_Inr from_utf8_eq_Some)
  let ?n = "unat slen"
  have f: "MSD2_MAGIC = sub 0 4 buf" "le_bytes SCHEMA_VERSION = sub 4 2 buf" "le_bytes METADATA_CODEC = sub 6 2 buf"
    "le_bytes slen = sub 56 2 buf" "le_bytes MATERIALIZATION_POLICY_GIT_RAW_V1 = sub (58 + ?n) 2 buf"
    "le_bytes FS_SEMANTICS_LINUX_CODE_V1 = sub (60 + ?n) 2 buf"
    "le_bytes ACCESS_PROJECTION_EXACT_FULL = sub (62 + ?n) 2 buf" "le_bytes (0 :: u16) = sub (64 + ?n) 2 buf"
    using g \<open>read_u16 buf 56 = Ok slen\<close> by (simp_all add: read_u16_eq_Ok)
  have n: "length (scope d) = ?n" by (simp add: g)
  have "MSD2_MAGIC @ le_bytes SCHEMA_VERSION @ le_bytes METADATA_CODEC @ instance_uuid d
      @ namespace_view_id d @ le_bytes slen @ scope d
      @ le_bytes MATERIALIZATION_POLICY_GIT_RAW_V1 @ le_bytes FS_SEMANTICS_LINUX_CODE_V1
      @ le_bytes ACCESS_PROJECTION_EXACT_FULL @ le_bytes (0 :: u16) @ metadata_root d = buf"
    by (simp add: f g(9-12) sub_join_rest sub_joinI g(4))
  moreover have "length (instance_uuid d) = 16" "length (namespace_view_id d) = 32" "length (metadata_root d) = 32"
    by (simp_all add: g)
  ultimately have "descriptor_encode d = Ok buf"
    using v n g(4) by (simp add: descriptor_encode_def write_defs Let_def BASE_LENGTH_def)
  moreover have "descriptor_wf d" using g v by (simp add: descriptor_wf_def)
  ultimately show ?thesis by simp
qed

interpretation msd2: strict_codec descriptor_encode descriptor_decode descriptor_wf
proof unfold_locales
  show "descriptor_decode b = Inr d \<longleftrightarrow> descriptor_wf d \<and> descriptor_encode d = Inr b" for b d
    using descriptor_decode_encode [of d b] descriptor_encode_decode [of b d] by auto
qed

lemma clean_descriptor_decode: "clean (descriptor_decode buf)"
  unfolding descriptor_decode_def Let_def
  by (auto intro!: clean_and_then clean_slice_of simp: BASE_LENGTH_def validate_instance_uuid_def)

section \<open>Properties\<close>

text \<open>C24. The descriptor decoder accepts exactly the bytes the encoder produces for a descriptor of the
  type, and returns that descriptor: one byte string per descriptor, nothing trailing, no other version.\<close>

theorem descriptor_codec:
  "descriptor_decode buf = Ok d \<longleftrightarrow> descriptor_wf d \<and> descriptor_encode d = Ok buf"
  by (rule msd2.dec_iff)

text \<open>C31. \<open>validate_scope\<close> accepts exactly the canonical scopes: the root, or at most 256 components, each
  1 to 255 bytes without slash or NUL and neither of the dot names, at most 4096 bytes in all.\<close>

theorem validate_scope_exact: "validate_scope s = Ok () \<longleftrightarrow> canonical_scope s"
  by (rule validate_scope_canonical)

text \<open>A descriptor of the type encodes exactly when its instance UUID is not nil and its scope is
  canonical; the result has 98 bytes and the scope, the 16-bit length field is not truncated, and the
  encoder's length assertion never fails.\<close>

theorem descriptor_encode_total:
  assumes "descriptor_wf d"
  shows "(if instance_uuid d \<noteq> replicate 16 0 \<and> canonical_scope (scope d)
          then \<exists>buf. descriptor_encode d = Ok buf \<and> length buf = 98 + length (scope d)
            \<and> sub 56 2 buf = le_bytes (of_nat (length (scope d)) :: u16)
            \<and> unat (of_nat (length (scope d)) :: u16) = length (scope d)
          else \<exists>e. descriptor_encode d = Err e)"
proof (cases "instance_uuid d \<noteq> replicate 16 0 \<and> canonical_scope (scope d)")
  case True
  then have v: "validate_instance_uuid (instance_uuid d) = Ok ()" "validate_scope (scope d) = Ok ()"
    by (simp_all add: validate_instance_uuid_def validate_scope_canonical)
  then obtain buf where b: "descriptor_encode d = Ok buf"
    using assms by (simp add: descriptor_encode_def write_defs Let_def BASE_LENGTH_def descriptor_wf_def)
  note f = descriptor_bytes [OF assms b]
  have "sub 56 2 buf = le_bytes (of_nat (length (scope d)) :: u16)"
    using assms by (simp add: f(5) sub_def descriptor_wf_def)
  with True b f show ?thesis by simp
next
  case False
  have c: "clean (validate_scope (scope d))" by simp
  show ?thesis
  proof (cases "validate_scope (scope d)")
    case (Inl f)
    with c have "\<exists>e. f = Fail e" by (cases f) auto
    with Inl False show ?thesis
      by (auto simp: descriptor_encode_def validate_instance_uuid_def)
  next
    case (Inr u)
    with False have "instance_uuid d = replicate 16 0" by (simp add: validate_scope_canonical)
    with False show ?thesis by (auto simp: descriptor_encode_def validate_instance_uuid_def)
  qed
qed

theorem descriptor_encode_total_witness:
  "\<exists>buf. descriptor_encode \<lparr>instance_uuid = replicate 16 7, namespace_view_id = replicate 32 1,
      scope = [slash], metadata_root = replicate 32 2\<rparr> = Ok buf \<and> length buf = 99"
proof -
  let ?d = "\<lparr>instance_uuid = replicate 16 7, namespace_view_id = replicate 32 1,
      scope = [slash], metadata_root = replicate 32 2\<rparr>"
  have "descriptor_wf ?d" by (simp add: descriptor_wf_def is_utf8_Cons_ascii slash_def)
  moreover have "canonical_scope (scope ?d)"
    by (simp add: validate_scope_canonical [symmetric] validate_scope_def starts_with_def slash_def)
  ultimately show ?thesis using descriptor_encode_total [of ?d] by (auto simp: replicate_eq_replicate)
qed

text \<open>The snapshot id pins the whole descriptor: two descriptors with the same id are equal, unless
  the two domain-separated inputs collide under the digest.\<close>

theorem snapshot_id_pins_descriptor:
  assumes "descriptor_wf d" "descriptor_wf e"
    and "descriptor_encode d = Ok a" "descriptor_encode e = Ok b"
    and "snapshot_id H d = snapshot_id H e"
    and "collision_free H {DOMAIN @ a, DOMAIN @ b}"
  shows "d = e"
  by (rule msd2.id_inj [OF assms(1-4,6)]) (use assms(3-5) in \<open>simp add: snapshot_id_def\<close>)

theorem snapshot_id_pins_descriptor_witness:
  "\<exists>d e. descriptor_wf d \<and> is_ok (descriptor_encode d) \<and> snapshot_id id d = snapshot_id id e \<and> d = e"
proof -
  let ?d = "\<lparr>instance_uuid = replicate 16 7, namespace_view_id = replicate 32 1,
      scope = [slash], metadata_root = replicate 32 2\<rparr>"
  have wf: "descriptor_wf ?d" by (simp add: descriptor_wf_def is_utf8_Cons_ascii slash_def)
  have "validate_instance_uuid (instance_uuid ?d) = Ok ()" "validate_scope (scope ?d) = Ok ()"
    by (simp_all add: validate_instance_uuid_def validate_scope_def starts_with_def slash_def
        replicate_eq_replicate)
  then obtain a where a: "descriptor_encode ?d = Ok a"
    by (simp add: descriptor_encode_def write_defs Let_def BASE_LENGTH_def)
  have "?d = ?d" by (rule snapshot_id_pins_descriptor [OF wf wf a a, of id]) (simp_all add: collision_free_def)
  with wf a show ?thesis by (intro exI [of _ ?d]) simp
qed

text \<open>Decoding arbitrary bytes never panics: every slice the decoder takes is in range.\<close>

theorem descriptor_decode_clean: "clean (descriptor_decode buf)"
  by (rule clean_descriptor_decode)

end
