(* ===== verification/Metapage.thy ===== *)
theory Metapage
  imports Codec_Lib
begin

text \<open>
  \<^verbatim>\<open>src/metapage.rs\<close>, first part: directory entries and the encoding of MTP2/1 pages. An entry and a page
  are validated by the encoder and by the decoder; \<open>entry_bytes\<close> and \<open>child_bytes\<close> name the bytes of an
  entry and of a branch child, \<open>ascending_from\<close> the ordering both loops check. The names of a leaf are
  compared as Rust compares byte slices, lexicographically (\<open>HOL-Library.List_Lexorder\<close>).
\<close>

section \<open>Constants and data\<close>

definition LEAF_MAX_ENTRIES :: nat where "LEAF_MAX_ENTRIES = 128"
definition PAGE_MAX_BYTES :: nat where "PAGE_MAX_BYTES = 16384"
definition BRANCH_MAX_CHILDREN :: nat where "BRANCH_MAX_CHILDREN = 256"
definition MAX_DEPTH :: nat where "MAX_DEPTH = 255"
definition MAX_TOTAL_ENTRIES :: u64 where "MAX_TOTAL_ENTRIES = push_bit 63 1 - 1"
definition PAGE_DOMAIN :: bytes where "PAGE_DOMAIN = ascii ''mega.mst2.metapage'' @ [0]"
definition PAGE_HEADER_LEN :: nat where "PAGE_HEADER_LEN = 20"
definition MTP2_MAGIC :: bytes where "MTP2_MAGIC = ascii ''MTP2''"

datatype entry_kind = Regular | Executable | Symlink | Directory

record entry =
  e_kind :: entry_kind
  e_name :: bytes
  e_size :: u64
  e_content_id :: digest
  e_child_root :: digest

record branch_child =
  label :: u8
  subtree_entries :: u64
  child_page_id :: digest

datatype page =
    Leaf "entry list"
  | Branch bytes "entry option" "branch_child list"

section \<open>Entries\<close>

definition entry_kind_from_u8 :: "u8 \<Rightarrow> entry_kind res" where
  "entry_kind_from_u8 v =
     (if v = 1 then Ok Regular
      else if v = 2 then Ok Executable
      else if v = 3 then Ok Symlink
      else if v = 4 then Ok Directory
      else Err (BadConstant ''entry kind''))"

fun kind_as_u8 :: "entry_kind \<Rightarrow> u8" where
  "kind_as_u8 Regular = 1"
| "kind_as_u8 Executable = 2"
| "kind_as_u8 Symlink = 3"
| "kind_as_u8 Directory = 4"

fun entry_kind_mode :: "entry_kind \<Rightarrow> u32" where
  "entry_kind_mode Regular = 0x1A4"
| "entry_kind_mode _ = 0x1ED"

definition entry_file :: "entry_kind \<Rightarrow> bytes \<Rightarrow> u64 \<Rightarrow> digest \<Rightarrow> entry res" where
  "entry_file kind name sz cid =
     (if kind = Directory then Crash
      else Ok \<lparr>e_kind = kind, e_name = name, e_size = sz, e_content_id = cid,
               e_child_root = replicate 32 0\<rparr>)"

definition entry_dir :: "bytes \<Rightarrow> digest \<Rightarrow> entry" where
  "entry_dir name root =
     \<lparr>e_kind = Directory, e_name = name, e_size = 0, e_content_id = replicate 32 0, e_child_root = root\<rparr>"

definition is_dir :: "entry \<Rightarrow> bool" where
  "is_dir e \<longleftrightarrow> e_kind e = Directory"

definition encoded_len :: "entry \<Rightarrow> nat" where
  "encoded_len e = (let base = 1 + 2 + length (e_name e) in if is_dir e then base + 32 else base + 8 + 32)"

definition entry_validate :: "entry \<Rightarrow> unit res" where
  "entry_validate e =
     and_then (validate_name (e_name e)) (\<lambda>_.
     if is_dir e then
       if e_child_root e = replicate 32 0 then Err (DigestMismatch ''directory child_root is all-zero'')
       else Ok ()
     else if e_name e = [dot] \<or> e_name e = [dot, dot] then Err (BadName ''dot entry'')
     else Ok ())"

definition entry_encode :: "entry \<Rightarrow> bytes res" where
  "entry_encode e =
     and_then (entry_validate e) (\<lambda>_.
     let out = [kind_as_u8 (e_kind e)];
         out = write_u16 out (of_nat (length (e_name e)));
         out = out @ e_name e
     in if is_dir e then Ok (out @ e_child_root e)
        else let out = write_u64 out (e_size e) in Ok (out @ e_content_id e))"

definition entry_decode :: "bytes \<Rightarrow> nat \<Rightarrow> (entry \<times> nat) res" where
  "entry_decode buf off =
     (if off \<ge> length buf then Err (Truncated ''entry kind'') else
      and_then (at_index buf off) (\<lambda>kb.
      and_then (entry_kind_from_u8 kb) (\<lambda>kind.
      let off = off + 1 in
      and_then (read_u16 buf off) (\<lambda>nl.
      let name_len = unat nl; off = off + 2 in
      and_then (ok_or (checked_add_usize name_len off) (Overflow ''name end'')) (\<lambda>name_end.
      and_then (ok_or (get_range buf off name_end) (Truncated ''entry name'')) (\<lambda>name.
      let off = name_end in
      and_then (validate_name name) (\<lambda>_.
      and_then
        (if kind = Directory then
           and_then (ok_or (get_range buf off (off + 32)) (Truncated ''child_root'')) (\<lambda>root.
           Ok (\<lparr>e_kind = kind, e_name = name, e_size = 0, e_content_id = replicate 32 0,
                e_child_root = root\<rparr>, off + 32))
         else
           and_then (read_u64 buf off) (\<lambda>sz.
           let off = off + 8 in
           and_then (ok_or (get_range buf off (off + 32)) (Truncated ''content_id'')) (\<lambda>cid.
           Ok (\<lparr>e_kind = kind, e_name = name, e_size = sz, e_content_id = cid,
                e_child_root = replicate 32 0\<rparr>, off + 32))))
        (\<lambda>(e, off).
      and_then (entry_validate e) (\<lambda>_. Ok (e, off))))))))))"

text \<open>What the type and the constructors fix: 32-byte digests, and the fields an entry does not carry
  are zero.\<close>

definition entry_wf :: "entry \<Rightarrow> bool" where
  "entry_wf e \<longleftrightarrow> length (e_content_id e) = 32 \<and> length (e_child_root e) = 32
     \<and> (if is_dir e then e_size e = 0 \<and> e_content_id e = replicate 32 0
        else e_child_root e = replicate 32 0)"

definition entry_bytes :: "entry \<Rightarrow> bytes" where
  "entry_bytes e = [kind_as_u8 (e_kind e)] @ le_bytes (of_nat (length (e_name e)) :: u16) @ e_name e
     @ (if is_dir e then e_child_root e else le_bytes (e_size e) @ e_content_id e)"

definition entry_valid :: "entry \<Rightarrow> bool" where
  "entry_valid e \<longleftrightarrow> canonical_name (e_name e) \<and> (is_dir e \<longrightarrow> e_child_root e \<noteq> replicate 32 0)"

lemma entry_validate_Ok [outcome_simps]: "entry_validate e = Inr u \<longleftrightarrow> entry_valid e"
  by (auto simp: entry_validate_def entry_valid_def outcome_simps canonical_name_def)

lemma clean_entry_validate [simp]: "clean (entry_validate e)"
  by (auto simp: entry_validate_def intro!: clean_and_then)

lemma entry_encode_Ok [outcome_simps]: "entry_encode e = Inr bs \<longleftrightarrow> entry_valid e \<and> bs = entry_bytes e"
  by (auto simp: entry_encode_def entry_bytes_def outcome_simps write_defs Let_def)

lemma clean_entry_encode [simp]: "clean (entry_encode e)"
  by (auto simp: entry_encode_def Let_def intro!: clean_and_then)

lemma length_entry_bytes:
  "entry_wf e \<Longrightarrow> length (entry_bytes e) = encoded_len e"
  by (auto simp: entry_bytes_def encoded_len_def entry_wf_def Let_def)

lemma entry_bytes_max: "entry_wf e \<Longrightarrow> entry_valid e \<Longrightarrow> length (entry_bytes e) \<le> 298"
  by (auto simp: length_entry_bytes encoded_len_def entry_valid_def canonical_name_def Let_def)

lemma name_len_fits: "entry_valid e \<Longrightarrow> unat (of_nat (length (e_name e)) :: u16) = length (e_name e)"
  by (simp add: entry_valid_def canonical_name_def unat_of_nat)

lemma entry_kind_from_u8_Ok [outcome_simps]: "entry_kind_from_u8 v = Inr k \<longleftrightarrow> v = kind_as_u8 k"
  by (cases k) (auto simp: entry_kind_from_u8_def)

lemma clean_entry_kind [simp]: "clean (entry_kind_from_u8 v)"
  by (simp add: entry_kind_from_u8_def)

lemma entry_decode_encode:
  assumes wf: "entry_wf e" and valid: "entry_valid e" and len: "length buf < 2 ^ 64"
    and fit: "off + length (entry_bytes e) \<le> length buf"
    and here: "sub off (length (entry_bytes e)) buf = entry_bytes e"
  shows "entry_decode buf off = Ok (e, off + length (entry_bytes e))"
proof -
  let ?n = "length (e_name e)" and ?b = "entry_bytes e"
  define pre post where "pre = take off buf" and "post = drop (off + length ?b) buf"
  have lp: "length pre = off" using fit by (simp add: pre_def)
  have "buf = pre @ sub off (length ?b) buf @ post"
    unfolding pre_def post_def sub_def by (metis append_take_drop_id drop_drop add.commute)
  then have buf: "buf = pre @ ?b @ post" using here by simp
  have l: "length (e_child_root e) = 32" "length (e_content_id e) = 32" using wf by (simp_all add: entry_wf_def)
  have lb: "length ?b = (if is_dir e then 35 + ?n else 43 + ?n)"
    using l by (simp add: entry_bytes_def)
  have name: "canonical_name (e_name e)" using valid by (simp add: entry_valid_def)
  have kind: "at_index buf off = (Ok (kind_as_u8 (e_kind e)) :: u8 res)"
    using fit lb lp unfolding buf entry_bytes_def by (simp add: at_index_def nth_append)
  have nl: "read_u16 buf (off + 1) = Ok (of_nat ?n)"
    unfolding read_u16_eq_Ok using fit lb by (simp add: buf entry_bytes_def lp sub_def)
  have nm: "get_range buf (off + 3) (off + 3 + ?n) = Some (e_name e)"
    using fit lb lp by (simp add: get_range_def) (simp add: buf entry_bytes_def lp sub_def)
  have cadd: "checked_add_usize ?n (off + 3) = Some (off + 3 + ?n)"
    using fit lb len by (simp add: checked_add_usize_def split: if_splits)
  have head_len: "length (pre @ [kind_as_u8 (e_kind e)] @ le_bytes (of_nat ?n :: u16) @ e_name e) = off + 3 + ?n"
    by (simp add: lp)
  have start: "\<not> length buf \<le> off" using fit lb by (simp split: if_splits)
  have v: "entry_validate e = Ok ()" "validate_name (e_name e) = Ok ()"
    using valid name by (simp_all add: outcome_simps)
  show ?thesis
  proof (cases "is_dir e")
    case True
    then have "buf = (pre @ [kind_as_u8 (e_kind e)] @ le_bytes (of_nat ?n :: u16) @ e_name e)
        @ e_child_root e @ post"
      by (simp add: buf entry_bytes_def)
    then have r: "get_range buf (off + 3 + ?n) (off + 3 + ?n + 32) = Some (e_child_root e)"
      using l lp by (metis get_range_at head_len)
    have e: "e = \<lparr>e_kind = Directory, e_name = e_name e, e_size = 0, e_content_id = replicate 32 0,
        e_child_root = e_child_root e\<rparr>"
      using wf True by (simp add: entry_wf_def is_dir_def)
    show ?thesis
      using start kind nl nm cadd v r True lb name_len_fits [OF valid] e [symmetric]
      by (simp add: entry_decode_def Let_def is_dir_def entry_kind_from_u8_def numeral_3_eq_3 add.assoc)
  next
    case False
    define head where "head = pre @ [kind_as_u8 (e_kind e)] @ le_bytes (of_nat ?n :: u16) @ e_name e"
    have split: "buf = head @ le_bytes (e_size e) @ (e_content_id e @ post)"
      "buf = (head @ le_bytes (e_size e)) @ e_content_id e @ post"
      using False by (simp_all add: buf entry_bytes_def head_def)
    have "sub (off + 3 + ?n) 8 buf = le_bytes (e_size e)"
      by (subst split(1), rule sub_append_at) (simp_all add: head_def lp)
    then have r: "read_u64 buf (off + 3 + ?n) = Ok (e_size e)"
      "get_range buf (off + 3 + ?n + 8) (off + 3 + ?n + 8 + 32) = Some (e_content_id e)"
      using fit lb False l by (simp add: read_u64_eq_Ok)
        (subst split(2), rule get_range_at, simp_all add: head_def lp l)
    have e: "e = \<lparr>e_kind = e_kind e, e_name = e_name e, e_size = e_size e, e_content_id = e_content_id e,
        e_child_root = replicate 32 0\<rparr>"
      using wf False by (simp add: entry_wf_def is_dir_def)
    have k: "entry_kind_from_u8 (kind_as_u8 (e_kind e)) = Ok (e_kind e)" by (simp add: outcome_simps)
    show ?thesis
      using start kind nl nm cadd v r False lb name_len_fits [OF valid] e [symmetric] k
      by (simp add: entry_decode_def Let_def is_dir_def numeral_3_eq_3 add.assoc)
  qed
qed

lemma entry_encode_decode:
  assumes "entry_decode buf off = Ok (e, off')"
  shows "entry_wf e" "entry_valid e" "off' = off + length (entry_bytes e)" "off' \<le> length buf"
    "sub off (length (entry_bytes e)) buf = entry_bytes e"
proof -
  from assms obtain nl :: u16 where k: "off < length buf" "buf ! off = kind_as_u8 (e_kind e)"
    and nl: "read_u16 buf (off + 1) = Ok nl"
    and nm: "off + 3 + unat nl \<le> length buf" "e_name e = sub (off + 3) (unat nl) buf"
    and v: "entry_valid e"
    and c: "if is_dir e then off + 3 + unat nl + 32 \<le> length buf \<and> e_size e = 0
         \<and> e_content_id e = replicate 32 0 \<and> e_child_root e = sub (off + 3 + unat nl) 32 buf
         \<and> off' = off + 3 + unat nl + 32
       else off + 3 + unat nl + 40 \<le> length buf \<and> le_bytes (e_size e) = sub (off + 3 + unat nl) 8 buf
         \<and> e_content_id e = sub (off + 3 + unat nl + 8) 32 buf \<and> e_child_root e = replicate 32 0
         \<and> off' = off + 3 + unat nl + 40"
    by (auto simp: entry_decode_def and_then_eq_Inr if_eq_Inr_Err ok_or_eq_Inr at_index_eq_Inr
        entry_kind_from_u8_Ok get_range_eq_Some read_u64_eq_Ok entry_validate_Ok checked_add_usize_def
        Let_def is_dir_def numeral_3_eq_3 add.assoc add.commute add.left_commute split: if_splits)
  have n: "length (e_name e) = unat nl" using nm by simp
  have f: "[kind_as_u8 (e_kind e)] = sub off 1 buf" "le_bytes nl = sub (off + 1) 2 buf"
    using k nl sub_single [of off buf] by (simp_all add: read_u16_eq_Ok)
  have eb: "entry_bytes e = sub off (if is_dir e then 35 + unat nl else 43 + unat nl) buf"
    using c unfolding entry_bytes_def n by (auto simp: f nm(2) sub_join_rest sub_joinI)
  show w: "entry_wf e" using c by (auto simp: entry_wf_def split: if_splits)
  have l: "length (entry_bytes e) = (if is_dir e then 35 + unat nl else 43 + unat nl)"
    using w n by (simp add: length_entry_bytes encoded_len_def)
  show "entry_valid e" by (rule v)
  show "off' = off + length (entry_bytes e)" "off' \<le> length buf"
    "sub off (length (entry_bytes e)) buf = entry_bytes e"
    using c l eb by (auto split: if_splits)
qed

lemma clean_entry_decode [simp]: "clean (entry_decode buf off)"
  unfolding entry_decode_def Let_def
  by (auto intro!: clean_and_then clean_at_index split: prod.split)

section \<open>The loops of the page codec\<close>

text \<open>Strictly ascending after an optional predecessor: what \<open>prev\<close> and \<open>entries.last()\<close> check.\<close>

fun ascending_from :: "('a::linorder) option \<Rightarrow> 'a list \<Rightarrow> bool" where
  "ascending_from p [] = True"
| "ascending_from p (x # xs) = ((case p of None \<Rightarrow> True | Some q \<Rightarrow> q < x) \<and> ascending_from (Some x) xs)"

lemma ascending_from_iff:
  "ascending_from p xs \<longleftrightarrow> sorted_wrt (<) xs \<and> (case p of None \<Rightarrow> True | Some q \<Rightarrow> \<forall>x\<in>set xs. q < x)"
proof (induction p xs rule: ascending_from.induct)
  case (2 p x xs)
  then show ?case by (cases p) (auto dest: less_trans)
qed (simp split: option.split)

fun leaf_loop :: "bytes \<Rightarrow> nat \<Rightarrow> nat \<Rightarrow> entry list \<Rightarrow> (entry list \<times> nat) res" where
  "leaf_loop payload 0 off entries = Ok (entries, off)"
| "leaf_loop payload (Suc n) off entries =
     and_then (entry_decode payload off) (\<lambda>(e, off).
     if entries \<noteq> [] \<and> e_name (last entries) \<ge> e_name e
     then Err (BadOrdering ''leaf entries must be strictly ascending by name bytes'')
     else leaf_loop payload n off (entries @ [e]))"

fun children_loop ::
  "bytes \<Rightarrow> nat \<Rightarrow> nat \<Rightarrow> u8 option \<Rightarrow> branch_child list \<Rightarrow> (branch_child list \<times> nat) res" where
  "children_loop payload 0 off prev_label children = Ok (children, off)"
| "children_loop payload (Suc n) off prev_label children =
     (if off \<ge> length payload then Err (Truncated ''branch child'') else
      and_then (at_index payload off) (\<lambda>lbl.
      let off = off + 1 in
      if (case prev_label of None \<Rightarrow> False | Some p \<Rightarrow> lbl \<le> p)
      then Err (BadOrdering ''branch child labels must be strictly ascending'') else
      and_then (read_u64 payload off) (\<lambda>subtree.
      if subtree = 0 then Err (BadOrdering ''branch child must be non-empty'') else
      let off = off + 8 in
      and_then (ok_or (get_range payload off (off + 32)) (Truncated ''child_page_id'')) (\<lambda>cid.
      children_loop payload n (off + 32) (Some lbl)
        (children @ [\<lparr>label = lbl, subtree_entries = subtree, child_page_id = cid\<rparr>])))))"

fun sum_counts :: "u64 \<Rightarrow> branch_child list \<Rightarrow> u64 res" where
  "sum_counts acc [] = Ok acc"
| "sum_counts acc (c # cs) =
     and_then (ok_or (checked_add64 acc (subtree_entries c)) (Overflow ''branch child counts''))
       (\<lambda>acc. sum_counts acc cs)"

fun leaf_payload :: "bytes option \<Rightarrow> bytes \<Rightarrow> entry list \<Rightarrow> bytes res" where
  "leaf_payload prev payload [] = Ok payload"
| "leaf_payload prev payload (e # es) =
     and_then (entry_validate e) (\<lambda>_.
     if (case prev of None \<Rightarrow> False | Some p \<Rightarrow> p \<ge> e_name e)
     then Err (BadOrdering ''leaf entries not strictly ascending'') else
     and_then (entry_encode e) (\<lambda>bs. leaf_payload (Some (e_name e)) (payload @ bs) es))"

fun children_payload :: "u8 option \<Rightarrow> u64 \<Rightarrow> bytes \<Rightarrow> branch_child list \<Rightarrow> (u64 \<times> bytes) res" where
  "children_payload prev_label acc payload [] = Ok (acc, payload)"
| "children_payload prev_label acc payload (c # cs) =
     (if (case prev_label of None \<Rightarrow> False | Some p \<Rightarrow> label c \<le> p)
      then Err (BadOrdering ''child labels not strictly ascending'') else
      if subtree_entries c = 0 then Err (BadOrdering ''branch child must be non-empty'') else
      and_then (ok_or (checked_add64 acc (subtree_entries c)) (Overflow ''sum'')) (\<lambda>acc.
      let payload = payload @ [label c];
          payload = write_u64 payload (subtree_entries c);
          payload = payload @ child_page_id c
      in children_payload (Some (label c)) acc payload cs))"

definition child_bytes :: "branch_child \<Rightarrow> bytes" where
  "child_bytes c = [label c] @ le_bytes (subtree_entries c) @ child_page_id c"

definition child_wf :: "branch_child \<Rightarrow> bool" where
  "child_wf c \<longleftrightarrow> length (child_page_id c) = 32"

definition counts_sum :: "branch_child list \<Rightarrow> nat" where
  "counts_sum cs = sum_list (map (\<lambda>c. unat (subtree_entries c)) cs)"

lemma length_child_bytes [simp]: "child_wf c \<Longrightarrow> length (child_bytes c) = 41"
  by (simp add: child_bytes_def child_wf_def)

lemma clean_leaf_loop [simp]: "clean (leaf_loop payload n off entries)"
  by (induction payload n off entries rule: leaf_loop.induct) (auto intro!: clean_and_then)

lemma clean_children_loop [simp]: "clean (children_loop payload n off prev children)"
  by (induction payload n off prev children rule: children_loop.induct)
    (auto simp: Let_def intro!: clean_and_then clean_at_index)

lemma clean_sum_counts [simp]: "clean (sum_counts s cs)"
  by (induction s cs rule: sum_counts.induct) (auto intro!: clean_and_then)

lemma clean_leaf_payload [simp]: "clean (leaf_payload prev payload es)"
  by (induction prev payload es rule: leaf_payload.induct) (auto intro!: clean_and_then)

lemma clean_children_payload [simp]: "clean (children_payload prev s payload cs)"
  by (induction prev s payload cs rule: children_payload.induct) (auto simp: Let_def intro!: clean_and_then)

lemma sum_counts_Ok:
  "sum_counts s cs = Inr t \<longleftrightarrow> unat s + counts_sum cs < 2 ^ 64 \<and> unat t = unat s + counts_sum cs"
proof (induction s cs rule: sum_counts.induct)
  case (1 s)
  then show ?case using unat_u64_bound by (auto simp: counts_sum_def word_unat_eq_iff)
next
  case (2 s c cs)
  show ?case
  proof (cases "checked_add64 s (subtree_entries c)")
    case None
    then have "2 ^ 64 \<le> unat s + unat (subtree_entries c)" by (simp add: checked_add64_def split: if_splits)
    with None show ?thesis by (simp add: counts_sum_def)
  next
    case (Some r)
    then have "unat s + unat (subtree_entries c) < 2 ^ 64" "unat r = unat s + unat (subtree_entries c)"
      by (simp_all add: checked_add64_eq_Some)
    with 2 Some show ?thesis by (auto simp: counts_sum_def)
  qed
qed

lemma leaf_payload_Ok:
  "leaf_payload prev payload es = Inr out \<longleftrightarrow>
     (\<forall>e\<in>set es. entry_valid e) \<and> ascending_from prev (map e_name es)
     \<and> out = payload @ concat (map entry_bytes es)"
proof (induction prev payload es rule: leaf_payload.induct)
  case (2 prev payload e es)
  have "(case prev of None \<Rightarrow> False | Some p \<Rightarrow> e_name e \<le> p) \<longleftrightarrow>
      \<not> (case prev of None \<Rightarrow> True | Some q \<Rightarrow> q < e_name e)"
    by (cases prev) auto
  with 2 show ?case by (auto simp: outcome_simps)
qed auto

lemma children_payload_Ok:
  "children_payload prev s payload cs = Inr (t, out) \<longleftrightarrow>
     (\<forall>c\<in>set cs. subtree_entries c \<noteq> 0) \<and> ascending_from prev (map label cs)
     \<and> unat s + counts_sum cs < 2 ^ 64 \<and> unat t = unat s + counts_sum cs
     \<and> out = payload @ concat (map child_bytes cs)"
proof (induction prev s payload cs rule: children_payload.induct)
  case (1 prev s payload)
  then show ?case using unat_u64_bound by (auto simp: counts_sum_def word_unat_eq_iff)
next
  case (2 prev s payload c cs)
  have p: "(case prev of None \<Rightarrow> False | Some p \<Rightarrow> label c \<le> p) \<longleftrightarrow>
      \<not> (case prev of None \<Rightarrow> True | Some q \<Rightarrow> q < label c)"
    by (cases prev) auto
  show ?case
  proof (cases "checked_add64 s (subtree_entries c)")
    case None
    then have "2 ^ 64 \<le> unat s + unat (subtree_entries c)" by (simp add: checked_add64_def split: if_splits)
    with None p show ?thesis by (auto simp: counts_sum_def outcome_simps)
  next
    case (Some r)
    then have r: "unat r = unat s + unat (subtree_entries c)" by (simp add: checked_add64_eq_Some)
    show ?thesis
    proof (cases "subtree_entries c \<noteq> 0 \<and> (case prev of None \<Rightarrow> True | Some q \<Rightarrow> q < label c)")
      case True
      with 2 Some p show ?thesis
        by (auto simp: counts_sum_def child_bytes_def write_defs r add.assoc)
    next
      case False
      with p show ?thesis by auto
    qed
  qed
qed

text \<open>The decoding loops read back the concatenated items, and only those.\<close>

definition prev_name :: "entry list \<Rightarrow> bytes option" where
  "prev_name es = (if es = [] then None else Some (e_name (last es)))"

definition entry_ok :: "entry \<Rightarrow> bool" where
  "entry_ok e \<longleftrightarrow> entry_wf e \<and> entry_valid e"

lemma prev_name_check:
  "es \<noteq> [] \<and> e_name (last es) \<ge> n \<longleftrightarrow> \<not> (case prev_name es of None \<Rightarrow> True | Some q \<Rightarrow> q < n)"
  by (auto simp: prev_name_def)

lemma prev_name_snoc [simp]: "prev_name (es @ [e]) = Some (e_name e)"
  by (simp add: prev_name_def)

lemma sub_prefix: "sub off (n + m) xs = a @ b \<Longrightarrow> length a = n \<Longrightarrow> off + (n + m) \<le> length xs \<Longrightarrow>
    sub off n xs = a \<and> sub (off + n) m xs = b"
  using sub_join [of off n xs m] by (metis append_eq_append_conv length_sub min.absorb1 le_diff_conv
      add.commute add_leD1 diff_add_inverse2 le_add1 le_trans add_le_imp_le_diff)

lemma leaf_loop_encode:
  assumes "length payload < 2 ^ 64" "\<forall>e\<in>set ds. entry_ok e" "ascending_from (prev_name es) (map e_name ds)"
    and "off + length (concat (map entry_bytes ds)) \<le> length payload"
    and "sub off (length (concat (map entry_bytes ds))) payload = concat (map entry_bytes ds)"
  shows "leaf_loop payload (length ds) off es = Ok (es @ ds, off + length (concat (map entry_bytes ds)))"
  using assms(2-5)
proof (induction ds arbitrary: off es)
  case (Cons e ds)
  let ?a = "entry_bytes e" and ?b = "concat (map entry_bytes ds)"
  have sp: "sub off (length ?a) payload = ?a" "sub (off + length ?a) (length ?b) payload = ?b"
    using sub_prefix [of off "length ?a" "length ?b" payload ?a ?b] Cons.prems(3,4) by simp_all
  have d: "entry_decode payload off = Ok (e, off + length ?a)"
    by (rule entry_decode_encode) (use Cons.prems assms(1) sp in \<open>auto simp: entry_ok_def\<close>)
  have "leaf_loop payload (length ds) (off + length ?a) (es @ [e])
      = Ok ((es @ [e]) @ ds, off + length ?a + length ?b)"
    using Cons.prems sp by (intro Cons.IH) (auto simp: add.assoc)
  with d Cons.prems(2) prev_name_check [of es "e_name e"] show ?case by (auto simp: add.assoc)
qed simp

lemma leaf_loop_decode:
  "leaf_loop payload n off es = Ok (es', off') \<Longrightarrow> off \<le> length payload \<Longrightarrow>
   \<exists>ds. es' = es @ ds \<and> length ds = n \<and> (\<forall>e\<in>set ds. entry_ok e)
     \<and> ascending_from (prev_name es) (map e_name ds)
     \<and> off' = off + length (concat (map entry_bytes ds)) \<and> off' \<le> length payload
     \<and> sub off (length (concat (map entry_bytes ds))) payload = concat (map entry_bytes ds)"
proof (induction n arbitrary: off es)
  case (Suc n)
  then obtain e off1 where d: "entry_decode payload off = Ok (e, off1)"
    and c: "\<not> (es \<noteq> [] \<and> e_name (last es) \<ge> e_name e)"
    and r: "leaf_loop payload n off1 (es @ [e]) = Ok (es', off')"
    by (auto simp: outcome_simps split: if_splits)
  note f = entry_encode_decode [OF d]
  from Suc.IH [OF r f(4)] obtain ds where ds: "es' = (es @ [e]) @ ds" "length ds = n" "\<forall>e\<in>set ds. entry_ok e"
    "ascending_from (Some (e_name e)) (map e_name ds)" "off' = off1 + length (concat (map entry_bytes ds))"
    "off' \<le> length payload"
    "sub off1 (length (concat (map entry_bytes ds))) payload = concat (map entry_bytes ds)"
    by auto
  show ?case
    using ds f c prev_name_check [of es "e_name e"]
      sub_join [of off "length (entry_bytes e)" payload "length (concat (map entry_bytes ds))"]
    by (intro exI [of _ "e # ds"]) (auto simp: entry_ok_def add.assoc)
qed auto

lemma child_eta: "\<lparr>label = label c, subtree_entries = subtree_entries c, child_page_id = child_page_id c\<rparr> = c"
  by simp

lemma children_loop_encode:
  assumes "\<forall>c\<in>set ds. child_wf c \<and> subtree_entries c \<noteq> 0" "ascending_from prev (map label ds)"
    and "off + 41 * length ds \<le> length payload"
    and "sub off (41 * length ds) payload = concat (map child_bytes ds)"
  shows "children_loop payload (length ds) off prev cs = Ok (cs @ ds, off + 41 * length ds)"
  using assms
proof (induction ds arbitrary: off prev cs)
  case (Cons c ds)
  let ?b = "concat (map child_bytes ds)"
  have wf: "child_wf c" "length (child_bytes c) = 41" using Cons.prems(1) by simp_all
  have sp: "sub off 41 payload = child_bytes c" "sub (off + 41) (41 * length ds) payload = ?b"
    using sub_prefix [of off 41 "41 * length ds" payload "child_bytes c" ?b] Cons.prems(3,4) wf by simp_all
  have one: "sub off 1 payload = [label c]" "sub (off + 1) 40 payload = le_bytes (subtree_entries c) @ child_page_id c"
    using sub_prefix [of off 1 40 payload "[label c]"] sp(1) Cons.prems(3) by (simp_all add: child_bytes_def)
  have two: "sub (off + 1) 8 payload = le_bytes (subtree_entries c)" "sub (off + 1 + 8) 32 payload = child_page_id c"
    using sub_prefix [of "off + 1" 8 32 payload "le_bytes (subtree_entries c)"] one(2) Cons.prems(3) by simp_all
  have lb: "payload ! off = label c" using one(1) Cons.prems(3) sub_single [of off payload] by simp
  have lab: "\<not> (case prev of None \<Rightarrow> False | Some p \<Rightarrow> label c \<le> p)" using Cons.prems(2) by (cases prev) auto
  have "children_loop payload (length ds) (off + 41) (Some (label c)) (cs @ [c])
      = Ok ((cs @ [c]) @ ds, off + 41 + 41 * length ds)"
    using Cons.prems sp by (intro Cons.IH) auto
  with lb lab two Cons.prems show ?case
    by (simp add: at_index_def Let_def read_u64_eq_Ok [THEN iffD2] get_range_def child_eta add.assoc add.commute
        add.left_commute)
qed simp

lemma children_loop_decode:
  "children_loop payload n off prev cs = Ok (cs', off') \<Longrightarrow> off \<le> length payload \<Longrightarrow>
   \<exists>ds. cs' = cs @ ds \<and> length ds = n \<and> (\<forall>c\<in>set ds. child_wf c \<and> subtree_entries c \<noteq> 0)
     \<and> ascending_from prev (map label ds) \<and> off' = off + 41 * n \<and> off' \<le> length payload
     \<and> sub off (41 * n) payload = concat (map child_bytes ds)"
proof (induction n arbitrary: off prev cs)
  case (Suc n)
  from Suc.prems(1) obtain x where
    x: "\<not> (case prev of None \<Rightarrow> False | Some p \<Rightarrow> payload ! off \<le> p)" "read_u64 payload (off + 1) = Ok x"
      "x \<noteq> 0" "off + 41 \<le> length payload"
    and rx: "children_loop payload n (off + 41) (Some (payload ! off)) (cs @ [\<lparr>label = payload ! off,
      subtree_entries = x, child_page_id = sub (off + 9) 32 payload\<rparr>]) = Ok (cs', off')"
    by (auto simp: and_then_eq_Inr ok_or_eq_Inr at_index_eq_Inr get_range_eq_Some Let_def add.commute
        split: if_splits)
  define c where "c = \<lparr>label = payload ! off, subtree_entries = x, child_page_id = sub (off + 9) 32 payload\<rparr>"
  have c: "payload ! off = label c" "\<not> (case prev of None \<Rightarrow> False | Some p \<Rightarrow> label c \<le> p)"
    "sub (off + 1) 8 payload = le_bytes (subtree_entries c)" "subtree_entries c \<noteq> 0"
    "child_page_id c = sub (off + 1 + 8) 32 payload" "off + 41 \<le> length payload"
    and r: "children_loop payload n (off + 41) (Some (label c)) (cs @ [c]) = Ok (cs', off')"
    using x rx by (auto simp: c_def read_u64_eq_Ok add.commute split: option.splits)
  from Suc.IH [OF r c(6)] obtain ds where ds: "cs' = (cs @ [c]) @ ds" "length ds = n"
    "\<forall>c\<in>set ds. child_wf c \<and> subtree_entries c \<noteq> 0" "ascending_from (Some (label c)) (map label ds)"
    "off' = off + 41 + 41 * n" "off' \<le> length payload"
    "sub (off + 41) (41 * n) payload = concat (map child_bytes ds)"
    by blast
  have "child_bytes c = sub off 1 payload @ sub (off + 1) 8 payload @ sub (off + 1 + 8) 32 payload"
    using c sub_single [of off payload] by (simp add: child_bytes_def)
  also have "\<dots> = sub off 41 payload" by (simp add: sub_joinI)
  finally have "child_bytes c = sub off 41 payload" .
  moreover have "sub off 41 payload @ sub (off + 41) (41 * n) payload = sub off (41 * Suc n) payload"
    by (simp add: sub_joinI)
  moreover have "child_wf c" using c by (simp add: child_wf_def)
  ultimately show ?case
    using ds c by (intro exI [of _ "c # ds"]) (auto split: option.split)
qed auto

section \<open>Pages\<close>

definition page_id :: "hash \<Rightarrow> bytes \<Rightarrow> digest" where
  "page_id H page_bytes = sha256 H [PAGE_DOMAIN, page_bytes]"

text \<open>The optional terminal entry, the two arms of the \<open>match page_kind\<close> of \<open>Page::decode\<close>, then the function itself.\<close>

definition leaf_page_decode :: "nat \<Rightarrow> u64 \<Rightarrow> bytes \<Rightarrow> (page \<times> u64) res" where
  "leaf_page_decode n entry_total payload =
     (if n > LEAF_MAX_ENTRIES then Err (BadLength ''leaf over 128 entries'') else
      if entry_total \<noteq> of_nat n then Err (BadOrdering ''leaf total_entries must equal n'') else
      and_then (leaf_loop payload n 0 []) (\<lambda>(entries, off).
      if off \<noteq> length payload then Err (BadLength ''trailing bytes in leaf payload'') else
      Ok (Leaf entries, entry_total)))"

definition read_terminal :: "bytes \<Rightarrow> nat \<Rightarrow> u8 \<Rightarrow> bytes \<Rightarrow> (entry option \<times> nat) res" where
  "read_terminal payload off has_terminal prefix =
     (if has_terminal = 1 then
        and_then (entry_decode payload off) (\<lambda>(e, off).
        if e_name e \<noteq> prefix then Err (BadOrdering ''terminal entry name must equal prefix'')
        else Ok (Some e, off))
      else Ok (None, off))"

definition branch_page_decode :: "nat \<Rightarrow> u64 \<Rightarrow> bytes \<Rightarrow> (page \<times> u64) res" where
  "branch_page_decode n entry_total payload =
     (let off = 0 in
      and_then (read_u16 payload off) (\<lambda>pl.
      let prefix_len = unat pl; off = off + 2 in
      if prefix_len > MAX_DEPTH then Err (BadLength ''branch prefix over 255 bytes'') else
      and_then (ok_or (get_range payload off (off + prefix_len)) (Truncated ''branch prefix'')) (\<lambda>prefix.
      let off = off + prefix_len in
      if off \<ge> length payload then Err (Truncated ''has_terminal'') else
      and_then (at_index payload off) (\<lambda>has_terminal.
      let off = off + 1 in
      if has_terminal > 1 then Err (BadConstant ''has_terminal must be 0 or 1'') else
      and_then (read_terminal payload off has_terminal prefix) (\<lambda>(terminal, off).
      if n > BRANCH_MAX_CHILDREN then Err (BadLength ''branch over 256 children'') else
      and_then (children_loop payload n off None []) (\<lambda>(children, off).
      if off \<noteq> length payload then Err (BadLength ''trailing bytes in branch payload'') else
      if length children + unat has_terminal < 2
      then Err (BadOrdering ''branch needs at least two groups (terminal counts as one)'') else
      and_then (sum_counts 0 children) (\<lambda>declared.
      and_then (ok_or (checked_add64 declared (ucast has_terminal)) (Overflow ''total_entries'')) (\<lambda>expected.
      if expected \<noteq> entry_total
      then Err (BadOrdering ''branch total_entries != terminal + sum(children)'') else
      Ok (Branch prefix terminal children, entry_total)))))))))"

definition page_decode :: "bytes \<Rightarrow> (page \<times> u64) res" where
  "page_decode page_bytes =
     (if length page_bytes < PAGE_HEADER_LEN then Err (Truncated ''page header'') else
      if length page_bytes > PAGE_MAX_BYTES then Err (BadLength ''page over 16KiB'') else
      and_then (slice_of page_bytes 0 4) (\<lambda>magic.
      if magic \<noteq> MTP2_MAGIC then Err (BadConstant ''MTP2 magic'') else
      and_then (at_index page_bytes 4) (\<lambda>page_kind.
      and_then (at_index page_bytes 5) (\<lambda>flags.
      if flags \<noteq> 0 then Err (BadConstant ''page flags must be zero'') else
      and_then (read_u16 page_bytes 6) (\<lambda>n16.
      let n = unat n16 in
      and_then (read_u64 page_bytes 8) (\<lambda>entry_total.
      if entry_total > MAX_TOTAL_ENTRIES then Err (BadLength ''total_entries over 2^63-1'') else
      and_then (read_u32 page_bytes 16) (\<lambda>plen.
      if length page_bytes \<noteq> PAGE_HEADER_LEN + unat plen
      then Err (BadLength ''payload_len must cover exactly the page'') else
      and_then (slice_of page_bytes PAGE_HEADER_LEN (length page_bytes)) (\<lambda>payload.
      if page_kind = 0 then leaf_page_decode n entry_total payload
      else if page_kind = 1 then branch_page_decode n entry_total payload
      else Err (BadConstant ''page_kind'')))))))))"

definition page_encode :: "page \<Rightarrow> bytes res" where
  "page_encode p =
     and_then
       (case p of
          Leaf entries \<Rightarrow>
            if length entries > LEAF_MAX_ENTRIES then Err (BadLength ''leaf over 128 entries'') else
            and_then (leaf_payload None [] entries) (\<lambda>payload.
            Ok (0, length entries, of_nat (length entries), payload))
        | Branch prefix terminal children \<Rightarrow>
            if length prefix > MAX_DEPTH then Err (BadLength ''branch prefix over 255 bytes'') else
            if length children > BRANCH_MAX_CHILDREN then Err (BadLength ''branch over 256 children'') else
            let payload = write_u16 [] (of_nat (length prefix)); payload = payload @ prefix in
            and_then
              (case terminal of
                 Some t \<Rightarrow>
                   and_then (entry_validate t) (\<lambda>_.
                   if e_name t \<noteq> prefix then Err (BadOrdering ''terminal name must equal prefix'') else
                   let payload = payload @ [1] in
                   and_then (entry_encode t) (\<lambda>bs. Ok (payload @ bs)))
               | None \<Rightarrow> Ok (payload @ [0])) (\<lambda>payload.
            and_then (children_payload None 0 payload children) (\<lambda>(acc, payload).
            if length children + (if terminal \<noteq> None then 1 else 0) < 2
            then Err (BadOrdering ''branch needs at least two groups'') else
            and_then (ok_or (checked_add64 acc (if terminal \<noteq> None then 1 else 0)) (Overflow ''total_entries''))
              (\<lambda>entry_total.
            if entry_total > MAX_TOTAL_ENTRIES then Err (BadLength ''total_entries over 2^63-1'') else
            Ok (1, length children, entry_total, payload)))))
       (\<lambda>(kind, n, entry_total, payload).
     let out = MTP2_MAGIC;
         out = out @ [kind];
         out = out @ [0];
         out = write_u16 out (of_nat n);
         out = write_u64 out entry_total;
         out = write_u32 out (of_nat (length payload));
         out = out @ payload
     in if length out > PAGE_MAX_BYTES then Err (BadLength ''page over 16KiB'') else Ok out)"

fun sum_u64 :: "u64 \<Rightarrow> u64 list \<Rightarrow> u64 res" where
  "sum_u64 acc [] = Ok acc"
| "sum_u64 acc (x # xs) = and_then (add64 acc x) (\<lambda>acc. sum_u64 acc xs)"

definition total_entries :: "page \<Rightarrow> u64 res" where
  "total_entries p =
     (case p of
        Leaf entries \<Rightarrow> Ok (of_nat (length entries))
      | Branch prefix terminal children \<Rightarrow>
          and_then (sum_u64 0 (map subtree_entries children)) (\<lambda>acc.
          add64 (if terminal = None then 0 else 1) acc))"

subsection \<open>What the encoder accepts and produces\<close>

definition page_wf :: "page \<Rightarrow> bool" where
  "page_wf p = (case p of
     Leaf es \<Rightarrow> \<forall>e\<in>set es. entry_wf e
   | Branch _ t cs \<Rightarrow> (\<forall>e\<in>set_option t. entry_wf e) \<and> (\<forall>c\<in>set cs. child_wf c))"

definition page_body :: "page \<Rightarrow> bytes" where
  "page_body p = (case p of
     Leaf es \<Rightarrow> concat (map entry_bytes es)
   | Branch prefix t cs \<Rightarrow> le_bytes (of_nat (length prefix) :: u16) @ prefix
       @ (case t of None \<Rightarrow> [0] | Some e \<Rightarrow> 1 # entry_bytes e) @ concat (map child_bytes cs))"

definition page_count_field :: "page \<Rightarrow> nat" where
  "page_count_field p = (case p of Leaf es \<Rightarrow> length es | Branch _ _ cs \<Rightarrow> length cs)"

definition page_total :: "page \<Rightarrow> nat" where
  "page_total p = (case p of Leaf es \<Rightarrow> length es
     | Branch _ t cs \<Rightarrow> counts_sum cs + (if t = None then 0 else 1))"

definition page_kind_field :: "page \<Rightarrow> u8" where
  "page_kind_field p = (case p of Leaf _ \<Rightarrow> 0 | Branch _ _ _ \<Rightarrow> 1)"

definition page_bytes :: "page \<Rightarrow> bytes" where
  "page_bytes p = MTP2_MAGIC @ [page_kind_field p] @ [0] @ le_bytes (of_nat (page_count_field p) :: u16)
     @ le_bytes (of_nat (page_total p) :: u64) @ le_bytes (of_nat (length (page_body p)) :: u32) @ page_body p"

definition page_shape_ok :: "page \<Rightarrow> bool" where
  "page_shape_ok p = (case p of
     Leaf es \<Rightarrow> length es \<le> 128 \<and> (\<forall>e\<in>set es. entry_valid e) \<and> ascending_from None (map e_name es)
   | Branch prefix t cs \<Rightarrow> length prefix \<le> 255 \<and> length cs \<le> 256
       \<and> (\<forall>e\<in>set_option t. entry_valid e \<and> e_name e = prefix)
       \<and> (\<forall>c\<in>set cs. subtree_entries c \<noteq> 0) \<and> ascending_from None (map label cs)
       \<and> 2 \<le> length cs + (if t = None then 0 else 1) \<and> page_total p < 2 ^ 63)"

definition page_valid :: "page \<Rightarrow> bool" where
  "page_valid p \<longleftrightarrow> page_shape_ok p \<and> 20 + length (page_body p) \<le> 16384"

lemma length_MTP2_MAGIC [simp]: "length MTP2_MAGIC = 4"
  by (simp add: MTP2_MAGIC_def ascii_def)

lemma length_page_bytes [simp]: "length (page_bytes p) = 20 + length (page_body p)"
  by (simp add: page_bytes_def)

lemma unat_max_total: "unat MAX_TOTAL_ENTRIES = 2 ^ 63 - 1"
  by (simp add: MAX_TOTAL_ENTRIES_def push_bit_eq_mult)

lemma of_nat_unat_u64: "unat (x :: u64) = n \<Longrightarrow> x = of_nat n"
  by auto

lemma page_encode_leaf:
  "page_encode (Leaf es) = Inr bs \<longleftrightarrow> page_valid (Leaf es) \<and> bs = page_bytes (Leaf es)"
  by (auto simp: page_encode_def page_valid_def page_shape_ok_def page_bytes_def page_body_def
      page_count_field_def page_total_def page_kind_field_def and_then_eq_Inr leaf_payload_Ok
      LEAF_MAX_ENTRIES_def PAGE_MAX_BYTES_def write_defs Let_def split: if_splits)

lemma terminal_payload:
  "(case t of
      Some e \<Rightarrow> and_then (entry_validate e) (\<lambda>_.
        if e_name e \<noteq> prefix then Err (BadOrdering ''terminal name must equal prefix'') else
        let payload = pl @ [1] in and_then (entry_encode e) (\<lambda>bs. Ok (payload @ bs)))
    | None \<Rightarrow> Ok (pl @ [0])) = (Inr out :: bytes res) \<longleftrightarrow>
   (\<forall>e\<in>set_option t. entry_valid e \<and> e_name e = prefix)
   \<and> out = pl @ (case t of None \<Rightarrow> [0] | Some e \<Rightarrow> 1 # entry_bytes e)"
  by (cases t) (auto simp: outcome_simps Let_def)

lemma branch_total_check:
  assumes "unat acc = n" "n < 2 ^ 64" "k \<le> (1::nat)" "unat w = k"
  shows "(\<exists>x. checked_add64 acc w = Some x \<and> \<not> x > MAX_TOTAL_ENTRIES \<and> P x)
    \<longleftrightarrow> n + k < 2 ^ 63 \<and> P (of_nat (n + k))"
proof
  assume "\<exists>x. checked_add64 acc w = Some x \<and> \<not> x > MAX_TOTAL_ENTRIES \<and> P x"
  then obtain x where x: "checked_add64 acc w = Some x" "\<not> x > MAX_TOTAL_ENTRIES" "P x" by blast
  then have "unat x = n + k" using assms by (simp add: checked_add64_eq_Some)
  moreover from this have "x = of_nat (n + k)" by (rule of_nat_unat_u64)
  moreover have "unat x \<le> 2 ^ 63 - 1" using x(2) by (simp add: word_less_nat_alt unat_max_total not_less)
  ultimately show "n + k < 2 ^ 63 \<and> P (of_nat (n + k))" using x(3) by simp
next
  assume a: "n + k < 2 ^ 63 \<and> P (of_nat (n + k))"
  then have u: "unat (of_nat (n + k) :: u64) = n + k" by (intro unat_of_nat_u64) simp
  then have "checked_add64 acc w = Some (of_nat (n + k))" using a assms by (simp add: checked_add64_eq_Some)
  moreover have "\<not> (of_nat (n + k) :: u64) > MAX_TOTAL_ENTRIES"
    using a u by (simp add: word_less_nat_alt unat_max_total)
  ultimately show "\<exists>x. checked_add64 acc w = Some x \<and> \<not> x > MAX_TOTAL_ENTRIES \<and> P x" using a by blast
qed

lemma page_encode_branch:
  "page_encode (Branch prefix t cs) = Inr bs \<longleftrightarrow>
     page_valid (Branch prefix t cs) \<and> bs = page_bytes (Branch prefix t cs)"
proof -
  let ?p = "Branch prefix t cs" and ?k = "if t \<noteq> None then 1 else (0::nat)"
    and ?w = "if t \<noteq> None then 1 else (0::u64)"
    and ?head = "le_bytes (of_nat (length prefix) :: u16) @ prefix"
  let ?ok = "(\<forall>c\<in>set cs. subtree_entries c \<noteq> 0) \<and> ascending_from None (map label cs)"
  let ?body = "?head @ (case t of None \<Rightarrow> [0] | Some e \<Rightarrow> 1 # entry_bytes e)"
  have body: "page_body ?p = ?body @ concat (map child_bytes cs)" by (simp add: page_body_def)
  have acc: "children_payload None 0 ?body cs = Inr (acc, out) \<longleftrightarrow>
      ?ok \<and> counts_sum cs < 2 ^ 64 \<and> unat acc = counts_sum cs \<and> out = page_body ?p" for acc out
    by (simp add: children_payload_Ok body)
  have tot: "(\<exists>x. checked_add64 acc ?w = Some x \<and> \<not> x > MAX_TOTAL_ENTRIES \<and> P x)
      \<longleftrightarrow> page_total ?p < 2 ^ 63 \<and> P (of_nat (page_total ?p))"
    if "unat acc = counts_sum cs" "counts_sum cs < 2 ^ 64" for acc P
    using branch_total_check [OF that, of ?k ?w P] by (simp add: page_total_def)
  let ?out = "\<lambda>n pl. MTP2_MAGIC @ [1] @ [0] @ le_bytes (of_nat (length cs) :: u16) @ le_bytes (n :: u64)
      @ le_bytes (of_nat (length pl) :: u32) @ pl"
  let ?fin = "\<lambda>n pl. \<not> PAGE_MAX_BYTES < length (?out n pl) \<and> Inr (?out n pl) = (Inr bs :: bytes res)"
  let ?pre = "\<not> MAX_DEPTH < length prefix \<and> \<not> BRANCH_MAX_CHILDREN < length cs
      \<and> (\<forall>e\<in>set_option t. entry_valid e \<and> e_name e = prefix) \<and> \<not> length cs + ?k < 2"
  have "page_encode ?p = Inr bs \<longleftrightarrow> ?pre \<and> (\<exists>acc pl. children_payload None 0 ?body cs = Inr (acc, pl)
      \<and> (\<exists>x. checked_add64 acc ?w = Some x \<and> \<not> x > MAX_TOTAL_ENTRIES \<and> ?fin x pl))"
    apply (simp only: page_encode_def page.case and_then_eq_Inr if_eq_Inr_Err Let_def terminal_payload [unfolded Let_def]
      write_defs split_paired_Ex case_prod_conv ok_or_eq_Inr)
    apply (simp only: append_Nil append_assoc sum.inject prod.inject)
    apply (rule iffI)
    apply (elim exE conjE)
    apply hypsubst
    apply (intro exI conjI)
    apply (assumption | rule refl)+
    apply (elim exE conjE)
    apply (intro exI conjI)
    apply (assumption | rule refl)+
    done
  also have "\<dots> \<longleftrightarrow> ?pre \<and> ?ok \<and> page_total ?p < 2 ^ 63 \<and> ?fin (of_nat (page_total ?p)) (page_body ?p)"
  proof -
    have "counts_sum cs < 2 ^ 64 \<Longrightarrow> \<exists>a :: u64. unat a = counts_sum cs"
      by (rule exI [of _ "of_nat (counts_sum cs)"]) (simp only: unat_of_nat_u64)
    moreover have "page_total ?p < 2 ^ 63 \<Longrightarrow> counts_sum cs < 2 ^ 64" by (simp add: page_total_def)
    ultimately have c: "(\<exists>a :: u64. counts_sum cs < 2 ^ 64 \<and> unat a = counts_sum cs) \<longleftrightarrow> True"
      if "page_total ?p < 2 ^ 63" using that by simp
    have "(\<exists>acc pl. (?ok \<and> counts_sum cs < 2 ^ 64 \<and> unat acc = counts_sum cs \<and> pl = page_body ?p)
        \<and> (\<exists>x. checked_add64 acc ?w = Some x \<and> \<not> x > MAX_TOTAL_ENTRIES \<and> ?fin x pl))
      \<longleftrightarrow> ?ok \<and> (\<exists>acc. (counts_sum cs < 2 ^ 64 \<and> unat acc = counts_sum cs)
        \<and> (\<exists>x. checked_add64 acc ?w = Some x \<and> \<not> x > MAX_TOTAL_ENTRIES \<and> ?fin x (page_body ?p)))"
      by (simp only: ex_simps simp_thms conj_assoc)
    also have "\<dots> \<longleftrightarrow> ?ok \<and> (\<exists>acc :: u64. (counts_sum cs < 2 ^ 64 \<and> unat acc = counts_sum cs)
        \<and> page_total ?p < 2 ^ 63 \<and> ?fin (of_nat (page_total ?p)) (page_body ?p))"
      using tot by (simp cong: conj_cong)
    also have "\<dots> \<longleftrightarrow> ?ok \<and> page_total ?p < 2 ^ 63 \<and> ?fin (of_nat (page_total ?p)) (page_body ?p)"
      using c by (simp only: ex_simps) blast
    finally show ?thesis unfolding acc by (simp only:)
  qed
  also have "\<dots> \<longleftrightarrow> page_valid ?p \<and> bs = page_bytes ?p"
    by (auto simp: page_valid_def page_shape_ok_def page_bytes_def page_count_field_def page_kind_field_def
        MAX_DEPTH_def BRANCH_MAX_CHILDREN_def PAGE_MAX_BYTES_def Suc_le_eq)
  finally show ?thesis .
qed

lemma page_encode_Ok: "page_encode p = Inr bs \<longleftrightarrow> page_valid p \<and> bs = page_bytes p"
  by (cases p) (simp_all only: page_encode_leaf page_encode_branch)

lemma clean_page_encode [simp]: "clean (page_encode p)"
  by (auto simp: page_encode_def Let_def intro!: clean_and_then split: page.split option.split prod.split)

lemma entry_ok_split: "(\<forall>e\<in>A. entry_ok e) \<longleftrightarrow> (\<forall>e\<in>A. entry_wf e) \<and> (\<forall>e\<in>A. entry_valid e)"
  by (auto simp: entry_ok_def)

lemma leaf_page_decode_Ok:
  assumes "length payload < 2 ^ 64"
  shows "leaf_page_decode n tot payload = Inr (p, tot') \<longleftrightarrow>
    (\<exists>es. p = Leaf es \<and> tot' = tot \<and> length es = n \<and> n \<le> 128 \<and> tot = of_nat n \<and> (\<forall>e\<in>set es. entry_ok e)
      \<and> ascending_from None (map e_name es) \<and> payload = concat (map entry_bytes es))"
    (is "?l \<longleftrightarrow> ?r")
proof
  assume ?l
  then obtain es where l: "leaf_loop payload n 0 [] = Ok (es, length payload)" "n \<le> 128" "tot = of_nat n"
    "p = Leaf es" "tot' = tot"
    by (auto simp: leaf_page_decode_def LEAF_MAX_ENTRIES_def and_then_eq_Inr split: if_splits)
  show ?r using leaf_loop_decode [OF l(1)] l by (auto simp: prev_name_def)
next
  assume ?r
  then obtain es where r: "p = Leaf es" "tot' = tot" "length es = n" "n \<le> 128" "tot = of_nat n"
    "\<forall>e\<in>set es. entry_ok e" "ascending_from None (map e_name es)" "payload = concat (map entry_bytes es)"
    by blast
  have "leaf_loop payload n 0 [] = Ok (es, length payload)"
    using leaf_loop_encode [OF assms r(6), of "[]" 0] r by (simp add: prev_name_def)
  with r show ?l by (simp add: leaf_page_decode_def LEAF_MAX_ENTRIES_def)
qed

lemma clean_leaf_page_decode [simp]: "clean (leaf_page_decode n tot payload)"
  by (auto simp: leaf_page_decode_def intro!: clean_and_then)

lemma clean_read_terminal [simp]: "clean (read_terminal payload off h prefix)"
  by (auto simp: read_terminal_def intro!: clean_and_then)

lemma clean_branch_page_decode [simp]: "clean (branch_page_decode n tot payload)"
  by (auto simp: branch_page_decode_def Let_def intro!: clean_and_then clean_at_index)

lemma clean_page_decode [simp]: "clean (page_decode bs)"
  by (auto simp: page_decode_def Let_def PAGE_HEADER_LEN_def intro!: clean_and_then clean_at_index clean_slice_of)

definition branch_ok :: "nat \<Rightarrow> bytes \<Rightarrow> entry option \<Rightarrow> branch_child list \<Rightarrow> bool" where
  "branch_ok n prefix t cs \<longleftrightarrow> length prefix \<le> 255 \<and> length cs = n \<and> n \<le> 256
     \<and> (\<forall>e\<in>set_option t. entry_ok e \<and> e_name e = prefix)
     \<and> (\<forall>c\<in>set cs. child_wf c \<and> subtree_entries c \<noteq> 0) \<and> ascending_from None (map label cs)
     \<and> 2 \<le> n + (if t = None then 0 else 1)"

lemma terminal_flag: "\<not> (h :: u8) > 1 \<Longrightarrow> h = 0 \<or> h = 1"
  by (simp add: word_less_nat_alt word_unat_eq_iff) linarith

lemma read_terminal_Ok:
  assumes "h = (if t = None then 0 else 1)" "length payload < 2 ^ 64"
    and "\<forall>e\<in>set_option t. entry_ok e \<and> e_name e = prefix"
    and "bs = (case t of None \<Rightarrow> [] | Some e \<Rightarrow> entry_bytes e)"
    and "off + length bs \<le> length payload" "sub off (length bs) payload = bs"
  shows "read_terminal payload off h prefix = Ok (t, off + length bs)"
  using assms entry_decode_encode [of _ payload off]
  by (cases t) (auto simp: read_terminal_def entry_ok_def)

lemma read_terminal_decode:
  assumes "read_terminal payload off h prefix = Ok (t, off')" "\<not> h > 1" "off \<le> length payload"
  shows "h = (if t = None then 0 else 1)" "\<forall>e\<in>set_option t. entry_ok e \<and> e_name e = prefix"
    "off' = off + length (case t of None \<Rightarrow> [] | Some e \<Rightarrow> entry_bytes e)" "off' \<le> length payload"
    "sub off (length (case t of None \<Rightarrow> [] | Some e \<Rightarrow> entry_bytes e)) payload
      = (case t of None \<Rightarrow> [] | Some e \<Rightarrow> entry_bytes e)"
  using assms terminal_flag [OF assms(2)] entry_encode_decode [of payload off]
  by (auto simp: read_terminal_def and_then_eq_Inr entry_ok_def split: if_splits)

lemma length_concat_children:
  "\<forall>c\<in>set cs. child_wf c \<Longrightarrow> length (concat (map child_bytes cs)) = 41 * length cs"
  by (induction cs) auto

lemma branch_decode_body:
  assumes "branch_page_decode n tot payload = Inr (p, tot')"
  shows "\<exists>prefix t cs. p = Branch prefix t cs \<and> tot' = tot \<and> branch_ok n prefix t cs
     \<and> unat tot = page_total p \<and> payload = page_body p"
proof -
  from assms(1) obtain pl :: u16 and t off cs declared where
    pl: "read_u16 payload 0 = Ok pl" "unat pl \<le> 255" "2 + unat pl < length payload"
    and ht0: "payload ! (2 + unat pl) \<le> 1"
    and t: "read_terminal payload (2 + unat pl + 1) (payload ! (2 + unat pl)) (sub 2 (unat pl) payload) = Ok (t, off)"
    and cs: "children_loop payload n off None [] = Ok (cs, length payload)" "n \<le> 256"
    and two: "2 \<le> length cs + unat (payload ! (2 + unat pl))"
    and declared: "sum_counts 0 cs = Ok declared" "checked_add64 declared (ucast (payload ! (2 + unat pl))) = Some tot"
    and p: "p = Branch (sub 2 (unat pl) payload) t cs" "tot' = tot"
    unfolding branch_page_decode_def
    apply (simp only: and_then_eq_Inr if_eq_Inr_Err ok_or_eq_Inr at_index_eq_Inr get_range_eq_Some
        Let_def MAX_DEPTH_def BRANCH_MAX_CHILDREN_def split_paired_Ex case_prod_conv sum.inject prod.inject add_0
        diff_add_inverse not_less not_le not_not)
    apply (elim exE conjE)
    apply hypsubst
    apply (rule that)
    apply (assumption | rule refl)+
    apply simp_all
    done
  let ?h = "payload ! (2 + unat pl)" and ?bs = "case t of None \<Rightarrow> [] | Some e \<Rightarrow> entry_bytes e"
  from ht0 have ht: "\<not> ?h > 1" by (simp add: not_less)
  note te = read_terminal_decode [OF t ht] 
  have te': "?h = (if t = None then 0 else 1)" "\<forall>e\<in>set_option t. entry_ok e \<and> e_name e = sub 2 (unat pl) payload"
    "off = 2 + unat pl + 1 + length ?bs" "off \<le> length payload" "sub (2 + unat pl + 1) (length ?bs) payload = ?bs"
    using te pl(3) by simp_all
  from children_loop_decode [OF cs(1) te'(4)] have ch: "length cs = n"
    "\<forall>c\<in>set cs. child_wf c \<and> subtree_entries c \<noteq> 0" "ascending_from None (map label cs)"
    "off + 41 * n = length payload" "sub off (41 * n) payload = concat (map child_bytes cs)"
    by auto
  have plen: "length (sub 2 (unat pl) payload) = unat pl" using pl(3) by simp
  have "payload = sub 0 2 payload @ sub 2 (unat pl) payload @ sub (2 + unat pl) 1 payload
      @ sub (2 + unat pl + 1) (length ?bs) payload @ sub off (41 * n) payload"
    using te'(3) ch(4) by (simp add: sub_joinI sub_join_rest)
  also have "\<dots> = page_body p"
    using pl plen te' ch(5) p sub_single [OF pl(3)]
    by (simp add: page_body_def read_u16_eq_Ok split: option.split)
  finally have body: "payload = page_body p" .
  have "unat tot = page_total p"
    using declared te'(1) p by (auto simp: sum_counts_Ok checked_add64_eq_Some page_total_def split: if_splits)
  moreover have "branch_ok n (sub 2 (unat pl) payload) t cs"
    using plen pl te' ch cs two by (auto simp: branch_ok_def split: if_splits)
  ultimately show ?thesis using p body by blast
qed

lemma branch_body_decode:
  assumes ok: "branch_ok n prefix t cs" and tot: "unat tot = page_total (Branch prefix t cs)"
    and len: "length (page_body (Branch prefix t cs)) < 2 ^ 64"
  shows "branch_page_decode n tot (page_body (Branch prefix t cs)) = Ok (Branch prefix t cs, tot)"
proof -
  let ?h = "if t = None then 0 else (1::u8)" and ?bs = "case t of None \<Rightarrow> [] | Some e \<Rightarrow> entry_bytes e"
    and ?pl = "le_bytes (of_nat (length prefix) :: u16)" and ?cb = "concat (map child_bytes cs)"
    and ?l = "length prefix"
  define payload where "payload = page_body (Branch prefix t cs)"
  have eq: "payload = ?pl @ prefix @ [?h] @ ?bs @ ?cb"
    by (simp add: payload_def page_body_def split: option.split)
  have l: "?l \<le> 255" "unat (of_nat ?l :: u16) = ?l" using ok by (simp_all add: branch_ok_def unat_of_nat)
  have cb: "length ?cb = 41 * n" using ok length_concat_children [of cs] by (simp add: branch_ok_def)
  have pll: "length payload = 2 + ?l + 1 + length ?bs + 41 * n" by (simp add: eq cb)
  have r1: "read_u16 payload 0 = Ok (of_nat ?l)"
    unfolding read_u16_eq_Ok by (simp add: eq sub_def)
  have r2: "get_range payload 2 (2 + ?l) = Some prefix"
    unfolding eq by (rule get_range_at) simp_all
  have r3: "at_index payload (2 + ?l) = (Ok ?h :: u8 res)"
    by (simp add: at_index_def eq nth_append)
  have s4: "sub (2 + ?l + 1) (length ?bs) payload = ?bs"
    using sub_append_at [of "?pl @ prefix @ [?h]" "2 + ?l + 1" ?bs "length ?bs" ?cb] by (simp add: eq)
  have r4: "read_terminal payload (2 + ?l + 1) ?h prefix = Ok (t, 2 + ?l + 1 + length ?bs)"
    using ok len s4 pll by (intro read_terminal_Ok) (auto simp: branch_ok_def payload_def)
  have s5: "sub (2 + ?l + 1 + length ?bs) (41 * n) payload = ?cb"
    using sub_append_last [of "?pl @ prefix @ [?h] @ ?bs" "2 + ?l + 1 + length ?bs" ?cb "41 * n"] cb by (simp add: eq)
  have r5: "children_loop payload n (2 + ?l + 1 + length ?bs) None [] = Ok (cs, length payload)"
    using children_loop_encode [of cs None "2 + ?l + 1 + length ?bs" payload "[]"] ok s5 pll
    by (simp add: branch_ok_def)
  have tb: "counts_sum cs < 2 ^ 64" "page_total (Branch prefix t cs) < 2 ^ 64"
    using tot unat_u64_bound [of tot] by (auto simp: page_total_def split: if_splits)
  have r6: "sum_counts 0 cs = Ok (of_nat (counts_sum cs))"
    using tb by (simp add: sum_counts_Ok unat_of_nat_u64)
  have r7: "checked_add64 (of_nat (counts_sum cs)) (ucast ?h) = Some tot"
    using tb tot by (cases t) (auto simp: checked_add64_eq_Some unat_of_nat_u64 page_total_def)
  have n: "\<not> n > 256" "\<not> length cs + unat ?h < 2" using ok by (auto simp: branch_ok_def)
  have c: "\<not> 255 < ?l" "\<not> length payload \<le> 2 + ?l" "\<not> 1 < ?h" using l pll by simp_all
  show ?thesis
    unfolding payload_def [symmetric] branch_page_decode_def Let_def
    by (simp only: r1 r2 r3 r4 r5 r6 r7 c n and_then_simps ok_or_simps add_0 l MAX_DEPTH_def
        BRANCH_MAX_CHILDREN_def case_prod_conv if_False simp_thms)
qed

definition page_arm :: "u8 \<Rightarrow> nat \<Rightarrow> u64 \<Rightarrow> bytes \<Rightarrow> (page \<times> u64) res" where
  "page_arm k n tot payload =
     (if k = 0 then leaf_page_decode n tot payload
      else if k = 1 then branch_page_decode n tot payload
      else Err (BadConstant ''page_kind''))"

lemma page_arm_Ok:
  assumes len: "length payload < 2 ^ 64" and tot: "unat tot < 2 ^ 63"
  shows "page_arm k n tot payload = Inr (p, tot') \<longleftrightarrow>
     page_wf p \<and> page_shape_ok p \<and> k = page_kind_field p \<and> n = page_count_field p
     \<and> unat tot = page_total p \<and> tot' = tot \<and> payload = page_body p"
proof (cases p)
  case (Leaf es)
  have eq: "tot = of_nat n \<longleftrightarrow> unat tot = n" if "n \<le> 128"
    using that by (auto simp: unat_of_nat_u64)
  have "\<not> branch_page_decode n tot payload = Inr (Leaf es, tot')"
    using branch_decode_body [of n tot payload "Leaf es" tot'] by auto
  with Leaf eq show ?thesis
    unfolding page_arm_def
    by (auto simp: leaf_page_decode_Ok [OF len] entry_ok_split page_wf_def page_shape_ok_def page_kind_field_def
        page_count_field_def page_total_def page_body_def)
next
  case (Branch prefix t cs)
  have k: "page_kind_field p = 1" by (simp add: Branch page_kind_field_def)
  have ok: "branch_ok n prefix t cs \<and> unat tot = page_total p \<longleftrightarrow>
      page_wf p \<and> page_shape_ok p \<and> n = page_count_field p \<and> unat tot = page_total p"
    using tot by (auto simp: branch_ok_def entry_ok_def page_wf_def page_shape_ok_def page_count_field_def Branch)
  have "branch_page_decode n tot payload = Inr (p, tot') \<longleftrightarrow>
      branch_ok n prefix t cs \<and> unat tot = page_total p \<and> tot' = tot \<and> payload = page_body p"
    using branch_decode_body [of n tot payload p tot'] branch_body_decode [of n prefix t cs tot] len Branch
    by auto
  moreover have "\<not> leaf_page_decode n tot payload = Inr (p, tot')"
    by (simp add: leaf_page_decode_Ok [OF len] Branch)
  ultimately show ?thesis using k ok by (auto simp: page_arm_def)
qed

lemma page_header_iff:
  assumes "length m = 4"
  shows "20 \<le> length bs \<and> sub 0 4 bs = m \<and> bs ! 4 = k \<and> bs ! 5 = f \<and> sub 6 2 bs = le_bytes (n :: u16)
      \<and> sub 8 8 bs = le_bytes (t :: u64) \<and> sub 16 4 bs = le_bytes (l :: u32) \<and> sub 20 (length bs - 20) bs = payload
    \<longleftrightarrow> bs = m @ [k] @ [f] @ le_bytes n @ le_bytes t @ le_bytes l @ payload" (is "?l \<longleftrightarrow> ?r")
proof
  assume l: ?l
  have "bs = sub 0 4 bs @ sub 4 1 bs @ sub 5 1 bs @ sub 6 2 bs @ sub 8 8 bs @ sub 16 4 bs @ sub 20 (length bs - 20) bs"
    using conjunct1 [OF l] by (simp add: sub_joinI sub_join_rest)
  also have "sub 4 1 bs = [k]" using l sub_single [of 4 bs] by simp
  also have "sub 5 1 bs = [f]" using l sub_single [of 5 bs] by simp
  finally show ?r using l by simp
next
  assume r: ?r
  have "bs ! 4 = k" "bs ! 5 = f" using r assms by (simp_all add: nth_append)
  with r assms show ?l by (auto simp: sub_def)
qed

lemma page_body_u32:
  "page_valid p \<Longrightarrow> unat (of_nat (length (page_body p)) :: u32) = length (page_body p)"
  by (simp add: page_valid_def unat_of_nat)

lemma page_count_u16:
  "page_shape_ok p \<Longrightarrow> unat (of_nat (page_count_field p) :: u16) = page_count_field p"
  by (cases p) (simp_all add: page_shape_ok_def page_count_field_def unat_of_nat)

lemma page_total_bound: "page_shape_ok p \<Longrightarrow> page_total p < 2 ^ 63"
  by (cases p) (simp_all add: page_shape_ok_def page_total_def)

lemma page_decode_Ok:
  "page_decode bs = Inr (p, t) \<longleftrightarrow>
     page_wf p \<and> page_valid p \<and> bs = page_bytes p \<and> t = of_nat (page_total p)" (is "?l \<longleftrightarrow> ?r")
proof
  assume ?l
  then obtain n :: u16 and tot :: u64 and l :: u32 where h: "20 \<le> length bs" "length bs \<le> 16384" "sub 0 4 bs = MTP2_MAGIC" "bs ! 5 = 0"
    "sub 6 2 bs = le_bytes n" "sub 8 8 bs = le_bytes tot" "\<not> tot > MAX_TOTAL_ENTRIES" "sub 16 4 bs = le_bytes l"
    "length bs = 20 + unat l"
    and a: "page_arm (bs ! 4) (unat n) tot (sub 20 (length bs - 20) bs) = Inr (p, t)"
    unfolding page_decode_def page_arm_def [symmetric]
    apply (simp only: and_then_eq_Inr if_eq_Inr_Err at_index_eq_Inr slice_of_eq_Inr read_u16_eq_Ok read_u32_eq_Ok
        read_u64_eq_Ok Let_def PAGE_HEADER_LEN_def PAGE_MAX_BYTES_def not_less not_not simp_thms)
    apply (elim exE conjE)
    apply hypsubst
    apply (rule that)
    apply simp_all
    done
  have tot: "unat tot < 2 ^ 63" using h(7) by (simp add: word_less_nat_alt unat_max_total not_less)
  have pa: "page_wf p" "page_shape_ok p" "bs ! 4 = page_kind_field p" "unat n = page_count_field p"
    "unat tot = page_total p" "t = tot" "sub 20 (length bs - 20) bs = page_body p"
    using a h(2) by (simp_all add: page_arm_Ok [OF _ tot])
  have "length (page_body p) = length bs - 20" using pa(7) [symmetric] by simp
  then have v: "page_valid p" and l: "unat l = length (page_body p)" using h(1,2,9) pa(2) by (simp_all add: page_valid_def)
  have "bs = MTP2_MAGIC @ [page_kind_field p] @ [0] @ le_bytes n @ le_bytes tot @ le_bytes l @ page_body p"
    using h pa by (intro page_header_iff [THEN iffD1]) simp_all
  moreover have "n = of_nat (page_count_field p)" "tot = of_nat (page_total p)" "l = of_nat (length (page_body p))"
    using pa(4,5) l by (simp_all flip: pa(4,5) l)
  ultimately show ?r using pa v by (simp add: page_bytes_def)
next
  assume r: ?r
  then have s: "page_shape_ok p" "length (page_body p) \<le> 16364" by (simp_all add: page_valid_def)
  let ?n = "of_nat (page_count_field p) :: u16" and ?t = "of_nat (page_total p) :: u64"
    and ?ln = "of_nat (length (page_body p)) :: u32"
  have e: "bs = MTP2_MAGIC @ [page_kind_field p] @ [0] @ le_bytes ?n @ le_bytes ?t @ le_bytes ?ln @ page_body p"
    using r by (simp add: page_bytes_def)
  have h: "20 \<le> length bs" "sub 0 4 bs = MTP2_MAGIC" "bs ! 4 = page_kind_field p" "bs ! 5 = 0"
    "sub 6 2 bs = le_bytes ?n" "sub 8 8 bs = le_bytes ?t" "sub 16 4 bs = le_bytes ?ln"
    "sub 20 (length bs - 20) bs = page_body p"
    using page_header_iff [OF length_MTP2_MAGIC, THEN iffD2, OF e] by blast+
  have len: "length bs = 20 + length (page_body p)" using r by simp
  have ut: "unat ?t = page_total p" using page_total_bound [OF s(1)] by (simp add: unat_of_nat_u64)
  have arm: "page_arm (page_kind_field p) (unat ?n) ?t (page_body p) = Inr (p, ?t)"
    using r s page_count_u16 [OF s(1)] page_total_bound [OF s(1)] ut by (subst page_arm_Ok) simp_all
  have tt: "t = ?t" using r by simp
  have t: "\<not> ?t > MAX_TOTAL_ENTRIES"
    using page_total_bound [OF s(1)] by (simp add: word_less_nat_alt unat_max_total ut)
  have ul: "unat ?ln = length (page_body p)" using r page_body_u32 by simp
  have rd: "slice_of bs 0 4 = (Ok MTP2_MAGIC :: bytes res)" "at_index bs 4 = (Ok (page_kind_field p) :: u8 res)"
    "at_index bs 5 = (Ok 0 :: u8 res)" "read_u16 bs 6 = Ok ?n" "read_u64 bs 8 = Ok ?t" "read_u32 bs 16 = Ok ?ln"
    "slice_of bs 20 (length bs) = (Ok (page_body p) :: bytes res)"
    using h len by (simp_all add: slice_of_def at_index_def read_u16_eq_Ok read_u32_eq_Ok read_u64_eq_Ok)
  have c: "\<not> length bs < 20" "\<not> length bs > 16384" "\<not> length bs \<noteq> 20 + unat ?ln" using len s(2) ul by simp_all
  show ?l
    unfolding page_decode_def page_arm_def [symmetric] Let_def PAGE_HEADER_LEN_def PAGE_MAX_BYTES_def
    by (simp only: rd c t tt arm if_False and_then_simps simp_thms)
qed

lemma sum_u64_Ok:
  "sum_u64 s xs = Inr t \<longleftrightarrow> unat s + sum_list (map unat xs) < 2 ^ 64 \<and> unat t = unat s + sum_list (map unat xs)"
proof (induction s xs rule: sum_u64.induct)
  case (1 s)
  then show ?case using unat_u64_bound by (auto simp: word_unat_eq_iff)
next
  case (2 s x xs)
  then show ?case by (auto simp: add64_def unat_add64)
qed

lemma total_entries_Ok:
  "page_total p < 2 ^ 64 \<Longrightarrow> total_entries p = Ok (of_nat (page_total p))"
proof (cases p)
  case (Branch prefix t cs)
  assume b: "page_total p < 2 ^ 64"
  then have c: "counts_sum cs < 2 ^ 64" "counts_sum cs + (if t = None then 0 else 1) < 2 ^ 64"
    by (simp_all add: Branch page_total_def split: if_splits)
  have s: "sum_u64 0 (map subtree_entries cs) = Inr (of_nat (counts_sum cs))"
    using c by (simp add: sum_u64_Ok counts_sum_def comp_def unat_of_nat_u64)
  show ?thesis
    using c unat_of_nat_u64 [OF c(1)]
    by (cases t) (simp_all add: Branch total_entries_def s add64_def page_total_def add.commute)
qed (simp add: total_entries_def page_total_def)

text \<open>Dropping the count gives a codec in the sense of \<open>strict_codec\<close>.\<close>

definition page_of :: "bytes \<Rightarrow> page res" where
  "page_of bs = and_then (page_decode bs) (\<lambda>(p, _). Ok p)"

interpretation mtp2: strict_codec page_encode page_of page_wf
  by unfold_locales (auto simp: page_of_def and_then_eq_Inr page_decode_Ok page_encode_Ok)

section \<open>Properties\<close>

text \<open>A directory entry is read from a buffer at an offset exactly when the bytes from there are
  the encoding of the entry: the decoder accepts only canonical entries, gives back every field, and
  stops behind the last byte of the entry.\<close>

theorem entry_codec:
  assumes "length buf < 2 ^ 64"
  shows "entry_decode buf off = Ok (e, off') \<longleftrightarrow>
    entry_wf e \<and> off \<le> off' \<and> off' \<le> length buf \<and> entry_encode e = Ok (sub off (off' - off) buf)"
    (is "?l \<longleftrightarrow> ?r")
proof
  assume ?l
  from entry_encode_decode [OF this] show ?r by (simp add: entry_encode_Ok)
next
  assume r: ?r
  then have "entry_bytes e = sub off (off' - off) buf" "entry_valid e" by (simp_all add: entry_encode_Ok)
  moreover have "length (sub off (off' - off) buf) = off' - off" using r by auto
  ultimately show ?l using r assms entry_decode_encode [of e buf off] by auto
qed

lemma entry_codec_witness:
  "entry_decode ([1, 1, 0, 0x61] @ replicate 40 0) 0 =
     Ok (\<lparr>e_kind = Regular, e_name = [0x61], e_size = 0, e_content_id = replicate 32 0,
          e_child_root = replicate 32 0\<rparr>, 44)"
proof -
  have "entry_encode \<lparr>e_kind = Regular, e_name = [0x61], e_size = 0, e_content_id = replicate 32 0,
      e_child_root = replicate 32 0\<rparr> = Ok ([1, 1, 0, 0x61] @ replicate 40 0)"
    by code_simp
  then show ?thesis
    by (subst entry_codec) (simp_all add: entry_wf_def is_dir_def)
qed

text \<open>C21. A page decodes to \<open>p\<close> with the total \<open>t\<close> exactly when it is the encoding of \<open>p\<close> and \<open>t\<close> is
  the number of entries \<open>p\<close> accounts for: one byte string per page, no trailing bytes, and the
  header total is never anything but what \<open>Page::total_entries\<close> computes.\<close>

theorem page_codec:
  "page_decode bs = Ok (p, t) \<longleftrightarrow> page_wf p \<and> page_encode p = Ok bs \<and> total_entries p = Ok t"
proof -
  have "page_valid p \<Longrightarrow> total_entries p = Ok (of_nat (page_total p))"
    by (intro total_entries_Ok) (auto simp: page_valid_def dest: page_total_bound)
  then show ?thesis by (auto simp: page_decode_Ok page_encode_Ok)
qed

text \<open>What the encoder accepts. A leaf has at most 128 valid entries in strictly ascending order
  of their names; a branch has a prefix of at most 255 bytes, children under strictly ascending
  labels, none of them empty, a terminal entry only if it is named by the prefix, at least two groups
  and at most \<open>2 ^ 63 - 1\<close> entries below it; and no page exceeds 16 KiB.\<close>

theorem page_encode_accepts:
  "is_ok (page_encode p) \<longleftrightarrow> 20 + length (page_body p) \<le> 16384 \<and>
     (case p of
        Leaf es \<Rightarrow> length es \<le> 128 \<and> (\<forall>e\<in>set es. entry_valid e) \<and> sorted_wrt (<) (map e_name es)
      | Branch prefix t cs \<Rightarrow> length prefix \<le> 255 \<and> length cs \<le> 256
          \<and> (\<forall>e\<in>set_option t. entry_valid e \<and> e_name e = prefix)
          \<and> (\<forall>c\<in>set cs. subtree_entries c \<noteq> 0) \<and> sorted_wrt (<) (map label cs)
          \<and> 2 \<le> length cs + (if t = None then 0 else 1) \<and> page_total p < 2 ^ 63)"
  by (auto simp: is_ok_iff page_encode_Ok page_valid_def page_shape_ok_def ascending_from_iff split: page.split)

lemma page_encode_accepts_witness:
  "is_ok (page_encode (Branch [] None
     [\<lparr>label = 1, subtree_entries = 200, child_page_id = replicate 32 7\<rparr>,
      \<lparr>label = 2, subtree_entries = 1, child_page_id = replicate 32 8\<rparr>]))"
  unfolding page_encode_accepts
  by (simp add: page_body_def page_total_def counts_sum_def child_bytes_def)

text \<open>No input makes the page decoder or encoder panic.\<close>

theorem page_codec_clean: "clean (page_decode bs) \<and> clean (page_encode p) \<and> clean (entry_decode bs off)"
  by simp

end
