(* ===== verification/Metapage_Build.thy ===== *)
theory Metapage_Build
  imports Metapage "HOL-Library.Sublist"
begin

text \<open>
  \<^verbatim>\<open>src/metapage.rs\<close>, second part: the canonical tree of pages over the entries of a directory
  (\<open>Page::build\<close>), the walk along a route of labels (\<open>pages_along_route\<close>) and the check of a page
  received from elsewhere against its parent (\<open>verify_received_child\<close>).

  \<open>page_build\<close> terminates because every group is shorter than the list it was cut from. That the
  longest common prefix always leaves two groups, that a branch always fits a page, and hence that
  exactly the valid sorted directories can be built, is proved below.
\<close>

section \<open>The parts of the build\<close>

fun check_build_input :: "bytes option \<Rightarrow> entry list \<Rightarrow> unit res" where
  "check_build_input prev [] = Ok ()"
| "check_build_input prev (e # es) =
     and_then (entry_validate e) (\<lambda>_.
     if (case prev of None \<Rightarrow> False | Some p \<Rightarrow> p \<ge> e_name e)
     then Err (BadOrdering ''build input must be strictly ascending'')
     else check_build_input (Some (e_name e)) es)"

text \<open>The inner loop of \<open>lcp\<close>: the range \<open>0..len\<close> is fixed when the loop starts.\<close>

function lcp_scan :: "bytes \<Rightarrow> bytes \<Rightarrow> nat \<Rightarrow> nat \<Rightarrow> nat res" where
  "lcp_scan first n i len =
     (if i < len then
        and_then (at_index first i) (\<lambda>a.
        and_then (at_index n i) (\<lambda>b.
        if a \<noteq> b then Ok i else lcp_scan first n (i + 1) len))
      else Ok len)"
  by pat_completeness auto
termination
  by (relation "measure (\<lambda>(first, n, i, len). len - i)") auto

declare lcp_scan.simps [simp del]

fun lcp_loop :: "bytes \<Rightarrow> nat \<Rightarrow> bytes list \<Rightarrow> nat res" where
  "lcp_loop first len [] = Ok len"
| "lcp_loop first len (n # ns) =
     (let len = min len (length n) in
      and_then (lcp_scan first n 0 len) (\<lambda>len. lcp_loop first len ns))"

definition lcp :: "bytes list \<Rightarrow> bytes res" where
  "lcp names =
     and_then (at_index names 0) (\<lambda>first.
     and_then (slice_of names 1 (length names)) (\<lambda>others.
     and_then (lcp_loop first (length first) others) (\<lambda>len.
     slice_of first 0 len)))"

definition push_group :: "u8 \<Rightarrow> entry \<Rightarrow> (u8 \<times> entry list) list \<Rightarrow> (u8 \<times> entry list) list" where
  "push_group lbl e groups =
     (if groups \<noteq> [] \<and> fst (last groups) = lbl
      then butlast groups @ [(lbl, snd (last groups) @ [e])]
      else groups @ [(lbl, [e])])"

fun group_entries ::
  "bytes \<Rightarrow> (u8 \<times> entry list) list \<Rightarrow> entry list \<Rightarrow> (u8 \<times> entry list) list res" where
  "group_entries p groups [] = Ok groups"
| "group_entries p groups (e # es) =
     (if e_name e = p then group_entries p groups es else
      and_then (ok_or (get_at (e_name e) (length p)) (BadOrdering ''entry shorter than LCP'')) (\<lambda>lbl.
      group_entries p (push_group lbl e groups) es))"

text \<open>The attempt to store all entries in one leaf: an error of the encoder means that it does not fit.\<close>

definition leaf_attempt :: "entry list \<Rightarrow> bytes option res" where
  "leaf_attempt entries =
     (if length entries \<le> LEAF_MAX_ENTRIES then
        (case page_encode (Leaf entries) of
           Inr bs \<Rightarrow> Ok (if length bs \<le> PAGE_MAX_BYTES then Some bs else None)
         | Inl (Fail e) \<Rightarrow> Ok None
         | Inl f \<Rightarrow> Inl f)
      else Ok None)"

text \<open>The cut of the entries at their longest common prefix, with the refusal of a wrong split.\<close>

definition build_split :: "entry list \<Rightarrow> (bytes \<times> entry option \<times> (u8 \<times> entry list) list) res" where
  "build_split entries =
     and_then (lcp (map e_name entries)) (\<lambda>p.
     let terminal = find (\<lambda>e. e_name e = p) entries in
     and_then (group_entries p [] entries) (\<lambda>groups.
     if length groups + (if terminal = None then 0 else 1) < 2
     then Err (BadOrdering ''partition produced fewer than two groups'')
     else Ok (p, terminal, groups)))"

lemma push_group_concat:
  "concat (map snd (push_group lbl e gs)) = concat (map snd gs) @ [e]"
  by (cases gs rule: rev_cases) (auto simp: push_group_def)

lemma push_group_nonempty:
  "\<forall>g\<in>set gs. snd g \<noteq> [] \<Longrightarrow> \<forall>g\<in>set (push_group lbl e gs). snd g \<noteq> []"
  by (cases gs rule: rev_cases) (auto simp: push_group_def)

lemma group_entries_concat:
  "group_entries p gs es = Inr gs' \<Longrightarrow>
     concat (map snd gs') = concat (map snd gs) @ filter (\<lambda>e. e_name e \<noteq> p) es"
  by (induction p gs es rule: group_entries.induct)
    (auto simp: and_then_eq_Inr ok_or_eq_Inr push_group_concat split: if_splits)

lemma group_entries_nonempty:
  "group_entries p gs es = Inr gs' \<Longrightarrow> \<forall>g\<in>set gs. snd g \<noteq> [] \<Longrightarrow> \<forall>g\<in>set gs'. snd g \<noteq> []"
  by (induction p gs es rule: group_entries.induct)
    (auto simp: and_then_eq_Inr ok_or_eq_Inr push_group_nonempty split: if_splits)

lemma length_concat_member:
  fixes gs :: "('a \<times> 'b list) list"
  assumes "g \<in> set gs" "\<forall>g\<in>set gs. snd g \<noteq> []"
  shows "length gs + length (snd g) \<le> length (concat (map snd gs)) + 1"
proof -
  have ge: "length gs \<le> length (concat (map snd gs))" if "\<forall>g\<in>set gs. snd g \<noteq> []"
    for gs :: "('a \<times> 'b list) list"
    using that
  proof (induction gs)
    case (Cons a gs)
    then show ?case by (cases "snd a") auto
  qed simp
  from assms(1) obtain as bs where s: "gs = as @ g # bs" by (auto simp: in_set_conv_decomp)
  then show ?thesis using ge [of as] ge [of bs] assms(2) by auto
qed

lemma build_split_shrinks:
  assumes "build_split es = Inr (p, t, gs)" "g \<in> set gs"
  shows "length (snd g) < length es"
proof -
  from assms(1) have g: "group_entries p [] es = Inr gs" and t: "t = find (\<lambda>e. e_name e = p) es"
    and two: "2 \<le> length gs + (if t = None then 0 else 1)"
    by (auto simp: Suc_le_eq build_split_def and_then_eq_Inr Let_def split: if_splits)
  have c: "length (concat (map snd gs)) = length (filter (\<lambda>e. e_name e \<noteq> p) es)"
    using group_entries_concat [OF g] by simp
  have m: "length gs + length (snd g) \<le> length (concat (map snd gs)) + 1"
    using length_concat_member [OF assms(2) group_entries_nonempty [OF g]] by simp
  show ?thesis
  proof (cases t)
    case None
    then have "2 \<le> length gs" using two by simp
    then show ?thesis using m c length_filter_le [of "\<lambda>e. e_name e \<noteq> p" es] by linarith
  next
    case (Some e)
    then have "e \<in> set es" "e_name e = p" using t by (auto simp: find_Some_iff)
    then have "length (filter (\<lambda>e. e_name e \<noteq> p) es) < length es" by (intro length_filter_less) auto
    moreover have "1 \<le> length gs" using assms(2) by (cases gs) auto
    ultimately show ?thesis using m c by simp
  qed
qed

function page_build :: "hash \<Rightarrow> entry list \<Rightarrow> bytes res" where
  "page_build H entries =
     and_then (check_build_input None entries) (\<lambda>_.
     and_then (leaf_attempt entries) (\<lambda>leaf.
     case leaf of
       Some bs \<Rightarrow> Ok bs
     | None \<Rightarrow>
         and_then (build_split entries) (\<lambda>(p, terminal, groups).
         and_then
           (traverse (\<lambda>(lbl, grp).
              and_then (page_build H grp) (\<lambda>bs.
              Ok \<lparr>label = lbl, subtree_entries = of_nat (length grp), child_page_id = page_id H bs\<rparr>))
            groups) (\<lambda>children.
         page_encode (Branch p terminal children)))))"
  by pat_completeness auto
termination
  by (relation "measure (\<lambda>(H, entries). length entries)") (use build_split_shrinks in fastforce)+

declare page_build.simps [simp del]

section \<open>Routes and received pages\<close>

fun route_group :: "bytes \<Rightarrow> u8 \<Rightarrow> entry list \<Rightarrow> entry list \<Rightarrow> entry list res" where
  "route_group pfx lbl grp [] = Ok grp"
| "route_group pfx lbl grp (e # es) =
     (if e_name e = pfx then route_group pfx lbl grp es
      else if length (e_name e) \<le> length pfx \<or> take (length pfx) (e_name e) \<noteq> pfx
      then Err (BadOrdering ''entry outside branch prefix'')
      else and_then (at_index (e_name e) (length pfx)) (\<lambda>b.
        route_group pfx lbl (if b = lbl then grp @ [e] else grp) es))"

fun route_loop :: "hash \<Rightarrow> entry list \<Rightarrow> bytes \<Rightarrow> bytes list \<Rightarrow> u8 list \<Rightarrow> bytes list res" where
  "route_loop H current page out [] = Ok out"
| "route_loop H current page out (lbl # rest) =
     and_then (page_decode page) (\<lambda>(decoded, _).
     case decoded of
       Leaf _ \<Rightarrow> Err (BadOrdering ''route descends past a leaf page'')
     | Branch pfx _ children \<Rightarrow>
         and_then (ok_or (find (\<lambda>c. label c = lbl) children) (BadOrdering ''route label not present in page''))
           (\<lambda>child.
         and_then (route_group pfx lbl [] current) (\<lambda>grp.
         if grp = [] then Err (BadOrdering ''route label selects an empty group'') else
         and_then (page_build H grp) (\<lambda>child_bs.
         if page_id H child_bs \<noteq> child_page_id child then Err (DigestMismatch ''branch child page id'') else
         route_loop H grp child_bs (out @ [child_bs]) rest))))"

definition pages_along_route :: "hash \<Rightarrow> entry list \<Rightarrow> u8 list \<Rightarrow> bytes list res" where
  "pages_along_route H entries route =
     (if entries = [] then
        if route = [] then and_then (page_build H entries) (\<lambda>bs. Ok [bs])
        else Err (BadOrdering ''route descends past a leaf page'')
      else
        and_then (page_build H entries) (\<lambda>page. route_loop H entries page [page] route))"

definition verify_received_child :: "hash \<Rightarrow> bytes \<Rightarrow> u8 \<Rightarrow> bytes \<Rightarrow> unit res" where
  "verify_received_child H parent_bs lbl received_bs =
     and_then (page_decode parent_bs) (\<lambda>(parent, _).
     case parent of
       Leaf _ \<Rightarrow> Err (BadOrdering ''cannot verify a child of a leaf page'')
     | Branch pfx _ children \<Rightarrow>
         and_then (ok_or (find (\<lambda>c. label c = lbl) children) (BadOrdering ''label not present in parent''))
           (\<lambda>child.
         if page_id H received_bs \<noteq> child_page_id child
         then Err (DigestMismatch ''received page does not match parent's child_page_id'') else
         and_then (page_decode received_bs) (\<lambda>(received, entry_total).
         if entry_total \<noteq> subtree_entries child
         then Err (BadOrdering ''received child count does not match parent'') else
         let expected_prefix = pfx @ [lbl];
             partition_matches = (case received of
                 Leaf entries \<Rightarrow> list_all (\<lambda>entry. starts_with (e_name entry) expected_prefix) entries
               | Branch pfx _ _ \<Rightarrow> starts_with pfx expected_prefix)
         in if \<not> partition_matches
            then Err (BadOrdering ''received child outside parent prefix/label partition'') else Ok ())))"

section \<open>The longest common prefix\<close>

lemma lcp_scan_Ok:
  assumes "len \<le> length xs" "len \<le> length ys" "i \<le> len"
  shows "\<exists>k. lcp_scan xs ys i len = Ok k \<and> i \<le> k \<and> k \<le> len \<and> (\<forall>j. i \<le> j \<and> j < k \<longrightarrow> xs ! j = ys ! j)
    \<and> (k < len \<longrightarrow> xs ! k \<noteq> ys ! k)"
  using assms
proof (induction xs ys i len rule: lcp_scan.induct)
  case (1 xs ys i len)
  show ?case
  proof (cases "i < len \<and> xs ! i = ys ! i")
    case True
    then have "at_index xs i = (Ok (xs ! i) :: u8 res)" "at_index ys i = (Ok (ys ! i) :: u8 res)"
      using "1.prems" by (simp_all add: at_index_def)
    from "1.IH" [OF _ this] True "1.prems" obtain k where k: "lcp_scan xs ys (i + 1) len = Ok k" "i + 1 \<le> k"
      "k \<le> len" "\<forall>j. i + 1 \<le> j \<and> j < k \<longrightarrow> xs ! j = ys ! j" "k < len \<longrightarrow> xs ! k \<noteq> ys ! k"
      by auto
    have "lcp_scan xs ys i len = Ok k"
      using True k(1) "1.prems" by (subst lcp_scan.simps) (simp add: at_index_def)
    moreover have "xs ! j = ys ! j" if "i \<le> j" "j < k" for j
      using k(4) that True by (cases "j = i") auto
    ultimately show ?thesis using k(2,3,5) by (intro exI [of _ k]) simp
  next
    case False
    then have "lcp_scan xs ys i len = Ok i"
      using "1.prems" by (subst lcp_scan.simps) (auto simp: at_index_def)
    with False "1.prems" show ?thesis by (intro exI [of _ i]) auto
  qed
qed

lemma prefix_take_iff:
  "k \<le> length xs \<Longrightarrow> prefix (take k xs) ys \<longleftrightarrow> k \<le> length ys \<and> (\<forall>j<k. xs ! j = ys ! j)"
  by (auto simp: prefix_def list_eq_iff_nth_eq nth_append intro: exI [of _ "drop k ys"])

lemma lcp_loop_Ok:
  "len \<le> length xs \<Longrightarrow> \<exists>k\<le>len. lcp_loop xs len ns = Ok k \<and> (\<forall>n\<in>set ns. prefix (take k xs) n)
     \<and> (\<forall>m\<le>len. (\<forall>n\<in>set ns. prefix (take m xs) n) \<longrightarrow> m \<le> k)"
proof (induction ns arbitrary: len)
  case (Cons n ns)
  let ?len = "min len (length n)"
  obtain k where k: "lcp_scan xs n 0 ?len = Ok k" "k \<le> ?len" "\<forall>j<k. xs ! j = n ! j" "k < ?len \<longrightarrow> xs ! k \<noteq> n ! k"
    using lcp_scan_Ok [of ?len xs n 0, OF min.coboundedI1 [OF Cons.prems]] by auto
  obtain k' where k': "k' \<le> k" "lcp_loop xs k ns = Ok k'" "\<forall>n\<in>set ns. prefix (take k' xs) n"
    "\<forall>m\<le>k. (\<forall>n\<in>set ns. prefix (take m xs) n) \<longrightarrow> m \<le> k'"
    using Cons.IH [of k] k(2) Cons.prems by auto
  have "prefix (take k' xs) n" using k k'(1) Cons.prems by (subst prefix_take_iff) auto
  moreover have "m \<le> k" if "m \<le> len" "prefix (take m xs) n" for m
  proof (rule ccontr)
    assume "\<not> m \<le> k"
    moreover have "m \<le> length n" "\<forall>j<m. xs ! j = n ! j"
      using that Cons.prems prefix_take_iff [of m xs n] by auto
    ultimately show False using k(4) that(1) by auto
  qed
  ultimately show ?case using k k' by (intro exI [of _ k']) auto
qed auto

lemma lcp_longest:
  assumes "names \<noteq> []"
  shows "lcp names = Ok (Longest_common_prefix (set names))"
proof -
  obtain xs ns where n: "names = xs # ns" using assms by (cases names) auto
  obtain k where k: "k \<le> length xs" "lcp_loop xs (length xs) ns = Ok k" "\<forall>n\<in>set ns. prefix (take k xs) n"
    "\<forall>m\<le>length xs. (\<forall>n\<in>set ns. prefix (take m xs) n) \<longrightarrow> m \<le> k"
    using lcp_loop_Ok [of "length xs" xs ns] by auto
  have "Longest_common_prefix (set names) = take k xs"
  proof (rule Longest_common_prefix_eq)
    show "\<forall>ys\<in>set names. prefix (take k xs) ys" using k(3) n by (auto simp: take_is_prefix)
    show "\<forall>qs. (\<forall>ys\<in>set names. prefix qs ys) \<longrightarrow> length qs \<le> length (take k xs)"
    proof (intro allI impI)
      fix qs assume q: "\<forall>ys\<in>set names. prefix qs ys"
      then have "prefix qs xs" using n by simp
      then have "qs = take (length qs) xs" "length qs \<le> length xs" by (auto simp: prefix_def)
      with q k(1,4) n show "length qs \<le> length (take k xs)" by (metis length_take list.set_intros(2) min.absorb2)
    qed
  qed (use n in simp)
  then show ?thesis using k n by (simp add: lcp_def at_index_def slice_of_def sub_def)
qed

section \<open>The groups\<close>

lemma append_less_iff: "p @ xs < p @ ys \<longleftrightarrow> xs < (ys :: 'a::linorder list)"
  by (induction p) auto

definition groups_ok :: "bytes \<Rightarrow> (u8 \<times> entry list) list \<Rightarrow> bool" where
  "groups_ok p gs \<longleftrightarrow> sorted_wrt (<) (map fst gs)
     \<and> (\<forall>(l, g)\<in>set gs. g \<noteq> [] \<and> (\<forall>e\<in>set g. prefix (p @ [l]) (e_name e)))"

lemma label_of_name:
  assumes "prefix p n" "n \<noteq> p"
  shows "get_at n (length p) = Some (n ! length p)" "prefix (p @ [n ! length p]) n"
proof -
  obtain r where r: "n = p @ r" "r \<noteq> []" using assms by (auto simp: prefix_def)
  then show "get_at n (length p) = Some (n ! length p)" by (simp add: get_at_def)
  from r show "prefix (p @ [n ! length p]) n" by (cases r) simp_all
qed

lemma label_le:
  assumes "prefix (p @ [a]) m" "prefix (p @ [b]) n" "m < (n :: bytes)"
  shows "a \<le> b"
proof -
  obtain x y where "m = p @ a # x" "n = p @ b # y" using assms(1,2) by (auto simp: prefix_def)
  with assms(3) show ?thesis by (auto simp: append_less_iff)
qed

lemma push_group_ok:
  assumes gs: "groups_ok p gs" and e: "prefix (p @ [l]) (e_name e)"
    and last: "\<forall>d\<in>set (concat (map snd gs)). e_name d < e_name e"
  shows "groups_ok p (push_group l e gs)"
proof (cases gs rule: rev_cases)
  case Nil
  then show ?thesis using e by (simp add: groups_ok_def push_group_def)
next
  case (snoc init g)
  obtain l' es where g: "g = (l', es)" by (cases g)
  have es: "es \<noteq> []" "\<forall>d\<in>set es. prefix (p @ [l']) (e_name d)" and srt: "sorted_wrt (<) (map fst init @ [l'])"
    using gs by (auto simp: groups_ok_def snoc g)
  then obtain d where d: "d \<in> set es" by (cases es) auto
  then have le: "l' \<le> l" using label_le [of p l' "e_name d" l "e_name e"] es e last snoc g by auto
  show ?thesis
  proof (cases "l' = l")
    case True
    then show ?thesis using gs e by (auto simp: groups_ok_def push_group_def snoc g)
  next
    case False
    with le have "l' < l" by simp
    with srt have "sorted_wrt (<) (map fst init @ [l', l])" by (auto simp: sorted_wrt_append)
    with gs e False show ?thesis by (auto simp: groups_ok_def push_group_def snoc g)
  qed
qed

lemma group_entries_Ok:
  "groups_ok p gs \<Longrightarrow> \<forall>e\<in>set es. prefix p (e_name e)
    \<Longrightarrow> sorted_wrt (<) (map e_name (concat (map snd gs) @ es))
    \<Longrightarrow> \<exists>gs'. group_entries p gs es = Ok gs' \<and> groups_ok p gs'"
proof (induction p gs es rule: group_entries.induct)
  case (2 p gs e es)
  show ?case
  proof (cases "e_name e = p")
    case True
    with 2 show ?thesis by (auto simp: sorted_wrt_append)
  next
    case False
    let ?l = "e_name e ! length p"
    have l: "get_at (e_name e) (length p) = Some ?l" "prefix (p @ [?l]) (e_name e)"
      using label_of_name [of p "e_name e"] False 2 by auto
    have "groups_ok p (push_group ?l e gs)"
      using l(2) "2.prems" by (intro push_group_ok) (auto simp: sorted_wrt_append)
    moreover have "sorted_wrt (<) (map e_name (concat (map snd (push_group ?l e gs)) @ es))"
      using "2.prems"(3) by (simp only: push_group_concat) simp
    ultimately obtain gs' where "group_entries p (push_group ?l e gs) es = Ok gs'" "groups_ok p gs'"
      using "2.IH"(2) [OF False, of ?l] l "2.prems" by auto
    with False l show ?thesis by simp
  qed
qed auto

section \<open>What the build produces\<close>

definition dir_ok :: "entry list \<Rightarrow> bool" where
  "dir_ok es \<longleftrightarrow> (\<forall>e\<in>set es. entry_valid e) \<and> sorted_wrt (<) (map e_name es)"

lemma check_build_input_Ok:
  "check_build_input prev es = Inr u \<longleftrightarrow> (\<forall>e\<in>set es. entry_valid e) \<and> ascending_from prev (map e_name es)"
proof (induction prev es rule: check_build_input.induct)
  case (2 prev e es)
  have "(case prev of None \<Rightarrow> False | Some p \<Rightarrow> e_name e \<le> p) \<longleftrightarrow>
      \<not> (case prev of None \<Rightarrow> True | Some q \<Rightarrow> q < e_name e)"
    by (cases prev) auto
  with 2 show ?case by (auto simp: and_then_eq_Inr entry_validate_Ok)
qed simp

lemma check_build_input_dir_ok: "check_build_input None es = Inr u \<longleftrightarrow> dir_ok es"
  by (simp add: check_build_input_Ok ascending_from_iff dir_ok_def)

lemma leaf_attempt_eq:
  "leaf_attempt es = Ok (if page_valid (Leaf es) then Some (page_bytes (Leaf es)) else None)"
proof (cases "page_encode (Leaf es)")
  case (Inl f)
  with clean_page_encode [of "Leaf es"] have "\<exists>e. f = Fail e" by (cases f) auto
  moreover have "\<not> page_valid (Leaf es)" using Inl page_encode_Ok [of "Leaf es"] by auto
  ultimately show ?thesis using Inl by (auto simp: leaf_attempt_def)
next
  case (Inr bs)
  then have v: "page_valid (Leaf es)" "bs = page_bytes (Leaf es)" by (simp_all add: page_encode_Ok)
  then have "length es \<le> LEAF_MAX_ENTRIES" "length bs \<le> PAGE_MAX_BYTES"
    by (simp_all add: page_valid_def page_shape_ok_def LEAF_MAX_ENTRIES_def PAGE_MAX_BYTES_def)
  with v Inr show ?thesis by (simp add: leaf_attempt_def)
qed

definition split_ok :: "entry list \<Rightarrow> bytes \<Rightarrow> entry option \<Rightarrow> (u8 \<times> entry list) list \<Rightarrow> bool" where
  "split_ok es p t gs \<longleftrightarrow> p = Longest_common_prefix (set (map e_name es))
     \<and> t = find (\<lambda>e. e_name e = p) es \<and> groups_ok p gs
     \<and> concat (map snd gs) = filter (\<lambda>e. e_name e \<noteq> p) es \<and> 2 \<le> length gs + (if t = None then 0 else 1)"

lemma split_two:
  assumes es: "2 \<le> length es" and srt: "sorted_wrt (<) (map e_name es)"
    and p: "p = Longest_common_prefix (set (map e_name es))" and t: "t = find (\<lambda>e. e_name e = p) es"
    and gs: "groups_ok p gs" "concat (map snd gs) = filter (\<lambda>e. e_name e \<noteq> p) es"
  shows "2 \<le> length gs + (if t = None then 0 else 1)"
proof (rule ccontr)
  assume "\<not> ?thesis"
  then consider "gs = []" | l g where "gs = [(l, g)]" "t = None"
    by (cases gs; cases "tl gs"; cases t) (auto split: if_splits)
  then show False
  proof cases
    case 1
    then have "filter (\<lambda>e. e_name e \<noteq> p) es = []" using gs(2) by simp
    then have "\<forall>e\<in>set es. e_name e = p" by (simp add: filter_empty_conv)
    moreover obtain a b r where "es = a # b # r" using es by (cases es; cases "tl es") auto
    ultimately show False using srt by simp
  next
    case 2
    then have "\<forall>e\<in>set es. e_name e \<noteq> p" using t by (simp add: find_None_iff)
    then have "g = es" using gs(2) 2 by (simp add: filter_id_conv)
    then have "\<forall>n\<in>set (map e_name es). prefix (p @ [l]) n" using gs(1) 2 by (auto simp: groups_ok_def)
    moreover have "set (map e_name es) \<noteq> {}" using es by (cases es) auto
    ultimately have "length (p @ [l]) \<le> length p" unfolding p by (rule Longest_common_prefix_longest [rotated])
    then show False by simp
  qed
qed

lemma build_split_Ok:
  assumes "2 \<le> length es" "sorted_wrt (<) (map e_name es)"
  shows "\<exists>p t gs. build_split es = Ok (p, t, gs) \<and> split_ok es p t gs"
proof -
  let ?p = "Longest_common_prefix (set (map e_name es))"
  have ne: "map e_name es \<noteq> []" using assms(1) by auto
  have "\<forall>e\<in>set es. prefix ?p (e_name e)" by (simp add: Longest_common_prefix_prefix)
  then obtain gs where g: "group_entries ?p [] es = Ok gs" "groups_ok ?p gs"
    using group_entries_Ok [of ?p "[]" es] assms(2) by (auto simp: groups_ok_def)
  have c: "concat (map snd gs) = filter (\<lambda>e. e_name e \<noteq> ?p) es" using group_entries_concat [OF g(1)] by simp
  from split_two [OF assms refl refl g(2) c]
  have two: "2 \<le> length gs + (if find (\<lambda>e. e_name e = ?p) es = None then 0 else 1)" .
  have "build_split es = Ok (?p, find (\<lambda>e. e_name e = ?p) es, gs)"
    using lcp_longest [OF ne] g(1) two by (simp add: build_split_def)
  moreover have "split_ok es ?p (find (\<lambda>e. e_name e = ?p) es) gs"
    using g(2) c two by (simp only: split_ok_def)
  ultimately show ?thesis by blast
qed

text \<open>The entry named by the prefix, if any, comes first, and the groups follow in order.\<close>

lemma split_entries:
  assumes "split_ok es p t gs" "sorted_wrt (<) (map e_name es)" "es \<noteq> []"
  shows "es = (case t of None \<Rightarrow> [] | Some e \<Rightarrow> [e]) @ concat (map snd gs)"
proof -
  have p: "\<forall>e\<in>set es. prefix p (e_name e)"
    using assms(1) by (simp add: split_ok_def Longest_common_prefix_prefix)
  have t: "t = find (\<lambda>e. e_name e = p) es" and c: "concat (map snd gs) = filter (\<lambda>e. e_name e \<noteq> p) es"
    using assms(1) by (simp_all add: split_ok_def)
  obtain e r where es: "es = e # r" using assms(3) by (cases es) auto
  have "e_name d \<noteq> p" if d: "d \<in> set r" for d
  proof
    assume "e_name d = p"
    then have "e_name e < p" using assms(2) d es by auto
    moreover obtain x where "e_name e = p @ x" using p es by (auto simp: prefix_def)
    ultimately have "p @ x < p @ []" by simp
    then show False by (simp only: append_less_iff) simp
  qed
  then have "filter (\<lambda>e. e_name e \<noteq> p) r = r" "find (\<lambda>e. e_name e = p) r = None"
    by (simp_all add: filter_id_conv find_None_iff)
  then show ?thesis by (simp add: t c es)
qed

lemma groups_labels:
  assumes "groups_ok p gs"
  shows "distinct (map fst gs)" "length gs \<le> 256"
proof -
  show d: "distinct (map fst gs)" using assms by (simp add: groups_ok_def strict_sorted_iff)
  have "card (set (map fst gs)) \<le> card (UNIV :: u8 set)" by (intro card_mono) simp_all
  then show "length gs \<le> 256" using distinct_card [OF d] by (simp add: card_word)
qed

definition child_of_group :: "u8 \<times> entry list \<Rightarrow> branch_child \<Rightarrow> bool" where
  "child_of_group g c \<longleftrightarrow> label c = fst g \<and> subtree_entries c = of_nat (length (snd g)) \<and> child_wf c"

lemma length_concat_ge: "g \<in> set gs \<Longrightarrow> length (snd g) \<le> length (concat (map snd gs))"
  by (induction gs) auto

lemma counts_of_groups:
  "list_all2 child_of_group gs cs \<Longrightarrow> length (concat (map snd gs)) < 2 ^ 64 \<Longrightarrow>
     counts_sum cs = length (concat (map snd gs))"
  by (induction rule: list_all2_induct) (auto simp: counts_sum_def child_of_group_def unat_of_nat_u64)

lemma branch_of_groups:
  assumes es: "\<forall>e\<in>set es. entry_ok e" "sorted_wrt (<) (map e_name es)" "es \<noteq> []" "length es < 2 ^ 63"
    and sp: "split_ok es p t gs" and cs: "list_all2 child_of_group gs cs"
  shows "page_wf (Branch p t cs)" "page_valid (Branch p t cs)" "page_total (Branch p t cs) = length es"
proof -
  have gs: "groups_ok p gs" "t = find (\<lambda>e. e_name e = p) es"
    "2 \<le> length gs + (if t = None then 0 else 1)" using sp unfolding split_ok_def by blast+
  have t: "\<forall>e\<in>set_option t. entry_ok e \<and> e_name e = p" using es(1) gs(2) by (auto simp: find_Some_iff)
  have len: "length es = (if t = None then 0 else 1) + length (concat (map snd gs))"
    using arg_cong [OF split_entries [OF sp es(2,3)], of length] by (simp split: option.split)
  have cwf: "\<forall>c\<in>set cs. child_wf c" using cs by (auto simp: child_of_group_def list_all2_conv_all_nth in_set_conv_nth)
  have lab: "map label cs = map fst gs" "length cs = length gs"
    using cs by (auto simp: child_of_group_def list_all2_conv_all_nth list_eq_iff_nth_eq)
  have cnt: "counts_sum cs = length (concat (map snd gs))" using counts_of_groups [OF cs] len es(4) by simp
  then show tot: "page_total (Branch p t cs) = length es" using len by (simp add: page_total_def)
  show "page_wf (Branch p t cs)" using t cwf by (simp add: page_wf_def entry_ok_def)
  have nz: "\<forall>c\<in>set cs. subtree_entries c \<noteq> 0"
  proof
    fix c assume "c \<in> set cs"
    then obtain g where g: "g \<in> set gs" "child_of_group g c" using list_all2_right [OF cs] by blast
    then have "snd g \<noteq> []" using gs(1) by (auto simp: groups_ok_def)
    moreover have "length (snd g) < 2 ^ 64" using length_concat_ge [OF g(1)] len es(4) by simp
    ultimately have "unat (subtree_entries c) \<noteq> 0" using g(2) by (simp add: child_of_group_def unat_of_nat_u64)
    then show "subtree_entries c \<noteq> 0" by auto
  qed
  obtain e where e: "e \<in> set es" using es(3) by (cases es) auto
  then have "prefix p (e_name e)" using sp by (simp add: split_ok_def Longest_common_prefix_prefix)
  moreover have "length (e_name e) \<le> 255" using es(1) e by (auto simp: entry_ok_def entry_valid_def canonical_name_def)
  ultimately have pl: "length p \<le> 255" using prefix_length_le by (metis le_trans)
  have ncs: "length cs \<le> 256" using groups_labels(2) [OF gs(1)] lab by simp
  have asc: "ascending_from None (map label cs)"
    using gs(1) lab by (simp add: ascending_from_iff groups_ok_def)
  have shape: "page_shape_ok (Branch p t cs)"
    using pl ncs t nz asc gs(3) lab tot es(4) by (auto simp: page_shape_ok_def entry_ok_def split: if_splits)
  have "length (case t of None \<Rightarrow> [0] | Some e \<Rightarrow> 1 # entry_bytes e) \<le> 299"
    using t entry_bytes_max by (cases t) (auto simp: entry_ok_def)
  moreover have "length (concat (map child_bytes cs)) = 41 * length cs" by (rule length_concat_children [OF cwf])
  ultimately have "length (page_body (Branch p t cs)) \<le> 2 + 255 + 299 + 41 * 256"
    using pl ncs by (simp add: page_body_def)
  with shape show "page_valid (Branch p t cs)" by (simp add: page_valid_def)
qed

lemma small_leaf:
  assumes "dir_ok es" "\<forall>e\<in>set es. entry_wf e" "length es \<le> 1"
  shows "page_valid (Leaf es)"
proof (cases es)
  case (Cons e r)
  with assms have "r = []" "entry_wf e" "entry_valid e" by (auto simp: dir_ok_def)
  with entry_bytes_max [of e] show ?thesis by (simp add: page_valid_def page_shape_ok_def page_body_def Cons)
qed (simp add: page_valid_def page_shape_ok_def page_body_def)

definition built_child :: "hash \<Rightarrow> u8 \<times> entry list \<Rightarrow> branch_child \<Rightarrow> bool" where
  "built_child H g c \<longleftrightarrow> label c = fst g \<and> subtree_entries c = of_nat (length (snd g))
     \<and> (\<exists>bs. page_build H (snd g) = Ok bs \<and> child_page_id c = page_id H bs)"

lemma built_child_group: "sha_ok H \<Longrightarrow> built_child H g c \<Longrightarrow> child_of_group g c"
  by (auto simp: built_child_def child_of_group_def child_wf_def page_id_def)

lemma check_dir: "dir_ok es \<Longrightarrow> check_build_input None es = Ok ()"
  by (simp add: check_build_input_dir_ok)

lemma page_build_leaf:
  "dir_ok es \<Longrightarrow> page_valid (Leaf es) \<Longrightarrow> page_build H es = Ok (page_bytes (Leaf es))"
  by (subst page_build.simps) (simp add: check_dir leaf_attempt_eq)

lemma page_build_branch:
  assumes "dir_ok es" "\<not> page_valid (Leaf es)" "build_split es = Ok (p, t, gs)"
  shows "page_build H es = Inr bs \<longleftrightarrow>
    (\<exists>cs. list_all2 (built_child H) gs cs \<and> page_encode (Branch p t cs) = Inr bs)"
proof -
  let ?f = "\<lambda>(lbl, grp). and_then (page_build H grp) (\<lambda>bs. (Ok \<lparr>label = lbl,
      subtree_entries = of_nat (length grp), child_page_id = page_id H bs\<rparr> :: branch_child res))"
  have b: "?f g = Inr c \<longleftrightarrow> built_child H g c" for g c
    by (cases c) (auto simp: built_child_def and_then_eq_Inr split: prod.split)
  have f: "(\<lambda>g c. ?f g = Inr c) = built_child H" using b by (intro ext) blast
  have "page_build H es = and_then (traverse ?f gs) (\<lambda>cs. page_encode (Branch p t cs))"
    using assms by (subst page_build.simps) (simp add: check_dir leaf_attempt_eq)
  then show ?thesis by (simp only: and_then_eq_Inr traverse_eq_Inr f)
qed

lemma page_build_dir_ok: "page_build H es = Inr bs \<Longrightarrow> dir_ok es"
  by (subst (asm) page_build.simps) (auto simp: and_then_eq_Inr check_build_input_dir_ok)

lemma group_props:
  assumes "split_ok es p t gs" "dir_ok es" "g \<in> set gs"
  shows "dir_ok (snd g)" "set (snd g) \<subseteq> set es" "snd g \<noteq> []" "length (snd g) \<le> length es"
proof -
  have c: "concat (map snd gs) = filter (\<lambda>e. e_name e \<noteq> p) es" and gs: "groups_ok p gs"
    using assms(1) unfolding split_ok_def by blast+
  have "set (snd g) \<subseteq> set (concat (map snd gs))" using assms(3) by auto
  then show sub: "set (snd g) \<subseteq> set es" unfolding c by auto
  show "snd g \<noteq> []" using gs assms(3) by (auto simp: groups_ok_def)
  have "sorted_wrt (<) (map e_name (concat (map snd gs)))"
    unfolding c using assms(2) by (simp add: dir_ok_def sorted_wrt_map sorted_wrt_filter)
  then have "sorted_wrt (<) (map e_name (snd g))"
    using assms(3) by (induction gs) (auto simp: sorted_wrt_append)
  with assms(2) sub show "dir_ok (snd g)" by (auto simp: dir_ok_def)
  show "length (snd g) \<le> length es"
    using length_concat_ge [OF assms(3)] length_filter_le [of "\<lambda>e. e_name e \<noteq> p" es] unfolding c by (rule le_trans)
qed

lemma not_leaf_two:
  assumes "dir_ok es" "\<forall>e\<in>set es. entry_wf e" "\<not> page_valid (Leaf es)"
  shows "2 \<le> length es" "es \<noteq> []"
proof -
  show "2 \<le> length es" using small_leaf [OF assms(1,2)] assms(3) by linarith
  then show "es \<noteq> []" by auto
qed

lemma entry_ok_dir: "dir_ok es \<Longrightarrow> \<forall>e\<in>set es. entry_wf e \<Longrightarrow> \<forall>e\<in>set es. entry_ok e"
  by (auto simp: dir_ok_def entry_ok_def)

text \<open>Every valid sorted directory can be built.\<close>

lemma page_build_total:
  assumes "sha_ok H"
  shows "dir_ok es \<Longrightarrow> \<forall>e\<in>set es. entry_wf e \<Longrightarrow> length es < 2 ^ 63 \<Longrightarrow> \<exists>bs. page_build H es = Ok bs"
proof (induction es rule: measure_induct_rule [of length])
  case (less es)
  show ?case
  proof (cases "page_valid (Leaf es)")
    case True
    then show ?thesis using page_build_leaf less.prems by blast
  next
    case False
    note two = not_leaf_two [OF less.prems(1,2) False]
    have srt: "sorted_wrt (<) (map e_name es)" using less.prems(1) by (simp add: dir_ok_def)
    obtain p t gs where b: "build_split es = Ok (p, t, gs)" and sp: "split_ok es p t gs"
      using build_split_Ok [OF two(1) srt] by blast
    have "\<exists>c. built_child H g c" if g: "g \<in> set gs" for g
    proof -
      note gp = group_props [OF sp less.prems(1) g]
      have "\<exists>bs. page_build H (snd g) = Ok bs"
        using build_split_shrinks [OF b g] gp less.prems by (intro less.IH) auto
      then obtain bs where "page_build H (snd g) = Ok bs" ..
      then show ?thesis
        by (intro exI [of _ "\<lparr>label = fst g, subtree_entries = of_nat (length (snd g)), child_page_id = page_id H bs\<rparr>"])
          (simp add: built_child_def)
    qed
    then have "\<exists>cs. list_all2 (built_child H) gs cs"
    proof (induction gs)
      case (Cons g gs)
      then obtain cs where "list_all2 (built_child H) gs cs" by (meson list.set_intros(2))
      moreover obtain c where "built_child H g c" using Cons.prems by (meson list.set_intros(1))
      ultimately have "list_all2 (built_child H) (g # gs) (c # cs)" by simp
      then show ?case ..
    qed (auto intro: exI [of _ "[]"])
    then obtain cs where cs: "list_all2 (built_child H) gs cs" ..
    have "list_all2 child_of_group gs cs"
      using cs by (rule list_all2_mono) (rule built_child_group [OF assms])
    then have "page_valid (Branch p t cs)"
      using branch_of_groups(2) [OF entry_ok_dir [OF less.prems(1,2)] srt two(2) less.prems(3) sp] by blast
    then have "page_encode (Branch p t cs) = Ok (page_bytes (Branch p t cs))" by (simp add: page_encode_Ok)
    then show ?thesis using page_build_branch [OF less.prems(1) False b] cs by blast
  qed
qed

text \<open>The two shapes of a built page.\<close>

lemma page_build_cases:
  assumes H: "sha_ok H" and b: "page_build H es = Ok bs" and wf: "\<forall>e\<in>set es. entry_wf e" "length es < 2 ^ 63"
  obtains (leaf) "page_wf (Leaf es)" "page_valid (Leaf es)" "bs = page_bytes (Leaf es)"
    | (branch) p t gs cs where "\<not> page_valid (Leaf es)" "es \<noteq> []" "build_split es = Ok (p, t, gs)" "split_ok es p t gs"
      "list_all2 (built_child H) gs cs" "page_wf (Branch p t cs)" "page_valid (Branch p t cs)"
      "page_total (Branch p t cs) = length es" "bs = page_bytes (Branch p t cs)"
proof (cases "page_valid (Leaf es)")
  case True
  then show ?thesis using leaf page_build_leaf [OF page_build_dir_ok [OF b] True, of H] b wf
    by (simp add: page_wf_def)
next
  case False
  note d = page_build_dir_ok [OF b]
  note two = not_leaf_two [OF d wf(1) False]
  have srt: "sorted_wrt (<) (map e_name es)" using d by (simp add: dir_ok_def)
  obtain p t gs where s: "build_split es = Ok (p, t, gs)" and sp: "split_ok es p t gs"
    using build_split_Ok [OF two(1) srt] by blast
  obtain cs where cs: "list_all2 (built_child H) gs cs" "page_encode (Branch p t cs) = Ok bs"
    using page_build_branch [OF d False s] b by blast
  have "list_all2 child_of_group gs cs"
    using cs(1) by (rule list_all2_mono) (rule built_child_group [OF H])
  note bg = branch_of_groups [OF entry_ok_dir [OF d wf(1)] srt two(2) wf(2) sp this]
  show ?thesis using branch [OF False two(2) s sp cs(1) bg] cs(2) by (simp add: page_encode_Ok)
qed

lemma clean_group_entries [simp]: "clean (group_entries p gs es)"
  by (induction p gs es rule: group_entries.induct) (auto intro!: clean_and_then)

lemma clean_check_build_input [simp]: "clean (check_build_input prev es)"
  by (induction prev es rule: check_build_input.induct) (auto intro!: clean_and_then)

lemma clean_build_split: "es \<noteq> [] \<Longrightarrow> clean (build_split es)"
  using lcp_longest [of "map e_name es"] by (auto simp: build_split_def Let_def intro!: clean_and_then)

lemma clean_page_build [simp]: "clean (page_build H es)"
proof (induction H es rule: page_build.induct)
  case (1 H es)
  have "clean (case leaf of Some bs \<Rightarrow> Ok bs | None \<Rightarrow> and_then (build_split es) (\<lambda>(p, terminal, groups).
      and_then (traverse (\<lambda>(lbl, grp). and_then (page_build H grp) (\<lambda>bs.
        Ok \<lparr>label = lbl, subtree_entries = of_nat (length grp), child_page_id = page_id H bs\<rparr>)) groups)
      (\<lambda>children. page_encode (Branch p terminal children))))"
    if a: "check_build_input None es = Ok u" "leaf_attempt es = Ok leaf" for u leaf
  proof (cases leaf)
    case None
    have "es \<noteq> []"
      using a(2) by (auto simp: leaf_attempt_eq None page_valid_def page_shape_ok_def page_body_def split: if_splits)
    then show ?thesis
      using "1.IH" [OF a(1) a(2) None]
      by (auto simp: None intro!: clean_and_then clean_build_split clean_traverse)
  qed simp
  then show ?case
    by (subst page_build.simps) (rule clean_and_then, simp, rule clean_and_then, simp add: leaf_attempt_eq, blast)
qed

section \<open>Groups as sets of entries\<close>

lemma group_is_filter:
  assumes sp: "split_ok es p t gs" and g: "(l, g) \<in> set gs"
  shows "g = filter (\<lambda>e. prefix (p @ [l]) (e_name e)) es"
proof -
  have c: "concat (map snd gs) = filter (\<lambda>e. e_name e \<noteq> p) es" and gs: "groups_ok p gs"
    using sp unfolding split_ok_def by blast+
  have f: "filter (\<lambda>e. prefix (p @ [l]) (e_name e)) es
      = filter (\<lambda>e. prefix (p @ [l]) (e_name e)) (concat (map snd gs))"
    unfolding c by (auto simp: prefix_def intro: filter_cong)
  have "filter (\<lambda>e. prefix (p @ [l]) (e_name e)) (concat (map snd gs)) = g"
    using gs g
  proof (induction gs)
    case (Cons a gs)
    obtain k h where a: "a = (k, h)" by (cases a)
    have h: "\<forall>e\<in>set h. prefix (p @ [k]) (e_name e)" using Cons.prems a by (auto simp: groups_ok_def)
    have gs: "groups_ok p gs" using Cons.prems(1) by (auto simp: groups_ok_def)
    have other: "filter (\<lambda>e. prefix (p @ [l]) (e_name e)) h' = []"
      if "\<forall>e\<in>set h'. prefix (p @ [k']) (e_name e)" "k' \<noteq> l" for h' k'
      using that by (auto simp: filter_empty_conv prefix_def)
    show ?case
    proof (cases "k = l")
      case True
      have "filter (\<lambda>e. prefix (p @ [l]) (e_name e)) (concat (map snd gs)) = []"
        using Cons.prems(1) a True by (fastforce simp: groups_ok_def filter_empty_conv prefix_def)
      moreover have "h = g" using Cons.prems a True groups_labels(1) [OF Cons.prems(1)] by (force simp: image_iff)
      moreover have "filter (\<lambda>e. prefix (p @ [l]) (e_name e)) h = h" using h True by (simp add: filter_id_conv)
      ultimately show ?thesis by (simp add: a)
    next
      case False
      with other [OF h] Cons.IH [OF gs] Cons.prems(2) a show ?thesis by auto
    qed
  qed simp
  with f show ?thesis by simp
qed

lemma group_exists:
  assumes sp: "split_ok es p t gs" and e: "e \<in> set es" "prefix (p @ [l]) (e_name e)"
  shows "\<exists>g. (l, g) \<in> set gs"
proof -
  have c: "concat (map snd gs) = filter (\<lambda>e. e_name e \<noteq> p) es" and gs: "groups_ok p gs"
    using sp unfolding split_ok_def by blast+
  have "e_name e \<noteq> p" using e(2) by (auto simp: prefix_def)
  then have "e \<in> set (concat (map snd gs))" unfolding c using e(1) by simp
  then obtain k g where g: "(k, g) \<in> set gs" "e \<in> set g" by auto
  then have "prefix (p @ [k]) (e_name e)" using gs by (auto simp: groups_ok_def)
  with e(2) have "k = l" by (auto simp: prefix_def)
  with g show ?thesis by blast
qed

lemma route_group_Ok:
  "\<forall>e\<in>set es. prefix p (e_name e) \<Longrightarrow>
     route_group p l grp es = Ok (grp @ filter (\<lambda>e. prefix (p @ [l]) (e_name e)) es)"
proof (induction p l grp es rule: route_group.induct)
  case (2 p l grp e es)
  show ?case
  proof (cases "e_name e = p")
    case True
    with 2 show ?thesis by (auto simp: prefix_def)
  next
    case False
    obtain r where r: "e_name e = p @ r" using 2 by (auto simp: prefix_def)
    with False obtain b r' where b: "r = b # r'" by (cases r) auto
    then have n: "e_name e \<noteq> p" "\<not> (length (e_name e) \<le> length p \<or> take (length p) (e_name e) \<noteq> p)"
      "at_index (e_name e) (length p) = (Ok b :: u8 res)" using r by (simp_all add: at_index_def)
    show ?thesis
      using "2.IH"(2) [OF n] 2 r b n by (simp add: prefix_def)
  qed
qed simp

section \<open>A built page and its children\<close>

lemma find_label:
  assumes "list_all2 (built_child H) gs cs" "distinct (map fst gs)"
  shows "(l, g) \<in> set gs \<Longrightarrow> \<exists>c. find (\<lambda>c. label c = l) cs = Some c \<and> built_child H (l, g) c"
    and "find (\<lambda>c. label c = l) cs = Some c \<Longrightarrow> \<exists>g. (l, g) \<in> set gs \<and> built_child H (l, g) c"
  using assms by (induction rule: list_all2_induct) (force simp: built_child_def split: if_splits)+

lemma page_decode_bytes:
  "page_wf p \<Longrightarrow> page_valid p \<Longrightarrow> page_decode (page_bytes p) = Ok (p, of_nat (page_total p))"
  by (simp add: page_decode_Ok)

text \<open>Every page built for a group is accepted as the child of the page built for the whole.\<close>

lemma verify_built_child:
  assumes H: "sha_ok H" and wf: "\<forall>e\<in>set es. entry_wf e" "length es < 2 ^ 63" and d: "dir_ok es"
    and sp: "split_ok es p t gs" and cs: "list_all2 (built_child H) gs cs"
    and pg: "page_wf (Branch p t cs)" "page_valid (Branch p t cs)"
    and g: "(l, g) \<in> set gs" and b: "page_build H g = Ok bs"
  shows "verify_received_child H (page_bytes (Branch p t cs)) l bs = Ok ()"
proof -
  have gs: "groups_ok p gs" using sp unfolding split_ok_def by blast
  obtain c where c: "find (\<lambda>c. label c = l) cs = Some c" "built_child H (l, g) c"
    using find_label(1) [OF cs groups_labels(1) [OF gs] g] by blast
  then have cid: "page_id H bs = child_page_id c" "subtree_entries c = of_nat (length g)"
    using b by (auto simp: built_child_def)
  note gp = group_props [OF sp d g, simplified]
  have names: "\<forall>e\<in>set g. prefix (p @ [l]) (e_name e)" using gs g by (auto simp: groups_ok_def)
  have gwf: "\<forall>e\<in>set g. entry_wf e" "length g < 2 ^ 63" using gp wf by auto
  have dec: "page_decode (page_bytes (Branch p t cs)) = Ok (Branch p t cs, of_nat (page_total (Branch p t cs)))"
    using pg by (rule page_decode_bytes)
  from H b gwf show ?thesis
  proof (cases rule: page_build_cases)
    case leaf
    have "page_decode bs = Ok (Leaf g, of_nat (length g))"
      using leaf page_decode_bytes [of "Leaf g"] by (simp add: page_total_def)
    moreover have "list_all (\<lambda>e. starts_with (e_name e) (p @ [l])) g"
      using names by (simp add: list_all_iff starts_with_iff prefix_def)
    ultimately show ?thesis using dec c cid by (simp add: verify_received_child_def)
  next
    case (branch p' t' gs' cs')
    have "page_decode bs = Ok (Branch p' t' cs', of_nat (length g))"
      using branch page_decode_bytes [of "Branch p' t' cs'"] by simp
    moreover have "p' = Longest_common_prefix (set (map e_name g))" using branch(4) unfolding split_ok_def by blast
    then have "prefix (p @ [l]) p'"
      using Longest_common_prefix_max_prefix [of "set (map e_name g)" "p @ [l]"] names gp(3) by simp
    then have "starts_with p' (p @ [l])" by (simp add: starts_with_iff prefix_def)
    ultimately show ?thesis using dec c cid by (simp add: verify_received_child_def)
  qed
qed

section \<open>Routes\<close>

text \<open>The entries below a label, and the routes that exist: every step leaves a directory that does not
  fit one leaf for the non-empty set of entries that continue its longest common prefix with the
  label.\<close>

definition below :: "entry list \<Rightarrow> u8 \<Rightarrow> entry list" where
  "below es l = filter (\<lambda>e. prefix (Longest_common_prefix (set (map e_name es)) @ [l]) (e_name e)) es"

fun route_in :: "entry list \<Rightarrow> u8 list \<Rightarrow> bool" where
  "route_in es [] = True"
| "route_in es (l # ls) = (\<not> page_valid (Leaf es) \<and> below es l \<noteq> [] \<and> route_in (below es l) ls)"

lemma below_group:
  assumes "split_ok es p t gs"
  shows "(l, g) \<in> set gs \<longleftrightarrow> g = below es l \<and> g \<noteq> []"
proof -
  have p: "p = Longest_common_prefix (set (map e_name es))" and gs: "groups_ok p gs"
    using assms unfolding split_ok_def by blast+
  show ?thesis
  proof
    assume g: "(l, g) \<in> set gs"
    then show "g = below es l \<and> g \<noteq> []"
      using group_is_filter [OF assms g] gs by (auto simp: below_def p groups_ok_def)
  next
    assume g: "g = below es l \<and> g \<noteq> []"
    then have "g \<noteq> []" by (rule conjunct2)
    then obtain e where "e \<in> set g" by (meson list.set_sel(1))
    then have "e \<in> set es" "prefix (p @ [l]) (e_name e)" using g by (simp_all add: below_def p)
    from group_exists [OF assms this] obtain g' where g': "(l, g') \<in> set gs" ..
    then have "g' = below es l" using group_is_filter [OF assms g'] by (simp add: below_def p)
    with g g' show "(l, g) \<in> set gs" by simp
  qed
qed

fun chain_verifies :: "hash \<Rightarrow> bytes \<Rightarrow> u8 list \<Rightarrow> bytes list \<Rightarrow> bool" where
  "chain_verifies H page [] [] = True"
| "chain_verifies H page (l # ls) (b # bs) =
     (verify_received_child H page l b = Ok () \<and> chain_verifies H b ls bs)"
| "chain_verifies H page _ _ = False"

text \<open>One step along a route: the page below the label is built, and the receiving side accepts it.\<close>

lemma route_loop_step:
  assumes H: "sha_ok H" and wf: "\<forall>e\<in>set es. entry_wf e" "length es < 2 ^ 63" and b: "page_build H es = Ok page"
    and v: "\<not> page_valid (Leaf es)" "below es l \<noteq> []"
  obtains c where "page_build H (below es l) = Ok c" "verify_received_child H page l c = Ok ()"
    "\<And>acc ls. route_loop H es page acc (l # ls) = route_loop H (below es l) c (acc @ [c]) ls"
    "\<forall>e\<in>set (below es l). entry_wf e" "length (below es l) < 2 ^ 63" "dir_ok (below es l)"
proof -
  note d = page_build_dir_ok [OF b]
  let ?g = "below es l"
  from H b wf show thesis
  proof (cases rule: page_build_cases)
    case (branch p t gs cs)
    have gs: "groups_ok p gs" and p: "p = Longest_common_prefix (set (map e_name es))" using branch(4) unfolding split_ok_def by blast+
    have dec: "page_decode page = Ok (Branch p t cs, of_nat (length es))" using branch by (simp add: page_decode_bytes)
    have g: "(l, ?g) \<in> set gs" using below_group [OF branch(4)] v(2) by simp
    obtain c where c: "find (\<lambda>c. label c = l) cs = Some c" "built_child H (l, ?g) c"
      using find_label(1) [OF branch(5) groups_labels(1) [OF gs] g] by blast
    then obtain b where b: "page_build H ?g = Ok b" "child_page_id c = page_id H b" by (auto simp: built_child_def)
    have rg: "route_group p l [] es = Ok ?g"
      using route_group_Ok [of es p l "[]"] by (simp add: below_def p Longest_common_prefix_prefix)
    have gp: "\<forall>e\<in>set ?g. entry_wf e" "length ?g < 2 ^ 63" "dir_ok ?g" using group_props [OF branch(4) d g] wf by auto
    have "verify_received_child H page l b = Ok ()"
      unfolding branch(9) by (rule verify_built_child [OF H wf d branch(4,5,6,7) g b(1)])
    then show thesis using that [OF b(1) _ _ gp] dec c(1) rg b v(2) by simp
  qed (use v in simp)
qed

lemma route_loop_spec:
  assumes H: "sha_ok H"
  shows "\<forall>e\<in>set es. entry_wf e \<Longrightarrow> length es < 2 ^ 63 \<Longrightarrow> page_build H es = Ok page \<Longrightarrow>
    (if route_in es route
     then \<exists>bs. route_loop H es page acc route = Ok (acc @ bs) \<and> chain_verifies H page route bs
     else \<exists>w. route_loop H es page acc route = Err (BadOrdering w))"
proof (induction route arbitrary: es page acc)
  case Nil
  then show ?case by (auto intro: exI [of _ "[]"])
next
  case (Cons l ls)
  note d = page_build_dir_ok [OF Cons.prems(3)]
  from H Cons.prems(3,1,2) show ?case
  proof (cases rule: page_build_cases)
    case leaf
    then have "page_decode page = Ok (Leaf es, of_nat (page_total (Leaf es)))" by (simp add: page_decode_bytes)
    with leaf show ?thesis by simp
  next
    case (branch p t gs cs)
    have gs: "groups_ok p gs" using branch(4) unfolding split_ok_def by blast
    have dec: "page_decode page = Ok (Branch p t cs, of_nat (length es))"
      using branch by (simp add: page_decode_bytes)
    show ?thesis
    proof (cases "below es l = []")
      case True
      then have "find (\<lambda>c. label c = l) cs = None"
        using find_label(2) [OF branch(5) groups_labels(1) [OF gs], of l] below_group [OF branch(4), of l]
        by (cases "find (\<lambda>c. label c = l) cs") auto
      with True dec show ?thesis by simp
    next
      case False
      show ?thesis
      proof (rule route_loop_step [OF H Cons.prems branch(1) False])
        fix b
        assume b: "page_build H (below es l) = Ok b" "verify_received_child H page l b = Ok ()"
          and step: "\<And>acc ls. route_loop H es page acc (l # ls) = route_loop H (below es l) b (acc @ [b]) ls"
          and wf: "\<forall>e\<in>set (below es l). entry_wf e" "length (below es l) < 2 ^ 63"
        from Cons.IH [OF wf b(1), of "acc @ [b]"] show ?thesis
          unfolding step using False branch(1) b(2)
          by (fastforce split: if_splits intro: exI [of _ "b # _"])
      qed
    qed
  qed
qed

section \<open>Properties\<close>

text \<open>The common prefix scan of \<open>lcp\<close> computes the longest common prefix of a non-empty list of
  names, and its indexing never goes out of range.\<close>

theorem lcp_correct: "lcp (n # ns) = Ok (Longest_common_prefix (set (n # ns)))"
  by (rule lcp_longest) simp

text \<open>C4. Building terminates, never panics, and succeeds on exactly the lists of valid entries in
  strictly ascending order of their names: the longest common prefix always leaves at least two
  groups, and a branch with up to 256 children always fits a page.\<close>

theorem page_build_exact:
  assumes "sha_ok H" "\<forall>e\<in>set es. entry_wf e" "length es < 2 ^ 63"
  shows "clean (page_build H es) \<and>
    (is_ok (page_build H es) \<longleftrightarrow> (\<forall>e\<in>set es. entry_valid e) \<and> sorted_wrt (<) (map e_name es))"
  using page_build_total [OF assms(1) _ assms(2,3)] page_build_dir_ok
  by (auto simp: is_ok_iff dir_ok_def)

text \<open>The page built for a directory decodes, and the total in its header is the number of entries
  of the directory, however many levels of pages lie below it.\<close>

theorem page_build_decodes:
  assumes "sha_ok H" "\<forall>e\<in>set es. entry_wf e" "length es < 2 ^ 63" "page_build H es = Ok bs"
  shows "\<exists>p. page_decode bs = Ok (p, of_nat (length es)) \<and> total_entries p = Ok (of_nat (length es))"
proof -
  from assms(1,4,2,3) obtain p where p: "page_wf p" "page_valid p" "bs = page_bytes p" "page_total p = length es"
    by (cases rule: page_build_cases) (auto simp: page_total_def)
  then show ?thesis using assms(3) by (intro exI [of _ p]) (simp add: page_decode_bytes total_entries_Ok)
qed

text \<open>C18. A walk along a route succeeds exactly on the routes that exist in the tree; it returns the root
  page followed by one page per label, each of which the receiving side accepts as the child of the
  page before it. On any other route it returns an ordering error, never a digest mismatch.\<close>

theorem pages_along_route_exact:
  assumes "sha_ok H" "\<forall>e\<in>set es. entry_wf e" "length es < 2 ^ 63" "page_build H es = Ok page"
  shows "if route_in es route
    then \<exists>bs. pages_along_route H es route = Ok (page # bs) \<and> chain_verifies H page route bs
    else \<exists>w. pages_along_route H es route = Err (BadOrdering w)"
proof (cases "es = []")
  case True
  have "page_valid (Leaf [])" by (simp add: page_valid_def page_shape_ok_def page_body_def)
  then show ?thesis using True assms(4) by (cases route) (simp_all add: pages_along_route_def)
next
  case False
  then show ?thesis
    using route_loop_spec [OF assms(1-4), where acc = "[page]" and route = route] assms(4)
    by (auto simp: pages_along_route_def split: if_splits)
qed

section \<open>Authenticity\<close>

text \<open>The pages built for a directory: its root page and the pages of its groups, recursively. This is
  the finite set of inputs among which the theorems below exclude collisions.\<close>

inductive built :: "hash \<Rightarrow> entry list \<Rightarrow> bytes \<Rightarrow> bool" for H where
  root: "page_build H es = Ok b \<Longrightarrow> built H es b"
| child: "leaf_attempt es = Ok None \<Longrightarrow> build_split es = Ok (p, t, gs) \<Longrightarrow> (l, g) \<in> set gs \<Longrightarrow>
    built H g b \<Longrightarrow> built H es b"

definition no_page_collision :: "hash \<Rightarrow> bytes set \<Rightarrow> bool" where
  "no_page_collision H S \<longleftrightarrow> collision_free H ((\<lambda>b. PAGE_DOMAIN @ b) ` S)"

lemma no_page_collisionD:
  "no_page_collision H S \<Longrightarrow> a \<in> S \<Longrightarrow> b \<in> S \<Longrightarrow> page_id H a = page_id H b \<Longrightarrow> a = b"
  by (auto simp: no_page_collision_def page_id_def sha256_def dest: collision_freeD)

lemma no_page_collision_mono: "no_page_collision H S \<Longrightarrow> T \<subseteq> S \<Longrightarrow> no_page_collision H T"
  unfolding no_page_collision_def by (erule collision_free_mono) blast

lemma built_group: "\<not> page_valid (Leaf es) \<Longrightarrow> build_split es = Ok (p, t, gs) \<Longrightarrow> (l, g) \<in> set gs \<Longrightarrow>
    {b. built H g b} \<subseteq> {b. built H es b}"
  by (auto intro: built.child simp: leaf_attempt_eq)

lemma same_page:
  assumes "page_wf p" "page_valid p" "page_wf q" "page_valid q" "page_bytes p = page_bytes q"
  shows "p = q"
proof -
  have "page_decode (page_bytes p) = Ok (q, of_nat (page_total q))"
    unfolding assms(5) using assms(3,4) by (rule page_decode_bytes)
  then show ?thesis using page_decode_bytes [OF assms(1,2)] by simp
qed

lemma groups_pinned:
  assumes "list_all2 (built_child H) gs cs" "list_all2 (built_child H) hs cs"
    and "\<And>l g h a b. (l, g) \<in> set gs \<Longrightarrow> (l, h) \<in> set hs \<Longrightarrow> page_build H g = Ok a \<Longrightarrow> page_build H h = Ok b
      \<Longrightarrow> page_id H a = page_id H b \<Longrightarrow> g = h"
  shows "gs = hs"
  using assms
proof (induction cs arbitrary: gs hs rule: list.induct)
  case (Cons c cs)
  obtain l g gs' where g: "gs = (l, g) # gs'" "built_child H (l, g) c" "list_all2 (built_child H) gs' cs"
    using Cons.prems(1) by (auto simp: list_all2_Cons2)
  obtain k h hs' where h: "hs = (k, h) # hs'" "built_child H (k, h) c" "list_all2 (built_child H) hs' cs"
    using Cons.prems(2) by (auto simp: list_all2_Cons2)
  have "l = k" using g(2) h(2) by (simp add: built_child_def)
  moreover have "g = h"
    using g h \<open>l = k\<close> by (auto simp: built_child_def intro: Cons.prems(3))
  moreover have "gs' = hs'"
    by (rule Cons.IH [OF g(3) h(3)]) (use g(1) h(1) in \<open>auto intro: Cons.prems(3)\<close>)
  ultimately show ?case using g h by simp
qed simp

lemma page_build_inj:
  assumes H: "sha_ok H"
  shows "page_build H es = Ok b \<Longrightarrow> page_build H fs = Ok b \<Longrightarrow>
    \<forall>e\<in>set es. entry_wf e \<Longrightarrow> length es < 2 ^ 63 \<Longrightarrow> \<forall>e\<in>set fs. entry_wf e \<Longrightarrow> length fs < 2 ^ 63 \<Longrightarrow>
    no_page_collision H ({b. built H es b} \<union> {b. built H fs b}) \<Longrightarrow> es = fs"
proof (induction es arbitrary: fs b rule: measure_induct_rule [of length])
  case (less es)
  note d = page_build_dir_ok [OF less.prems(1)] page_build_dir_ok [OF less.prems(2)]
  from H less.prems(1,3,4) show ?case
  proof (cases rule: page_build_cases)
    case leaf
    from H less.prems(2,5,6) show ?thesis
    proof (cases rule: page_build_cases)
      case leaf': leaf
      from same_page [OF leaf(1,2) leaf'(1,2)] show ?thesis using leaf(3) leaf'(3) by simp
    next
      case branch': (branch p t gs cs)
      from same_page [OF leaf(1,2) branch'(6,7)] show ?thesis using leaf(3) branch'(9) by simp
    qed
  next
    case (branch p t gs cs)
    from H less.prems(2,5,6) show ?thesis
    proof (cases rule: page_build_cases)
      case leaf
      from same_page [OF leaf(1,2) branch(6,7)] show ?thesis using leaf(3) branch(9) by simp
    next
      case branch': (branch p' t' gs' cs')
      have "Branch p t cs = Branch p' t' cs'"
        using same_page [OF branch(6,7) branch'(6,7)] branch(9) branch'(9) by simp
      then have eq: "p' = p" "t' = t" "cs' = cs" by simp_all
      have gs: "gs = gs'"
      proof (rule groups_pinned [OF branch(5) branch'(5) [unfolded eq]])
        fix l g h a b
        assume g: "(l, g) \<in> set gs" and h: "(l, h) \<in> set gs'" and a: "page_build H g = Ok a"
          and b: "page_build H h = Ok b" and id: "page_id H a = page_id H b"
        note sub = built_group [OF branch(1,3) g, of H] built_group [OF branch'(1,3) h, of H]
        have nc: "no_page_collision H ({b. built H g b} \<union> {b. built H h b})"
          using less.prems(7) by (rule no_page_collision_mono) (use sub in blast)
        have "a = b" using nc by (rule no_page_collisionD) (use a b id in \<open>auto intro: built.root\<close>)
        with a b have ab: "page_build H g = Ok a" "page_build H h = Ok a" by simp_all
        note gp = group_props [OF branch(4) d(1) g, simplified] group_props [OF branch'(4) d(2) h, simplified]
        have "length g < length es" using build_split_shrinks [OF branch(3) g] by simp
        from less.IH [OF this ab] show "g = h" using gp nc less.prems(3-6) by auto
      qed
      show ?thesis
        using split_entries [OF branch(4) _ branch(2)] split_entries [OF branch'(4) _ branch'(2)] d gs eq
        by (simp add: dir_ok_def)
    qed
  qed
qed

text \<open>C9. The id of the root page authenticates a directory: two directories with the same root id have
  the same entries, unless two of the pages built for them collide under the digest.\<close>

theorem root_page_id_pins_directory:
  assumes "sha_ok H" "\<forall>e\<in>set es. entry_wf e" "length es < 2 ^ 63" "\<forall>e\<in>set fs. entry_wf e" "length fs < 2 ^ 63"
    and "page_build H es = Ok a" "page_build H fs = Ok b" "page_id H a = page_id H b"
    and "no_page_collision H ({b. built H es b} \<union> {b. built H fs b})"
  shows "es = fs"
proof -
  have "a = b" using assms(9) by (rule no_page_collisionD) (use assms(6-8) in \<open>auto intro: built.root\<close>)
  with assms show ?thesis by (intro page_build_inj [OF assms(1), of es a fs]) simp_all
qed

inductive_cases built_cases: "built H es b"

text \<open>A directory of one file.\<close>

definition one_file :: "entry list" where
  "one_file = [\<lparr>e_kind = Regular, e_name = [0x61], e_size = 3, e_content_id = replicate 32 4, e_child_root = replicate 32 0\<rparr>]"

lemma one_file_page:
  "\<forall>e\<in>set one_file. entry_wf e" "length one_file < 2 ^ 63" "page_build H one_file = Ok (page_bytes (Leaf one_file))"
  "{p. built H one_file p} = {page_bytes (Leaf one_file)}"
proof -
  show "\<forall>e\<in>set one_file. entry_wf e" "length one_file < 2 ^ 63" by (simp_all add: one_file_def entry_wf_def is_dir_def)
  have "is_ok (page_encode (Leaf one_file))" by code_simp
  then have v: "page_valid (Leaf one_file)" using page_encode_Ok by (auto simp: is_ok_iff)
  have "dir_ok one_file" using v by (simp add: one_file_def dir_ok_def page_valid_def page_shape_ok_def)
  with v show b: "page_build H one_file = Ok (page_bytes (Leaf one_file))" by (intro page_build_leaf)
  then show "{p. built H one_file p} = {page_bytes (Leaf one_file)}"
    using v by (auto intro: built.root elim: built_cases simp: leaf_attempt_eq)
qed

theorem root_page_id_pins_directory_witness:
  "\<exists>H b. sha_ok H \<and> page_build H one_file = Ok b \<and> no_page_collision H {b} \<and> one_file = one_file"
proof -
  let ?H = "\<lambda>_. replicate 32 0 :: bytes" and ?b = "page_bytes (Leaf one_file)"
  have H: "sha_ok ?H" by (simp add: sha_ok_def)
  have c: "no_page_collision ?H {?b}" by (simp add: no_page_collision_def collision_free_def)
  have "one_file = one_file"
    by (rule root_page_id_pins_directory [OF H one_file_page(1,2,1,2,3,3) refl]) (simp add: one_file_page(4) c)
  then show ?thesis using H c one_file_page(3) by blast
qed

definition page_under :: "bytes \<Rightarrow> page \<Rightarrow> bool" where
  "page_under pre q = (case q of
     Leaf es \<Rightarrow> \<forall>e\<in>set es. prefix pre (e_name e)
   | Branch p _ _ \<Rightarrow> prefix pre p)"

lemma find_sorted_label:
  assumes "sorted_wrt (<) (map label cs)"
  shows "find (\<lambda>c. label c = l) cs = Some c \<longleftrightarrow> c \<in> set cs \<and> label c = l"
  using assms by (induction cs) (auto simp: less_le)

lemma verify_received_child_Ok:
  "verify_received_child H parent l r = Ok () \<longleftrightarrow>
     (\<exists>p t cs n c q. page_decode parent = Ok (Branch p t cs, n) \<and> c \<in> set cs \<and> label c = l
       \<and> page_id H r = child_page_id c \<and> page_decode r = Ok (q, subtree_entries c) \<and> page_under (p @ [l]) q)"
proof -
  have pu: "(case q of Leaf entries \<Rightarrow> list_all (\<lambda>entry. starts_with (e_name entry) pre) entries
      | Branch pfx _ _ \<Rightarrow> starts_with pfx pre) \<longleftrightarrow> page_under pre q" for pre q
    by (cases q) (simp_all add: page_under_def starts_with_iff prefix_def list_all_iff)
  have f: "find (\<lambda>c. label c = l) cs = Some c \<longleftrightarrow> c \<in> set cs \<and> label c = l"
    if "page_decode parent = Ok (Branch p t cs, n)" for p t cs n c
    using that by (intro find_sorted_label)
      (simp add: page_decode_Ok page_valid_def page_shape_ok_def ascending_from_iff)
  show ?thesis (is "?l \<longleftrightarrow> ?r")
  proof
    assume ?l
    then show ?r
      unfolding verify_received_child_def pu Let_def
      by (cases "page_decode parent") (auto simp: and_then_eq_Inr ok_or_eq_Inr f split: page.splits prod.splits if_splits)
  next
    assume ?r
    then obtain p t cs n c q where v: "page_decode parent = Ok (Branch p t cs, n)" "c \<in> set cs" "label c = l"
      "page_id H r = child_page_id c" "page_decode r = Ok (q, subtree_entries c)" "page_under (p @ [l]) q"
      by blast
    then have "find (\<lambda>c. label c = l) cs = Some c" using f by blast
    with v show ?l unfolding verify_received_child_def pu Let_def by simp
  qed
qed

text \<open>A received page is accepted exactly when the parent is a branch with a child under the label,
  the received bytes have the id and the entry count the parent commits to, they decode, and every
  name they show extends the prefix of the parent by the label.\<close>

theorem verify_received_child_exact:
  "verify_received_child H parent l r = Ok () \<longleftrightarrow>
     (\<exists>p t cs n c q. page_decode parent = Ok (Branch p t cs, n) \<and> c \<in> set cs \<and> label c = l
       \<and> page_id H r = child_page_id c \<and> page_decode r = Ok (q, subtree_entries c) \<and> page_under (p @ [l]) q)"
  by (rule verify_received_child_Ok)

text \<open>C17. A page accepted as the child of a page built for a directory is the page built for the entries
  below the label, unless it collides with that page under the digest.\<close>

theorem received_child_authentic:
  assumes "sha_ok H" "\<forall>e\<in>set es. entry_wf e" "length es < 2 ^ 63" "page_build H es = Ok parent"
    and "verify_received_child H parent l r = Ok ()"
  shows "\<exists>b. page_build H (below es l) = Ok b \<and> (no_page_collision H {r, b} \<longrightarrow> r = b)"
proof -
  from assms(5) obtain p t cs n c where v: "page_decode parent = Ok (Branch p t cs, n)" "c \<in> set cs"
    "label c = l" "page_id H r = child_page_id c"
    unfolding verify_received_child_Ok by blast
  from assms(1,4,2,3) show ?thesis
  proof (cases rule: page_build_cases)
    case leaf
    with v(1) show ?thesis by (simp add: page_decode_bytes)
  next
    case (branch p' t' gs cs')
    then have cs: "cs' = cs" using v(1) by (simp add: page_decode_bytes)
    obtain g where g: "(l, g) \<in> set gs" "built_child H (l, g) c"
      using list_all2_right [OF branch(5), of c] v(2,3) cs by (auto simp: built_child_def)
    then have "g = below es l" using below_group [OF branch(4)] by blast
    with g(2) obtain b where b: "page_build H (below es l) = Ok b" "child_page_id c = page_id H b"
      by (auto simp: built_child_def)
    with v(4) show ?thesis by (auto intro: no_page_collisionD)
  qed
qed

text \<open>A directory of 130 files that does not fit one leaf.\<close>

definition sample_dir :: "entry list" where
  "sample_dir = map (\<lambda>i. \<lparr>e_kind = Regular, e_name = [0x61 + of_nat (i div 16), 0x61 + of_nat (i mod 16)],
     e_size = 0, e_content_id = replicate 32 0, e_child_root = replicate 32 0\<rparr>) [0..<130]"

lemma sample_dir_facts:
  "length sample_dir = 130" "\<forall>e\<in>set sample_dir. entry_wf e" "dir_ok sample_dir" "below sample_dir 0x61 \<noteq> []"
proof -
  show "length sample_dir = 130" by (simp add: sample_dir_def)
  show "\<forall>e\<in>set sample_dir. entry_wf e" by (simp add: sample_dir_def entry_wf_def is_dir_def)
  have "ascending_from None (map e_name sample_dir)" "list_all entry_valid sample_dir" by code_simp+
  then show "dir_ok sample_dir" by (simp add: ascending_from_iff dir_ok_def list_all_iff)
  have "e_name (sample_dir ! 0) = 0x61 # [0x61]" "e_name (sample_dir ! 129) = 0x69 # [0x62]" by (simp_all add: sample_dir_def)
  moreover have "sample_dir ! 0 \<in> set sample_dir" "sample_dir ! 129 \<in> set sample_dir"
    using \<open>length sample_dir = 130\<close> by simp_all
  ultimately have n: "0x61 # [0x61] \<in> set (map e_name sample_dir)" "0x69 # [0x62] \<in> set (map e_name sample_dir)"
    by (metis image_eqI set_map)+
  have "Longest_common_prefix (set (map e_name sample_dir)) = []"
    by (rule Longest_common_prefix_eq_Nil [OF n]) simp
  then have "sample_dir ! 0 \<in> set (below sample_dir 0x61)"
    using \<open>sample_dir ! 0 \<in> set sample_dir\<close> \<open>e_name (sample_dir ! 0) = 0x61 # [0x61]\<close>
    by (simp add: below_def)
  then show "below sample_dir 0x61 \<noteq> []" by auto
qed

lemma page_build_exact_witness: "is_ok (page_build (\<lambda>_. replicate 32 0) sample_dir)"
proof -
  have "clean (page_build (\<lambda>_. replicate 32 0) sample_dir) \<and> (is_ok (page_build (\<lambda>_. replicate 32 0) sample_dir)
      \<longleftrightarrow> (\<forall>e\<in>set sample_dir. entry_valid e) \<and> sorted_wrt (<) (map e_name sample_dir))"
    by (rule page_build_exact) (simp_all add: sample_dir_facts sha_ok_def)
  then show ?thesis using sample_dir_facts(3) by (simp add: dir_ok_def)
qed

lemma sample_dir_built:
  obtains H bs where "sha_ok H" "page_build H sample_dir = Ok bs"
  using page_build_total [of "\<lambda>_. replicate 32 0" sample_dir] sample_dir_facts
  by (auto simp: sha_ok_def intro: that [of "\<lambda>_. replicate 32 0"])

lemma page_build_decodes_witness: "\<exists>H bs p. page_build H sample_dir = Ok bs \<and> page_decode bs = Ok (p, 130)"
proof -
  obtain H bs where "sha_ok H" "page_build H sample_dir = Ok bs" by (rule sample_dir_built)
  then show ?thesis
    using page_build_decodes [of H sample_dir bs] sample_dir_facts by auto
qed

lemma sample_route: "route_in sample_dir [0x61]"
  using sample_dir_facts by (simp add: page_valid_def page_shape_ok_def)

lemma pages_along_route_exact_witness: "\<exists>H page b. pages_along_route H sample_dir [0x61] = Ok [page, b]
   \<and> verify_received_child H page 0x61 b = Ok ()"
proof -
  obtain H page where h: "sha_ok H" "page_build H sample_dir = Ok page" by (rule sample_dir_built)
  then obtain bs where bs: "pages_along_route H sample_dir [0x61] = Ok (page # bs)" "chain_verifies H page [0x61] bs"
    using pages_along_route_exact [of H sample_dir page "[0x61]"] sample_dir_facts sample_route
    by (auto simp del: route_in.simps)
  then obtain b where "bs = [b]" by (cases bs; cases "tl bs") auto
  with bs show ?thesis by auto
qed

lemma sample_child:
  obtains H page b where "sha_ok H" "page_build H sample_dir = Ok page"
    "page_build H (below sample_dir 0x61) = Ok b" "verify_received_child H page 0x61 b = Ok ()"
proof -
  obtain H page where h: "sha_ok H" "page_build H sample_dir = Ok page" by (rule sample_dir_built)
  have l: "length sample_dir < 2 ^ 63" by (simp add: sample_dir_facts)
  from h sample_dir_facts(2) l show thesis
  proof (cases rule: page_build_cases)
    case leaf
    then show thesis using sample_route by simp
  next
    case (branch p t gs cs)
    have g: "(0x61, below sample_dir 0x61) \<in> set gs" using below_group [OF branch(4)] sample_dir_facts(4) by simp
    note gp = group_props [OF branch(4) sample_dir_facts(3) g, simplified]
    have "\<exists>b. page_build H (below sample_dir 0x61) = Ok b"
      using gp sample_dir_facts by (intro page_build_total [OF h(1)]) auto
    then obtain b where b: "page_build H (below sample_dir 0x61) = Ok b" ..
    show thesis
      using that [OF h b] verify_built_child [OF h(1) sample_dir_facts(2) l sample_dir_facts(3) branch(4-7) g b] branch(9)
      by simp
  qed
qed

lemma received_child_authentic_witness:
  "\<exists>H parent r. page_build H sample_dir = Ok parent \<and> verify_received_child H parent 0x61 r = Ok ()
     \<and> page_build H (below sample_dir 0x61) = Ok r"
proof -
  obtain H page b where h: "sha_ok H" "page_build H sample_dir = Ok page"
    "page_build H (below sample_dir 0x61) = Ok b" "verify_received_child H page 0x61 b = Ok ()"
    by (rule sample_child)
  from received_child_authentic [OF h(1) sample_dir_facts(2) _ h(2,4)] obtain r
    where "page_build H (below sample_dir 0x61) = Ok r" using sample_dir_facts(1) by auto
  with h show ?thesis by blast
qed

end
