(* ===== verification/Error_Json.thy ===== *)
theory Error_Json
  imports Codec_Lib "HOL-Library.Sublist"
begin

text \<open>
  \<^verbatim>\<open>src/treeframe.rs\<close>, the body of ERROR frames: the strict scanner \<open>JsonScan\<close>, the parser of the closed
  schema \<open>{code, retryable, request_id}\<close> and the writer of its canonical form. A scanner is the bytes of
  the text and the position; its methods return the moved scanner. The text is a Rust \<open>&str\<close>, so it is
  valid UTF-8; what depends on that is said where it is used.

  The texts of the schema are a grammar of their own, \<open>error_text_in\<close>, without the functions of the scanner. It is
  written for JSON and for the language of the scanner, which differ by two rules on unicode escapes.
\<close>

section \<open>The scanner\<close>

record json_scan =
  js_b :: bytes
  js_i :: nat

definition quote :: u8 where "quote = 0x22"
definition backslash :: u8 where "backslash = 0x5C"

definition json_scan_new :: "bytes \<Rightarrow> json_scan" where
  "json_scan_new s = \<lparr>js_b = s, js_i = 0\<rparr>"

definition js_eof :: "json_scan \<Rightarrow> bool" where
  "js_eof it \<longleftrightarrow> js_i it \<ge> length (js_b it)"

definition js_advance :: "nat \<Rightarrow> json_scan \<Rightarrow> json_scan" where
  "js_advance n it = it\<lparr>js_i := js_i it + n\<rparr>"

lemma js_advance_simps [simp]:
  "js_b (js_advance n it) = js_b it" "js_i (js_advance n it) = js_i it + n"
  by (simp_all add: js_advance_def)

definition is_ws :: "u8 \<Rightarrow> bool" where
  "is_ws c \<longleftrightarrow> c = 0x20 \<or> c = 0x09 \<or> c = 0x0A \<or> c = 0x0D"

function skip_ws :: "json_scan \<Rightarrow> json_scan" where
  "skip_ws it =
     (if js_i it < length (js_b it) \<and> is_ws (js_b it ! js_i it) then skip_ws (js_advance 1 it) else it)"
  by pat_completeness auto
termination
  by (relation "measure (\<lambda>it. length (js_b it) - js_i it)") auto

declare skip_ws.simps [simp del]

definition js_take :: "u8 \<Rightarrow> json_scan \<Rightarrow> bool \<times> json_scan" where
  "js_take c it =
     (if js_i it < length (js_b it) \<and> js_b it ! js_i it = c then (True, js_advance 1 it) else (False, it))"

text \<open>\<open>u32::from_str_radix(hex, 16)\<close> of at most four bytes: an optional plus sign, then one or more digits
  of either case. Four digits cannot overflow.\<close>

definition hex_value :: "u8 \<Rightarrow> nat option" where
  "hex_value b =
     (if 0x30 \<le> b \<and> b \<le> 0x39 then Some (unat b - 0x30)
      else if 0x61 \<le> b \<and> b \<le> 0x66 then Some (unat b - 0x61 + 10)
      else if 0x41 \<le> b \<and> b \<le> 0x46 then Some (unat b - 0x41 + 10)
      else None)"

fun hex_digits :: "nat \<Rightarrow> bytes \<Rightarrow> nat option" where
  "hex_digits acc [] = Some acc"
| "hex_digits acc (b # bs) =
     (case hex_value b of None \<Rightarrow> None | Some d \<Rightarrow> hex_digits (16 * acc + d) bs)"

definition from_str_radix16 :: "bytes \<Rightarrow> nat option" where
  "from_str_radix16 s =
     (let digits = (case s of [] \<Rightarrow> [] | c # r \<Rightarrow> if c = 0x2B \<and> r \<noteq> [] then r else s)
      in if digits = [] then None else hex_digits 0 digits)"

definition char_from_u32 :: "nat \<Rightarrow> nat option" where
  "char_from_u32 c = (if scalar c then Some c else None)"

text \<open>The two messages that name the escape.\<close>

definition JSON_U :: string where "JSON_U = ''json '' @ [CHR 0x5C, CHR 0x75]"

definition js_unicode :: "json_scan \<Rightarrow> (bytes \<times> json_scan) res" where
  "js_unicode it =
     (if js_i it + 4 > length (js_b it) then Err (Truncated JSON_U) else
      and_then (slice_of (js_b it) (js_i it) (js_i it + 4)) (\<lambda>four.
      and_then (ok_or (from_utf8 four) (BadConstant JSON_U)) (\<lambda>hex.
      and_then (ok_or (from_str_radix16 hex) (BadConstant JSON_U)) (\<lambda>cp.
      let it = js_advance 4 it in
      and_then (ok_or (char_from_u32 cp) (BadConstant (JSON_U @ '' codepoint''))) (\<lambda>ch.
      Ok (encode_utf8 ch, it))))))"

definition js_escape :: "json_scan \<Rightarrow> (bytes \<times> json_scan) res" where
  "js_escape it =
     and_then (ok_or (get_at (js_b it) (js_i it)) (Truncated ''json escape'')) (\<lambda>e.
     let it = js_advance 1 it in
     if e = quote then Ok ([quote], it)
     else if e = backslash then Ok ([backslash], it)
     else if e = 0x2F then Ok ([0x2F], it)
     else if e = 0x62 then Ok ([0x08], it)
     else if e = 0x66 then Ok ([0x0C], it)
     else if e = 0x6E then Ok ([0x0A], it)
     else if e = 0x72 then Ok ([0x0D], it)
     else if e = 0x74 then Ok ([0x09], it)
     else if e = 0x75 then js_unicode it
     else Err (BadConstant ''json escape''))"

lemma js_unicode_moves: "js_unicode it = Inr (out, it') \<Longrightarrow> js_b it' = js_b it \<and> js_i it \<le> js_i it'"
  by (auto simp: js_unicode_def and_then_eq_Inr Let_def split: if_splits)

lemma js_escape_moves: "js_escape it = Inr (out, it') \<Longrightarrow> js_b it' = js_b it \<and> js_i it \<le> js_i it'"
  by (auto simp: js_escape_def and_then_eq_Inr Let_def split: if_splits dest!: js_unicode_moves)

function js_string_loop :: "json_scan \<Rightarrow> bytes \<Rightarrow> (bytes \<times> json_scan) res" where
  "js_string_loop it out =
     and_then (ok_or (get_at (js_b it) (js_i it)) (Truncated ''json string'')) (\<lambda>c.
     if c = quote then Ok (out, js_advance 1 it)
     else if c = backslash then
       and_then (js_escape (js_advance 1 it)) (\<lambda>(piece, it). js_string_loop it (out @ piece))
     else if c \<le> 0x1F then Err (BadConstant ''raw control char in json string'')
     else js_string_loop (js_advance 1 it) (out @ [c]))"
  by pat_completeness auto
termination
proof (relation "measure (\<lambda>(it, out). length (js_b it) - js_i it)", goal_cases)
  case (2 it out c x piece it')
  then have "js_b it' = js_b it" "js_i it < js_i it'" "js_i it < length (js_b it)"
    using js_escape_moves [of "js_advance 1 it" piece it']
    by (auto simp: ok_or_eq_Inr get_at_def split: if_splits)
  then show ?case by simp
next
  case (3 it out c)
  then show ?case by (auto simp: ok_or_eq_Inr get_at_def split: if_splits)
qed simp

declare js_string_loop.simps [simp del]

definition js_string :: "json_scan \<Rightarrow> (bytes \<times> json_scan) res" where
  "js_string it =
     (let (ok, it) = js_take quote it in
      if \<not> ok then Err (BadConstant ''json string expected'') else
      and_then (js_string_loop it []) (\<lambda>(out, it).
      and_then (ok_or (from_utf8 out) (BadConstant ''json string utf8'')) (\<lambda>v. Ok (v, it))))"

text \<open>The function \<open>s\<close> of the source: the bytes as a string, or the empty string.\<close>

definition str_or_empty :: "bytes \<Rightarrow> bytes" where
  "str_or_empty b = (if is_utf8 b then b else [])"

definition TRUE_STR :: bytes where "TRUE_STR = ascii ''true''"
definition FALSE_STR :: bytes where "FALSE_STR = ascii ''false''"

definition js_boolean :: "json_scan \<Rightarrow> (bool \<times> json_scan) res" where
  "js_boolean it =
     and_then (slice_of (js_b it) (js_i it) (length (js_b it))) (\<lambda>r.
     if starts_with (str_or_empty r) TRUE_STR then Ok (True, js_advance 4 it)
     else if starts_with (str_or_empty r) FALSE_STR then Ok (False, js_advance 5 it)
     else Err (BadConstant ''json boolean expected''))"

section \<open>The closed schema\<close>

record error_payload =
  err_code :: bytes
  retryable :: bool
  request_id :: bytes

definition CODE_KEY :: bytes where "CODE_KEY = ascii ''code''"
definition RETRYABLE_KEY :: bytes where "RETRYABLE_KEY = ascii ''retryable''"
definition REQUEST_ID_KEY :: bytes where "REQUEST_ID_KEY = ascii ''request_id''"

definition field_index :: "bytes \<Rightarrow> nat res" where
  "field_index key =
     (if key = CODE_KEY then Ok 0 else if key = RETRYABLE_KEY then Ok 1 else if key = REQUEST_ID_KEY then Ok 2
      else Err (BadConstant ''ERROR json unknown key''))"

lemma fewer_unset:
  assumes "i < length xs" "xs ! i = None"
  shows "length (filter (\<lambda>f. f = None) (xs[i := Some v])) < length (filter (\<lambda>f. f = None) xs)"
proof -
  let ?n = "\<lambda>ys. length (filter (\<lambda>f. f = None) ys)"
  have "xs = take i xs @ None # drop (Suc i) xs" using assms id_take_nth_drop [of i xs] by simp
  then have "?n xs = ?n (take i xs @ None # drop (Suc i) xs)" by (rule arg_cong)
  then show ?thesis using assms(1) by (simp add: upd_conv_take_nth_drop)
qed

function json_fields :: "json_scan \<Rightarrow> bytes option list \<Rightarrow> (bytes option list \<times> json_scan) res" where
  "json_fields it slots =
     and_then (js_string (skip_ws it)) (\<lambda>(key, it).
     let (colon, it) = js_take 0x3A (skip_ws it) in
     if \<not> colon then Err (BadConstant ''ERROR json colon expected'') else
     let it = skip_ws it in
     and_then (field_index key) (\<lambda>idx.
     and_then (at_index slots idx) (\<lambda>slot.
     if slot \<noteq> None then Err (Duplicate ''ERROR json key'') else
     and_then
       (if idx = 1
        then and_then (js_boolean it) (\<lambda>(b, it). Ok (if b then TRUE_STR else FALSE_STR, it))
        else js_string it) (\<lambda>(v, it).
     let slots' = slots[idx := Some v];
         (close, it) = js_take 0x7D (skip_ws it)
     in if close then Ok (slots', it) else
        let (comma, it) = js_take 0x2C it in
        if \<not> comma then Err (BadConstant ''ERROR json comma expected'')
        else json_fields it slots'))))"
  by pat_completeness auto
termination
proof (relation "measure (\<lambda>(it, slots). length (filter (\<lambda>f. f = None) slots))", goal_cases)
  case 1
  show ?case by simp
next
  case (2 it slots)
  then show ?case by (auto simp: at_index_eq_Inr intro!: fewer_unset)
qed

declare json_fields.simps [simp del]

definition parse_error_json :: "bytes \<Rightarrow> error_payload res" where
  "parse_error_json s =
     (let it = skip_ws (json_scan_new s);
          (open, it) = js_take 0x7B it
      in if \<not> open then Err (BadConstant ''ERROR json object expected'') else
      let (close, it) = js_take 0x7D (skip_ws it)
      in if close then Err (BadConstant ''ERROR json empty object'') else
      and_then (json_fields it [None, None, None]) (\<lambda>(slots, it).
      let it = skip_ws it in
      if \<not> js_eof it then Err (BadConstant ''ERROR json trailing data'') else
      and_then (at_index slots 0) (\<lambda>f0.
      and_then (ok_or f0 (BadConstant ''ERROR code missing'')) (\<lambda>code.
      and_then (at_index slots 1) (\<lambda>f1.
      and_then (ok_or f1 (BadConstant ''ERROR retryable missing'')) (\<lambda>retryable_raw.
      and_then (at_index slots 2) (\<lambda>f2.
      and_then (ok_or f2 (BadConstant ''ERROR request_id missing'')) (\<lambda>request_id.
      Ok \<lparr>err_code = code, retryable = (retryable_raw = TRUE_STR), request_id = request_id\<rparr>))))))))"

section \<open>The writer\<close>

definition str_chars :: "bytes \<Rightarrow> nat list" where
  "str_chars v = (case utf8_chars v of Some cs \<Rightarrow> cs | None \<Rightarrow> [])"

definition hex_digit :: "nat \<Rightarrow> u8" where
  "hex_digit n = (if n < 10 then of_nat (0x30 + n) else of_nat (0x61 + (n - 10)))"

definition hex4 :: "nat \<Rightarrow> bytes" where
  "hex4 c = [hex_digit (c div 4096 mod 16), hex_digit (c div 256 mod 16), hex_digit (c div 16 mod 16), hex_digit (c mod 16)]"

definition json_char :: "nat \<Rightarrow> bytes" where
  "json_char c =
     (if c = 0x22 then [backslash, quote]
      else if c = 0x5C then [backslash, backslash]
      else if c = 0x0A then [backslash, 0x6E]
      else if c = 0x0D then [backslash, 0x72]
      else if c = 0x09 then [backslash, 0x74]
      else if c < 0x20 then [backslash, 0x75] @ hex4 c
      else encode_utf8 c)"

definition json_string :: "bytes \<Rightarrow> bytes" where
  "json_string v = [quote] @ concat (map json_char (str_chars v)) @ [quote]"

definition error_json :: "error_payload \<Rightarrow> bytes" where
  "error_json e =
     (let payload = ascii [CHR 0x7B, CHR 0x22] @ ascii ''code'' @ ascii [CHR 0x22, CHR 0x3A];
          payload = payload @ json_string (err_code e);
          payload = payload @ ascii [CHR 0x2C, CHR 0x22] @ ascii ''retryable'' @ ascii [CHR 0x22, CHR 0x3A];
          payload = payload @ (if retryable e then ascii ''true'' else ascii ''false'');
          payload = payload @ ascii [CHR 0x2C, CHR 0x22] @ ascii ''request_id'' @ ascii [CHR 0x22, CHR 0x3A];
          payload = payload @ json_string (request_id e);
          payload = payload @ ascii [CHR 0x7D]
      in payload)"

section \<open>The scanner never panics\<close>

definition js_ok :: "json_scan \<Rightarrow> bool" where
  "js_ok it \<longleftrightarrow> js_i it \<le> length (js_b it)"

lemma skip_ws_keeps: "js_ok it \<Longrightarrow> js_ok (skip_ws it) \<and> js_b (skip_ws it) = js_b it"
proof (induction it rule: skip_ws.induct)
  case (1 it)
  show ?case
  proof (cases "js_i it < length (js_b it) \<and> is_ws (js_b it ! js_i it)")
    case True
    then have "skip_ws it = skip_ws (js_advance 1 it)" by (subst skip_ws.simps) simp
    moreover have "js_ok (js_advance 1 it)" using True by (simp add: js_ok_def)
    ultimately show ?thesis using "1.IH" [OF True] by simp
  next
    case False
    then have "skip_ws it = it" by (subst skip_ws.simps) (simp only: False if_False)
    with "1.prems" show ?thesis by simp
  qed
qed

lemma js_take_keeps: "js_ok it \<Longrightarrow> js_take c it = (ok, it') \<Longrightarrow> js_ok it' \<and> js_b it' = js_b it"
  by (auto simp: js_take_def js_ok_def split: if_splits)

lemma js_unicode_keeps: "js_unicode it = Inr (out, it') \<Longrightarrow> js_ok it' \<and> js_b it' = js_b it"
  by (auto simp: js_unicode_def and_then_eq_Inr Let_def js_ok_def split: if_splits)

lemma clean_js_unicode [simp]: "clean (js_unicode it)"
  by (auto simp: js_unicode_def Let_def intro!: clean_and_then clean_slice_of)

lemma js_escape_keeps: "js_escape it = Inr (out, it') \<Longrightarrow> js_ok it' \<and> js_b it' = js_b it"
  by (auto simp: js_escape_def and_then_eq_Inr ok_or_eq_Inr get_at_def Let_def js_ok_def
      split: if_splits dest: js_unicode_keeps [unfolded js_ok_def])

lemma clean_js_escape [simp]: "clean (js_escape it)"
  by (auto simp: js_escape_def Let_def intro!: clean_and_then)

lemma js_string_loop_keeps:
  "clean (js_string_loop it out) \<and>
    (\<forall>v it'. js_string_loop it out = Inr (v, it') \<longrightarrow> js_ok it' \<and> js_b it' = js_b it)"
proof (induction it out rule: js_string_loop.induct)
  case (1 it out)
  show ?case
  proof (cases "get_at (js_b it) (js_i it)")
    case None
    then show ?thesis by (subst (1 2) js_string_loop.simps) simp
  next
    case (Some c)
    then have ok: "ok_or (get_at (js_b it) (js_i it)) (Truncated ''json string'') = Inr c" by simp
    from Some have lt: "js_i it < length (js_b it)" by (simp add: get_at_def split: if_splits)
    consider "c = quote" | "c \<noteq> quote" "c = backslash" | "c \<noteq> quote" "c \<noteq> backslash" "c \<le> 0x1F"
      | "c \<noteq> quote" "c \<noteq> backslash" "\<not> c \<le> 0x1F" by blast
    then show ?thesis
    proof cases
      case 1
      then show ?thesis using Some lt by (subst (1 2) js_string_loop.simps) (simp add: js_ok_def Suc_le_eq)
    next
      case 2
      have eq: "js_string_loop it out = and_then (js_escape (js_advance 1 it)) (\<lambda>(p, it). js_string_loop it (out @ p))"
        using Some 2 by (subst js_string_loop.simps) simp
      show ?thesis
      proof (cases "js_escape (js_advance 1 it)")
        case (Inl f)
        then show ?thesis unfolding eq using clean_js_escape [of "js_advance 1 it"] by simp
      next
        case (Inr x)
        obtain p it' where x: "x = (p, it')" by (cases x)
        note e = Inr [unfolded x]
        have b: "js_b it' = js_b it" using js_escape_keeps [OF e] by simp
        show ?thesis
          unfolding eq e and_then_simps case_prod_conv using "1.IH"(1) [OF ok 2 e refl] unfolding b .
      qed
    next
      case 3
      then show ?thesis using Some by (subst (1 2) js_string_loop.simps) simp
    next
      case 4
      have eq: "js_string_loop it out = js_string_loop (js_advance 1 it) (out @ [c])"
        using Some 4 by (subst js_string_loop.simps) simp
      show ?thesis unfolding eq using "1.IH"(2) [OF ok 4] unfolding js_advance_simps .
    qed
  qed
qed

lemma clean_js_string [simp]: "clean (js_string it)"
  using js_string_loop_keeps by (auto simp: js_string_def Let_def split: prod.split intro!: clean_and_then)

lemma js_string_keeps: "js_string it = Inr (v, it') \<Longrightarrow> js_ok it' \<and> js_b it' = js_b it \<and> is_utf8 v"
proof -
  assume a: "js_string it = Inr (v, it')"
  obtain ok it1 where t: "js_take quote it = (ok, it1)" by (cases "js_take quote it")
  then have b: "js_b it1 = js_b it" by (auto simp: js_take_def split: if_splits)
  from a t have "js_string_loop it1 [] = Inr (v, it')" "is_utf8 v"
    by (auto simp: js_string_def Let_def and_then_eq_Inr ok_or_eq_Inr from_utf8_eq_Some split: if_splits)
  with js_string_loop_keeps [of it1 "[]"] b show ?thesis by auto
qed

lemma clean_js_boolean: "js_ok it \<Longrightarrow> clean (js_boolean it)"
  by (auto simp: js_boolean_def js_ok_def intro!: clean_and_then clean_slice_of)

lemma js_boolean_keeps:
  assumes "js_boolean it = Inr (v, it')" "js_ok it"
  shows "js_ok it' \<and> js_b it' = js_b it"
proof -
  have l: "length p \<le> length r" if "starts_with (str_or_empty r) p" for p r :: bytes
    using that by (auto simp: starts_with_iff str_or_empty_def split: if_splits)
  have "length TRUE_STR = 4" "length FALSE_STR = 5" by (simp_all add: TRUE_STR_def FALSE_STR_def ascii_def)
  then show ?thesis
    using assms l [of "sub (js_i it) (length (js_b it) - js_i it) (js_b it)" TRUE_STR]
      l [of "sub (js_i it) (length (js_b it) - js_i it) (js_b it)" FALSE_STR]
    by (auto simp: js_boolean_def and_then_eq_Inr slice_of_eq_Inr js_ok_def split: if_splits)
qed

lemma clean_field_index [simp]: "clean (field_index k)"
  by (simp add: field_index_def)

lemma field_index_less: "field_index k = Inr i \<Longrightarrow> i < 3"
  by (auto simp: field_index_def split: if_splits)

definition slots_utf8 :: "bytes option list \<Rightarrow> bool" where
  "slots_utf8 slots \<longleftrightarrow> length slots = 3 \<and> (\<forall>v. Some v \<in> set slots \<longrightarrow> is_utf8 v)"

lemma slots_utf8_update: "slots_utf8 slots \<Longrightarrow> is_utf8 v \<Longrightarrow> slots_utf8 (slots[i := Some v])"
  using set_update_subset_insert [of slots i "Some v"] by (auto simp: slots_utf8_def)

definition js_value :: "nat \<Rightarrow> json_scan \<Rightarrow> (bytes \<times> json_scan) res" where
  "js_value idx it =
     (if idx = 1 then and_then (js_boolean it) (\<lambda>(b, it). Ok (if b then TRUE_STR else FALSE_STR, it))
      else js_string it)"

lemma is_utf8_bools [simp]: "is_utf8 TRUE_STR" "is_utf8 FALSE_STR"
  by (simp_all add: TRUE_STR_def FALSE_STR_def ascii_def is_utf8_ascii)

lemma js_value_keeps:
  "js_ok it \<Longrightarrow> clean (js_value idx it) \<and>
    (\<forall>v it'. js_value idx it = Inr (v, it') \<longrightarrow> js_ok it' \<and> js_b it' = js_b it \<and> is_utf8 v)"
  by (auto simp: js_value_def and_then_eq_Inr intro!: clean_and_then clean_js_boolean
      dest: js_string_keeps js_boolean_keeps)

lemma json_fields_step:
  "json_fields it slots =
     and_then (js_string (skip_ws it)) (\<lambda>(key, it).
     let (colon, it) = js_take 0x3A (skip_ws it) in
     if \<not> colon then Err (BadConstant ''ERROR json colon expected'') else
     let it = skip_ws it in
     and_then (field_index key) (\<lambda>idx.
     and_then (at_index slots idx) (\<lambda>slot.
     if slot \<noteq> None then Err (Duplicate ''ERROR json key'') else
     and_then (js_value idx it) (\<lambda>(v, it).
     let slots' = slots[idx := Some v]; (close, it) = js_take 0x7D (skip_ws it)
     in if close then Ok (slots', it) else
        let (comma, it) = js_take 0x2C it in
        if \<not> comma then Err (BadConstant ''ERROR json comma expected'')
        else json_fields it slots'))))"
  by (subst json_fields.simps) (simp only: js_value_def)

lemma json_fields_keeps:
  "js_ok it \<Longrightarrow> slots_utf8 slots \<Longrightarrow> good (\<lambda>(slots', it'). js_ok it' \<and> slots_utf8 slots') (json_fields it slots)"
proof (induction "length (filter (\<lambda>f. f = None) slots)" arbitrary: it slots rule: less_induct)
  case less
  show ?case
    unfolding json_fields_step [of it slots]
  proof (rule good_and_then [where P = "\<lambda>(key, it'). js_ok it'"], goal_cases)
    case 1
    show ?case by (rule goodI) (auto dest: js_string_keeps)
  next
    case (2 x)
    obtain key it1 where x: "x = (key, it1)" and ok1: "js_ok it1" using 2(2) by (cases x) auto
    obtain colon it2 where t: "js_take 0x3A (skip_ws it1) = (colon, it2)" by (cases "js_take 0x3A (skip_ws it1)")
    have ok2: "js_ok (skip_ws it2)" using t ok1 skip_ws_keeps js_take_keeps by blast
    have step: "good (\<lambda>(slots', it'). js_ok it' \<and> slots_utf8 slots')
        (let slots' = slots[idx := Some v]; (close, it) = js_take 0x7D (skip_ws it3)
         in if close then Ok (slots', it) else
            let (comma, it) = js_take 0x2C it in
            if \<not> comma then Err (BadConstant ''ERROR json comma expected'') else json_fields it slots')"
      if i: "at_index slots idx = (Inr None :: bytes option res)" and v: "is_utf8 v" and ok3: "js_ok it3" for idx v it3
    proof -
      obtain close it4 where t4: "js_take 0x7D (skip_ws it3) = (close, it4)" by (cases "js_take 0x7D (skip_ws it3)")
      obtain comma it5 where t5: "js_take 0x2C it4 = (comma, it5)" by (cases "js_take 0x2C it4")
      have ok4: "js_ok it4" "js_ok it5" using ok3 t4 t5 skip_ws_keeps js_take_keeps by blast+
      have s: "slots_utf8 (slots[idx := Some v])" using less.prems(2) v by (rule slots_utf8_update)
      have "good (\<lambda>(slots', it'). js_ok it' \<and> slots_utf8 slots') (json_fields it5 (slots[idx := Some v]))"
        using i ok4 s by (intro less.hyps fewer_unset) (auto simp: at_index_eq_Inr)
      then show ?thesis using t4 t5 ok4 s by (simp add: Let_def)
    qed
    have "good (\<lambda>(slots', it'). js_ok it' \<and> slots_utf8 slots')
        (and_then (field_index key) (\<lambda>idx. and_then (at_index slots idx) (\<lambda>slot.
           if slot \<noteq> None then Err (Duplicate ''ERROR json key'') else
           and_then (js_value idx (skip_ws it2)) (\<lambda>(v, it).
           let slots' = slots[idx := Some v]; (close, it) = js_take 0x7D (skip_ws it)
           in if close then Ok (slots', it) else
              let (comma, it) = js_take 0x2C it in
              if \<not> comma then Err (BadConstant ''ERROR json comma expected'') else json_fields it slots'))))"
    proof (rule good_and_then [where P = "\<lambda>idx. idx < 3"], goal_cases)
      case 1
      show ?case by (rule goodI) (auto dest: field_index_less)
    next
      case (2 idx)
      then have lt: "idx < length slots" using less.prems(2) by (simp add: slots_utf8_def)
      show ?case
      proof (cases "slots ! idx")
        case None
        then have i: "at_index slots idx = (Inr None :: bytes option res)" using lt by (simp add: at_index_def)
        have "good (\<lambda>(v, it'). js_ok it' \<and> is_utf8 v) (js_value idx (skip_ws it2))"
          using js_value_keeps [OF ok2] by (auto intro: goodI)
        then show ?thesis
          unfolding i and_then_simps
          by (simp only: simp_thms if_False) (rule good_and_then, assumption, use step [OF i] in auto)
      next
        case (Some v)
        then have "at_index slots idx = (Inr (Some v) :: bytes option res)" using lt by (simp add: at_index_def)
        then show ?thesis by simp
      qed
    qed
    with t show ?case unfolding x by simp
  qed
qed

lemma parse_error_json_good:
  "good (\<lambda>e. is_utf8 (err_code e) \<and> is_utf8 (request_id e)) (parse_error_json s)"
proof -
  have ok0: "js_ok (skip_ws (json_scan_new s))"
    using skip_ws_keeps [THEN conjunct1, of "json_scan_new s"] by (simp add: js_ok_def json_scan_new_def)
  obtain op it1 where t1: "js_take 0x7B (skip_ws (json_scan_new s)) = (op, it1)" by (cases "js_take 0x7B (skip_ws (json_scan_new s))")
  obtain cl it2 where t2: "js_take 0x7D (skip_ws it1) = (cl, it2)" by (cases "js_take 0x7D (skip_ws it1)")
  have "js_ok it2" using ok0 t1 t2 skip_ws_keeps js_take_keeps by blast
  moreover have "slots_utf8 [None, None, None]" by (simp add: slots_utf8_def)
  ultimately have g: "good (\<lambda>(slots', it'). js_ok it' \<and> slots_utf8 slots') (json_fields it2 [None, None, None])"
    by (rule json_fields_keeps)
  have fin: "good (\<lambda>e. is_utf8 (err_code e) \<and> is_utf8 (request_id e))
      (if \<not> js_eof (skip_ws it) then Err (BadConstant ''ERROR json trailing data'') else
       and_then (at_index slots 0) (\<lambda>f0. and_then (ok_or f0 (BadConstant ''ERROR code missing'')) (\<lambda>code.
       and_then (at_index slots 1) (\<lambda>f1. and_then (ok_or f1 (BadConstant ''ERROR retryable missing'')) (\<lambda>r.
       and_then (at_index slots 2) (\<lambda>f2. and_then (ok_or f2 (BadConstant ''ERROR request_id missing'')) (\<lambda>q.
       Ok \<lparr>err_code = code, retryable = (r = TRUE_STR), request_id = q\<rparr>)))))))"
    if s: "slots_utf8 slots" for slots it
  proof -
    obtain a b c where "slots = [a, b, c]"
      using s by (auto simp: slots_utf8_def numeral_3_eq_3 length_Suc_conv)
    with s show ?thesis by (cases a; cases b; cases c) (auto simp: at_index_def slots_utf8_def)
  qed
  show ?thesis
    unfolding parse_error_json_def Let_def t1 t2 case_prod_conv
    by (simp del: Let_def One_nat_def add: if_distrib) (intro conjI impI good_and_then [OF g]; auto intro!: fin simp del: One_nat_def)
qed

section \<open>What the string scanner reads\<close>

text \<open>A scanner in front of a text: what has been read, and what is left.\<close>

definition scan_at :: "bytes \<Rightarrow> bytes \<Rightarrow> json_scan" where
  "scan_at pre post = \<lparr>js_b = pre @ post, js_i = length pre\<rparr>"

lemma scan_at_simps [simp]: "js_b (scan_at pre post) = pre @ post" "js_i (scan_at pre post) = length pre"
  by (simp_all add: scan_at_def)

lemma scan_at_advance: "js_advance (length x) (scan_at pre (x @ post)) = scan_at (pre @ x) post"
  by (simp add: scan_at_def js_advance_def)

lemma scan_at_advance_1: "js_advance 1 (scan_at pre (c # post)) = scan_at (pre @ [c]) post"
  using scan_at_advance [of "[c]"] by simp

lemma scan_at_get: "get_at (pre @ post) (length pre) = (case post of [] \<Rightarrow> None | c # _ \<Rightarrow> Some c)"
  by (cases post) (simp_all add: get_at_def)

lemmas scan_at_step = scan_at_get scan_at_advance_1 scan_at_advance_1 [unfolded One_nat_def]

lemma scan_at_exists: "js_ok it \<Longrightarrow> \<exists>pre post. it = scan_at pre post"
  by (rule exI [of _ "take (js_i it) (js_b it)"], rule exI [of _ "drop (js_i it) (js_b it)"])
    (simp add: scan_at_def js_ok_def)

lemma js_take_at: "js_take c (scan_at pre post) =
    (case post of d # r \<Rightarrow> if d = c then (True, scan_at (pre @ [c]) r) else (False, scan_at pre post)
     | [] \<Rightarrow> (False, scan_at pre post))"
  by (cases post) (auto simp: js_take_def scan_at_advance_1)

text \<open>The escapes of one character, and the body of a string literal with the value it denotes. The grammar
  is written twice in one: \<open>Rfc8259\<close> is JSON, where a unicode escape has four hexadecimal digits and two of
  them, a surrogate pair, stand for a character outside the basic plane; \<open>Scanner\<close> is the language of the
  scanner, which differs from JSON by two rules: it takes a plus sign and three digits, and it has no
  surrogate pairs.\<close>

definition simple_escape :: "u8 \<Rightarrow> u8 option" where
  "simple_escape e =
     (if e = quote then Some quote else if e = backslash then Some backslash else if e = 0x2F then Some 0x2F
      else if e = 0x62 then Some 0x08 else if e = 0x66 then Some 0x0C else if e = 0x6E then Some 0x0A
      else if e = 0x72 then Some 0x0D else if e = 0x74 then Some 0x09 else None)"

datatype json_dialect = Rfc8259 | Scanner

inductive hex_number :: "bytes \<Rightarrow> nat \<Rightarrow> bool" where
  hex_nil: "hex_number [] 0"
| hex_decimal: "hex_number h n \<Longrightarrow> d < 10 \<Longrightarrow> hex_number (h @ [of_nat (0x30 + d)]) (16 * n + d)"
| hex_upper: "hex_number h n \<Longrightarrow> d < 6 \<Longrightarrow> hex_number (h @ [of_nat (0x41 + d)]) (16 * n + 10 + d)"
| hex_lower: "hex_number h n \<Longrightarrow> d < 6 \<Longrightarrow> hex_number (h @ [of_nat (0x61 + d)]) (16 * n + 10 + d)"

inductive body_in :: "json_dialect \<Rightarrow> bytes \<Rightarrow> bytes \<Rightarrow> bool" for d where
  body_end: "body_in d [] []"
| body_plain: "c \<noteq> quote \<Longrightarrow> c \<noteq> backslash \<Longrightarrow> 0x1F < c \<Longrightarrow> body_in d t v \<Longrightarrow> body_in d (c # t) (c # v)"
| body_escape: "simple_escape e = Some r \<Longrightarrow> body_in d t v \<Longrightarrow> body_in d (backslash # e # t) (r # v)"
| body_unicode: "length h = 4 \<Longrightarrow> hex_number h ch \<Longrightarrow> scalar ch \<Longrightarrow> body_in d t v
    \<Longrightarrow> body_in d (backslash # 0x75 # h @ t) (encode_utf8 ch @ v)"
| body_pair: "d = Rfc8259 \<Longrightarrow> length h = 4 \<Longrightarrow> hex_number h (0xD800 + hi) \<Longrightarrow> hi < 0x400
    \<Longrightarrow> length l = 4 \<Longrightarrow> hex_number l (0xDC00 + lo) \<Longrightarrow> lo < 0x400 \<Longrightarrow> body_in d t v
    \<Longrightarrow> body_in d (backslash # 0x75 # h @ backslash # 0x75 # l @ t) (encode_utf8 (0x10000 + 0x400 * hi + lo) @ v)"
| body_plus: "d = Scanner \<Longrightarrow> length h = 3 \<Longrightarrow> hex_number h ch \<Longrightarrow> body_in d t v
    \<Longrightarrow> body_in d (backslash # 0x75 # 0x2B # h @ t) (encode_utf8 ch @ v)"

abbreviation json_body :: "bytes \<Rightarrow> bytes \<Rightarrow> bool" where
  "json_body \<equiv> body_in Scanner"

text \<open>The number parser of the standard library reads these texts: the digits, and a plus sign before them.\<close>

lemma hex_value_of_nat:
  "d < 10 \<Longrightarrow> hex_value (of_nat (0x30 + d)) = Some d"
  "d < 6 \<Longrightarrow> hex_value (of_nat (0x41 + d)) = Some (10 + d)"
  "d < 6 \<Longrightarrow> hex_value (of_nat (0x61 + d)) = Some (10 + d)"
proof -
  have "\<forall>d\<in>set [0..<10]. hex_value (of_nat (0x30 + d)) = Some d" by code_simp
  then show "d < 10 \<Longrightarrow> hex_value (of_nat (0x30 + d)) = Some d" by simp
  have "\<forall>d\<in>set [0..<6]. hex_value (of_nat (0x41 + d)) = Some (10 + d) \<and> hex_value (of_nat (0x61 + d)) = Some (10 + d)"
    by code_simp
  then show "d < 6 \<Longrightarrow> hex_value (of_nat (0x41 + d)) = Some (10 + d)"
    "d < 6 \<Longrightarrow> hex_value (of_nat (0x61 + d)) = Some (10 + d)" by simp_all
qed

lemma hex_digits_append:
  "hex_digits acc (a @ b) = (case hex_digits acc a of None \<Rightarrow> None | Some n \<Rightarrow> hex_digits n b)"
  by (induction acc a rule: hex_digits.induct) (simp_all split: option.split)

lemma hex_number_snoc:
  assumes "hex_number h n" "hex_value b = Some d"
  shows "hex_number (h @ [b]) (16 * n + d)"
proof -
  have r: "of_nat (unat b - k + k) = b" if "k \<le> unat b" for k using that by simp
  from assms(2) consider
    "0x30 \<le> unat b" "unat b \<le> 0x39" "d = unat b - 0x30"
    | "0x61 \<le> unat b" "unat b \<le> 0x66" "d = unat b - 0x61 + 10"
    | "0x41 \<le> unat b" "unat b \<le> 0x46" "d = unat b - 0x41 + 10"
    by (auto simp: hex_value_def word_le_nat_alt split: if_splits)
  then show ?thesis
  proof cases
    case 1
    then show ?thesis using hex_decimal [OF assms(1), of "unat b - 0x30"] by simp
  next
    case 2
    then show ?thesis using hex_lower [OF assms(1), of "unat b - 0x61"] by (simp add: ac_simps)
  next
    case 3
    then show ?thesis using hex_upper [OF assms(1), of "unat b - 0x41"] by (simp add: ac_simps)
  qed
qed

lemma hex_number_iff: "hex_number h n \<longleftrightarrow> hex_digits 0 h = Some n"
proof
  show "hex_number h n \<Longrightarrow> hex_digits 0 h = Some n"
    by (induction rule: hex_number.induct) (simp_all add: hex_digits_append hex_value_of_nat del: of_nat_add of_nat_numeral)
  show "hex_digits 0 h = Some n \<Longrightarrow> hex_number h n"
    by (induction h arbitrary: n rule: rev_induct)
      (auto simp: hex_digits_append intro: hex_nil hex_number_snoc split: option.splits)
qed

lemma from_str_radix16_Cons:
  "r \<noteq> [] \<Longrightarrow> from_str_radix16 (c # r) = Some n \<longleftrightarrow> hex_number (if c = 0x2B then r else c # r) n"
  by (auto simp: from_str_radix16_def hex_number_iff simp del: hex_digits.simps)

lemma hex_number_not_plus: "\<not> hex_number (0x2B # r) n"
  by (simp add: hex_number_iff hex_value_def)

lemma hex_number_less: "hex_number h n \<Longrightarrow> n < 16 ^ length h"
  by (induction rule: hex_number.induct) auto

text \<open>So the escape the scanner takes is that of one of the two rules.\<close>

lemma body_radix:
  assumes "length h = 4" "from_str_radix16 h = Some ch" "scalar ch" "json_body t v"
  shows "json_body (backslash # 0x75 # h @ t) (encode_utf8 ch @ v)"
proof -
  obtain c r where h: "h = c # r" "length r = 3" using assms(1) by (cases h) auto
  show ?thesis
  proof (cases "c = 0x2B")
    case True
    with h assms show ?thesis using from_str_radix16_Cons [of r c ch] body_plus [of Scanner r ch t v] by fastforce
  next
    case False
    with h assms show ?thesis using from_str_radix16_Cons [of r c ch] body_unicode [of h ch Scanner t v] by fastforce
  qed
qed

lemma radix_of_hex:
  assumes "length h = 4" "hex_number h ch"
  shows "from_str_radix16 h = Some ch"
proof -
  obtain c r where h: "h = c # r" "r \<noteq> []" using assms(1) by (cases h; cases "tl h") auto
  with assms(2) hex_number_not_plus show ?thesis by (auto simp: from_str_radix16_Cons)
qed

lemma radix_of_plus:
  assumes "length h = 3" "hex_number h ch"
  shows "from_str_radix16 (0x2B # h) = Some ch" "scalar ch"
proof -
  have "h \<noteq> []" using assms(1) by auto
  with assms(2) show "from_str_radix16 (0x2B # h) = Some ch" by (simp add: from_str_radix16_Cons)
  show "scalar ch" using hex_number_less [OF assms(2)] assms(1) by (simp add: scalar_def)
qed

lemma hex_value_ascii: "hex_value b = Some d \<Longrightarrow> b < 0x80"
  by (auto simp: hex_value_def u8_order split: if_splits)

lemma hex_digits_ascii: "hex_digits acc bs = Some v \<Longrightarrow> \<forall>b\<in>set bs. b < 0x80"
  by (induction acc bs rule: hex_digits.induct) (auto split: option.splits dest: hex_value_ascii)

lemma from_str_radix16_utf8: "from_str_radix16 h = Some v \<Longrightarrow> is_utf8 h"
  by (rule is_utf8_ascii)
    (auto simp: from_str_radix16_def Let_def simp del: hex_digits.simps dest!: hex_digits_ascii
      split: list.splits if_splits)

lemma js_unicode_at: "js_unicode (scan_at pre (h @ t)) =
    (case from_str_radix16 h of
       Some ch \<Rightarrow> if scalar ch then Ok (encode_utf8 ch, scan_at (pre @ h) t)
         else Err (BadConstant (JSON_U @ '' codepoint''))
     | None \<Rightarrow> Err (BadConstant JSON_U))" if "length h = 4"
proof -
  have s: "slice_of (pre @ h @ t) (length pre) (length pre + 4) = (Ok h :: bytes res)"
    using that by (simp add: slice_of_def sub_def)
  have a: "js_advance 4 (scan_at pre (h @ t)) = scan_at (pre @ h) t"
    using scan_at_advance [of h] that by simp
  show ?thesis
  proof (cases "from_str_radix16 h")
    case None
    then show ?thesis using that s by (simp add: js_unicode_def ok_or_def from_utf8_def)
  next
    case (Some ch)
    then show ?thesis
      using that s a from_str_radix16_utf8 [OF Some]
      by (simp add: js_unicode_def ok_or_def from_utf8_def Let_def char_from_u32_def)
  qed
qed

lemma js_escape_at:
  "js_escape (scan_at pre (e # t)) =
     (case simple_escape e of
        Some r \<Rightarrow> Ok ([r], scan_at (pre @ [e]) t)
      | None \<Rightarrow> if e = 0x75 then js_unicode (scan_at (pre @ [e]) t) else Err (BadConstant ''json escape''))"
  by (simp add: js_escape_def scan_at_step Let_def simple_escape_def)

lemma js_escape_at_end: "js_escape (scan_at pre []) = Err (Truncated ''json escape'')"
  by (simp add: js_escape_def get_at_def)

lemma js_string_loop_at:
  "js_string_loop (scan_at pre inp) out =
     (case inp of [] \<Rightarrow> Err (Truncated ''json string'')
      | c # r \<Rightarrow>
          if c = quote then Ok (out, scan_at (pre @ [c]) r)
          else if c = backslash then
            and_then (js_escape (scan_at (pre @ [c]) r)) (\<lambda>(piece, it). js_string_loop it (out @ piece))
          else if c \<le> 0x1F then Err (BadConstant ''raw control char in json string'')
          else js_string_loop (scan_at (pre @ [c]) r) (out @ [c]))"
proof (cases inp)
  case Nil
  then show ?thesis by (subst js_string_loop.simps) (simp add: get_at_def)
next
  case (Cons c r)
  have "js_string_loop (scan_at pre inp) out =
      (if c = quote then Ok (out, js_advance 1 (scan_at pre (c # r)))
       else if c = backslash then
         and_then (js_escape (js_advance 1 (scan_at pre (c # r)))) (\<lambda>(piece, it). js_string_loop it (out @ piece))
       else if c \<le> 0x1F then Err (BadConstant ''raw control char in json string'')
       else js_string_loop (js_advance 1 (scan_at pre (c # r))) (out @ [c]))"
    unfolding Cons by (subst js_string_loop.simps) (simp add: scan_at_get)
  then show ?thesis unfolding Cons scan_at_advance_1 by simp
qed

lemma string_loop_radix:
  assumes "length h = 4" "from_str_radix16 h = Some ch" "scalar ch"
  shows "js_string_loop (scan_at pre (backslash # 0x75 # h @ r)) out =
    js_string_loop (scan_at (pre @ [backslash, 0x75] @ h) r) (out @ encode_utf8 ch)"
proof -
  have "simple_escape 0x75 = None" by (simp add: simple_escape_def quote_def backslash_def)
  with assms show ?thesis by (simp add: js_string_loop_at [of pre] js_escape_at js_unicode_at backslash_def quote_def)
qed

lemma string_loop_complete:
  "json_body t v \<Longrightarrow> js_string_loop (scan_at pre (t @ quote # post)) out = Ok (out @ v, scan_at (pre @ t @ [quote]) post)"
proof (induction t v arbitrary: pre out rule: body_in.induct)
  case body_end
  show ?case by (simp add: js_string_loop_at)
next
  case (body_plain c t v)
  have "js_string_loop (scan_at pre (c # t @ quote # post)) out = js_string_loop (scan_at (pre @ [c]) (t @ quote # post)) (out @ [c])"
    using body_plain.hyps by (simp add: js_string_loop_at [of pre] not_le [symmetric])
  with body_plain.IH [of "pre @ [c]" "out @ [c]"] show ?case by simp
next
  case (body_escape e r t v)
  have "js_string_loop (scan_at pre (backslash # e # t @ quote # post)) out
      = js_string_loop (scan_at (pre @ [backslash, e]) (t @ quote # post)) (out @ [r])"
    using body_escape.hyps by (simp add: js_string_loop_at [of pre] js_escape_at backslash_def quote_def)
  with body_escape.IH [of "pre @ [backslash, e]" "out @ [r]"] show ?case by simp
next
  case (body_unicode h ch t v)
  have "js_string_loop (scan_at pre (backslash # 0x75 # h @ t @ quote # post)) out
      = js_string_loop (scan_at (pre @ [backslash, 0x75] @ h) (t @ quote # post)) (out @ encode_utf8 ch)"
    using body_unicode.hyps by (intro string_loop_radix radix_of_hex)
  with body_unicode.IH [of "pre @ [backslash, 0x75] @ h" "out @ encode_utf8 ch"] show ?case by simp
next
  case (body_plus h ch t v)
  have "js_string_loop (scan_at pre (backslash # 0x75 # (0x2B # h) @ t @ quote # post)) out
      = js_string_loop (scan_at (pre @ [backslash, 0x75] @ 0x2B # h) (t @ quote # post)) (out @ encode_utf8 ch)"
    using body_plus.hyps radix_of_plus [of h ch] by (intro string_loop_radix) simp_all
  with body_plus.IH [of "pre @ [backslash, 0x75] @ 0x2B # h" "out @ encode_utf8 ch"] show ?case by simp
qed simp

lemma string_loop_sound:
  "js_string_loop (scan_at pre inp) out = Ok (w, it') \<Longrightarrow>
    \<exists>t v post. inp = t @ quote # post \<and> json_body t v \<and> w = out @ v \<and> it' = scan_at (pre @ t @ [quote]) post"
proof (induction "length inp" arbitrary: pre inp out rule: less_induct)
  case less
  obtain c r where inp: "inp = c # r"
    using less.prems by (cases inp) (simp_all add: js_string_loop_at [of pre])
  consider "c = quote" | "c \<noteq> quote" "c = backslash" | "c \<noteq> quote" "c \<noteq> backslash" "c \<le> 0x1F"
    | "c \<noteq> quote" "c \<noteq> backslash" "\<not> c \<le> 0x1F" by blast
  then show ?case
  proof cases
    case 1
    then have "w = out" "it' = scan_at (pre @ [quote]) r"
      using less.prems inp by (simp_all add: js_string_loop_at [of pre])
    with 1 inp show ?thesis by (intro exI [of _ "[]"] exI [of _ r]) (auto intro: body_end)
  next
    case 2
    have eq: "and_then (js_escape (scan_at (pre @ [c]) r)) (\<lambda>(p, it). js_string_loop it (out @ p)) = Ok (w, it')"
      using less.prems inp 2 by (simp add: js_string_loop_at [of pre])
    then obtain p it1 where p: "js_escape (scan_at (pre @ [c]) r) = Ok (p, it1)" "js_string_loop it1 (out @ p) = Ok (w, it')"
      by (auto simp: and_then_eq_Inr)
    obtain e r1 where r: "r = e # r1"
      using p(1) by (cases r) (auto simp: js_escape_at_end)
    show ?thesis
    proof (cases "simple_escape e")
      case (Some x)
      then have "p = [x]" "it1 = scan_at (pre @ [c, e]) r1" using p(1) r by (simp_all add: js_escape_at)
      with p(2) less.hyps [of r1 "pre @ [c, e]" "out @ [x]"] inp r obtain t v post where
        "r1 = t @ quote # post" "json_body t v" "w = out @ x # v" "it' = scan_at (pre @ [c, e] @ t @ [quote]) post"
        by auto
      with inp r 2 Some show ?thesis
        by (intro exI [of _ "backslash # e # t"] exI [of _ "x # v"] exI [of _ post]) (auto intro: body_escape)
    next
      case None
      then have e: "e = 0x75" and u: "js_unicode (scan_at (pre @ [c, e]) r1) = Ok (p, it1)"
        using p(1) r by (auto simp: js_escape_at split: if_splits)
      have "4 \<le> length r1" using u by (simp add: js_unicode_def split: if_splits)
      then obtain h r2 where h: "r1 = h @ r2" "length h = 4" by (metis append_take_drop_id length_take min.absorb2)
      then obtain ch where ch: "from_str_radix16 h = Some ch" "scalar ch" "p = encode_utf8 ch" "it1 = scan_at (pre @ [c, e] @ h) r2"
        using u by (auto simp: js_unicode_at split: option.splits if_splits)
      with p(2) less.hyps [of r2 "pre @ [c, e] @ h" "out @ encode_utf8 ch"] inp r h obtain t v post where
        "r2 = t @ quote # post" "json_body t v" "w = out @ encode_utf8 ch @ v"
        "it' = scan_at (pre @ [c, e] @ h @ t @ [quote]) post"
        by auto
      with inp r h ch 2 e show ?thesis
        by (intro exI [of _ "backslash # 0x75 # h @ t"] exI [of _ "encode_utf8 ch @ v"] exI [of _ post])
          (auto intro: body_radix)
    qed
  next
    case 3
    then show ?thesis
      using less.prems inp by (simp add: js_string_loop_at [of pre])
  next
    case 4
    have "js_string_loop (scan_at (pre @ [c]) r) (out @ [c]) = Ok (w, it')"
      using less.prems inp 4 by (simp add: js_string_loop_at [of pre])
    with less.hyps [of r "pre @ [c]" "out @ [c]"] inp obtain t v post where
      "r = t @ quote # post" "json_body t v" "w = out @ c # v" "it' = scan_at (pre @ [c] @ t @ [quote]) post"
      by auto
    with inp 4 show ?thesis
      by (intro exI [of _ "c # t"] exI [of _ "c # v"] exI [of _ post]) (auto intro: body_plain)
  qed
qed

lemma js_string_at:
  "js_string (scan_at pre inp) = Ok (v, it') \<longleftrightarrow>
     (\<exists>t post. inp = quote # t @ quote # post \<and> json_body t v \<and> is_utf8 v
       \<and> it' = scan_at (pre @ [quote] @ t @ [quote]) post)" (is "?l \<longleftrightarrow> ?r")
proof
  assume ?l
  then obtain r where r: "inp = quote # r" "js_string_loop (scan_at (pre @ [quote]) r) [] = Ok (v, it')" "is_utf8 v"
    by (cases inp) (auto simp: js_string_def js_take_at and_then_eq_Inr ok_or_eq_Inr from_utf8_eq_Some split: if_splits)
  from string_loop_sound [OF r(2)] r show ?r by auto
next
  assume ?r
  then obtain t post where "inp = quote # t @ quote # post" "json_body t v" "is_utf8 v"
    "it' = scan_at (pre @ [quote] @ t @ [quote]) post" by blast
  then show ?l
    by (simp add: js_string_def js_take_at string_loop_complete from_utf8_def)
qed

section \<open>The writer's text read back\<close>

lemma hex_value_digit: "n < 16 \<Longrightarrow> hex_value (hex_digit n) = Some n"
proof -
  assume "n < 16"
  then have "n \<in> set [0..<16]" by simp
  moreover have "\<forall>n\<in>set [0..<16]. hex_value (hex_digit n) = Some n" by code_simp
  ultimately show ?thesis by blast
qed

lemma hex4_number: "c < 0x10000 \<Longrightarrow> hex_number (hex4 c) c"
proof -
  assume c: "c < 0x10000"
  have "hex_digits 0 (hex4 c) = Some (16 * (16 * (16 * (c div 4096 mod 16) + c div 256 mod 16) + c div 16 mod 16) + c mod 16)"
    by (simp add: hex4_def hex_value_digit)
  also have "16 * (16 * (16 * (c div 4096 mod 16) + c div 256 mod 16) + c div 16 mod 16) + c mod 16 = c"
  proof -
    define x y z where "x = c div 16" and "y = x div 16" and "z = y div 16"
    have "c div 256 = y" "c div 4096 = z" by (simp_all add: x_def y_def z_def div_mult2_eq [symmetric])
    moreover have "z < 16" using c by (simp add: x_def y_def z_def div_mult2_eq [symmetric] less_mult_imp_div_less)
    moreover have "16 * x + c mod 16 = c" "16 * y + x mod 16 = x" "16 * z + y mod 16 = y"
      by (simp_all add: x_def y_def z_def)
    ultimately show ?thesis by (simp add: x_def [symmetric])
  qed
  finally show ?thesis by (simp only: hex_number_iff)
qed

lemma length_hex4 [simp]: "length (hex4 c) = 4"
  by (simp add: hex4_def)

lemma hex4_value: "c < 0x10000 \<Longrightarrow> from_str_radix16 (hex4 c) = Some c"
  by (intro radix_of_hex hex4_number) simp_all

lemma unat_quote [simp]: "unat quote = 0x22" "unat backslash = 0x5C"
  by (simp_all add: quote_def backslash_def)

text \<open>Bytes that stand for themselves in a string literal.\<close>

lemma json_body_plain:
  "(\<forall>b\<in>set p. b \<noteq> quote \<and> b \<noteq> backslash \<and> 0x1F < b) \<Longrightarrow> body_in d t v \<Longrightarrow> body_in d (p @ t) (p @ v)"
  by (induction p) (auto intro: body_plain)

lemma json_char_body:
  assumes "scalar c" "body_in d t v"
  shows "body_in d (json_char c @ t) (encode_utf8 c @ v)"
proof -
  have e: "encode_utf8 0x22 = [quote]" "encode_utf8 0x5C = [backslash]" "encode_utf8 0x0A = [0x0A]"
    "encode_utf8 0x0D = [0x0D]" "encode_utf8 0x09 = [0x09]"
    by (simp_all add: encode_utf8_def quote_def backslash_def)
  have s: "simple_escape quote = Some quote" "simple_escape backslash = Some backslash"
    "simple_escape 0x6E = Some 0x0A" "simple_escape 0x72 = Some 0x0D" "simple_escape 0x74 = Some 0x09"
    by (simp_all add: simple_escape_def quote_def backslash_def)
  consider "c = 0x22" | "c = 0x5C" | "c = 0x0A" | "c = 0x0D" | "c = 0x09"
    | "c \<notin> {0x22, 0x5C, 0x0A, 0x0D, 0x09}" "c < 0x20"
    | "c \<notin> {0x22, 0x5C}" "0x20 \<le> c" by fastforce
  then show ?thesis
  proof cases
    case 6
    have "body_in d (backslash # 0x75 # hex4 c @ t) (encode_utf8 c @ v)"
      using 6 assms by (intro body_unicode) (simp_all add: hex4_number)
    with 6 show ?thesis by (simp add: json_char_def)
  next
    case 7
    have "b \<noteq> quote \<and> b \<noteq> backslash \<and> 0x1F < b" if b: "b \<in> set (encode_utf8 c)" for b
    proof (cases "c < 0x80")
      case True
      then have "b = of_nat c" using b by (simp add: encode_utf8_def)
      with True 7 have "unat b = c" by (simp add: unat_of_nat_u8)
      with 7 show ?thesis by (auto simp: u8_order)
    next
      case False
      then have "0x80 \<le> b" using encode_utf8_high [OF _ assms(1) b] by simp
      then show ?thesis by (auto simp: u8_order)
    qed
    then have "body_in d (encode_utf8 c @ t) (encode_utf8 c @ v)" using assms by (intro json_body_plain) auto
    with 7 show ?thesis by (simp add: json_char_def)
  qed (use s assms in \<open>simp_all add: e json_char_def body_escape\<close>)
qed

lemma json_chars_body:
  "(\<forall>c\<in>set cs. scalar c) \<Longrightarrow> body_in d (concat (map json_char cs)) (concat (map encode_utf8 cs))"
  by (induction cs) (simp_all add: body_end json_char_body)

lemma json_string_body:
  assumes "is_utf8 v"
  obtains t where "json_string v = [quote] @ t @ [quote]" "body_in d t v"
proof -
  obtain cs where cs: "utf8_chars v = Some cs" using assms by (auto simp: is_utf8_def)
  have "body_in d (concat (map json_char cs)) v" using utf8_chars_sound [OF cs] json_chars_body [of cs] by simp
  with cs show ?thesis by (intro that) (simp_all add: json_string_def str_chars_def)
qed

lemma js_string_written:
  "is_utf8 v \<Longrightarrow> js_string (scan_at pre (json_string v @ post)) = Ok (v, scan_at (pre @ json_string v) post)"
  by (rule json_string_body [of v Scanner]) (auto simp: js_string_at)

lemma json_char_utf8: "scalar c \<Longrightarrow> is_utf8 (json_char c)"
proof -
  assume c: "scalar c"
  have "is_utf8 (backslash # 0x75 # hex4 c)" if "c < 0x20"
    using that hex_digits_ascii [of 0 "hex4 c"] hex4_value [of c]
    by (intro is_utf8_ascii) (auto simp: hex4_def hex_value_digit quote_def backslash_def dest: hex_value_ascii)
  moreover have "is_utf8 [backslash, b]" if "b < 0x80" for b
    using that by (simp add: is_utf8_ascii backslash_def)
  ultimately show ?thesis using c by (simp add: json_char_def quote_def backslash_def)
qed

lemma is_utf8_concat: "(\<forall>x\<in>set xs. is_utf8 x) \<Longrightarrow> is_utf8 (concat xs)"
  by (induction xs) (simp_all add: is_utf8_append)

lemma json_string_utf8 [simp]: "is_utf8 v \<Longrightarrow> is_utf8 (json_string v)"
proof -
  assume "is_utf8 v"
  then obtain cs where cs: "utf8_chars v = Some cs" by (auto simp: is_utf8_def)
  have "is_utf8 (concat (map json_char cs))"
    using utf8_chars_sound [OF cs] by (intro is_utf8_concat) (auto intro: json_char_utf8)
  with cs show ?thesis
    by (simp add: json_string_def str_chars_def is_utf8_append is_utf8_Cons_ascii quote_def)
qed

lemma is_utf8_ascii_text: "(\<forall>c\<in>set s. of_char c < (0x80 :: nat)) \<Longrightarrow> is_utf8 (ascii s)"
  by (rule is_utf8_ascii) (auto simp: ascii_def u8_less_iff unat_of_nat_u8)

lemma error_json_utf8: "is_utf8 (err_code e) \<Longrightarrow> is_utf8 (request_id e) \<Longrightarrow> is_utf8 (error_json e)"
  by (simp add: error_json_def Let_def is_utf8_append is_utf8_ascii_text)

lemma skip_ws_at: "skip_ws (scan_at pre post) =
    (case post of c # r \<Rightarrow> if is_ws c then skip_ws (scan_at (pre @ [c]) r) else scan_at pre post
     | [] \<Rightarrow> scan_at pre post)"
  by (cases post; subst skip_ws.simps) (simp_all add: scan_at_advance_1 [unfolded One_nat_def])

section \<open>The grammar of ERROR bodies\<close>

text \<open>The texts the parser has to accept, without a position or a loop: white space, string literals,
  members and objects, over either of the two grammars of string literals.\<close>

definition ws_text :: "bytes \<Rightarrow> bool" where
  "ws_text w \<longleftrightarrow> set w \<subseteq> {0x20, 0x09, 0x0A, 0x0D}"

definition literal_in :: "json_dialect \<Rightarrow> bytes \<Rightarrow> bytes \<Rightarrow> bool" where
  "literal_in d t v \<longleftrightarrow> (\<exists>b. t = quote # b @ [quote] \<and> body_in d b v \<and> is_utf8 v)"

definition error_keys :: "bytes list" where
  "error_keys = map ascii [''code'', ''retryable'', ''request_id'']"

definition field_in :: "json_dialect \<Rightarrow> nat \<Rightarrow> bytes \<Rightarrow> bytes \<Rightarrow> bool" where
  "field_in d i t v \<longleftrightarrow> (if i = 1 then t = v \<and> (v = TRUE_STR \<or> v = FALSE_STR) else literal_in d t v)"

inductive member_in :: "json_dialect \<Rightarrow> bytes \<Rightarrow> nat \<times> bytes \<Rightarrow> bool" for d where
  member: "ws_text w1 \<Longrightarrow> literal_in d k key \<Longrightarrow> ws_text w2 \<Longrightarrow> ws_text w3 \<Longrightarrow> i < 3 \<and> key = error_keys ! i
    \<Longrightarrow> field_in d i t v \<Longrightarrow> ws_text w4 \<Longrightarrow> member_in d (w1 @ k @ w2 @ 0x3A # w3 @ t @ w4) (i, v)"

inductive members_in :: "json_dialect \<Rightarrow> bytes \<Rightarrow> (nat \<times> bytes) list \<Rightarrow> bool" for d where
  last_member: "member_in d t m \<Longrightarrow> members_in d (t @ [0x7D]) [m]"
| next_member: "member_in d t m \<Longrightarrow> members_in d r ms \<Longrightarrow> members_in d (t @ 0x2C # r) (m # ms)"

definition error_text_in :: "json_dialect \<Rightarrow> bytes \<Rightarrow> error_payload \<Rightarrow> bool" where
  "error_text_in d s e \<longleftrightarrow>
     (\<exists>w1 t ms w2. s = w1 @ 0x7B # t @ w2 \<and> ws_text w1 \<and> members_in d t ms \<and> ws_text w2
       \<and> distinct (map fst ms) \<and> map_of ms 0 = Some (err_code e)
       \<and> map_of ms 1 = Some (if retryable e then TRUE_STR else FALSE_STR)
       \<and> map_of ms 2 = Some (request_id e))"

abbreviation json_literal :: "bytes \<Rightarrow> bytes \<Rightarrow> bool" where
  "json_literal \<equiv> literal_in Scanner"

abbreviation field_text :: "nat \<Rightarrow> bytes \<Rightarrow> bytes \<Rightarrow> bool" where
  "field_text \<equiv> field_in Scanner"

abbreviation member_text :: "bytes \<Rightarrow> nat \<times> bytes \<Rightarrow> bool" where
  "member_text \<equiv> member_in Scanner"

abbreviation members_text :: "bytes \<Rightarrow> (nat \<times> bytes) list \<Rightarrow> bool" where
  "members_text \<equiv> members_in Scanner"

abbreviation error_text :: "bytes \<Rightarrow> error_payload \<Rightarrow> bool" where
  "error_text \<equiv> error_text_in Scanner"

lemma ws_text_iff: "ws_text w \<longleftrightarrow> list_all is_ws w"
  by (auto simp: ws_text_def list_all_iff is_ws_def)

lemma field_index_iff: "field_index key = Inr i \<longleftrightarrow> i < 3 \<and> key = error_keys ! i"
proof -
  have k: "error_keys = [CODE_KEY, RETRYABLE_KEY, REQUEST_ID_KEY]"
    by (simp add: error_keys_def CODE_KEY_def RETRYABLE_KEY_def REQUEST_ID_KEY_def)
  have ne: "CODE_KEY \<noteq> RETRYABLE_KEY" "CODE_KEY \<noteq> REQUEST_ID_KEY" "RETRYABLE_KEY \<noteq> REQUEST_ID_KEY"
    by (simp_all add: CODE_KEY_def RETRYABLE_KEY_def REQUEST_ID_KEY_def ascii_def)
  consider "i = 0" | "i = 1" | "i = 2" | "\<not> i < 3" by linarith
  then show ?thesis
    by cases (use ne in \<open>auto simp: k field_index_def split: if_splits\<close>)
qed

lemma skip_ws_scan: "skip_ws (scan_at pre inp) = scan_at (pre @ takeWhile is_ws inp) (dropWhile is_ws inp)"
proof (induction inp arbitrary: pre)
  case Nil
  show ?case by (simp add: skip_ws_at)
next
  case (Cons c r)
  then show ?case by (subst skip_ws_at) simp
qed

lemma ws_text_takeWhile [simp]: "ws_text (takeWhile is_ws x)"
  by (auto simp: ws_text_iff list_all_iff dest: set_takeWhileD)

lemma ws_text_utf8: "ws_text w \<Longrightarrow> is_utf8 w"
  by (rule is_utf8_ascii) (auto simp: ws_text_iff list_all_iff is_ws_def)

lemma skip_ws_munch:
  "ws_text w \<Longrightarrow> \<not> is_ws c \<Longrightarrow> skip_ws (scan_at pre (w @ c # r)) = scan_at (pre @ w) (c # r)"
  by (auto simp: skip_ws_scan ws_text_iff list_all_iff takeWhile_append dropWhile_append)

lemma skip_ws_all: "ws_text w \<Longrightarrow> skip_ws (scan_at pre w) = scan_at (pre @ w) []"
  by (simp add: skip_ws_scan ws_text_iff list_all_iff takeWhile_eq_all_conv [THEN iffD2] dropWhile_eq_Nil_conv [THEN iffD2])

lemma not_ws [simp]: "\<not> is_ws quote" "\<not> is_ws 0x3A" "\<not> is_ws 0x2C" "\<not> is_ws 0x7D" "\<not> is_ws 0x7B"
  by (simp_all add: is_ws_def quote_def)

lemma js_string_literal:
  "js_string (scan_at pre inp) = Ok (v, it') \<longleftrightarrow>
     (\<exists>t post. inp = t @ post \<and> json_literal t v \<and> it' = scan_at (pre @ t) post)"
  by (auto simp: js_string_at literal_in_def) (metis append.assoc append_Cons append_Nil)+

text \<open>After an ASCII character of a UTF-8 text the text is UTF-8 again.\<close>

lemma concat_ascii_split:
  "concat (map encode_utf8 cs) = a @ x # b \<Longrightarrow> x < 0x80 \<Longrightarrow> \<forall>c\<in>set cs. scalar c
    \<Longrightarrow> \<exists>ds. set ds \<subseteq> set cs \<and> concat (map encode_utf8 ds) = b"
proof (induction cs arbitrary: a)
  case (Cons c cs)
  show ?case
  proof (cases "length (encode_utf8 c) \<le> length a")
    case True
    then obtain a' where a: "a = encode_utf8 c @ a'"
      using Cons.prems(1) by (auto simp: append_eq_append_conv_if) (metis append_take_drop_id)
    with Cons obtain ds where "set ds \<subseteq> set cs" "concat (map encode_utf8 ds) = b" by auto
    then show ?thesis by auto
  next
    case False
    have "(encode_utf8 c @ concat (map encode_utf8 cs)) ! length a = x" using Cons.prems(1) by simp
    with False have x: "x \<in> set (encode_utf8 c)" by (metis nth_append nth_mem not_le)
    have lt: "c < 0x80"
    proof (rule ccontr)
      assume "\<not> c < 0x80"
      with encode_utf8_high [OF _ _ x(1)] Cons.prems(3) have "0x80 \<le> x" by simp
      with Cons.prems(2) show False by simp
    qed
    then have "encode_utf8 c = [of_nat c]" by (simp add: encode_utf8_def)
    with False Cons.prems(1) show ?thesis by (intro exI [of _ cs]) (cases a; auto)
  qed
qed simp

lemma is_utf8_after_ascii: "is_utf8 (a @ x # b) \<Longrightarrow> x < 0x80 \<Longrightarrow> is_utf8 b"
proof -
  assume u: "is_utf8 (a @ x # b)" and x: "x < 0x80"
  then obtain cs where "utf8_chars (a @ x # b) = Some cs" by (auto simp: is_utf8_def)
  with utf8_chars_sound x obtain ds where d: "concat (map encode_utf8 ds) = b" "\<forall>c\<in>set ds. scalar c"
    using concat_ascii_split [of cs a x b] by blast
  show "is_utf8 b" unfolding d(1) [symmetric] using d(2) by (intro is_utf8_concat) auto
qed

lemma js_boolean_at:
  assumes "is_utf8 inp"
  shows "js_boolean (scan_at pre inp) = Ok (b, it') \<longleftrightarrow>
    (\<exists>post. inp = (if b then TRUE_STR else FALSE_STR) @ post \<and> it' = scan_at (pre @ (if b then TRUE_STR else FALSE_STR)) post)"
proof -
  have l: "length TRUE_STR = 4" "length FALSE_STR = 5" by (simp_all add: TRUE_STR_def FALSE_STR_def ascii_def)
  have ne: "TRUE_STR @ a \<noteq> FALSE_STR @ b" for a b by (simp add: TRUE_STR_def FALSE_STR_def ascii_def)
  have s: "slice_of (pre @ inp) (length pre) (length pre + length inp) = (Ok inp :: bytes res)"
    by (simp add: slice_of_def sub_def)
  have adv: "js_advance 4 (scan_at pre (TRUE_STR @ r)) = scan_at (pre @ TRUE_STR) r"
    "js_advance 5 (scan_at pre (FALSE_STR @ r)) = scan_at (pre @ FALSE_STR) r" for r
    using scan_at_advance [of TRUE_STR] scan_at_advance [of FALSE_STR] l by simp_all
  have eq: "js_boolean (scan_at pre inp) =
      (if \<exists>r. inp = TRUE_STR @ r then Ok (True, js_advance 4 (scan_at pre inp))
       else if \<exists>r. inp = FALSE_STR @ r then Ok (False, js_advance 5 (scan_at pre inp))
       else Err (BadConstant ''json boolean expected''))"
    using assms s by (simp add: js_boolean_def str_or_empty_def starts_with_iff)
  show ?thesis
  proof (cases b)
    case True
    then show ?thesis unfolding eq using adv(1) by (auto split: if_splits)
  next
    case False
    then show ?thesis unfolding eq using adv(2) ne by (auto split: if_splits) metis
  qed
qed

lemma js_value_at:
  assumes "is_utf8 inp"
  shows "js_value i (scan_at pre inp) = Ok (v, it') \<longleftrightarrow>
    (\<exists>t post. inp = t @ post \<and> field_text i t v \<and> it' = scan_at (pre @ t) post)"
proof (cases "i = 1")
  case True
  then show ?thesis
    by (auto simp: js_value_def field_in_def and_then_eq_Inr js_boolean_at [OF assms])
next
  case False
  then show ?thesis by (simp add: js_value_def field_in_def js_string_literal)
qed

text \<open>A field's text begins with a character that is not white space.\<close>

lemma field_text_Cons: "field_text i t v \<Longrightarrow> \<exists>c r. t = c # r \<and> \<not> is_ws c"
  by (auto simp: field_in_def literal_in_def TRUE_STR_def FALSE_STR_def ascii_def is_ws_def quote_def
      split: if_splits)

lemma json_literal_Cons: "json_literal t v \<Longrightarrow> \<exists>r. t = quote # r"
  by (auto simp: literal_in_def)

lemma js_take_eq: "js_take c (scan_at pre post) = (True, it') \<longleftrightarrow> (\<exists>r. post = c # r \<and> it' = scan_at (pre @ [c]) r)"
  by (cases post) (auto simp: js_take_at)

lemma js_take_False: "js_take c (scan_at pre post) = (False, it') \<longleftrightarrow> it' = scan_at pre post \<and> (\<forall>r. post \<noteq> c # r)"
  by (cases post) (auto simp: js_take_at)

text \<open>What follows a member: the end of the object, or a comma and the rest of the members.\<close>

definition json_rest :: "json_scan \<Rightarrow> bytes option list \<Rightarrow> (bytes option list \<times> json_scan) res" where
  "json_rest it slots' =
     (let (close, it) = js_take 0x7D it
      in if close then Ok (slots', it) else
         let (comma, it) = js_take 0x2C it in
         if \<not> comma then Err (BadConstant ''ERROR json comma expected'') else json_fields it slots')"

lemma json_rest_at:
  "json_rest (scan_at pre inp) slots = Ok (slots', it') \<longleftrightarrow>
     (\<exists>post. inp = 0x7D # post \<and> slots' = slots \<and> it' = scan_at (pre @ [0x7D]) post) \<or>
     (\<exists>post. inp = 0x2C # post \<and> json_fields (scan_at (pre @ [0x2C]) post) slots = Ok (slots', it'))"
  by (cases inp) (auto simp: json_rest_def js_take_at Let_def)

lemma json_fields_unfold:
  "json_fields it slots =
     and_then (js_string (skip_ws it)) (\<lambda>(key, it).
     let (colon, it) = js_take 0x3A (skip_ws it) in
     if \<not> colon then Err (BadConstant ''ERROR json colon expected'') else
     let it = skip_ws it in
     and_then (field_index key) (\<lambda>idx.
     and_then (at_index slots idx) (\<lambda>slot.
     if slot \<noteq> None then Err (Duplicate ''ERROR json key'') else
     and_then (js_value idx it) (\<lambda>(v, it). json_rest (skip_ws it) (slots[idx := Some v])))))"
  by (subst json_fields_step) (simp only: json_rest_def Let_def)

lemma json_fields_member:
  assumes "member_text t (i, v)" "i < length slots" "slots ! i = None" "c \<in> {0x7D, 0x2C}" "is_utf8 (pre @ t @ c # r)"
  shows "json_fields (scan_at pre (t @ c # r)) slots = json_rest (scan_at (pre @ t) (c # r)) (slots[i := Some v])"
  using assms(1)
proof cases
  case (member w1 k key w2 w3 u w4)
  obtain kr where k: "k = quote # kr" using json_literal_Cons [OF member(3)] by blast
  obtain d ur where u: "u = d # ur" "\<not> is_ws d" using field_text_Cons [OF member(7)] by blast
  let ?x1 = "k @ w2 @ 0x3A # w3 @ u @ w4 @ c # r"
  have nc: "\<not> is_ws c" using assms(4) by auto
  have e1: "skip_ws (scan_at pre (w1 @ ?x1)) = scan_at (pre @ w1) ?x1"
    unfolding k append_Cons by (rule skip_ws_munch) (simp_all add: member)
  have e2: "js_string (scan_at (pre @ w1) ?x1) = Ok (key, scan_at ((pre @ w1) @ k) (w2 @ 0x3A # w3 @ u @ w4 @ c # r))"
    unfolding js_string_literal using member(3) by blast
  have e3: "skip_ws (scan_at ((pre @ w1) @ k) (w2 @ 0x3A # w3 @ u @ w4 @ c # r))
      = scan_at (((pre @ w1) @ k) @ w2) (0x3A # w3 @ u @ w4 @ c # r)"
    by (rule skip_ws_munch) (simp_all add: member)
  let ?p = "(((pre @ w1) @ k) @ w2) @ [0x3A]"
  have e4: "skip_ws (scan_at ?p (w3 @ u @ w4 @ c # r)) = scan_at (?p @ w3) (u @ w4 @ c # r)"
    unfolding u(1) append_Cons by (rule skip_ws_munch) (simp_all add: member u)
  have "is_utf8 ((pre @ w1 @ k @ w2) @ 0x3A # (w3 @ u @ w4 @ c # r))" using assms(5) member(1) by simp
  then have "is_utf8 (w3 @ u @ w4 @ c # r)" by (rule is_utf8_after_ascii) simp
  moreover have "is_utf8 w3" using member(5) by (rule ws_text_utf8)
  ultimately have "is_utf8 (u @ w4 @ c # r)" by (simp add: is_utf8_append)
  then have e5: "js_value i (scan_at (?p @ w3) (u @ w4 @ c # r)) = Ok (v, scan_at ((?p @ w3) @ u) (w4 @ c # r))"
    by (subst js_value_at) (use member(7) in blast)+
  have e6: "skip_ws (scan_at ((?p @ w3) @ u) (w4 @ c # r)) = scan_at (((?p @ w3) @ u) @ w4) (c # r)"
    by (rule skip_ws_munch) (simp_all add: member nc)
  have t: "t @ c # r = w1 @ ?x1" using member(1) by simp
  have t': "pre @ t = ((?p @ w3) @ u) @ w4" using member(1) by simp
  show ?thesis
    unfolding t t' json_fields_unfold e1 e2 and_then_simps case_prod_conv e3
    using assms(2,3) member(6) [folded field_index_iff] by (simp add: js_take_at e4 [simplified] e5 [simplified] e6 [simplified] at_index_def)
qed

lemma json_fields_inv:
  assumes "json_fields (scan_at pre inp) slots = Ok (slots', it')" "is_utf8 inp"
  obtains t i v c r where "inp = t @ c # r" "member_text t (i, v)" "i < length slots" "slots ! i = None"
    "c \<in> {0x7D, 0x2C}" "json_rest (scan_at (pre @ t) (c # r)) (slots[i := Some v]) = Ok (slots', it')"
proof -
  define w1 x1 where "w1 = takeWhile is_ws inp" and "x1 = dropWhile is_ws inp"
  have s1: "skip_ws (scan_at pre inp) = scan_at (pre @ w1) x1" by (simp add: skip_ws_scan w1_def x1_def)
  obtain key it1 where js: "js_string (scan_at (pre @ w1) x1) = Ok (key, it1)"
    using assms(1) unfolding json_fields_unfold s1 by (auto simp: and_then_eq_Inr)
  then obtain k x2 where k: "x1 = k @ x2" "json_literal k key" "it1 = scan_at ((pre @ w1) @ k) x2"
    unfolding js_string_literal by blast
  define w2 x3 where "w2 = takeWhile is_ws x2" and "x3 = dropWhile is_ws x2"
  have s2: "skip_ws it1 = scan_at (((pre @ w1) @ k) @ w2) x3" by (simp add: k skip_ws_scan w2_def x3_def)
  obtain x4 where x3: "x3 = 0x3A # x4"
    using assms(1) unfolding json_fields_unfold s1 js and_then_simps case_prod_conv s2
    by (cases x3) (auto simp: js_take_at split: if_splits)
  define w3 x5 where "w3 = takeWhile is_ws x4" and "x5 = dropWhile is_ws x4"
  let ?p = "(((pre @ w1) @ k) @ w2) @ [0x3A]"
  have s3: "skip_ws (scan_at ?p x4) = scan_at (?p @ w3) x5" by (simp add: skip_ws_scan w3_def x5_def)
  have "json_fields (scan_at pre inp) slots =
      and_then (field_index key) (\<lambda>idx. and_then (at_index slots idx) (\<lambda>slot.
        if slot \<noteq> None then Err (Duplicate ''ERROR json key'') else
        and_then (js_value idx (scan_at (?p @ w3) x5)) (\<lambda>(v, it). json_rest (skip_ws it) (slots[idx := Some v]))))"
    unfolding json_fields_unfold s1 js and_then_simps case_prod_conv s2 x3
    by (simp only: js_take_at list.case simp_thms if_True case_prod_conv Let_def if_False s3)
  with assms(1) obtain i v it2 where i: "field_index key = Inr i" "i < length slots" "slots ! i = None"
    and v: "js_value i (scan_at (?p @ w3) x5) = Ok (v, it2)"
    and r: "json_rest (skip_ws it2) (slots[i := Some v]) = Ok (slots', it')"
    by (auto simp: and_then_eq_Inr at_index_eq_Inr split: if_splits)
  have inp: "inp = (w1 @ k @ w2) @ 0x3A # w3 @ x5"
    by (metis append.assoc k(1) takeWhile_dropWhile_id w1_def w2_def w3_def x1_def x3 x3_def x5_def append_Cons)
  have "is_utf8 (w3 @ x5)" using assms(2) unfolding inp by (rule is_utf8_after_ascii) simp
  moreover have "is_utf8 w3" by (simp add: w3_def ws_text_utf8)
  ultimately have "is_utf8 x5" by (simp add: is_utf8_append)
  from v [unfolded js_value_at [OF this]] obtain u x6 where u: "x5 = u @ x6" "field_text i u v"
    "it2 = scan_at ((?p @ w3) @ u) x6" by blast
  define w4 x7 where "w4 = takeWhile is_ws x6" and "x7 = dropWhile is_ws x6"
  have s4: "skip_ws it2 = scan_at (((?p @ w3) @ u) @ w4) x7" by (simp add: u skip_ws_scan w4_def x7_def)
  obtain c rs where x7: "x7 = c # rs" "c \<in> {0x7D, 0x2C}"
    using r unfolding s4 json_rest_at by blast
  have x6: "x6 = w4 @ c # rs" using x7(1) by (simp add: w4_def x7_def) (metis takeWhile_dropWhile_id)
  show ?thesis
  proof (rule that)
    show "inp = (w1 @ k @ w2 @ 0x3A # w3 @ u @ w4) @ c # rs" by (simp add: inp u(1) x6)
    show "member_text (w1 @ k @ w2 @ 0x3A # w3 @ u @ w4) (i, v)"
      using k(2) i(1) [unfolded field_index_iff] u(2) by (intro member) (simp_all add: w1_def w2_def w3_def w4_def)
    show "json_rest (scan_at (pre @ w1 @ k @ w2 @ 0x3A # w3 @ u @ w4) (c # rs)) (slots[i := Some v]) = Ok (slots', it')"
      using r unfolding s4 x7(1) by simp
  qed (use i x7 in auto)
qed

definition fill :: "(nat \<times> bytes) list \<Rightarrow> bytes option list \<Rightarrow> bytes option list" where
  "fill ms slots = fold (\<lambda>(i, v) s. s[i := Some v]) ms slots"

lemma fill_simps [simp]: "fill [] slots = slots" "fill ((i, v) # ms) slots = fill ms (slots[i := Some v])"
  by (simp_all add: fill_def)

lemma length_fill [simp]: "length (fill ms slots) = length slots"
  by (induction ms arbitrary: slots) auto

lemma fill_nth:
  "distinct (map fst ms) \<Longrightarrow> j < length slots \<Longrightarrow>
     fill ms slots ! j = (case map_of ms j of None \<Rightarrow> slots ! j | Some v \<Rightarrow> Some v)"
proof (induction ms arbitrary: slots)
  case (Cons m ms)
  obtain i v where m: "m = (i, v)" by (cases m)
  have "map_of ms i = None" using Cons.prems(1) by (simp add: m map_of_eq_None_iff)
  with Cons show ?case by (cases "i = j") (auto simp: m split: option.splits)
qed simp

text \<open>The members read are different, and none was there before.\<close>

definition fresh_members :: "(nat \<times> bytes) list \<Rightarrow> bytes option list \<Rightarrow> bool" where
  "fresh_members ms slots \<longleftrightarrow> distinct (map fst ms) \<and> (\<forall>i\<in>fst ` set ms. i < length slots \<and> slots ! i = None)"

lemma fresh_members_Cons:
  "fresh_members ((i, v) # ms) slots \<longleftrightarrow> i < length slots \<and> slots ! i = None \<and> fresh_members ms (slots[i := Some v])"
proof (cases "i < length slots")
  case True
  have "(\<forall>j\<in>S. j < length slots \<and> slots[i := Some v] ! j = None) \<longleftrightarrow>
      i \<notin> S \<and> (\<forall>j\<in>S. j < length slots \<and> slots ! j = None)" for S
    using True by (auto simp: nth_list_update split: if_splits)
  note eq = this [of "fst ` set ms"]
  show ?thesis
    unfolding fresh_members_def list.map fst_conv distinct.simps set_simps image_insert ball_simps(7)
      length_list_update eq set_map by (simp only: conj_ac)
qed (simp add: fresh_members_def)

lemma fresh_members_Nil [simp]: "fresh_members [] slots"
  by (simp add: fresh_members_def)

lemma json_fields_complete:
  "members_text t ms \<Longrightarrow> fresh_members ms slots \<Longrightarrow> is_utf8 (pre @ t @ post) \<Longrightarrow>
     json_fields (scan_at pre (t @ post)) slots = Ok (fill ms slots, scan_at (pre @ t) post)"
proof (induction t ms arbitrary: slots pre rule: members_in.induct)
  case (last_member t m)
  obtain i v where m: "m = (i, v)" by (cases m)
  with last_member json_fields_member [of t i v slots "0x7D" pre post] show ?case
    by (simp add: fresh_members_Cons json_rest_at)
next
  case (next_member t m r ms)
  obtain i v where m: "m = (i, v)" by (cases m)
  have "json_fields (scan_at ((pre @ t) @ [0x2C]) (r @ post)) (slots[i := Some v])
      = Ok (fill ms (slots[i := Some v]), scan_at (((pre @ t) @ [0x2C]) @ r) post)"
    using next_member.prems by (intro next_member.IH) (simp_all add: m fresh_members_Cons)
  with next_member m json_fields_member [of t i v slots "0x2C" pre "r @ post"] show ?case
    by (simp add: fresh_members_Cons json_rest_at)
qed

lemma json_fields_sound:
  "json_fields (scan_at pre inp) slots = Ok (slots', it') \<Longrightarrow> is_utf8 inp \<Longrightarrow>
     \<exists>t ms post. inp = t @ post \<and> members_text t ms \<and> fresh_members ms slots \<and> slots' = fill ms slots
       \<and> it' = scan_at (pre @ t) post"
proof (induction "length (filter (\<lambda>f. f = None) slots)" arbitrary: pre inp slots rule: less_induct)
  case less
  obtain t i v c r where m: "inp = t @ c # r" "member_text t (i, v)" "i < length slots" "slots ! i = None"
    "c \<in> {0x7D, 0x2C}" "json_rest (scan_at (pre @ t) (c # r)) (slots[i := Some v]) = Ok (slots', it')"
    by (rule json_fields_inv [OF less.prems])
  show ?case
  proof (cases "c = 0x7D")
    case True
    with m show ?thesis
      by (intro exI [of _ "t @ [0x7D]"] exI [of _ "[(i, v)]"] exI [of _ r])
        (auto simp: json_rest_at fresh_members_Cons intro: last_member)
  next
    case False
    with m(5) have c: "c = 0x2C" by simp
    then have j: "json_fields (scan_at (pre @ t @ [0x2C]) r) (slots[i := Some v]) = Ok (slots', it')"
      using m(6) by (simp add: json_rest_at)
    have "is_utf8 r" using less.prems(2) unfolding m(1) c by (rule is_utf8_after_ascii) simp
    with less.hyps [OF fewer_unset [OF m(3,4)] j] obtain t' ms post where
      "r = t' @ post" "members_text t' ms" "fresh_members ms (slots[i := Some v])"
      "slots' = fill ms (slots[i := Some v])" "it' = scan_at ((pre @ t @ [0x2C]) @ t') post" by auto
    with m c show ?thesis
      by (intro exI [of _ "t @ 0x2C # t'"] exI [of _ "(i, v) # ms"] exI [of _ post])
        (auto simp: fresh_members_Cons intro: next_member)
  qed
qed

lemma slots_of_members:
  assumes "fresh_members ms [None, None, None]"
  shows "fill ms [None, None, None] = [map_of ms 0, map_of ms 1, map_of ms 2]"
proof -
  have "distinct (map fst ms)" using assms by (simp add: fresh_members_def)
  then show ?thesis
    by (intro nth_equalityI) (auto simp: fill_nth less_Suc_eq numeral_3_eq_3 numeral_2_eq_2 split: option.splits)
qed

lemma member_index: "member_text t (i, v) \<Longrightarrow> i < 3"
  by (auto elim: member_in.cases)

lemma members_index: "members_text t ms \<Longrightarrow> \<forall>i\<in>fst ` set ms. i < 3"
  by (induction rule: members_in.induct) (auto dest: member_index)

lemma fresh_start: "members_text t ms \<Longrightarrow> fresh_members ms [None, None, None] \<longleftrightarrow> distinct (map fst ms)"
  using members_index [of t ms]
  by (auto simp: fresh_members_def less_Suc_eq numeral_3_eq_3)

lemma member_first: "member_text t m \<Longrightarrow> dropWhile is_ws (t @ r) \<noteq> [] \<and> hd (dropWhile is_ws (t @ r)) = quote"
proof (erule member_in.cases)
  fix w1 k key w2 w3 i u v w4
  assume a: "t = w1 @ k @ w2 @ 0x3A # w3 @ u @ w4" "ws_text w1" "json_literal k key"
  obtain kr where "k = quote # kr" using json_literal_Cons [OF a(3)] by blast
  with a show ?thesis by (auto simp: dropWhile_append ws_text_iff list_all_iff)
qed

lemma members_first: "members_text t ms \<Longrightarrow> dropWhile is_ws (t @ r) \<noteq> [] \<and> hd (dropWhile is_ws (t @ r)) = quote"
  by (erule members_in.cases) (use member_first in \<open>auto simp del: dropWhile_append\<close>)

lemma member_value_utf8: "member_text t (i, v) \<Longrightarrow> i = 1 \<Longrightarrow> v = TRUE_STR \<or> v = FALSE_STR"
  by (auto simp: field_in_def elim!: member_in.cases)

lemma members_bool: "members_text t ms \<Longrightarrow> map_of ms 1 = Some v \<Longrightarrow> v = TRUE_STR \<or> v = FALSE_STR"
proof (induction t ms rule: members_in.induct)
  case (last_member t m)
  then show ?case by (cases m) (auto split: if_splits dest: member_value_utf8)
next
  case (next_member t m r ms)
  then show ?case by (cases m) (auto split: if_splits dest: member_value_utf8)
qed

definition finish_error :: "bytes option list \<times> json_scan \<Rightarrow> error_payload res" where
  "finish_error = (\<lambda>(slots, it).
      let it = skip_ws it in
      if \<not> js_eof it then Err (BadConstant ''ERROR json trailing data'') else
      and_then (at_index slots 0) (\<lambda>f0.
      and_then (ok_or f0 (BadConstant ''ERROR code missing'')) (\<lambda>code.
      and_then (at_index slots 1) (\<lambda>f1.
      and_then (ok_or f1 (BadConstant ''ERROR retryable missing'')) (\<lambda>retryable_raw.
      and_then (at_index slots 2) (\<lambda>f2.
      and_then (ok_or f2 (BadConstant ''ERROR request_id missing'')) (\<lambda>request_id.
      Ok \<lparr>err_code = code, retryable = (retryable_raw = TRUE_STR), request_id = request_id\<rparr>)))))))"

lemma js_eof_at: "js_eof (scan_at pre post) \<longleftrightarrow> post = []"
  by (simp add: js_eof_def)

lemma finish_error_at:
  "finish_error ([a, b, c], scan_at pre post) = Ok e \<longleftrightarrow>
     ws_text post \<and> a = Some (err_code e) \<and> (\<exists>r. b = Some r \<and> retryable e = (r = TRUE_STR)) \<and> c = Some (request_id e)"
proof -
  have "js_eof (skip_ws (scan_at pre post)) \<longleftrightarrow> ws_text post"
    unfolding skip_ws_scan js_eof_at by (simp add: dropWhile_eq_Nil_conv ws_text_iff list_all_iff)
  then show ?thesis
    by (cases e) (auto simp: finish_error_def Let_def and_then_eq_Inr at_index_eq_Inr ok_or_eq_Inr split: if_splits)
qed

lemma parse_error_json_cases:
  "parse_error_json s =
     (let (op, it) = js_take 0x7B (skip_ws (scan_at [] s)) in
      if \<not> op then Err (BadConstant ''ERROR json object expected'') else
      let (close, it) = js_take 0x7D (skip_ws it)
      in if close then Err (BadConstant ''ERROR json empty object'') else
      and_then (json_fields it [None, None, None]) finish_error)"
  by (simp add: parse_error_json_def finish_error_def scan_at_def json_scan_new_def case_prod_unfold Let_def)

lemma json_fields_skip:
  "json_fields (scan_at (pre @ takeWhile is_ws inp) (dropWhile is_ws inp)) slots = json_fields (scan_at pre inp) slots"
proof -
  have "takeWhile is_ws (dropWhile is_ws inp) = []" by (induction inp) auto
  then have "skip_ws (scan_at (pre @ takeWhile is_ws inp) (dropWhile is_ws inp)) = skip_ws (scan_at pre inp)"
    unfolding skip_ws_scan by (metis append_Nil2 append_Nil takeWhile_dropWhile_id append.assoc)
  then show ?thesis by (simp only: json_fields_unfold)
qed

theorem parse_error_json_grammar:
  assumes "is_utf8 s"
  shows "parse_error_json s = Ok e \<longleftrightarrow> error_text s e"
proof
  assume p: "parse_error_json s = Ok e"
  define w1 x1 where "w1 = takeWhile is_ws s" and "x1 = dropWhile is_ws s"
  have s: "s = w1 @ x1" "skip_ws (scan_at [] s) = scan_at w1 x1" by (simp_all add: skip_ws_scan w1_def x1_def)
  obtain x2 where x1: "x1 = 0x7B # x2"
    using p unfolding parse_error_json_cases s(2) by (cases x1) (auto simp: js_take_at split: if_splits)
  have sk: "skip_ws (scan_at (w1 @ [0x7B]) x2) = scan_at ((w1 @ [0x7B]) @ takeWhile is_ws x2) (dropWhile is_ws x2)"
    by (rule skip_ws_scan)
  have "\<forall>r. dropWhile is_ws x2 \<noteq> 0x7D # r"
    using p unfolding parse_error_json_cases s(2) x1 js_take_at list.case simp_thms if_True case_prod_conv Let_def sk
    by (auto simp: js_take_at)
  then have "and_then (json_fields (scan_at ((w1 @ [0x7B]) @ takeWhile is_ws x2) (dropWhile is_ws x2)) [None, None, None]) finish_error = Ok e"
    using p unfolding parse_error_json_cases s(2) x1 js_take_at list.case simp_thms if_True case_prod_conv Let_def sk
    by (auto simp: js_take_at split: list.splits if_splits)
  then obtain r where r: "json_fields (scan_at (w1 @ [0x7B]) x2) [None, None, None] = Ok r" "finish_error r = Ok e"
    unfolding json_fields_skip by (auto simp: and_then_eq_Inr)
  obtain slots it' where rr: "r = (slots, it')" by (cases r)
  have "is_utf8 x2" using assms unfolding s(1) x1 by (rule is_utf8_after_ascii) simp
  from json_fields_sound [OF r(1) [unfolded rr] this] obtain t ms post where
    t: "x2 = t @ post" "members_text t ms" "fresh_members ms [None, None, None]"
    "slots = fill ms [None, None, None]" "it' = scan_at ((w1 @ [0x7B]) @ t) post" by blast
  have f: "ws_text post" "map_of ms 0 = Some (err_code e)"
    "\<exists>b. map_of ms 1 = Some b \<and> retryable e = (b = TRUE_STR)" "map_of ms 2 = Some (request_id e)"
    using r(2) unfolding rr t(4,5) slots_of_members [OF t(3)] finish_error_at by auto
  have "map_of ms 1 = Some (if retryable e then TRUE_STR else FALSE_STR)"
    using f(3) members_bool [OF t(2)] by auto
  with s x1 t f show "error_text s e"
    unfolding error_text_in_def fresh_start [OF t(2)]
    by (intro exI [of _ w1] exI [of _ t] exI [of _ ms] exI [of _ post]) (simp add: w1_def fresh_members_def)
next
  assume "error_text s e"
  then obtain w1 t ms w2 where e: "s = w1 @ 0x7B # t @ w2" "ws_text w1" "members_text t ms" "ws_text w2"
    "distinct (map fst ms)" "map_of ms 0 = Some (err_code e)"
    "map_of ms 1 = Some (if retryable e then TRUE_STR else FALSE_STR)" "map_of ms 2 = Some (request_id e)"
    unfolding error_text_in_def by blast
  have s: "skip_ws (scan_at [] s) = scan_at w1 (0x7B # t @ w2)"
    using skip_ws_munch [OF e(2), of "0x7B" "[]"] unfolding e(1) by simp
  obtain r where d: "dropWhile is_ws (t @ w2) = quote # r"
    using members_first [OF e(3), of w2] by (cases "dropWhile is_ws (t @ w2)") auto
  have fr: "fresh_members ms [None, None, None]" using e(5) fresh_start [OF e(3)] by simp
  have "json_fields (scan_at (w1 @ [0x7B]) (t @ w2)) [None, None, None]
      = Ok (fill ms [None, None, None], scan_at ((w1 @ [0x7B]) @ t) w2)"
    using e(3) fr assms unfolding e(1) by (intro json_fields_complete) simp_all
  then have j: "json_fields (scan_at ((w1 @ [0x7B]) @ takeWhile is_ws (t @ w2)) (quote # r)) [None, None, None]
      = Ok ([map_of ms 0, map_of ms 1, map_of ms 2], scan_at ((w1 @ [0x7B]) @ t) w2)"
    using json_fields_skip [of "w1 @ [0x7B]" "t @ w2"] unfolding d slots_of_members [OF fr] by simp
  have sk: "skip_ws (scan_at (w1 @ [0x7B]) (t @ w2)) = scan_at ((w1 @ [0x7B]) @ takeWhile is_ws (t @ w2)) (quote # r)"
    unfolding skip_ws_scan d ..
  have ne: "TRUE_STR \<noteq> FALSE_STR" by (simp add: TRUE_STR_def FALSE_STR_def ascii_def)
  have fe: "finish_error ([map_of ms 0, map_of ms 1, map_of ms 2], scan_at ((w1 @ [0x7B]) @ t) w2) = Ok e"
    unfolding finish_error_at using e(4,6,7,8) ne by auto
  have q: "quote \<noteq> 0x7D" by (simp add: quote_def)
  show "parse_error_json s = Ok e"
    unfolding parse_error_json_cases s js_take_at list.case simp_thms if_True case_prod_conv Let_def sk
    using q by (simp add: js_take_at j [simplified] fe [simplified])
qed

lemma json_string_literal: "is_utf8 v \<Longrightarrow> literal_in d (json_string v) v"
  by (rule json_string_body [of v d]) (auto simp: literal_in_def)

lemma ascii_literal:
  assumes "\<forall>b\<in>set k. b \<noteq> quote \<and> b \<noteq> backslash \<and> 0x1F < b \<and> b < 0x80"
  shows "literal_in d (quote # k @ [quote]) k"
proof -
  have "body_in d (k @ []) (k @ [])" using assms by (intro json_body_plain body_end) auto
  moreover have "is_utf8 k" using assms by (intro is_utf8_ascii) auto
  ultimately show ?thesis by (auto simp: literal_in_def)
qed

lemma key_member:
  assumes "\<forall>b\<in>set key. b \<noteq> quote \<and> b \<noteq> backslash \<and> 0x1F < b \<and> b < 0x80" "i < 3" "key = error_keys ! i" "field_in d i t v"
  shows "member_in d (quote # key @ quote # 0x3A # t) (i, v)"
proof -
  have "member_in d ([] @ (quote # key @ [quote]) @ [] @ 0x3A # [] @ t @ []) (i, v)"
    by (rule member [OF _ ascii_literal [OF assms(1)] _ _ conjI [OF assms(2,3)] assms(4)]) (simp_all add: ws_text_iff)
  then show ?thesis by simp
qed

lemma error_json_members:
  assumes "is_utf8 (err_code e)" "is_utf8 (request_id e)"
  obtains t where "error_json e = 0x7B # t"
    "members_in d t [(0, err_code e), (1, if retryable e then TRUE_STR else FALSE_STR), (2, request_id e)]"
proof -
  let ?b = "if retryable e then TRUE_STR else FALSE_STR"
  let ?t = "(quote # CODE_KEY @ quote # 0x3A # json_string (err_code e)) @ 0x2C # (quote # RETRYABLE_KEY @ quote # 0x3A # ?b) @ 0x2C
    # (quote # REQUEST_ID_KEY @ quote # 0x3A # json_string (request_id e)) @ [0x7D]"
  have m: "member_in d (quote # CODE_KEY @ quote # 0x3A # json_string (err_code e)) (0, err_code e)"
    "member_in d (quote # RETRYABLE_KEY @ quote # 0x3A # ?b) (1, ?b)"
    "member_in d (quote # REQUEST_ID_KEY @ quote # 0x3A # json_string (request_id e)) (2, request_id e)"
    using assms
    by (intro key_member; simp add: CODE_KEY_def RETRYABLE_KEY_def REQUEST_ID_KEY_def error_keys_def field_in_def
        json_string_literal ascii_def u8_order)+
  have "members_in d ?t [(0, err_code e), (1, ?b), (2, request_id e)]"
    by (intro next_member last_member m)
  moreover have "error_json e = 0x7B # ?t"
    by (simp add: error_json_def Let_def CODE_KEY_def RETRYABLE_KEY_def REQUEST_ID_KEY_def TRUE_STR_def FALSE_STR_def
        ascii_def quote_def)
  ultimately show ?thesis using that by blast
qed

lemma error_json_text:
  assumes "is_utf8 (err_code e)" "is_utf8 (request_id e)"
  shows "error_text_in d (error_json e) e"
proof -
  obtain t where t: "error_json e = 0x7B # t"
    "members_in d t [(0, err_code e), (1, if retryable e then TRUE_STR else FALSE_STR), (2, request_id e)]"
    by (rule error_json_members [OF assms])
  show ?thesis
    unfolding error_text_in_def
    by (intro exI [of _ "[]"] exI [of _ t] exI conjI, (rule t(2) | simp add: t(1) ws_text_iff)+)
qed

theorem parse_error_json_written:
  "is_utf8 (err_code e) \<Longrightarrow> is_utf8 (request_id e) \<Longrightarrow> parse_error_json (error_json e) = Ok e"
  using parse_error_json_grammar [OF error_json_utf8] error_json_text by blast

section \<open>The scanner's language and JSON\<close>

text \<open>A text without the escape that begins with a plus sign and in the scanner's language is JSON, and a JSON
  text without the escape of a surrogate is in the scanner's language.\<close>

definition plus_escape :: "bytes \<Rightarrow> bool" where
  "plus_escape s \<longleftrightarrow> sublist [backslash, 0x75, 0x2B] s"

definition surrogate_escape :: "bytes \<Rightarrow> bool" where
  "surrogate_escape s \<longleftrightarrow>
     (\<exists>h n. length h = 4 \<and> hex_number h n \<and> 0xD800 \<le> n \<and> n < 0xE000 \<and> sublist (backslash # 0x75 # h) s)"

lemma plus_escape_within: "plus_escape t \<Longrightarrow> plus_escape (a @ t @ b)"
  by (auto simp: plus_escape_def intro: sublist_order.order.trans sublist_appendI)

lemma surrogate_escape_within: "surrogate_escape t \<Longrightarrow> surrogate_escape (a @ t @ b)"
  unfolding surrogate_escape_def by (blast intro: sublist_order.order.trans sublist_appendI)

text \<open>What holds of the bodies of literals holds of the texts made of them.\<close>

lemma error_text_in_transfer:
  assumes body: "\<And>t v. body_in d t v \<Longrightarrow> \<not> bad t \<Longrightarrow> body_in d' t v"
    and within: "\<And>a t b. bad t \<Longrightarrow> bad (a @ t @ b)"
  shows "error_text_in d s e \<Longrightarrow> \<not> bad s \<Longrightarrow> error_text_in d' s e"
proof -
  have left: "bad t \<Longrightarrow> bad (t @ b)" and right: "bad b \<Longrightarrow> bad (t @ b)" for t b
    using within [of t "[]" b] within [of b t "[]"] by simp_all
  have lit: "literal_in d t v \<Longrightarrow> \<not> bad t \<Longrightarrow> literal_in d' t v" for t v
    using within [of _ "[quote]" "[quote]"] by (auto simp: literal_in_def intro: body)
  have field: "field_in d i t v \<Longrightarrow> \<not> bad t \<Longrightarrow> field_in d' i t v" for i t v
    by (auto simp: field_in_def intro: lit split: if_splits)
  have mem: "member_in d t m \<Longrightarrow> \<not> bad t \<Longrightarrow> member_in d' t m" for t m
  proof (erule member_in.cases)
    fix w1 k key w2 w3 i u v w4
    assume m: "t = w1 @ k @ w2 @ 0x3A # w3 @ u @ w4" "m = (i, v)" "ws_text w1" "literal_in d k key" "ws_text w2"
      "ws_text w3" "i < 3 \<and> key = error_keys ! i" "field_in d i u v" "ws_text w4" and b: "\<not> bad t"
    have "\<not> bad k" "\<not> bad u"
      using b within [of k w1 "w2 @ 0x3A # w3 @ u @ w4"] within [of u "w1 @ k @ w2 @ 0x3A # w3" w4] by (auto simp: m)
    with m lit field show "member_in d' t m" unfolding m(1,2) by (intro member) simp_all
  qed
  have mems: "members_in d t ms \<Longrightarrow> \<not> bad t \<Longrightarrow> members_in d' t ms" for t ms
  proof (induction rule: members_in.induct)
    case (last_member t m)
    then show ?case using left [of t "[0x7D]"] by (auto intro: members_in.last_member mem)
  next
    case (next_member t m r ms)
    then show ?case using left [of t "0x2C # r"] right [of r "t @ [0x2C]"] by (auto intro: members_in.next_member mem)
  qed
  assume "error_text_in d s e" and b: "\<not> bad s"
  then obtain w1 t ms w2 where e: "s = w1 @ 0x7B # t @ w2" "ws_text w1" "members_in d t ms" "ws_text w2"
    "distinct (map fst ms)" "map_of ms 0 = Some (err_code e)"
    "map_of ms 1 = Some (if retryable e then TRUE_STR else FALSE_STR)" "map_of ms 2 = Some (request_id e)"
    unfolding error_text_in_def by blast
  have "\<not> bad t" using b within [of t "w1 @ [0x7B]" w2] by (auto simp: e(1))
  with e mems show "error_text_in d' s e" unfolding error_text_in_def by blast
qed

lemma body_scanner_rfc: "body_in Scanner t v \<Longrightarrow> \<not> plus_escape t \<Longrightarrow> body_in Rfc8259 t v"
proof (induction rule: body_in.induct)
  case (body_plain c t v)
  then show ?case using plus_escape_within [of t "[c]" "[]"] by (auto intro: body_in.body_plain)
next
  case (body_escape e r t v)
  then show ?case using plus_escape_within [of t "[backslash, e]" "[]"] by (auto intro: body_in.body_escape)
next
  case (body_unicode h ch t v)
  then show ?case using plus_escape_within [of t "backslash # 0x75 # h" "[]"] by (auto intro: body_in.body_unicode)
next
  case (body_plus h ch t v)
  have "plus_escape (backslash # 0x75 # 0x2B # h @ t)"
    using sublist_append_rightI [of "[backslash, 0x75, 0x2B]" "h @ t"] by (simp add: plus_escape_def)
  with body_plus.prems show ?case by blast
qed (auto intro: body_in.body_end)

lemma body_rfc_scanner: "body_in Rfc8259 t v \<Longrightarrow> \<not> surrogate_escape t \<Longrightarrow> body_in Scanner t v"
proof (induction rule: body_in.induct)
  case (body_plain c t v)
  then show ?case using surrogate_escape_within [of t "[c]" "[]"] by (auto intro: body_in.body_plain)
next
  case (body_escape e r t v)
  then show ?case using surrogate_escape_within [of t "[backslash, e]" "[]"] by (auto intro: body_in.body_escape)
next
  case (body_unicode h ch t v)
  then show ?case using surrogate_escape_within [of t "backslash # 0x75 # h" "[]"] by (auto intro: body_in.body_unicode)
next
  case (body_pair h hi l lo t v)
  let ?t = "backslash # 0x75 # h @ backslash # 0x75 # l @ t"
  have "sublist (backslash # 0x75 # h) ?t"
    using sublist_append_rightI [of "backslash # 0x75 # h" "backslash # 0x75 # l @ t"] by simp
  then have "surrogate_escape ?t"
    unfolding surrogate_escape_def using body_pair.hyps
    by (intro exI [of _ h] exI [of _ "0xD800 + hi"]) simp
  with body_pair.prems show ?case by blast
qed (auto intro: body_in.body_end)

section \<open>Properties\<close>

text \<open>C15. The parser of ERROR bodies accepts exactly the texts of a grammar written without positions or
  loops: one object with white space around its tokens whose members are \<open>code\<close>, \<open>retryable\<close> and
  \<open>request_id\<close>, each once and in any order, and it returns the values the members denote. The string literals of
  this grammar are those of JSON but for two escapes: every text the parser takes is JSON of the schema with the
  same values, unless an escape in it begins with a plus sign; and it takes every JSON text of the schema, unless
  an escape in it is one of a surrogate.\<close>

theorem error_json_grammar:
  assumes "is_utf8 s"
  shows "(parse_error_json s = Ok e \<longleftrightarrow> error_text_in Scanner s e) \<and>
    (parse_error_json s = Ok e \<longrightarrow> \<not> plus_escape s \<longrightarrow> error_text_in Rfc8259 s e) \<and>
    (error_text_in Rfc8259 s e \<longrightarrow> \<not> surrogate_escape s \<longrightarrow> parse_error_json s = Ok e)"
  using parse_error_json_grammar [OF assms]
    error_text_in_transfer [where bad = plus_escape, OF body_scanner_rfc plus_escape_within]
    error_text_in_transfer [where bad = surrogate_escape, OF body_rfc_scanner surrogate_escape_within] by blast

text \<open>The members in another order, with white space, an escaped slash and an escaped accent.\<close>

definition sample_members :: "(nat \<times> bytes) list" where
  "sample_members = [(2, [0x2F]), (1, TRUE_STR), (0, [0xC3, 0xA9])]"

definition sample_error_body :: bytes where
  "sample_error_body = [0x20, 0x7B] @ (quote # REQUEST_ID_KEY @ quote # 0x3A # [quote, backslash, 0x2F, quote]) @ 0x2C
     # (quote # RETRYABLE_KEY @ quote # 0x3A # TRUE_STR) @ 0x2C
     # (quote # CODE_KEY @ quote # 0x3A # (quote # [backslash, 0x75, 0x30, 0x30, 0x65, 0x39] @ [quote])) @ [0x7D, 0x0A]"

lemma sample_error_text:
  "error_text_in d sample_error_body \<lparr>err_code = [0xC3, 0xA9], retryable = True, request_id = [0x2F]\<rparr>"
proof -
  have b1: "body_in d (backslash # 0x2F # []) (0x2F # [])"
    by (intro body_escape body_end) (simp add: simple_escape_def quote_def backslash_def)
  have h: "hex_number [0x30, 0x30, 0x65, 0x39] 0xE9" unfolding hex_number_iff by code_simp
  have b2: "body_in d (backslash # 0x75 # [0x30, 0x30, 0x65, 0x39] @ []) (encode_utf8 0xE9 @ [])"
    by (rule body_unicode [OF _ h _ body_end]) (simp_all add: scalar_def)
  have e: "encode_utf8 0xE9 = [0xC3, 0xA9]" by (simp add: encode_utf8_def)
  have u: "is_utf8 [0x2F :: u8]" "is_utf8 [0xC3, 0xA9 :: u8]"
    by (simp add: is_utf8_ascii) (simp add: e [symmetric] scalar_def)
  have m: "member_in d (quote # REQUEST_ID_KEY @ quote # 0x3A # [quote, backslash, 0x2F, quote]) (2, [0x2F])"
    "member_in d (quote # RETRYABLE_KEY @ quote # 0x3A # TRUE_STR) (1, TRUE_STR)"
    "member_in d (quote # CODE_KEY @ quote # 0x3A # (quote # [backslash, 0x75, 0x30, 0x30, 0x65, 0x39] @ [quote])) (0, [0xC3, 0xA9])"
    using b1 b2 u e
    by (intro key_member; simp add: CODE_KEY_def RETRYABLE_KEY_def REQUEST_ID_KEY_def error_keys_def field_in_def
        literal_in_def ascii_def u8_order)+
  have "members_in d ((quote # REQUEST_ID_KEY @ quote # 0x3A # [quote, backslash, 0x2F, quote]) @ 0x2C
     # (quote # RETRYABLE_KEY @ quote # 0x3A # TRUE_STR) @ 0x2C
     # (quote # CODE_KEY @ quote # 0x3A # (quote # [backslash, 0x75, 0x30, 0x30, 0x65, 0x39] @ [quote])) @ [0x7D]) sample_members"
    unfolding sample_members_def by (intro next_member last_member m)
  then show ?thesis
    unfolding error_text_in_def
    by (intro exI [of _ "[0x20]"] exI [of _ sample_members] exI [of _ "[0x0A]"] exI conjI)
      (assumption | simp add: sample_error_body_def sample_members_def ws_text_def)+
qed

text \<open>No escape in it begins with a plus sign or is one of a surrogate.\<close>

lemma surrogate_escape_Nil: "\<not> surrogate_escape []"
  by (simp add: surrogate_escape_def)

lemma surrogate_escape_Cons:
  "surrogate_escape (b # s) \<longleftrightarrow>
     b = backslash \<and> take 1 s = [0x75] \<and> 5 \<le> length s
       \<and> (\<exists>n. hex_digits 0 (take 4 (drop 1 s)) = Some n \<and> 0xD800 \<le> n \<and> n < 0xE000) \<or> surrogate_escape s"
proof -
  have p: "prefix h r \<and> length h = 4 \<longleftrightarrow> 4 \<le> length r \<and> h = take 4 r" for h r :: bytes
    by (auto simp: prefix_def) (metis append_take_drop_id)
  have "prefix (backslash # 0x75 # h) (b # s) \<and> length h = 4 \<longleftrightarrow>
      b = backslash \<and> take 1 s = [0x75] \<and> 5 \<le> length s \<and> h = take 4 (drop 1 s)" for h
    using p [of h "tl s"] by (cases s) auto
  then have q: "length h = 4 \<and> prefix (backslash # 0x75 # h) (b # s) \<longleftrightarrow>
      (b = backslash \<and> take 1 s = [0x75] \<and> 5 \<le> length s) \<and> h = take 4 (drop 1 s)" for h
    by blast
  define P where "P h \<longleftrightarrow> (\<exists>n. hex_digits 0 h = Some n \<and> 0xD800 \<le> n \<and> n < 0xE000)" for h
  have e: "surrogate_escape x \<longleftrightarrow> (\<exists>h. (length h = 4 \<and> sublist (backslash # 0x75 # h) x) \<and> P h)" for x
    by (auto simp: surrogate_escape_def hex_number_iff P_def)
  show ?thesis
    unfolding P_def [symmetric] e sublist_Cons_right conj_disj_distribL conj_disj_distribR ex_disj_distrib q
    by (simp only: conj_assoc ex_simps simp_thms)
qed

lemma sample_escapes: "\<not> plus_escape sample_error_body" "\<not> surrogate_escape sample_error_body"
proof -
  note sample = sample_error_body_def CODE_KEY_def RETRYABLE_KEY_def REQUEST_ID_KEY_def TRUE_STR_def ascii_def
    quote_def backslash_def
  show "\<not> plus_escape sample_error_body"
    by (simp add: plus_escape_def sample sublist_Cons_right)
  show "\<not> surrogate_escape sample_error_body"
    by (simp add: sample surrogate_escape_Nil surrogate_escape_Cons hex_value_def)
qed

theorem error_json_grammar_witness:
  "let e = \<lparr>err_code = [0xC3, 0xA9], retryable = True, request_id = [0x2F]\<rparr>
   in is_utf8 sample_error_body \<and> \<not> plus_escape sample_error_body \<and> \<not> surrogate_escape sample_error_body
     \<and> parse_error_json sample_error_body = Ok e \<and> error_text_in Rfc8259 sample_error_body e"
proof -
  have "is_utf8 sample_error_body"
    by (rule is_utf8_ascii) (simp add: sample_error_body_def CODE_KEY_def RETRYABLE_KEY_def REQUEST_ID_KEY_def
        TRUE_STR_def ascii_def quote_def backslash_def)
  from error_json_grammar [OF this] this sample_escapes sample_error_text [of Rfc8259] show ?thesis
    unfolding Let_def by blast
qed

text \<open>The parser never panics and never loops, whatever the bytes, and the strings it returns are valid
  UTF-8.\<close>

theorem error_json_clean:
  "good (\<lambda>e. is_utf8 (err_code e) \<and> is_utf8 (request_id e)) (parse_error_json s)"
  by (rule parse_error_json_good)

text \<open>C36. What the encoder writes for an error, the parser reads back: quotes, backslashes, control
  characters and any other character of the two strings survive. The text is one of the schema in JSON too.\<close>

theorem error_json_roundtrip:
  "is_utf8 (err_code e) \<Longrightarrow> is_utf8 (request_id e) \<Longrightarrow>
     parse_error_json (error_json e) = Ok e \<and> error_text_in Rfc8259 (error_json e) e"
  by (simp add: parse_error_json_written error_json_text)

theorem error_json_roundtrip_witness:
  "let e = \<lparr>err_code = [0x61, quote, 0x01, 0xC3, 0xA9], retryable = False, request_id = []\<rparr>
   in parse_error_json (error_json e) = Ok e \<and> error_text_in Rfc8259 (error_json e) e"
  unfolding Let_def by (rule error_json_roundtrip; simp; code_simp)

text \<open>The two literals of strings on which the scanner and JSON differ: an escape of a plus sign and three
  digits, which the scanner takes since \<open>from_str_radix\<close> does, and an escaped character outside the basic
  plane.\<close>

definition plus_literal :: bytes where
  "plus_literal = quote # backslash # ascii ''u+041'' @ [quote]"

definition surrogate_literal :: bytes where
  "surrogate_literal = quote # backslash # ascii ''ud83d'' @ backslash # ascii ''ude00'' @ [quote]"

lemma plus_sign_accepted:
  "js_string (scan_at [] plus_literal) = Ok (ascii ''A'', scan_at plus_literal [])"
  "\<not> literal_in Rfc8259 plus_literal v"
proof -
  have h: "hex_number [0x30, 0x34, 0x31] 0x41" unfolding hex_number_iff by code_simp
  have "json_body (backslash # 0x75 # 0x2B # [0x30, 0x34, 0x31] @ []) (encode_utf8 0x41 @ [])"
    by (rule body_plus [OF refl _ h body_end]) simp
  then have "json_literal plus_literal (ascii ''A'')"
    by (simp add: literal_in_def plus_literal_def ascii_def encode_utf8_def is_utf8_ascii)
  then show "js_string (scan_at [] plus_literal) = Ok (ascii ''A'', scan_at plus_literal [])"
    unfolding js_string_literal by (intro exI [of _ plus_literal] exI [of _ "[]"]) simp
  have ne: "\<not> body_in Rfc8259 (backslash # 0x75 # 0x2B # r) w" for r w
  proof
    assume "body_in Rfc8259 (backslash # 0x75 # 0x2B # r) w"
    then show False
      using hex_number_not_plus
      by cases (auto simp: simple_escape_def quote_def backslash_def Cons_eq_append_conv)
  qed
  then show "\<not> literal_in Rfc8259 plus_literal v"
    by (auto simp: literal_in_def plus_literal_def ascii_def)
qed

lemma surrogate_pair_rejected:
  "literal_in Rfc8259 surrogate_literal (encode_utf8 0x1F600)"
  "js_string (scan_at [] surrogate_literal) = Err (BadConstant (JSON_U @ '' codepoint''))"
proof -
  have h: "hex_number [0x64, 0x38, 0x33, 0x64] (0xD800 + 0x3D)" "hex_number [0x64, 0x65, 0x30, 0x30] (0xDC00 + 0x200)"
    unfolding hex_number_iff by (simp_all add: hex_value_def)
  have "body_in Rfc8259 (backslash # 0x75 # [0x64, 0x38, 0x33, 0x64] @ backslash # 0x75 # [0x64, 0x65, 0x30, 0x30] @ [])
      (encode_utf8 (0x10000 + 0x400 * 0x3D + 0x200) @ [])"
    by (rule body_pair [OF refl _ h(1) _ _ h(2) _ body_end]) simp_all
  then show "literal_in Rfc8259 surrogate_literal (encode_utf8 0x1F600)"
    by (simp add: literal_in_def surrogate_literal_def ascii_def scalar_def)
  have n: "from_str_radix16 [0x64, 0x38, 0x33, 0x64] = Some 0xD83D"
    by (simp add: from_str_radix16_def hex_value_def)
  then show "js_string (scan_at [] surrogate_literal) = Err (BadConstant (JSON_U @ '' codepoint''))"
    using js_unicode_at [of "[0x64, 0x38, 0x33, 0x64]" "[quote, backslash, 0x75]"]
    by (simp add: js_string_def surrogate_literal_def js_take_at js_string_loop_at js_escape_at ascii_def
        simple_escape_def quote_def backslash_def scalar_def)
qed

end
