(* ===== verification/Tree_Payload.thy ===== *)
theory Tree_Payload
  imports Metapage Error_Json
begin

text \<open>
  \<^verbatim>\<open>src/treeframe.rs\<close>, the payloads of the five kinds of frame: their decoders and the bytes their encoders
  put into a frame. The decoder and the bytes of META, OBJECT, CHUNK and END payloads form a strict
  codec; ERROR payloads are the texts of \<open>Error_Json\<close>. \<open>meta_raw\<close>, \<open>object_raw\<close>, \<open>chunk_raw\<close> and \<open>end_raw\<close>
  name the canonical bytes, and the \<open>_wf\<close> predicates the values the decoders return.
\<close>

section \<open>Limits and data\<close>

definition META_MAX_PAGES :: nat where "META_MAX_PAGES = 64"
definition META_MAX_RAW :: nat where "META_MAX_RAW = 1048576"
definition OBJECT_MAX_COUNT :: nat where "OBJECT_MAX_COUNT = 128"
definition OBJECT_MAX_LEN :: u32 where "OBJECT_MAX_LEN = 262144"
definition OBJECT_MAX_RAW :: nat where "OBJECT_MAX_RAW = 1048576"
definition CHUNK_MAX_LEN :: u32 where "CHUNK_MAX_LEN = 1048576"
definition ERROR_MAX_BYTES :: nat where "ERROR_MAX_BYTES = 4096"

lemmas payload_limits [codec_defs] = META_MAX_PAGES_def META_MAX_RAW_def OBJECT_MAX_COUNT_def OBJECT_MAX_LEN_def
  OBJECT_MAX_RAW_def CHUNK_MAX_LEN_def ERROR_MAX_BYTES_def PAGE_MAX_BYTES_def

record meta_payload =
  mp_pages :: "(digest \<times> bytes) list"

record object_payload =
  op_objects :: "(digest \<times> bytes) list"

record chunk_payload =
  cp_map_id :: digest
  cp_file_content_id :: digest
  cp_chunk_index :: u64
  cp_chunk_bytes :: bytes

record end_payload =
  ep_request_item_count :: u32
  ep_unique_unit_count :: u32
  ep_logical_bytes :: u64
  ep_request_body_sha256 :: digest

datatype frame =
    Frame_Meta meta_payload
  | Frame_Object object_payload
  | Frame_Chunk chunk_payload
  | Frame_End end_payload
  | Frame_Error error_payload

section \<open>Decoders\<close>

fun meta_loop ::
  "hash \<Rightarrow> bytes \<Rightarrow> nat \<Rightarrow> nat \<Rightarrow> digest list \<Rightarrow> (digest \<times> bytes) list \<Rightarrow> ((digest \<times> bytes) list \<times> nat) res" where
  "meta_loop H payload 0 off seen pages = Ok (pages, off)"
| "meta_loop H payload (Suc n) off seen pages =
     and_then (ok_or (get_range payload off (off + 32)) (Truncated ''page_id'')) (\<lambda>pid.
     let off = off + 32 in
     and_then (read_u32 payload off) (\<lambda>plen.
     let page_len = unat plen; off = off + 4 in
     if page_len > PAGE_MAX_BYTES then Err (BadLength ''META page over 16KiB'') else
     and_then (ok_or (get_range payload off (off + page_len)) (Truncated ''META page bytes'')) (\<lambda>page.
     let off = off + page_len in
     if page_id H page \<noteq> pid then Err (DigestMismatch ''META page_id'') else
     if pid \<in> set seen then Err (Duplicate ''META page_id'') else
     meta_loop H payload n off (seen @ [pid]) (pages @ [(pid, page)]))))"

definition decode_meta :: "hash \<Rightarrow> bytes \<Rightarrow> meta_payload res" where
  "decode_meta H payload =
     (if length payload > META_MAX_RAW then Err (BadLength ''META raw payload over 1MiB'') else
      if length payload < 4 then Err (Truncated ''META header'') else
      and_then (read_u16 payload 0) (\<lambda>count.
      if \<not> (1 \<le> unat count \<and> unat count \<le> META_MAX_PAGES) then Err (BadLength ''META count must be 1..64'') else
      and_then (read_u16 payload 2) (\<lambda>reserved.
      if reserved \<noteq> 0 then Err (BadConstant ''META reserved'') else
      and_then (meta_loop H payload (unat count) 4 [] []) (\<lambda>(pages, off).
      if off \<noteq> length payload then Err (BadLength ''trailing bytes in META payload'') else
      Ok \<lparr>mp_pages = pages\<rparr>))))"

fun object_loop ::
  "hash \<Rightarrow> bytes \<Rightarrow> bytes \<Rightarrow> nat \<Rightarrow> nat \<Rightarrow> u32 \<Rightarrow> digest list \<Rightarrow> (digest \<times> bytes) list
    \<Rightarrow> ((digest \<times> bytes) list \<times> u32) res" where
  "object_loop H payload data 0 i expect_off seen objects = Ok (objects, expect_off)"
| "object_loop H payload data (Suc n) i expect_off seen objects =
     and_then (slice_of payload (4 + i * 40) (4 + (i + 1) * 40)) (\<lambda>t.
     and_then (slice_of t 0 32) (\<lambda>cid.
     and_then (read_u32 t 32) (\<lambda>object_len.
     and_then (read_u32 t 36) (\<lambda>data_offset.
     if object_len > OBJECT_MAX_LEN then Err (BadLength ''object over 256KiB'') else
     if data_offset \<noteq> expect_off
     then Err (BadOrdering ''OBJECT offsets must concatenate exactly (no holes or overlaps)'') else
     and_then (ok_or (checked_add32 expect_off object_len) (Overflow ''data end'')) (\<lambda>expect_off.
     if cid \<in> set seen then Err (Duplicate ''content_id'') else
     let seen = seen @ [cid]; start = unat data_offset; end' = start + unat object_len in
     and_then (ok_or (get_range data start end') (Truncated ''object data'')) (\<lambda>bs.
     if sha256 H [bs] \<noteq> cid then Err (DigestMismatch ''object content'') else
     object_loop H payload data n (i + 1) expect_off seen (objects @ [(cid, bs)])))))))"

definition decode_object :: "hash \<Rightarrow> bytes \<Rightarrow> object_payload res" where
  "decode_object H payload =
     (if length payload > OBJECT_MAX_RAW then Err (BadLength ''OBJECT raw payload over 1MiB'') else
      if length payload < 4 then Err (Truncated ''OBJECT header'') else
      and_then (read_u16 payload 0) (\<lambda>count.
      if \<not> (1 \<le> unat count \<and> unat count \<le> OBJECT_MAX_COUNT) then Err (BadLength ''OBJECT count must be 1..128'') else
      and_then (read_u16 payload 2) (\<lambda>reserved.
      if reserved \<noteq> 0 then Err (BadConstant ''OBJECT reserved'') else
      let table_len = unat count * 40 in
      and_then (ok_or (get_range payload (4 + table_len) (length payload)) (Truncated ''OBJECT data area'')) (\<lambda>data.
      and_then (object_loop H payload data (unat count) 0 0 [] []) (\<lambda>(objects, expect_off).
      if length data \<noteq> unat expect_off then Err (BadLength ''OBJECT data area length mismatch'') else
      Ok \<lparr>op_objects = objects\<rparr>)))))"

definition decode_chunk :: "bytes \<Rightarrow> u32 \<Rightarrow> chunk_payload res" where
  "decode_chunk payload raw_len =
     (if length payload < 76 then Err (Truncated ''CHUNK header'') else
      if unat raw_len \<noteq> length payload then Err (BadLength ''CHUNK raw_len mismatch'') else
      and_then (read_u32 payload 72) (\<lambda>chunk_len.
      if unat chunk_len \<noteq> length payload - 76 then Err (BadLength ''CHUNK chunk_len mismatch'') else
      if chunk_len > CHUNK_MAX_LEN then Err (BadLength ''chunk over 1MiB'') else
      and_then (slice_of payload 0 32) (\<lambda>map_id.
      and_then (slice_of payload 32 64) (\<lambda>file_content_id.
      and_then (read_u64 payload 64) (\<lambda>chunk_index.
      and_then (slice_of payload 76 (length payload)) (\<lambda>chunk_bytes.
      Ok \<lparr>cp_map_id = map_id, cp_file_content_id = file_content_id, cp_chunk_index = chunk_index,
          cp_chunk_bytes = chunk_bytes\<rparr>))))))"

definition decode_end :: "bytes \<Rightarrow> end_payload res" where
  "decode_end payload =
     (if length payload \<noteq> 48 then Err (BadLength ''END payload must be exactly 48 bytes'') else
      and_then (slice_of payload 16 48) (\<lambda>h.
      and_then (read_u32 payload 0) (\<lambda>request_item_count.
      and_then (read_u32 payload 4) (\<lambda>unique_unit_count.
      and_then (read_u64 payload 8) (\<lambda>logical_bytes.
      Ok \<lparr>ep_request_item_count = request_item_count, ep_unique_unit_count = unique_unit_count,
          ep_logical_bytes = logical_bytes, ep_request_body_sha256 = h\<rparr>)))))"

definition decode_error :: "bytes \<Rightarrow> error_payload res" where
  "decode_error payload =
     (if length payload > ERROR_MAX_BYTES then Err (BadLength ''ERROR payload over 4096 bytes'') else
      and_then (ok_or (from_utf8 payload) (BadConstant ''ERROR not UTF-8'')) parse_error_json)"

section \<open>What the encoders put into a frame\<close>

text \<open>The loops of the two \<open>raw_payload\<close> methods, and of \<open>encode\<close>, which also checks.\<close>

fun meta_raw_loop :: "(digest \<times> bytes) list \<Rightarrow> bytes \<Rightarrow> bytes" where
  "meta_raw_loop [] payload = payload"
| "meta_raw_loop ((pid, page) # rest) payload =
     meta_raw_loop rest (write_u32 (payload @ pid) (of_nat (length page)) @ page)"

definition meta_raw_payload :: "meta_payload \<Rightarrow> bytes res" where
  "meta_raw_payload p =
     (let payload = write_u16 [] (of_nat (length (mp_pages p)));
          payload = write_u16 payload 0
      in Ok (meta_raw_loop (mp_pages p) payload))"

fun meta_encode_loop :: "hash \<Rightarrow> (digest \<times> bytes) list \<Rightarrow> bytes \<Rightarrow> bytes res" where
  "meta_encode_loop H [] payload = Ok payload"
| "meta_encode_loop H ((pid, page) # rest) payload =
     (if page_id H page \<noteq> pid then Err (DigestMismatch ''META page_id'') else
      meta_encode_loop H rest (write_u32 (payload @ pid) (of_nat (length page)) @ page))"

definition meta_encode_payload :: "hash \<Rightarrow> meta_payload \<Rightarrow> bytes res" where
  "meta_encode_payload H p =
     (if mp_pages p = [] \<or> length (mp_pages p) > META_MAX_PAGES then Err (BadLength ''META count must be 1..64'') else
      let payload = write_u16 [] (of_nat (length (mp_pages p)));
          payload = write_u16 payload 0
      in and_then (meta_encode_loop H (mp_pages p) payload) (\<lambda>payload.
      if length payload > META_MAX_RAW then Err (BadLength ''META raw payload over 1MiB'') else Ok payload))"

fun object_raw_table :: "(digest \<times> bytes) list \<Rightarrow> u32 \<Rightarrow> bytes \<Rightarrow> bytes res" where
  "object_raw_table [] off payload = Ok payload"
| "object_raw_table ((cid, data) # rest) off payload =
     (let payload = write_u32 (write_u32 (payload @ cid) (of_nat (length data))) off in
      and_then (ok_or (checked_add32 off (of_nat (length data))) (Overflow ''offset'')) (\<lambda>off.
      object_raw_table rest off payload))"

fun object_data_loop :: "(digest \<times> bytes) list \<Rightarrow> bytes \<Rightarrow> bytes" where
  "object_data_loop [] payload = payload"
| "object_data_loop ((_, data) # rest) payload = object_data_loop rest (payload @ data)"

definition object_raw_payload :: "object_payload \<Rightarrow> bytes res" where
  "object_raw_payload p =
     (let payload = write_u16 [] (of_nat (length (op_objects p)));
          payload = write_u16 payload 0
      in and_then (object_raw_table (op_objects p) 0 payload) (\<lambda>payload.
      Ok (object_data_loop (op_objects p) payload)))"

fun object_encode_table :: "hash \<Rightarrow> (digest \<times> bytes) list \<Rightarrow> u32 \<Rightarrow> bytes \<Rightarrow> bytes res" where
  "object_encode_table H [] off payload = Ok payload"
| "object_encode_table H ((cid, data) # rest) off payload =
     (if sha256 H [data] \<noteq> cid then Err (DigestMismatch ''object content'') else
      if length data > unat OBJECT_MAX_LEN then Err (BadLength ''object over 256KiB'') else
      let payload = write_u32 (write_u32 (payload @ cid) (of_nat (length data))) off in
      and_then (ok_or (checked_add32 off (of_nat (length data))) (Overflow ''offset'')) (\<lambda>off.
      object_encode_table H rest off payload))"

definition object_encode_payload :: "hash \<Rightarrow> object_payload \<Rightarrow> bytes res" where
  "object_encode_payload H p =
     (if op_objects p = [] \<or> length (op_objects p) > OBJECT_MAX_COUNT then Err (BadLength ''OBJECT count must be 1..128'') else
      let payload = write_u16 [] (of_nat (length (op_objects p)));
          payload = write_u16 payload 0
      in and_then (object_encode_table H (op_objects p) 0 payload) (\<lambda>payload.
      let payload = object_data_loop (op_objects p) payload in
      if length payload > OBJECT_MAX_RAW then Err (BadLength ''OBJECT raw payload over 1MiB'') else Ok payload))"

definition chunk_raw_payload :: "chunk_payload \<Rightarrow> bytes" where
  "chunk_raw_payload p =
     (let payload = cp_map_id p;
          payload = payload @ cp_file_content_id p;
          payload = write_u64 payload (cp_chunk_index p);
          payload = write_u32 payload (of_nat (length (cp_chunk_bytes p)))
      in payload @ cp_chunk_bytes p)"

definition end_payload_bytes :: "end_payload \<Rightarrow> bytes" where
  "end_payload_bytes p =
     (let payload = write_u32 [] (ep_request_item_count p);
          payload = write_u32 payload (ep_unique_unit_count p);
          payload = write_u64 payload (ep_logical_bytes p)
      in payload @ ep_request_body_sha256 p)"

section \<open>Canonical payloads and well-formed values\<close>

definition page_row :: "digest \<times> bytes \<Rightarrow> bytes" where
  "page_row r = fst r @ le_bytes (of_nat (length (snd r)) :: u32) @ snd r"

definition meta_raw :: "meta_payload \<Rightarrow> bytes" where
  "meta_raw p = le_bytes (of_nat (length (mp_pages p)) :: u16) @ le_bytes (0 :: u16) @ concat (map page_row (mp_pages p))"

definition meta_wf :: "hash \<Rightarrow> meta_payload \<Rightarrow> bool" where
  "meta_wf H p \<longleftrightarrow> 1 \<le> length (mp_pages p) \<and> length (mp_pages p) \<le> 64 \<and> distinct (map fst (mp_pages p))
     \<and> list_all (\<lambda>(pid, page). length pid = 32 \<and> pid = page_id H page \<and> length page \<le> 16384) (mp_pages p)
     \<and> length (meta_raw p) \<le> 1048576"

fun object_rows :: "nat \<Rightarrow> (digest \<times> bytes) list \<Rightarrow> bytes" where
  "object_rows off [] = []"
| "object_rows off ((cid, data) # rest) =
     cid @ le_bytes (of_nat (length data) :: u32) @ le_bytes (of_nat off :: u32) @ object_rows (off + length data) rest"

definition object_raw :: "object_payload \<Rightarrow> bytes" where
  "object_raw p = le_bytes (of_nat (length (op_objects p)) :: u16) @ le_bytes (0 :: u16)
     @ object_rows 0 (op_objects p) @ concat (map snd (op_objects p))"

definition object_wf :: "hash \<Rightarrow> object_payload \<Rightarrow> bool" where
  "object_wf H p \<longleftrightarrow> 1 \<le> length (op_objects p) \<and> length (op_objects p) \<le> 128 \<and> distinct (map fst (op_objects p))
     \<and> list_all (\<lambda>(cid, data). length cid = 32 \<and> cid = sha256 H [data] \<and> length data \<le> 262144) (op_objects p)
     \<and> length (object_raw p) \<le> 1048576"

definition chunk_raw :: "chunk_payload \<Rightarrow> bytes" where
  "chunk_raw p = cp_map_id p @ cp_file_content_id p @ le_bytes (cp_chunk_index p)
     @ le_bytes (of_nat (length (cp_chunk_bytes p)) :: u32) @ cp_chunk_bytes p"

definition chunk_wf :: "chunk_payload \<Rightarrow> bool" where
  "chunk_wf p \<longleftrightarrow> length (cp_map_id p) = 32 \<and> length (cp_file_content_id p) = 32 \<and> length (cp_chunk_bytes p) \<le> 1048576"

definition end_raw :: "end_payload \<Rightarrow> bytes" where
  "end_raw p = le_bytes (ep_request_item_count p) @ le_bytes (ep_unique_unit_count p) @ le_bytes (ep_logical_bytes p)
     @ ep_request_body_sha256 p"

definition end_wf :: "end_payload \<Rightarrow> bool" where
  "end_wf p \<longleftrightarrow> length (ep_request_body_sha256 p) = 32"

lemma chunk_raw_payload_eq [simp]: "chunk_raw_payload p = chunk_raw p"
  by (simp add: chunk_raw_payload_def chunk_raw_def write_defs)

lemma end_payload_bytes_eq [simp]: "end_payload_bytes p = end_raw p"
  by (simp add: end_payload_bytes_def end_raw_def write_defs)

section \<open>The META codec\<close>

definition page_row_ok :: "hash \<Rightarrow> digest \<times> bytes \<Rightarrow> bool" where
  "page_row_ok H = (\<lambda>(pid, page). length pid = 32 \<and> pid = page_id H page \<and> length page \<le> 16384)"

lemma unat_u32_of_nat: "n < 2 ^ 32 \<Longrightarrow> unat (of_nat n :: u32) = n"
  by (simp add: unat_of_nat)

lemma unat_u16_of_nat: "n < 2 ^ 16 \<Longrightarrow> unat (of_nat n :: u16) = n"
  by (simp add: unat_of_nat)

lemma page_row_at:
  assumes "off \<le> length payload"
  shows "(\<exists>pid pl page. get_range payload off (off + 32) = Some pid \<and> read_u32 payload (off + 32) = Inr pl
      \<and> unat pl \<le> 16384 \<and> get_range payload (off + 32 + 4) (off + 32 + 4 + unat pl) = Some page
      \<and> P pid page (off + 32 + 4 + unat pl)) \<longleftrightarrow>
    (\<exists>pid page rest. drop off payload = page_row (pid, page) @ rest \<and> length pid = 32 \<and> length page \<le> 16384
      \<and> P pid page (off + length (page_row (pid, page))))" (is "?l \<longleftrightarrow> ?r")
proof
  assume ?l
  then obtain pl :: u32 where a: "off + 36 \<le> length payload" "sub (off + 32) 4 payload = le_bytes (pl :: u32)"
    "unat pl \<le> 16384" "off + 36 + unat pl \<le> length payload"
    "P (sub off 32 payload) (sub (off + 36) (unat pl) payload) (off + 36 + unat pl)"
    by (auto simp: get_range_eq_Some read_u32_eq_Ok add.assoc le_bytes_inject)
  have "drop off payload = sub off 32 payload @ sub (off + 32) 4 payload @ sub (off + 36) (unat pl) payload
      @ drop (off + 36 + unat pl) payload"
    using drop_sub [of off payload 32] drop_sub [of "off + 32" payload 4] drop_sub [of "off + 36" payload "unat pl"]
    by (simp add: add.assoc)
  with a show ?r
    by (intro exI [of _ "sub off 32 payload"] exI [of _ "sub (off + 36) (unat pl) payload"]
        exI [of _ "drop (off + 36 + unat pl) payload"]) (simp add: page_row_def add.assoc)
next
  assume ?r
  then obtain pid page rest where r: "drop off payload = pid @ le_bytes (of_nat (length page) :: u32) @ page @ rest"
    "length pid = 32" "length page \<le> 16384" "P pid page (off + length (page_row (pid, page)))"
    by (auto simp: page_row_def)
  then have u: "unat (of_nat (length page) :: u32) = length page" by (intro unat_u32_of_nat) simp
  from r(1) have "off + 32 \<le> length payload" "sub off 32 payload = pid"
    "drop (off + 32) payload = le_bytes (of_nat (length page) :: u32) @ page @ rest"
    using drop_append_iff [OF assms, of pid] r(2) by simp_all
  moreover from this have "off + 36 \<le> length payload" "sub (off + 32) 4 payload = le_bytes (of_nat (length page) :: u32)"
    "drop (off + 36) payload = page @ rest"
    using drop_append_iff [of "off + 32" payload "le_bytes (of_nat (length page) :: u32)"] by (simp_all add: ac_simps)
  moreover from this have "off + 36 + length page \<le> length payload" "sub (off + 36) (length page) payload = page"
    using drop_append_iff [of "off + 36" payload page] by simp_all
  ultimately show ?l
    using r u by (intro exI [of _ pid] exI [of _ "of_nat (length page)"] exI [of _ page])
      (simp add: get_range_def read_u32_eq_Ok page_row_def add.assoc)
qed

lemma meta_loop_step:
  assumes "off \<le> length payload"
  shows "meta_loop H payload (Suc n) off seen pages = Ok r \<longleftrightarrow>
    (\<exists>pid page rest. drop off payload = page_row (pid, page) @ rest \<and> page_row_ok H (pid, page) \<and> pid \<notin> set seen
      \<and> meta_loop H payload n (off + length (page_row (pid, page))) (seen @ [pid]) (pages @ [(pid, page)]) = Ok r)"
proof -
  have "meta_loop H payload (Suc n) off seen pages = Ok r \<longleftrightarrow>
    (\<exists>pid pl page. get_range payload off (off + 32) = Some pid \<and> read_u32 payload (off + 32) = Inr pl
      \<and> unat pl \<le> 16384 \<and> get_range payload (off + 32 + 4) (off + 32 + 4 + unat pl) = Some page
      \<and> (page_id H page = pid \<and> pid \<notin> set seen \<and>
        meta_loop H payload n (off + 32 + 4 + unat pl) (seen @ [pid]) (pages @ [(pid, page)]) = Ok r))"
    by (simp only: meta_loop.simps and_then_eq_Inr if_eq_Inr_Err ok_or_eq_Inr Let_def PAGE_MAX_BYTES_def not_less not_not)
      blast
  then show ?thesis
    unfolding page_row_at [OF assms, where P = "\<lambda>pid page off'. page_id H page = pid \<and> pid \<notin> set seen \<and>
        meta_loop H payload n off' (seen @ [pid]) (pages @ [(pid, page)]) = Ok r"]
    by (auto simp: page_row_ok_def)
qed

lemma meta_loop_Ok:
  "off \<le> length payload \<Longrightarrow> meta_loop H payload n off seen pages = Ok (r, off') \<longleftrightarrow>
    (\<exists>rows rest. length rows = n \<and> drop off payload = concat (map page_row rows) @ rest \<and> list_all (page_row_ok H) rows
      \<and> distinct (map fst rows) \<and> set (map fst rows) \<inter> set seen = {} \<and> r = pages @ rows
      \<and> off' = off + length (concat (map page_row rows)))"
proof (induction n arbitrary: off seen pages)
  case (Suc n)
  have ext: "off + length (page_row (pid, page)) \<le> length payload \<and> drop (off + length (page_row (pid, page))) payload = rest"
    if "drop off payload = page_row (pid, page) @ rest" for pid page rest
    using that drop_append_iff [OF Suc.prems] by blast
  show ?case (is "?l \<longleftrightarrow> ?r")
  proof
    assume ?l
    then obtain pid page rest where s: "drop off payload = page_row (pid, page) @ rest" "page_row_ok H (pid, page)" "pid \<notin> set seen"
      "meta_loop H payload n (off + length (page_row (pid, page))) (seen @ [pid]) (pages @ [(pid, page)]) = Ok (r, off')"
      unfolding meta_loop_step [OF Suc.prems] by blast
    note e = ext [OF s(1)]
    from s(4) obtain rows rest' where "length rows = n" "rest = concat (map page_row rows) @ rest'" "list_all (page_row_ok H) rows"
      "distinct (map fst rows)" "set (map fst rows) \<inter> set (seen @ [pid]) = {}" "r = (pages @ [(pid, page)]) @ rows"
      "off' = off + length (page_row (pid, page)) + length (concat (map page_row rows))"
      unfolding Suc.IH [OF e [THEN conjunct1]] e [THEN conjunct2] by blast
    with s show ?r by (intro exI [of _ "(pid, page) # rows"] exI [of _ rest']) auto
  next
    assume ?r
    then obtain rows rest where r: "length rows = Suc n" "drop off payload = concat (map page_row rows) @ rest"
      "list_all (page_row_ok H) rows" "distinct (map fst rows)" "set (map fst rows) \<inter> set seen = {}" "r = pages @ rows"
      "off' = off + length (concat (map page_row rows))" by blast
    obtain pid page rows' where rows: "rows = (pid, page) # rows'" using r(1) by (cases rows) auto
    have s: "drop off payload = page_row (pid, page) @ concat (map page_row rows') @ rest" using r(2) by (simp add: rows)
    note e = ext [OF s]
    have "meta_loop H payload n (off + length (page_row (pid, page))) (seen @ [pid]) (pages @ [(pid, page)]) = Ok (r, off')"
      unfolding Suc.IH [OF e [THEN conjunct1]] e [THEN conjunct2] using r unfolding rows
      by (intro exI [of _ rows'] exI [of _ rest]) auto
    with s r show ?l unfolding meta_loop_step [OF Suc.prems] by (auto simp: rows)
  qed
qed auto

lemma decode_meta_Ok: "decode_meta H payload = Ok p \<longleftrightarrow> meta_wf H p \<and> payload = meta_raw p"
proof -
  have "decode_meta H payload = Ok p \<longleftrightarrow> length payload \<le> 1048576 \<and> 4 \<le> length payload \<and>
      (\<exists>c. sub 0 2 payload = le_bytes (c :: u16) \<and> 1 \<le> unat c \<and> unat c \<le> 64 \<and> sub 2 2 payload = le_bytes (0 :: u16)
      \<and> (\<exists>rows. meta_loop H payload (unat c) 4 [] [] = Ok (rows, length payload) \<and> p = \<lparr>mp_pages = rows\<rparr>))"
    unfolding decode_meta_def
    by (auto simp: and_then_eq_Inr if_eq_Inr_Err read_u16_eq_Ok payload_limits not_less)
  also have "\<dots> \<longleftrightarrow> meta_wf H p \<and> payload = meta_raw p"
  proof
    assume a: "length payload \<le> 1048576 \<and> 4 \<le> length payload \<and>
      (\<exists>c. sub 0 2 payload = le_bytes (c :: u16) \<and> 1 \<le> unat c \<and> unat c \<le> 64 \<and> sub 2 2 payload = le_bytes (0 :: u16)
      \<and> (\<exists>rows. meta_loop H payload (unat c) 4 [] [] = Ok (rows, length payload) \<and> p = \<lparr>mp_pages = rows\<rparr>))"
    then obtain c rows where c: "sub 0 2 payload = le_bytes (c :: u16)" "1 \<le> unat c" "unat c \<le> 64"
      "sub 2 2 payload = le_bytes (0 :: u16)" and l: "meta_loop H payload (unat c) 4 [] [] = Ok (rows, length payload)"
      and p: "p = \<lparr>mp_pages = rows\<rparr>" by blast
    from a l obtain rest where r: "length rows = unat c" "drop 4 payload = concat (map page_row rows) @ rest"
      "list_all (page_row_ok H) rows" "distinct (map fst rows)" "length payload = 4 + length (concat (map page_row rows))"
      by (auto simp: meta_loop_Ok)
    have "rest = []" using arg_cong [OF r(2), of length] r(5) by simp
    moreover have "payload = sub 0 2 payload @ sub 2 2 payload @ drop 4 payload" by (rule head_words)
    moreover have "of_nat (length rows) = c" using r(1) by simp
    ultimately have "payload = meta_raw p" using c r(2) p by (simp add: meta_raw_def)
    with a c r p show "meta_wf H p \<and> payload = meta_raw p"
      by (auto simp: meta_wf_def page_row_ok_def)
  next
    assume w: "meta_wf H p \<and> payload = meta_raw p"
    let ?c = "of_nat (length (mp_pages p)) :: u16"
    have u: "unat ?c = length (mp_pages p)" using w by (intro unat_u16_of_nat) (simp add: meta_wf_def)
    have d: "drop 4 payload = concat (map page_row (mp_pages p)) @ []" "4 \<le> length payload"
      "length payload = 4 + length (concat (map page_row (mp_pages p)))"
      using w by (simp_all add: meta_raw_def)
    have "meta_loop H payload (length (mp_pages p)) 4 [] [] = Ok (mp_pages p, length payload)"
      unfolding meta_loop_Ok [OF d(2)] using w d
      by (intro exI [of _ "mp_pages p"] exI [of _ "[]"]) (auto simp: meta_wf_def page_row_ok_def)
    moreover have "sub 0 2 payload = le_bytes ?c" "sub 2 2 payload = le_bytes (0 :: u16)"
      using w by (simp_all add: meta_raw_def sub_def)
    ultimately show "length payload \<le> 1048576 \<and> 4 \<le> length payload \<and>
      (\<exists>c. sub 0 2 payload = le_bytes (c :: u16) \<and> 1 \<le> unat c \<and> unat c \<le> 64 \<and> sub 2 2 payload = le_bytes (0 :: u16)
      \<and> (\<exists>rows. meta_loop H payload (unat c) 4 [] [] = Ok (rows, length payload) \<and> p = \<lparr>mp_pages = rows\<rparr>))"
      using w d(2) u by (intro conjI exI [of _ ?c] exI [of _ "mp_pages p"]) (auto simp: meta_wf_def)
  qed
  finally show ?thesis .
qed

section \<open>The OBJECT codec\<close>

definition object_row_ok :: "hash \<Rightarrow> digest \<times> bytes \<Rightarrow> bool" where
  "object_row_ok H = (\<lambda>(cid, data). length cid = 32 \<and> cid = sha256 H [data] \<and> length data \<le> 262144)"

lemma object_row_okD:
  "object_row_ok H (cid, bs) \<Longrightarrow> length cid = 32" "object_row_ok H (cid, bs) \<Longrightarrow> length bs \<le> 262144"
  "object_row_ok H (cid, bs) \<Longrightarrow> cid = sha256 H [bs]"
  unfolding object_row_ok_def case_prod_conv by blast+

lemma unat_OBJECT_MAX_LEN [simp]: "unat OBJECT_MAX_LEN = 262144"
  by (simp add: OBJECT_MAX_LEN_def)

lemma object_loop_step:
  assumes "4 + (i + 1) * 40 \<le> length payload" "unat off \<le> length data" "length data < 2 ^ 32"
  shows "object_loop H payload data (Suc n) i off seen objs = Ok r \<longleftrightarrow>
    (\<exists>cid bs rest. sub (4 + i * 40) 40 payload = cid @ le_bytes (of_nat (length bs) :: u32) @ le_bytes off
      \<and> drop (unat off) data = bs @ rest \<and> object_row_ok H (cid, bs) \<and> cid \<notin> set seen
      \<and> object_loop H payload data n (i + 1) (off + of_nat (length bs)) (seen @ [cid]) (objs @ [(cid, bs)]) = Ok r)"
    (is "?l \<longleftrightarrow> ?r")
proof -
  let ?t = "sub (4 + i * 40) 40 payload"
  have t: "slice_of payload (4 + i * 40) (4 + (i + 1) * 40) = (Ok ?t :: bytes res)" "length ?t = 40"
    using assms(1) by (simp_all add: slice_of_def)
  have l: "?l \<longleftrightarrow> (\<exists>len. sub 32 4 ?t = le_bytes (len :: u32) \<and> sub 36 4 ?t = le_bytes off \<and> unat len \<le> 262144
      \<and> unat off + unat len \<le> length data \<and> sub 0 32 ?t \<notin> set seen
      \<and> sha256 H [sub (unat off) (unat len) data] = sub 0 32 ?t
      \<and> object_loop H payload data n (i + 1) (off + len) (seen @ [sub 0 32 ?t])
          (objs @ [(sub 0 32 ?t, sub (unat off) (unat len) data)]) = Ok r)" (is "_ \<longleftrightarrow> (\<exists>len. ?Q len)")
  proof -
    have "?l \<longleftrightarrow> (\<exists>len d e. sub 32 4 ?t = le_bytes (len :: u32) \<and> sub 36 4 ?t = le_bytes (d :: u32) \<and> unat len \<le> 262144 \<and> d = off
      \<and> (checked_add32 off len = Some e) \<and> sub 0 32 ?t \<notin> set seen
      \<and> unat d + unat len \<le> length data
      \<and> sha256 H [sub (unat d) (unat len) data] = sub 0 32 ?t
      \<and> object_loop H payload data n (i + 1) e (seen @ [sub 0 32 ?t])
          (objs @ [(sub 0 32 ?t, sub (unat d) (unat len) data)]) = Ok r)"
      using t(2) assms(1)
      by (simp add: t(1) and_then_eq_Inr if_eq_Inr_Err ok_or_eq_Inr Let_def slice_of_eq_Inr read_u32_eq_Ok
          get_range_eq_Some not_less word_le_nat_alt)
    also have "\<dots> \<longleftrightarrow> (\<exists>len. ?Q len)"
    proof
      assume "\<exists>len. ?Q len"
      then obtain len where q: "?Q len" by blast
      then have "checked_add32 off len = Some (off + len)" using assms(3) by (simp add: checked_add32_def)
      with q show "\<exists>len d e. sub 32 4 ?t = le_bytes (len :: u32) \<and> sub 36 4 ?t = le_bytes (d :: u32) \<and> unat len \<le> 262144 \<and> d = off
      \<and> (checked_add32 off len = Some e) \<and> sub 0 32 ?t \<notin> set seen
      \<and> unat d + unat len \<le> length data
      \<and> sha256 H [sub (unat d) (unat len) data] = sub 0 32 ?t
      \<and> object_loop H payload data n (i + 1) e (seen @ [sub 0 32 ?t])
          (objs @ [(sub 0 32 ?t, sub (unat d) (unat len) data)]) = Ok r" by blast
    qed (auto simp: checked_add32_def split: if_splits)
    finally show ?thesis .
  qed
  show ?thesis
    unfolding l
  proof
    assume "\<exists>len. ?Q len"
    then obtain len where q: "?Q len" by blast
    define bs where "bs = sub (unat off) (unat len) data"
    have "unat len \<le> length data - unat off" using q by linarith
    then have len: "of_nat (length bs) = len" by (simp add: bs_def min_absorb1)
    have "?t = sub 0 32 ?t @ sub 32 4 ?t @ sub 36 4 ?t"
      using t(2) drop_sub [of 0 ?t 32] drop_sub [of 32 ?t 4] by (simp add: sub_def)
    moreover have "drop (unat off) data = bs @ drop (unat off + unat len) data" unfolding bs_def by (rule drop_sub)
    ultimately show ?r
      using q len t(2) by (intro exI [of _ "sub 0 32 ?t"] exI [of _ bs] exI [of _ "drop (unat off + unat len) data"])
        (auto simp: object_row_ok_def bs_def)
  next
    assume ?r
    then obtain cid bs rest where r: "?t = cid @ le_bytes (of_nat (length bs) :: u32) @ le_bytes off"
      "drop (unat off) data = bs @ rest" "object_row_ok H (cid, bs)" "cid \<notin> set seen"
      "object_loop H payload data n (i + 1) (off + of_nat (length bs)) (seen @ [cid]) (objs @ [(cid, bs)]) = Ok r"
      by blast
    have c: "length cid = 32" "length bs \<le> 262144" "cid = sha256 H [bs]" using object_row_okD [OF r(3)] by blast+
    have u: "unat (of_nat (length bs) :: u32) = length bs" using c(2) by (intro unat_u32_of_nat) simp
    have s: "sub 0 32 ?t = cid" "sub 32 4 ?t = le_bytes (of_nat (length bs) :: u32)" "sub 36 4 ?t = le_bytes off"
      unfolding r(1) using c(1) by (simp_all add: sub_def)
    have b: "unat off + length bs \<le> length data" "sub (unat off) (length bs) data = bs"
      using drop_append_iff [OF assms(2), of bs rest] r(2) by simp_all
    show "\<exists>len. ?Q len"
      using r(4,5) c u b by (intro exI [of _ "of_nat (length bs)"]) (simp only: s u, simp)
  qed
qed

lemma object_loop_Ok:
  assumes "length data < 2 ^ 32"
  shows "4 + (i + n) * 40 \<le> length payload \<Longrightarrow> unat off \<le> length data \<Longrightarrow>
    object_loop H payload data n i off seen objs = Ok (r, off') \<longleftrightarrow>
    (\<exists>rows rest. length rows = n \<and> sub (4 + i * 40) (n * 40) payload = object_rows (unat off) rows
      \<and> drop (unat off) data = concat (map snd rows) @ rest \<and> list_all (object_row_ok H) rows
      \<and> distinct (map fst rows) \<and> set (map fst rows) \<inter> set seen = {} \<and> r = objs @ rows
      \<and> unat off' = unat off + length (concat (map snd rows)))"
proof (induction n arbitrary: i off seen objs)
  case 0
  then show ?case by (auto simp: word_unat_eq_iff)
next
  case (Suc n)
  have i1: "4 + (i + 1) * 40 \<le> length payload" and IHp: "4 + (i + 1 + n) * 40 \<le> length payload" using Suc.prems(1) by simp_all
  have ext: "unat (off + of_nat (length bs)) = unat off + length bs \<and> unat off + length bs \<le> length data
      \<and> drop (unat off + length bs) data = rest"
    if d: "drop (unat off) data = bs @ rest" for bs rest
  proof -
    have b: "unat off + length bs \<le> length data" "drop (unat off + length bs) data = rest"
      using drop_append_iff [OF Suc.prems(2), of bs rest] d by simp_all
    then have u: "unat (of_nat (length bs) :: u32) = length bs" using assms by (intro unat_u32_of_nat) simp
    have "unat (off + of_nat (length bs)) = unat off + length bs"
      using b assms u by (subst unat_add32) simp_all
    with b show ?thesis by simp
  qed
  have tab: "sub (4 + i * 40) (Suc n * 40) payload = x @ y \<longleftrightarrow>
      sub (4 + i * 40) 40 payload = x \<and> sub (4 + (i + 1) * 40) (n * 40) payload = y" if "length x = 40" for x y
  proof -
    have "sub (4 + i * 40) (Suc n * 40) payload = sub (4 + i * 40) 40 payload @ sub (4 + (i + 1) * 40) (n * 40) payload"
      using sub_join [of "4 + i * 40" 40 payload "n * 40"] by (simp add: algebra_simps)
    moreover have "length (sub (4 + i * 40) 40 payload) = length x" using i1 that by simp
    ultimately show ?thesis by simp
  qed
  show ?case (is "?l \<longleftrightarrow> ?r")
  proof
    assume ?l
    then obtain cid bs rest where s: "sub (4 + i * 40) 40 payload = cid @ le_bytes (of_nat (length bs) :: u32) @ le_bytes off"
      "drop (unat off) data = bs @ rest" "object_row_ok H (cid, bs)" "cid \<notin> set seen"
      "object_loop H payload data n (i + 1) (off + of_nat (length bs)) (seen @ [cid]) (objs @ [(cid, bs)]) = Ok (r, off')"
      unfolding object_loop_step [OF i1 Suc.prems(2) assms] by blast
    have u: "unat (off + of_nat (length bs)) \<le> length data" "unat (off + of_nat (length bs)) = unat off + length bs"
      "drop (unat off + length bs) data = rest" using ext [OF s(2)] by simp_all
    from s(5) obtain rows rest' where rs: "length rows = n" "sub (4 + (i + 1) * 40) (n * 40) payload = object_rows (unat off + length bs) rows"
      "rest = concat (map snd rows) @ rest'" "list_all (object_row_ok H) rows"
      "distinct (map fst rows)" "set (map fst rows) \<inter> set (seen @ [cid]) = {}" "r = (objs @ [(cid, bs)]) @ rows"
      "unat off' = unat off + length bs + length (concat (map snd rows))"
      unfolding Suc.IH [OF IHp u(1)] u(2,3) by blast
    have "length cid = 32" using s(3) by (rule object_row_okD)
    then have "sub (4 + i * 40) (Suc n * 40) payload = object_rows (unat off) ((cid, bs) # rows)"
      using tab [of "cid @ le_bytes (of_nat (length bs) :: u32) @ le_bytes off" "object_rows (unat off + length bs) rows"] s(1) rs(2)
      by simp
    with s rs show ?r by (intro exI [of _ "(cid, bs) # rows"] exI [of _ rest']) auto
  next
    assume ?r
    then obtain rows rest where rs: "length rows = Suc n" "sub (4 + i * 40) (Suc n * 40) payload = object_rows (unat off) rows"
      "drop (unat off) data = concat (map snd rows) @ rest" "list_all (object_row_ok H) rows"
      "distinct (map fst rows)" "set (map fst rows) \<inter> set seen = {}" "r = objs @ rows"
      "unat off' = unat off + length (concat (map snd rows))" by blast
    obtain cid bs rows' where rows: "rows = (cid, bs) # rows'" using rs(1) by (cases rows) auto
    have ok: "object_row_ok H (cid, bs)" using rs(4) by (simp add: rows)
    then have ok: "object_row_ok H (cid, bs)" "length cid = 32" by (blast intro: object_row_okD)+
    have d: "drop (unat off) data = bs @ concat (map snd rows') @ rest" using rs(3) by (simp add: rows)
    have u: "unat (off + of_nat (length bs)) \<le> length data" "unat (off + of_nat (length bs)) = unat off + length bs"
      "drop (unat off + length bs) data = concat (map snd rows') @ rest" using ext [OF d] by simp_all
    have t: "sub (4 + i * 40) 40 payload = cid @ le_bytes (of_nat (length bs) :: u32) @ le_bytes off"
      "sub (4 + (i + 1) * 40) (n * 40) payload = object_rows (unat off + length bs) rows'"
      using tab [of "cid @ le_bytes (of_nat (length bs) :: u32) @ le_bytes off" "object_rows (unat off + length bs) rows'"] rs(2) ok(2)
      by (simp_all add: rows)
    have "object_loop H payload data n (i + 1) (off + of_nat (length bs)) (seen @ [cid]) (objs @ [(cid, bs)]) = Ok (r, off')"
      unfolding Suc.IH [OF IHp u(1)] u(2,3) using rs t(2) unfolding rows
      by (intro exI [of _ rows'] exI [of _ rest]) auto
    with t(1) d ok rs show ?l
      unfolding object_loop_step [OF i1 Suc.prems(2) assms] rows by auto
  qed
qed

lemma length_object_rows: "list_all (object_row_ok H) rows \<Longrightarrow> length (object_rows off rows) = 40 * length rows"
  by (induction off rows rule: object_rows.induct) (auto simp: object_row_ok_def)

lemma object_wf_rows: "object_wf H p \<longleftrightarrow> 1 \<le> length (op_objects p) \<and> length (op_objects p) \<le> 128
    \<and> distinct (map fst (op_objects p)) \<and> list_all (object_row_ok H) (op_objects p) \<and> length (object_raw p) \<le> 1048576"
  by (simp add: object_wf_def object_row_ok_def)

lemma decode_object_Ok: "decode_object H payload = Ok p \<longleftrightarrow> object_wf H p \<and> payload = object_raw p"
proof -
  let ?R = "\<lambda>c rows off'. object_loop H payload (drop (4 + unat c * 40) payload) (unat c) 0 0 [] [] = Ok (rows, off')
      \<and> length payload = 4 + unat c * 40 + unat off' \<and> p = \<lparr>op_objects = rows\<rparr>"
  let ?D = "\<lambda>c :: u16. sub 0 2 payload = le_bytes c \<and> 1 \<le> unat c \<and> unat c \<le> 128
      \<and> sub 2 2 payload = le_bytes (0 :: u16) \<and> 4 + unat c * 40 \<le> length payload \<and> (\<exists>rows off'. ?R c rows off')"
  have s: "sub a (length payload - a) payload = drop a payload" for a by (simp add: sub_def)
  have "decode_object H payload = Ok p \<longleftrightarrow> length payload \<le> 1048576 \<and> 4 \<le> length payload \<and> (\<exists>c. ?D c)"
    unfolding decode_object_def
    by (auto simp: and_then_eq_Inr if_eq_Inr_Err read_u16_eq_Ok payload_limits not_less ok_or_eq_Inr Let_def
        get_range_eq_Some s)
  also have "\<dots> \<longleftrightarrow> object_wf H p \<and> payload = object_raw p"
  proof
    assume a: "length payload \<le> 1048576 \<and> 4 \<le> length payload \<and> (\<exists>c. ?D c)"
    then obtain c rows off' where c: "sub 0 2 payload = le_bytes (c :: u16)" "1 \<le> unat c" "unat c \<le> 128"
      "sub 2 2 payload = le_bytes (0 :: u16)" "4 + unat c * 40 \<le> length payload" and r: "?R c rows off'" by blast
    let ?d = "drop (4 + unat c * 40) payload"
    have "length payload \<le> 1048576" using a by blast
    then have l32: "length ?d < 2 ^ 32" by simp
    have p1: "4 + (0 + unat c) * 40 \<le> length payload" and p2: "unat (0 :: u32) \<le> length ?d" using c(5) by simp_all
    from r [THEN conjunct1, unfolded object_loop_Ok [OF l32 p1 p2]] obtain rest where
      rs: "length rows = unat c" "sub 4 (unat c * 40) payload = object_rows 0 rows"
      "?d = concat (map snd rows) @ rest" "list_all (object_row_ok H) rows"
      "distinct (map fst rows)" "unat off' = length (concat (map snd rows))" by auto
    have "rest = []" using arg_cong [OF rs(3), of length] r rs(6) by simp
    moreover have "payload = sub 0 2 payload @ sub 2 2 payload @ sub 4 (unat c * 40) payload @ ?d"
      using head_words [of payload] drop_sub [of 4 payload "unat c * 40"] by simp
    moreover have "of_nat (length rows) = c" using rs(1) by simp
    ultimately have "payload = object_raw p" using c rs r by (simp add: object_raw_def)
    with a c rs r show "object_wf H p \<and> payload = object_raw p" by (auto simp: object_wf_rows)
  next
    assume w: "object_wf H p \<and> payload = object_raw p"
    then have rows: "list_all (object_row_ok H) (op_objects p)" "length (op_objects p) \<le> 128" by (simp_all add: object_wf_rows)
    let ?c = "of_nat (length (op_objects p)) :: u16"
    let ?sum = "length (concat (map snd (op_objects p)))"
    have u: "unat ?c = length (op_objects p)" using rows(2) by (intro unat_u16_of_nat) simp
    have len: "length payload = 4 + length (op_objects p) * 40 + ?sum" "length payload \<le> 1048576"
      using w length_object_rows [OF rows(1), of 0] by (simp_all add: object_raw_def object_wf_rows)
    have d: "drop (4 + length (op_objects p) * 40) payload = concat (map snd (op_objects p))"
      "sub 4 (length (op_objects p) * 40) payload = object_rows 0 (op_objects p)"
      using w length_object_rows [OF rows(1), of 0] by (simp_all add: object_raw_def sub_def)
    have uo: "unat (of_nat ?sum :: u32) = ?sum" using len by (intro unat_u32_of_nat) simp
    have l32: "length (drop (4 + length (op_objects p) * 40) payload) < 2 ^ 32" using len(2) by simp
    have p1: "4 + (0 + length (op_objects p)) * 40 \<le> length payload"
      and p2: "unat (0 :: u32) \<le> length (drop (4 + length (op_objects p) * 40) payload)" using len by simp_all
    have "object_loop H payload (drop (4 + length (op_objects p) * 40) payload) (length (op_objects p)) 0 0 [] []
        = Ok (op_objects p, of_nat ?sum)"
      unfolding object_loop_Ok [OF l32 p1 p2] using w d rows uo
      by (intro exI [of _ "op_objects p"] exI [of _ "[]"]) (auto simp: object_wf_rows)
    moreover have "sub 0 2 payload = le_bytes ?c" "sub 2 2 payload = le_bytes (0 :: u16)"
      using w by (simp_all add: object_raw_def sub_def)
    ultimately have "?D ?c" using w len u uo by (intro conjI exI [of _ "op_objects p"] exI [of _ "of_nat ?sum"]) (auto simp: object_wf_rows)
    with len show "length payload \<le> 1048576 \<and> 4 \<le> length payload \<and> (\<exists>c. ?D c)" by auto
  qed
  finally show ?thesis .
qed

section \<open>The CHUNK and END codecs\<close>

lemma unat_CHUNK_MAX_LEN [simp]: "unat CHUNK_MAX_LEN = 1048576"
  by (simp add: CHUNK_MAX_LEN_def)

lemma decode_chunk_Ok:
  "decode_chunk payload raw_len = Ok p \<longleftrightarrow> chunk_wf p \<and> payload = chunk_raw p \<and> unat raw_len = length payload"
proof
  assume "decode_chunk payload raw_len = Ok p"
  then obtain l :: u32 and ix :: u64 where a: "76 \<le> length payload" "unat raw_len = length payload" "sub 72 4 payload = le_bytes l"
    "unat l = length payload - 76" "unat l \<le> 1048576" "sub 64 8 payload = le_bytes ix"
    "p = \<lparr>cp_map_id = sub 0 32 payload, cp_file_content_id = sub 32 32 payload, cp_chunk_index = ix,
      cp_chunk_bytes = sub 76 (length payload - 76) payload\<rparr>"
    by (auto simp: decode_chunk_def and_then_eq_Inr if_eq_Inr_Err read_u32_eq_Ok read_u64_eq_Ok slice_of_eq_Inr
        not_less word_le_nat_alt)
  have "payload = sub 0 32 payload @ sub 32 32 payload @ sub 64 8 payload @ sub 72 4 payload @ sub 76 (length payload - 76) payload"
    using a(1) by (simp add: sub_joinI)
  moreover have "of_nat (length payload - 76) = l" using a(4) by (metis of_nat_unat ucast_id)
  ultimately show "chunk_wf p \<and> payload = chunk_raw p \<and> unat raw_len = length payload"
    using a by (simp add: chunk_wf_def chunk_raw_def)
next
  assume w: "chunk_wf p \<and> payload = chunk_raw p \<and> unat raw_len = length payload"
  then have u: "unat (of_nat (length (cp_chunk_bytes p)) :: u32) = length (cp_chunk_bytes p)" "length payload = 76 + length (cp_chunk_bytes p)"
    by (auto simp: chunk_wf_def chunk_raw_def intro!: unat_u32_of_nat)
  have "sub 0 32 payload = cp_map_id p" "sub 32 32 payload = cp_file_content_id p" "sub 64 8 payload = le_bytes (cp_chunk_index p)"
    "sub 72 4 payload = le_bytes (of_nat (length (cp_chunk_bytes p)) :: u32)"
    "sub 76 (length payload - 76) payload = cp_chunk_bytes p"
    using w by (simp_all add: chunk_wf_def chunk_raw_def sub_def)
  with w u show "decode_chunk payload raw_len = Ok p"
    by (simp add: decode_chunk_def and_then_eq_Inr if_eq_Inr_Err read_u32_eq_Ok read_u64_eq_Ok slice_of_eq_Inr
        not_less word_le_nat_alt chunk_wf_def le_bytes_inject)
qed

lemma decode_end_Ok: "decode_end payload = Ok p \<longleftrightarrow> end_wf p \<and> payload = end_raw p"
proof
  assume "decode_end payload = Ok p"
  then obtain a :: u32 and b :: u32 and c :: u64 where a: "length payload = 48" "sub 0 4 payload = le_bytes a" "sub 4 4 payload = le_bytes b"
    "sub 8 8 payload = le_bytes c"
    "p = \<lparr>ep_request_item_count = a, ep_unique_unit_count = b, ep_logical_bytes = c, ep_request_body_sha256 = sub 16 32 payload\<rparr>"
    by (auto simp: decode_end_def and_then_eq_Inr if_eq_Inr_Err read_u32_eq_Ok read_u64_eq_Ok slice_of_eq_Inr)
  have "payload = sub 0 4 payload @ sub 4 4 payload @ sub 8 8 payload @ sub 16 32 payload"
    using a(1) by (simp add: sub_joinI)
  with a show "end_wf p \<and> payload = end_raw p" by (simp add: end_wf_def end_raw_def)
next
  assume w: "end_wf p \<and> payload = end_raw p"
  then have "length payload = 48" "sub 0 4 payload = le_bytes (ep_request_item_count p)"
    "sub 4 4 payload = le_bytes (ep_unique_unit_count p)" "sub 8 8 payload = le_bytes (ep_logical_bytes p)"
    "sub 16 32 payload = ep_request_body_sha256 p"
    by (simp_all add: end_wf_def end_raw_def sub_def)
  then show "decode_end payload = Ok p"
    by (simp add: decode_end_def and_then_eq_Inr if_eq_Inr_Err read_u32_eq_Ok read_u64_eq_Ok slice_of_eq_Inr le_bytes_inject)
qed

lemma decode_error_Ok:
  "decode_error payload = Ok e \<longleftrightarrow> length payload \<le> 4096 \<and> is_utf8 payload \<and> error_text payload e"
  by (auto simp: decode_error_def if_eq_Inr_Err and_then_eq_Inr ok_or_eq_Inr from_utf8_eq_Some payload_limits
      parse_error_json_grammar)

text \<open>The three codecs that depend on the bytes alone keep the contract of strict codecs.\<close>

interpretation meta_codec: strict_codec "\<lambda>p. Ok (meta_raw p)" "decode_meta H" "meta_wf H" for H
  by unfold_locales (auto simp: decode_meta_Ok)

interpretation object_codec: strict_codec "\<lambda>p. Ok (object_raw p)" "decode_object H" "object_wf H" for H
  by unfold_locales (auto simp: decode_object_Ok)

interpretation end_codec: strict_codec "\<lambda>p. Ok (end_raw p)" decode_end end_wf
  by unfold_locales (auto simp: decode_end_Ok)

section \<open>No payload makes a decoder panic\<close>

lemma clean_meta_loop [simp]: "clean (meta_loop H payload n off seen pages)"
  by (induction H payload n off seen pages rule: meta_loop.induct) (auto simp: Let_def intro!: clean_and_then)

lemma clean_decode_meta [simp]: "clean (decode_meta H payload)"
  by (auto simp: decode_meta_def intro!: clean_and_then)

lemma clean_object_loop:
  "4 + (i + n) * 40 \<le> length payload \<Longrightarrow> clean (object_loop H payload data n i off seen objs)"
  by (induction H payload data n i off seen objs rule: object_loop.induct)
    (auto simp: Let_def slice_of_eq_Inr intro!: clean_and_then clean_slice_of)

lemma clean_decode_object [simp]: "clean (decode_object H payload)"
  by (auto simp: decode_object_def Let_def get_range_eq_Some ok_or_eq_Inr intro!: clean_and_then clean_object_loop)

lemma clean_decode_chunk [simp]: "clean (decode_chunk payload raw_len)"
  by (auto simp: decode_chunk_def intro!: clean_and_then clean_slice_of)

lemma clean_decode_end [simp]: "clean (decode_end payload)"
  by (auto simp: decode_end_def intro!: clean_and_then clean_slice_of)

lemma clean_decode_error [simp]: "clean (decode_error payload)"
  by (auto simp: decode_error_def intro!: clean_and_then good_clean [OF parse_error_json_good])

section \<open>The encoders write the canonical payloads\<close>

lemma meta_raw_loop_eq: "meta_raw_loop rows payload = payload @ concat (map page_row rows)"
  by (induction rows payload rule: meta_raw_loop.induct) (simp_all add: page_row_def write_defs)

lemma meta_raw_payload_eq: "meta_raw_payload p = Ok (meta_raw p)"
  by (simp add: meta_raw_payload_def meta_raw_loop_eq meta_raw_def write_defs)

lemma meta_encode_loop_Ok:
  "meta_encode_loop H rows payload = Ok b \<longleftrightarrow>
     list_all (\<lambda>(pid, page). pid = page_id H page) rows \<and> b = payload @ concat (map page_row rows)"
  by (induction H rows payload rule: meta_encode_loop.induct) (auto simp: page_row_def write_defs)

definition meta_encodable :: "hash \<Rightarrow> meta_payload \<Rightarrow> bool" where
  "meta_encodable H p \<longleftrightarrow> 1 \<le> length (mp_pages p) \<and> length (mp_pages p) \<le> 64
     \<and> list_all (\<lambda>(pid, page). pid = page_id H page) (mp_pages p) \<and> length (meta_raw p) \<le> 1048576"

lemma meta_encode_payload_Ok: "meta_encode_payload H p = Ok b \<longleftrightarrow> meta_encodable H p \<and> b = meta_raw p"
  by (auto simp: meta_encode_payload_def if_eq_Inr_Err and_then_eq_Inr meta_encode_loop_Ok Let_def payload_limits
      meta_encodable_def meta_raw_def write_defs not_less Suc_le_eq)

lemma object_data_loop_eq: "object_data_loop rows payload = payload @ concat (map snd rows)"
  by (induction rows payload rule: object_data_loop.induct) simp_all

text \<open>The offsets stay below 4 GiB as long as the data does.\<close>

lemma object_raw_table_eq:
  "unat off + length (concat (map snd rows)) < 2 ^ 32 \<Longrightarrow>
     object_raw_table rows off payload = Ok (payload @ object_rows (unat off) rows)"
proof (induction rows off payload rule: object_raw_table.induct)
  case (2 cid data rest off payload)
  have u: "unat (of_nat (length data) :: u32) = length data" using "2.prems" by (intro unat_u32_of_nat) simp
  then have c: "checked_add32 off (of_nat (length data)) = Some (off + of_nat (length data))"
    using "2.prems" by (simp add: checked_add32_def)
  have s: "unat (off + of_nat (length data)) = unat off + length data"
    using "2.prems" u by (subst unat_add32) simp_all
  have "object_raw_table rest (off + of_nat (length data))
      (write_u32 (write_u32 (payload @ cid) (of_nat (length data))) off)
    = Ok (write_u32 (write_u32 (payload @ cid) (of_nat (length data))) off @ object_rows (unat (off + of_nat (length data))) rest)"
    using "2.prems" by (intro "2.IH" [OF refl]) (simp_all add: c s)
  then show ?case by (simp add: c s write_defs Let_def)
qed simp

lemma object_encode_table_Ok:
  "unat off + 262144 * length rows < 2 ^ 32 \<Longrightarrow>
     object_encode_table H rows off payload = Ok b \<longleftrightarrow>
       list_all (\<lambda>(cid, data). cid = sha256 H [data] \<and> length data \<le> 262144) rows
       \<and> b = payload @ object_rows (unat off) rows"
proof (induction H rows off payload rule: object_encode_table.induct)
  case (2 H cid data rest off payload)
  show ?case
  proof (cases "sha256 H [data] = cid \<and> length data \<le> 262144")
    case True
    then have u: "unat (of_nat (length data) :: u32) = length data" by (intro unat_u32_of_nat) simp
    then have c: "checked_add32 off (of_nat (length data)) = Some (off + of_nat (length data))"
      using "2.prems" True by (simp add: checked_add32_def)
    have s: "unat (off + of_nat (length data)) = unat off + length data"
      using "2.prems" u True by (subst unat_add32) simp_all
    define P where "P = write_u32 (write_u32 (payload @ cid) (of_nat (length data))) off"
    have "object_encode_table H rest (off + of_nat (length data)) P = Ok b \<longleftrightarrow>
        list_all (\<lambda>(cid, data). cid = sha256 H [data] \<and> length data \<le> 262144) rest \<and>
        b = P @ object_rows (unat (off + of_nat (length data))) rest"
      unfolding P_def using "2.prems" True by (intro "2.IH" [OF _ _ refl]) (simp_all add: c s ok_or_eq_Inr)
    with True show ?thesis by (simp add: c s Let_def P_def [symmetric]) (auto simp: P_def write_defs)
  next
    case False
    then show ?thesis by auto
  qed
qed auto

definition object_encodable :: "hash \<Rightarrow> object_payload \<Rightarrow> bool" where
  "object_encodable H p \<longleftrightarrow> 1 \<le> length (op_objects p) \<and> length (op_objects p) \<le> 128
     \<and> list_all (\<lambda>(cid, data). cid = sha256 H [data] \<and> length data \<le> 262144) (op_objects p)
     \<and> length (object_raw p) \<le> 1048576"

lemma object_encode_payload_Ok: "object_encode_payload H p = Ok b \<longleftrightarrow> object_encodable H p \<and> b = object_raw p"
proof (cases "op_objects p \<noteq> [] \<and> length (op_objects p) \<le> 128")
  case True
  then have "unat (0 :: u32) + 262144 * length (op_objects p) < 2 ^ 32" by simp
  from object_encode_table_Ok [OF this] True show ?thesis
    by (auto simp: object_encode_payload_def if_eq_Inr_Err and_then_eq_Inr Let_def payload_limits
        object_encodable_def object_raw_def object_data_loop_eq write_defs not_less Suc_le_eq)
next
  case False
  then show ?thesis by (auto simp: object_encode_payload_def object_encodable_def payload_limits)
qed

lemma object_raw_payload_eq:
  "length (concat (map snd (op_objects p))) < 2 ^ 32 \<Longrightarrow> object_raw_payload p = Ok (object_raw p)"
  by (simp add: object_raw_payload_def object_raw_table_eq object_data_loop_eq object_raw_def write_defs)

lemma object_encodable_raw_payload: "object_encodable H p \<Longrightarrow> object_raw_payload p = Ok (object_raw p)"
  by (rule object_raw_payload_eq) (simp add: object_encodable_def object_raw_def)

text \<open>What the decoder asks for beyond what the encoder checks: no identity twice, pages within the page
  limit, digests of 32 bytes (which SHA-256 has).\<close>

lemma meta_wf_encodable:
  "sha_ok H \<Longrightarrow> meta_wf H p \<longleftrightarrow> meta_encodable H p \<and> distinct (map fst (mp_pages p))
     \<and> list_all (\<lambda>(pid, page). length page \<le> 16384) (mp_pages p)"
  by (auto simp: meta_wf_def meta_encodable_def list_all_iff page_id_def)

lemma object_wf_encodable:
  "sha_ok H \<Longrightarrow> object_wf H p \<longleftrightarrow> object_encodable H p \<and> distinct (map fst (op_objects p))"
  by (auto simp: object_wf_def object_encodable_def list_all_iff)

lemma clean_encode_payloads [simp]: "clean (meta_encode_payload H p)" "clean (object_encode_payload H q)"
  "clean (object_raw_payload q)"
proof -
  have "clean (meta_encode_loop H rows b)" for rows b
    by (induction H rows b rule: meta_encode_loop.induct) auto
  then show "clean (meta_encode_payload H p)" by (auto simp: meta_encode_payload_def Let_def intro!: clean_and_then)
  have "clean (object_encode_table H rows off b)" for rows off b
    by (induction H rows off b rule: object_encode_table.induct) (auto simp: Let_def intro!: clean_and_then)
  then show "clean (object_encode_payload H q)" by (auto simp: object_encode_payload_def Let_def intro!: clean_and_then)
  have "clean (object_raw_table rows off b)" for rows off b
    by (induction rows off b rule: object_raw_table.induct) (auto simp: Let_def intro!: clean_and_then)
  then show "clean (object_raw_payload q)" by (auto simp: object_raw_payload_def Let_def intro!: clean_and_then)
qed

end
