(* ===== verification/Zstd1.thy ===== *)
theory Zstd1
  imports Codec_Lib
begin

text \<open>
  \<^verbatim>\<open>src/zstd1.rs\<close>: the header rules of the one zstd frame a payload may be, and its strict streaming
  decompression. The library itself (crates \<^verbatim>\<open>zstd\<close> and \<^verbatim>\<open>zstd-safe\<close>) is outside the repository: it is a
  record of functions over a decoder state of any type. What its interface documents is \<open>zstd_ok\<close>: a
  call of \<open>decompress_stream\<close> moves the positions of both buffers only forward and not past their ends,
  and leaves the size of the output buffer and the bytes already written alone. What it documents of the frames it
  writes itself is in \<open>Zstd_Library\<close>.

  The loop has no bound of its own. Its fuel is the number of wire bytes plus the advertised length plus
  one: every round but the last moves a position, so under \<open>zstd_ok\<close> the fuel never runs out.
\<close>

unbundle bit_operations_syntax

section \<open>The library\<close>

record 's zstd_lib =
  z_create :: 's
  z_window_log_max :: "u32 \<Rightarrow> 's \<Rightarrow> 's option"
  z_stream :: "'s \<Rightarrow> bytes \<Rightarrow> nat \<Rightarrow> bytes \<Rightarrow> nat \<Rightarrow> ('s \<times> nat \<times> bytes \<times> nat \<times> nat) option"
  z_compress :: "bytes \<Rightarrow> int \<Rightarrow> bytes option"

definition zstd_ok :: "'s zstd_lib \<Rightarrow> bool" where
  "zstd_ok Z \<longleftrightarrow> (\<forall>s wire ip out op s' ip' out' op' hint.
     z_stream Z s wire ip out op = Some (s', ip', out', op', hint) \<longrightarrow> ip \<le> length wire \<longrightarrow> op \<le> length out \<longrightarrow>
       ip \<le> ip' \<and> ip' \<le> length wire \<and> op \<le> op' \<and> op' \<le> length out \<and> length out' = length out
       \<and> take op out' = take op out)"

section \<open>Constants and operations\<close>

definition MAX_WINDOW_LOG :: u32 where "MAX_WINDOW_LOG = 23"
definition MAX_RAW_PAYLOAD :: nat where "MAX_RAW_PAYLOAD = 1048576 + 76"
definition ZSTD_MAGIC :: bytes where "ZSTD_MAGIC = [0x28, 0xB5, 0x2F, 0xFD]"

definition zstd_compress :: "'s zstd_lib \<Rightarrow> bytes \<Rightarrow> int \<Rightarrow> bytes res" where
  "zstd_compress Z payload level =
     ok_or (z_compress Z payload (min 19 (max 1 level))) (Unsupported ''zstd compression failed'')"

text \<open>The fold over \<open>bytes.iter().enumerate()\<close> that reads the content size.\<close>

fun size_fold :: "nat \<Rightarrow> u64 \<Rightarrow> bytes \<Rightarrow> u64" where
  "size_fold i acc [] = acc"
| "size_fold i acc (b # bs) = size_fold (i + 1) (acc OR push_bit (8 * i) (ucast b)) bs"

definition window_limit :: u64 where
  "window_limit = push_bit (unat MAX_WINDOW_LOG) 1"

definition check_window :: "bytes \<Rightarrow> nat \<Rightarrow> nat res" where
  "check_window wire offset =
     and_then (ok_or (get_at wire offset) (Truncated ''zstd window'')) (\<lambda>window.
     let offset = offset + 1;
         base = push_bit (10 + unat (drop_bit 3 window)) 1 :: u64
     in and_then (mul64 (drop_bit 3 base) (ucast (window AND 7))) (\<lambda>extra.
        and_then (add64 base extra) (\<lambda>window_bytes.
        if window_bytes > window_limit then Err (BadLength ''zstd window exceeds 8MiB'')
        else Ok offset)))"

definition check_content_size :: "bytes \<Rightarrow> nat \<Rightarrow> nat \<Rightarrow> bool \<Rightarrow> nat \<Rightarrow> unit res" where
  "check_content_size wire offset content_size_len single_segment raw_len =
     and_then (ok_or (get_range wire offset (offset + content_size_len)) (Truncated ''zstd content size''))
       (\<lambda>bs.
     and_then (if content_size_len = 2 then add64 (size_fold 0 0 bs) 256 else Ok (size_fold 0 0 bs)) (\<lambda>sz.
     if single_segment \<and> sz > window_limit then Err (BadLength ''zstd window exceeds 8MiB'') else
     if sz \<noteq> of_nat raw_len then Err (BadLength ''zstd content size differs from raw_len'') else
     Ok ()))"

definition validate_frame_header :: "bytes \<Rightarrow> nat \<Rightarrow> unit res" where
  "validate_frame_header wire raw_len =
     and_then (ok_or (get_at wire 4) (Truncated ''zstd header'')) (\<lambda>descriptor.
     if descriptor AND 0x08 \<noteq> 0 then Err (BadConstant ''zstd reserved header bit'') else
     let single_segment = (descriptor AND 0x20 \<noteq> 0);
         offset = 5
     in and_then (if \<not> single_segment then check_window wire offset else Ok offset) (\<lambda>offset.
     let dictionary_len =
           (if descriptor AND 3 = 0 then 0 else if descriptor AND 3 = 1 then 1
            else if descriptor AND 3 = 2 then 2 else 4)
     in and_then (ok_or (get_range wire offset (offset + dictionary_len)) (Truncated ''zstd dictionary ID''))
       (\<lambda>dictionary.
     if list_ex (\<lambda>byte. byte \<noteq> 0) dictionary then Err (Unsupported ''external zstd dictionary'') else
     let offset = offset + dictionary_len;
         content_size_len =
           (if drop_bit 6 descriptor = 0 then (if single_segment then 1 else 0)
            else if drop_bit 6 descriptor = 1 then 2 else if drop_bit 6 descriptor = 2 then 4 else 8)
     in if content_size_len \<noteq> 0
        then check_content_size wire offset content_size_len single_segment raw_len
        else Ok ())))"

fun stream_loop :: "'s zstd_lib \<Rightarrow> bytes \<Rightarrow> nat \<Rightarrow> nat \<Rightarrow> 's \<Rightarrow> nat \<Rightarrow> bytes \<Rightarrow> nat \<Rightarrow> (nat \<times> bytes \<times> nat) res" where
  "stream_loop Z wire raw_len 0 dctx ip out op = Inl Diverge"
| "stream_loop Z wire raw_len (Suc fuel) dctx ip out op =
     and_then (ok_or (z_stream Z dctx wire ip out op) (DigestMismatch ''zstd decompression failed''))
       (\<lambda>(dctx, ip', out', op', hint).
     if hint = 0 then Ok (ip', out', op') else
     if (ip, op) = (ip', op') then Err (Truncated ''zstd frame'') else
     if op' = raw_len then Err (BadLength ''zstd output exceeds header raw_len'') else
     stream_loop Z wire raw_len fuel dctx ip' out' op')"

definition stream_fuel :: "bytes \<Rightarrow> nat \<Rightarrow> nat" where
  "stream_fuel wire raw_len = length wire + raw_len + 1"

definition decompress_strict :: "'s zstd_lib \<Rightarrow> bytes \<Rightarrow> nat \<Rightarrow> bytes res" where
  "decompress_strict Z wire raw_len =
     (if raw_len > MAX_RAW_PAYLOAD then Err (BadLength ''zstd raw_len exceeds the spec 14 payload limit'') else
      if length wire < 4 \<or> take 4 wire \<noteq> ZSTD_MAGIC
      then Err (BadConstant ''zstd payload is not one standard frame'') else
      and_then (validate_frame_header wire raw_len) (\<lambda>_.
      and_then (ok_or (z_window_log_max Z MAX_WINDOW_LOG (z_create Z)) (Unsupported ''zstd window larger than 8MiB''))
        (\<lambda>dctx.
      and_then (stream_loop Z wire raw_len (stream_fuel wire raw_len) dctx 0 (replicate raw_len 0) 0)
        (\<lambda>(ip, out, op).
      if op \<noteq> raw_len then Err (BadLength ''zstd output shorter than header raw_len'') else
      if ip \<noteq> length wire
      then Err (BadOrdering ''trailing bytes/second frame after the single zstd frame'') else
      Ok out))))"

lemma length_ZSTD_MAGIC: "length ZSTD_MAGIC = 4"
  by (simp add: ZSTD_MAGIC_def)

section \<open>The header rules on numbers\<close>

definition window_size :: "u8 \<Rightarrow> nat" where
  "window_size w = 2 ^ (10 + unat w div 8) + 2 ^ (10 + unat w div 8) div 8 * (unat w mod 8)"

definition frame_header_ok :: "bytes \<Rightarrow> nat \<Rightarrow> bool" where
  "frame_header_ok wire raw_len \<longleftrightarrow> 5 \<le> length wire \<and>
     (let d = unat (wire ! 4);
          single = odd (d div 32);
          wlen = (if single then 0 else 1);
          dlen = (if d mod 4 = 3 then 4 else d mod 4);
          clen = (if d div 64 = 0 then (if single then 1 else 0) else 2 ^ (d div 64));
          size = from_le (sub (5 + wlen + dlen) clen wire) + (if clen = 2 then 256 else 0)
      in even (d div 8) \<and> 5 + wlen + dlen + clen \<le> length wire
         \<and> (single \<or> window_size (wire ! 5) \<le> 2 ^ 23)
         \<and> set (sub (5 + wlen) dlen wire) \<subseteq> {0}
         \<and> (clen = 0 \<or> size = raw_len \<and> (single \<longrightarrow> raw_len \<le> 2 ^ 23)))"

lemma word_bit_unat: "bit (w :: 'a::len word) n \<longleftrightarrow> odd (unat w div 2 ^ n)"
  by (simp add: bit_iff_odd [symmetric] bit_unsigned_iff)
lemma descriptor_fields:
  fixes d :: u8
  shows "d AND 0x08 = 0 \<longleftrightarrow> even (unat d div 8)" "d AND 0x20 = 0 \<longleftrightarrow> even (unat d div 32)"
    "unat (d AND 3) = unat d mod 4" "unat (d AND 7) = unat d mod 8" "unat (drop_bit 6 d) = unat d div 64"
    "unat (drop_bit 3 d) = unat d div 8"
proof -
  show "d AND 0x08 = 0 \<longleftrightarrow> even (unat d div 8)" "d AND 0x20 = 0 \<longleftrightarrow> even (unat d div 32)"
    using and_exp_eq_0_iff_not_bit [of d 3] and_exp_eq_0_iff_not_bit [of d 5] by (simp_all add: word_bit_unat)
  have "d AND 3 = take_bit 2 d" "d AND 7 = take_bit 3 d" by (simp_all add: take_bit_eq_mask mask_eq_exp_minus_1)
  then show "unat (d AND 3) = unat d mod 4" "unat (d AND 7) = unat d mod 8"
    by (simp_all only: unsigned_take_bit_eq) (simp_all add: take_bit_eq_mod)
  show "unat (drop_bit 6 d) = unat d div 64" "unat (drop_bit 3 d) = unat d div 8"
    by (simp_all add: drop_bit_eq_div unat_div_distrib)
qed

lemma or_add:
  assumes "unat (s :: u64) < 2 ^ k" "k \<le> 56"
  shows "unat (s OR push_bit k (ucast (b :: u8))) = unat s + unat b * 2 ^ k"
proof -
  have uc: "unat (ucast b :: u64) = unat b"
    using unat_u8_bound [of b] by (simp add: unsigned_ucast_eq take_bit_eq_mod)
  have "unat b < 256" using unat_u8_bound [of b] by simp
  then have "(unat b + 1) * 2 ^ k \<le> 256 * 2 ^ 56"
    by (intro mult_le_mono power_increasing assms(2)) simp_all
  then have bnd: "unat b * 2 ^ k + 2 ^ k \<le> 2 ^ 64" by simp
  then have bnd: "unat b * 2 ^ k + 2 ^ k \<le> 2 ^ 64" "unat b * 2 ^ k < 2 ^ 64"
    using zero_less_power [of "2::nat" k] by linarith+
  have p: "unat (push_bit k (ucast b) :: u64) = unat b * 2 ^ k"
    using bnd by (subst unsigned_push_bit_eq) (simp add: push_bit_eq_mult uc take_bit_eq_mod)
  have "s AND push_bit k (ucast b) = 0"
  proof (rule bit_word_eqI)
    fix n
    have "\<not> bit s n" if "k \<le> n"
    proof -
      have "(2::nat) ^ k \<le> 2 ^ n" using that by simp
      then have "unat s < 2 ^ n" using assms(1) by linarith
      then show ?thesis by (simp add: word_bit_unat)
    qed
    then show "bit (s AND push_bit k (ucast b)) n = bit (0 :: u64) n"
      by (auto simp: bit_and_iff bit_push_bit_iff)
  qed
  then have "s OR push_bit k (ucast b) = s + push_bit k (ucast b)"
    by (rule disjunctive_add_eq_or [symmetric])
  moreover have "unat s + unat (push_bit k (ucast b) :: u64) < 2 ^ 64" using p bnd assms(1) by linarith
  ultimately show ?thesis using p by (simp add: unat_add64)
qed

lemma size_fold_eq:
  "unat acc < 2 ^ (8 * i) \<Longrightarrow> i + length bs \<le> 8 \<Longrightarrow>
     unat (size_fold i acc bs) = unat acc + 2 ^ (8 * i) * from_le bs"
proof (induction i acc bs rule: size_fold.induct)
  case (2 i acc b bs)
  have u: "unat (acc OR push_bit (8 * i) (ucast b)) = unat acc + unat b * 2 ^ (8 * i)"
    using 2 by (intro or_add) auto
  have "unat b < 256" using unat_u8_bound [of b] by simp
  then have "(unat b + 1) * 2 ^ (8 * i) \<le> 256 * 2 ^ (8 * i)" by (intro mult_right_mono) simp_all
  then have "unat b * 2 ^ (8 * i) + 2 ^ (8 * i) \<le> 256 * 2 ^ (8 * i)" by (simp only: add_mult_distrib mult_1)
  moreover have "(2::nat) ^ (8 * (i + 1)) = 256 * 2 ^ (8 * i)" by (simp add: power_add)
  ultimately have "unat acc + unat b * 2 ^ (8 * i) < 2 ^ (8 * (i + 1))"
    using "2.prems"(1) by linarith
  with 2 u show ?case by (simp add: power_add algebra_simps)
qed simp

lemma check_window_eq:
  "check_window wire off = (if off < length wire
     then if window_size (wire ! off) \<le> 2 ^ 23 then Ok (off + 1) else Err (BadLength ''zstd window exceeds 8MiB'')
     else Err (Truncated ''zstd window''))"
proof (cases "off < length wire")
  case True
  define w where "w = wire ! off"
  define k where "k = 10 + unat (drop_bit 3 w)"
  define base where "base = (push_bit k 1 :: u64)"
  have k: "k = 10 + unat w div 8" "k \<le> 41"
    using unat_u8_bound [of w] by (simp_all add: k_def descriptor_fields)
  have "(2::nat) ^ k \<le> 2 ^ 41" using k(2) by (intro power_increasing) simp_all
  then have p: "(2::nat) ^ k \<le> 2199023255552" by simp
  have ub: "unat base = 2 ^ k"
    using p unfolding base_def by (subst unsigned_push_bit_eq) (simp add: push_bit_eq_mult take_bit_eq_mod)
  have ud: "unat (drop_bit 3 base) = 2 ^ k div 8"
    using ub by (simp add: drop_bit_eq_div unat_div_distrib)
  have um: "unat (ucast (w AND 7) :: u64) = unat w mod 8"
    by (simp add: unsigned_ucast_eq descriptor_fields take_bit_eq_mod)
  have m7: "2 ^ k div 8 * (unat w mod 8) \<le> 2 ^ k div 8 * (7::nat)" by (intro mult_le_mono2) simp
  moreover have "(2::nat) ^ k div 8 \<le> 274877906944" using div_le_mono [OF p, of 8] by simp
  ultimately have mb: "2 ^ k div 8 * (unat w mod 8) < (9223372036854775808 :: nat)" by linarith
  have mul: "mul64 (drop_bit 3 base) (ucast (w AND 7)) = (Ok (drop_bit 3 base * ucast (w AND 7)) :: u64 res)"
    using mb by (simp add: mul64_def ud um)
  have ue: "unat (drop_bit 3 base * ucast (w AND 7)) = 2 ^ k div 8 * (unat w mod 8)"
    using mb by (simp add: unat_mul64 ud um)
  have fit: "unat base + unat (drop_bit 3 base * ucast (w AND 7)) < 2 ^ 64" using mb p by (simp add: ub ue)
  have add: "add64 base (drop_bit 3 base * ucast (w AND 7)) = (Ok (base + drop_bit 3 base * ucast (w AND 7)) :: u64 res)"
    using fit by (simp add: add64_def)
  have uw: "unat (base + drop_bit 3 base * ucast (w AND 7)) = window_size w"
    using unat_add64 [OF fit] by (simp add: ub ue window_size_def k(1))
  have lim: "unat window_limit = 2 ^ 23"
    by (simp add: window_limit_def MAX_WINDOW_LOG_def push_bit_eq_mult)
  have "check_window wire off = and_then (mul64 (drop_bit 3 base) (ucast (w AND 7))) (\<lambda>extra.
      and_then (add64 base extra) (\<lambda>window_bytes.
        if window_bytes > window_limit then Err (BadLength ''zstd window exceeds 8MiB'') else Ok (off + 1)))"
    using True by (simp only: check_window_def get_at_def if_True ok_or_simps and_then_simps Let_def
        w_def k_def base_def)
  then show ?thesis
    using True uw lim by (simp add: mul add w_def [symmetric] word_less_nat_alt not_less)
qed (simp add: check_window_def get_at_def)

lemma check_content_size_Ok:
  assumes c: "clen \<in> {1, 2, 4, 8}" and raw: "raw_len < 2 ^ 64"
  shows "clean (check_content_size wire off clen single raw_len)"
    and "check_content_size wire off clen single raw_len = Inr u \<longleftrightarrow> off + clen \<le> length wire
      \<and> from_le (sub off clen wire) + (if clen = 2 then 256 else 0) = raw_len \<and> (single \<longrightarrow> raw_len \<le> 2 ^ 23)"
proof -
  let ?bs = "sub off clen wire"
  let ?size = "from_le ?bs + (if clen = 2 then 256 else 0)"
  have "clean (check_content_size wire off clen single raw_len) \<and>
    (check_content_size wire off clen single raw_len = Inr u \<longleftrightarrow> off + clen \<le> length wire
      \<and> ?size = raw_len \<and> (single \<longrightarrow> raw_len \<le> 2 ^ 23))"
  proof (cases "off + clen \<le> length wire")
    case True
    then have l: "length ?bs = clen" by simp
    have f: "unat (size_fold 0 0 ?bs) = from_le ?bs" using size_fold_eq [of 0 0 ?bs] l c by auto
    have b: "from_le ?bs < 256 ^ clen" using from_le_bound [of ?bs] l by simp
    have "(256 :: nat) ^ clen \<le> 256 ^ 8" using c by (intro power_increasing) auto
    then have s64: "?size < 2 ^ 64"
      using b by (cases "clen = 2") auto
    obtain sz where sz: "(if clen = 2 then add64 (size_fold 0 0 ?bs) 256 else Ok (size_fold 0 0 ?bs)) = (Ok sz :: u64 res)"
      "unat sz = ?size"
      using s64 f by (auto simp: add64_def unat_add64 split: if_splits)
    have lim: "unat window_limit = 2 ^ 23"
      by (simp add: window_limit_def MAX_WINDOW_LOG_def push_bit_eq_mult)
    have e: "sz = of_nat raw_len \<longleftrightarrow> ?size = raw_len"
      using sz(2) raw by (auto simp: word_unat_eq_iff unat_of_nat_u64)
    have g: "get_range wire off (off + clen) = Some ?bs" using True by (simp add: get_range_def)
    show ?thesis
      unfolding check_content_size_def g ok_or_simps and_then_simps sz(1)
      using True e sz(2) lim by (auto simp: word_less_nat_alt not_less)
  next
    case False
    then show ?thesis by (simp add: check_content_size_def get_range_def)
  qed
  then show "clean (check_content_size wire off clen single raw_len)"
    "check_content_size wire off clen single raw_len = Inr u \<longleftrightarrow> off + clen \<le> length wire
      \<and> ?size = raw_len \<and> (single \<longrightarrow> raw_len \<le> 2 ^ 23)"
    by blast+
qed

lemma clean_validate_frame_header:
  assumes "raw_len < 2 ^ 64"
  shows "clean (validate_frame_header wire raw_len)"
  unfolding validate_frame_header_def Let_def
  by (intro clean_and_then; simp add: check_window_eq check_content_size_Ok(1) [OF _ assms] split: if_splits)
    (auto simp: check_window_eq check_content_size_Ok(1) [OF _ assms] intro!: clean_and_then)

lemma list_ex_nonzero: "list_ex (\<lambda>b. b \<noteq> 0) xs \<longleftrightarrow> \<not> set xs \<subseteq> {0 :: u8}"
  by (auto simp: list_ex_iff)

lemma dictionary_len:
  fixes d :: u8
  shows "(if d AND 3 = 0 then 0 else if d AND 3 = 1 then 1 else if d AND 3 = 2 then 2 else 4)
    = (if unat d mod 4 = 3 then 4 else unat d mod 4)"
proof -
  have "unat d mod 4 < 4" by simp
  then have "unat d mod 4 \<in> {0, 1, 2, 3}" by auto
  then show ?thesis using descriptor_fields(3) [of d] by (auto simp: word_unat_eq_iff)
qed

lemma content_size_len:
  fixes d :: u8
  shows "(if drop_bit 6 d = 0 then (if single then 1 else 0) else if drop_bit 6 d = 1 then 2
      else if drop_bit 6 d = 2 then 4 else 8)
    = (if unat d div 64 = 0 then (if single then 1 else 0) else (2::nat) ^ (unat d div 64))"
proof -
  have "unat d div 64 < 4" using unat_u8_bound [of d] by simp
  then have "unat d div 64 \<in> {0, 1, 2, 3}" by auto
  then show ?thesis using descriptor_fields(5) [of d] by (auto simp: word_unat_eq_iff)
qed

lemma validate_frame_header_Ok:
  assumes raw: "raw_len < 2 ^ 64"
  shows "validate_frame_header wire raw_len = Inr u \<longleftrightarrow> frame_header_ok wire raw_len"
proof (cases "4 < length wire")
  case True
  define w where "w = wire ! 4"
  define single where "single = odd (unat w div 32)"
  define wlen where "wlen = (if single then 0 else 1 :: nat)"
  define dlen where "dlen = (if unat w mod 4 = 3 then 4 else unat w mod 4)"
  define clen where "clen = (if unat w div 64 = 0 then (if single then 1 else 0) else (2::nat) ^ (unat w div 64))"
  have "unat w div 64 < 4" using unat_u8_bound [of w] by simp
  then have "unat w div 64 \<in> {0, 1, 2, 3}" by auto
  then have cl: "clen \<in> {1, 2, 4, 8} \<or> clen = 0" by (auto simp: clen_def)
  have eq: "validate_frame_header wire raw_len =
     (if odd (unat w div 8) then Err (BadConstant ''zstd reserved header bit'') else
      and_then (if \<not> single then check_window wire 5 else Ok 5) (\<lambda>offset.
      and_then (ok_or (get_range wire offset (offset + dlen)) (Truncated ''zstd dictionary ID'')) (\<lambda>dictionary.
      if \<not> set dictionary \<subseteq> {0} then Err (Unsupported ''external zstd dictionary'') else
      if clen \<noteq> 0 then check_content_size wire (offset + dlen) clen single raw_len else Ok ())))"
    unfolding validate_frame_header_def Let_def get_at_def w_def [symmetric]
    using True by (simp only: if_True ok_or_simps and_then_simps dictionary_len content_size_len list_ex_nonzero
        descriptor_fields(1,2) not_not simp_thms clen_def dlen_def single_def)
  have win: "(if \<not> single then check_window wire 5 else Ok 5) = Inr off \<longleftrightarrow>
      off = 5 + wlen \<and> (single \<or> 5 < length wire \<and> window_size (wire ! 5) \<le> 2 ^ 23)" for off
    by (auto simp: wlen_def check_window_eq)
  have dic: "(\<exists>dict. ok_or (get_range wire off (off + dlen)) (Truncated ''zstd dictionary ID'') = Inr dict \<and> P dict)
      \<longleftrightarrow> off + dlen \<le> length wire \<and> P (sub off dlen wire)" for off P
    by (simp add: ok_or_eq_Inr get_range_eq_Some)
  have "validate_frame_header wire raw_len = Inr u \<longleftrightarrow> even (unat w div 8)
      \<and> (single \<or> 5 < length wire \<and> window_size (wire ! 5) \<le> 2 ^ 23)
      \<and> 5 + wlen + dlen \<le> length wire \<and> set (sub (5 + wlen) dlen wire) \<subseteq> {0}
      \<and> (clen = 0 \<or> check_content_size wire (5 + wlen + dlen) clen single raw_len = Inr u)"
    unfolding eq by (simp add: if_eq_Inr_Err and_then_eq_Inr win dic)
  also have "\<dots> \<longleftrightarrow> even (unat w div 8) \<and> 5 + wlen + dlen + clen \<le> length wire
      \<and> (single \<or> window_size (wire ! 5) \<le> 2 ^ 23) \<and> set (sub (5 + wlen) dlen wire) \<subseteq> {0}
      \<and> (clen = 0 \<or> from_le (sub (5 + wlen + dlen) clen wire) + (if clen = 2 then 256 else 0) = raw_len
        \<and> (single \<longrightarrow> raw_len \<le> 2 ^ 23))"
    using cl check_content_size_Ok(2) [OF _ raw, of clen wire "5 + wlen + dlen" single u]
    by (auto simp: wlen_def)
  also have "\<dots> \<longleftrightarrow> frame_header_ok wire raw_len"
    using True unfolding frame_header_ok_def Let_def w_def [symmetric] single_def [symmetric] wlen_def [symmetric]
      dlen_def [symmetric] clen_def [symmetric]
    by auto
  finally show ?thesis .
next
  case False
  then show ?thesis by (simp add: validate_frame_header_def get_at_def frame_header_ok_def)
qed

section \<open>The streaming loop\<close>

text \<open>A run of the library that reaches the end of the frame, every call but the last making progress and
  leaving room in the output.\<close>

inductive stream_run :: "'s zstd_lib \<Rightarrow> bytes \<Rightarrow> nat \<Rightarrow> 's \<Rightarrow> nat \<Rightarrow> bytes \<Rightarrow> nat \<Rightarrow> nat \<times> bytes \<times> nat \<Rightarrow> bool"
  for Z wire raw_len where
  frame_end: "z_stream Z s wire ip out op = Some (s', ip', out', op', 0) \<Longrightarrow>
    stream_run Z wire raw_len s ip out op (ip', out', op')"
| more: "z_stream Z s wire ip out op = Some (s', ip', out', op', hint) \<Longrightarrow> hint \<noteq> 0 \<Longrightarrow> (ip, op) \<noteq> (ip', op')
    \<Longrightarrow> op' \<noteq> raw_len \<Longrightarrow> stream_run Z wire raw_len s' ip' out' op' r
    \<Longrightarrow> stream_run Z wire raw_len s ip out op r"

inductive_cases stream_run_cases: "stream_run Z wire raw_len s ip out op r"

lemma stream_loop_sound:
  "stream_loop Z wire raw_len fuel s ip out op = Ok r \<Longrightarrow> stream_run Z wire raw_len s ip out op r"
proof (induction fuel arbitrary: s ip out op)
  case (Suc fuel)
  then obtain s' ip' out' op' hint where st: "z_stream Z s wire ip out op = Some (s', ip', out', op', hint)"
    by (auto simp: and_then_eq_Inr ok_or_eq_Inr)
  show ?case
  proof (cases "hint = 0")
    case True
    with Suc.prems st show ?thesis by (auto intro: stream_run.frame_end)
  next
    case False
    with Suc.prems st have "(ip, op) \<noteq> (ip', op')" "op' \<noteq> raw_len"
      "stream_loop Z wire raw_len fuel s' ip' out' op' = Ok r"
      by (auto split: if_splits)
    with st False show ?thesis by (intro stream_run.more [OF st]) (auto intro: Suc.IH)
  qed
qed simp

lemma zstd_okD:
  assumes "zstd_ok Z" "z_stream Z s wire ip out op = Some (s', ip', out', op', hint)" "ip \<le> length wire" "op \<le> length out"
  shows "ip \<le> ip'" "ip' \<le> length wire" "op \<le> op'" "op' \<le> length out" "length out' = length out"
    "take op out' = take op out"
  using assms unfolding zstd_ok_def by blast+

lemma stream_loop_total:
  assumes Z: "zstd_ok Z"
  shows "ip \<le> length wire \<Longrightarrow> op \<le> raw_len \<Longrightarrow> length out = raw_len
    \<Longrightarrow> (length wire - ip) + (raw_len - op) < fuel
    \<Longrightarrow> clean (stream_loop Z wire raw_len fuel s ip out op)
      \<and> (stream_run Z wire raw_len s ip out op r \<longrightarrow> stream_loop Z wire raw_len fuel s ip out op = Ok r)"
proof (induction fuel arbitrary: s ip out op)
  case (Suc fuel)
  show ?case
  proof (cases "z_stream Z s wire ip out op")
    case None
    then show ?thesis by (auto elim: stream_run_cases)
  next
    case (Some x)
    obtain s' ip' out' op' hint where x: "x = (s', ip', out', op', hint)" by (metis prod_cases5)
    note st = Some [unfolded x]
    note ok = zstd_okD [OF Z st Suc.prems(1)] 
    have b: "ip \<le> ip'" "ip' \<le> length wire" "op \<le> op'" "op' \<le> raw_len" "length out' = raw_len"
      using ok Suc.prems by simp_all
    show ?thesis
    proof (cases "hint = 0 \<or> (ip, op) = (ip', op') \<or> op' = raw_len")
      case True
      then show ?thesis using st by (auto elim: stream_run_cases)
    next
      case False
      then have "(length wire - ip') + (raw_len - op') < fuel" using b Suc.prems(4) by auto
      from Suc.IH [OF b(2,4,5) this] False st show ?thesis by (auto elim: stream_run_cases)
    qed
  qed
qed simp

lemma stream_run_length:
  assumes Z: "zstd_ok Z"
  shows "stream_run Z wire raw_len s ip out op (ip', out', op') \<Longrightarrow> ip \<le> length wire \<Longrightarrow> op \<le> length out
    \<Longrightarrow> length out' = length out"
proof (induction s ip out op "(ip', out', op')" rule: stream_run.induct)
  case (frame_end s ip out op s')
  then show ?case using zstd_okD(5) [OF Z] by blast
next
  case (more s ip out op s' ip1 out1 op1 hint)
  note ok = zstd_okD [OF Z more(1) more.prems]
  have "length out' = length out1" using more.hyps(6) ok by simp
  with ok show ?case by simp
qed

lemma stream_loop_fuel:
  assumes "zstd_ok Z"
  shows "clean (stream_loop Z wire raw_len (stream_fuel wire raw_len) s 0 (replicate raw_len 0) 0)"
    and "stream_loop Z wire raw_len (stream_fuel wire raw_len) s 0 (replicate raw_len 0) 0 = Ok r
      \<longleftrightarrow> stream_run Z wire raw_len s 0 (replicate raw_len 0) 0 r"
proof -
  have t: "clean (stream_loop Z wire raw_len (stream_fuel wire raw_len) s 0 (replicate raw_len 0) 0)
    \<and> (stream_run Z wire raw_len s 0 (replicate raw_len 0) 0 r \<longrightarrow>
      stream_loop Z wire raw_len (stream_fuel wire raw_len) s 0 (replicate raw_len 0) 0 = Ok r)" for r
    by (rule stream_loop_total [OF assms]) (simp_all add: stream_fuel_def)
  then show "clean (stream_loop Z wire raw_len (stream_fuel wire raw_len) s 0 (replicate raw_len 0) 0)" by blast
  from t show "stream_loop Z wire raw_len (stream_fuel wire raw_len) s 0 (replicate raw_len 0) 0 = Ok r
      \<longleftrightarrow> stream_run Z wire raw_len s 0 (replicate raw_len 0) 0 r"
    by (metis stream_loop_sound)
qed

section \<open>Decompression as a run of the library\<close>

lemma decompress_strict_Ok:
  assumes "zstd_ok Z"
  shows "decompress_strict Z wire raw_len = Ok out \<longleftrightarrow>
    raw_len \<le> MAX_RAW_PAYLOAD \<and> starts_with wire ZSTD_MAGIC \<and> frame_header_ok wire raw_len \<and> length out = raw_len
    \<and> (\<exists>s. z_window_log_max Z MAX_WINDOW_LOG (z_create Z) = Some s
      \<and> stream_run Z wire raw_len s 0 (replicate raw_len 0) 0 (length wire, out, raw_len))"
proof -
  have m: "length wire < 4 \<or> take 4 wire \<noteq> ZSTD_MAGIC \<longleftrightarrow> \<not> starts_with wire ZSTD_MAGIC"
    using arg_cong [of "take 4 wire" ZSTD_MAGIC length] by (auto simp: starts_with_def length_ZSTD_MAGIC)
  have len: "length out = raw_len" if "stream_run Z wire raw_len s 0 (replicate raw_len 0) 0 (ip, out, op)" for s ip out op
    using stream_run_length [OF assms that] by simp
  have h: "validate_frame_header wire raw_len = Ok u \<longleftrightarrow> frame_header_ok wire raw_len" if "raw_len \<le> MAX_RAW_PAYLOAD" for u
    using that by (intro validate_frame_header_Ok) (simp add: MAX_RAW_PAYLOAD_def)
  have "decompress_strict Z wire raw_len = Ok out \<longleftrightarrow>
    raw_len \<le> MAX_RAW_PAYLOAD \<and> starts_with wire ZSTD_MAGIC \<and> (\<exists>u. validate_frame_header wire raw_len = Ok u)
    \<and> (\<exists>s. z_window_log_max Z MAX_WINDOW_LOG (z_create Z) = Some s \<and>
      (\<exists>ip o' op. stream_run Z wire raw_len s 0 (replicate raw_len 0) 0 (ip, o', op) \<and>
        op = raw_len \<and> ip = length wire \<and> o' = out))"
    unfolding decompress_strict_def m
    by (simp only: if_eq_Inr_Err and_then_eq_Inr ok_or_eq_Inr split_paired_Ex case_prod_conv not_less not_not
        sum.inject stream_loop_fuel(2) [OF assms]) blast
  also have "\<dots> \<longleftrightarrow> raw_len \<le> MAX_RAW_PAYLOAD \<and> starts_with wire ZSTD_MAGIC \<and> frame_header_ok wire raw_len
    \<and> (\<exists>s. z_window_log_max Z MAX_WINDOW_LOG (z_create Z) = Some s
      \<and> stream_run Z wire raw_len s 0 (replicate raw_len 0) 0 (length wire, out, raw_len))"
    using h by auto
  finally show ?thesis using len by blast
qed

lemma clean_decompress_strict:
  assumes "zstd_ok Z"
  shows "clean (decompress_strict Z wire raw_len)"
proof -
  show ?thesis
    by (auto simp: decompress_strict_def MAX_RAW_PAYLOAD_def simp del: stream_loop.simps
        intro!: clean_and_then clean_validate_frame_header stream_loop_fuel(1) [OF assms])
qed

lemma length_decompress_strict: "zstd_ok Z \<Longrightarrow> decompress_strict Z wire raw_len = Ok out \<Longrightarrow> length out = raw_len"
  using decompress_strict_Ok by blast

section \<open>Properties\<close>

text \<open>C34. The header check accepts exactly the frame headers with a clear reserved bit, a window of at most
  8 MiB, no dictionary, and a content size field, where there is one, that equals the advertised
  length; none of its shifts and sums overflows.\<close>

theorem validate_frame_header_exact:
  assumes "raw_len < 2 ^ 64"
  shows "clean (validate_frame_header wire raw_len)
    \<and> (validate_frame_header wire raw_len = Ok () \<longleftrightarrow> frame_header_ok wire raw_len)"
  using clean_validate_frame_header [OF assms] validate_frame_header_Ok [OF assms] by blast

lemma validate_frame_header_exact_witness:
  "validate_frame_header (ZSTD_MAGIC @ [0x20, 3]) 3 = Ok ()"
proof -
  have "frame_header_ok (ZSTD_MAGIC @ [0x20, 3]) 3"
    by (simp add: frame_header_ok_def ZSTD_MAGIC_def sub_def)
  then show ?thesis using validate_frame_header_exact [of 3 "ZSTD_MAGIC @ [0x20, 3]"] by simp
qed

text \<open>C14. Decompression returns the output exactly when the length is within the limit, the bytes start
  with the frame magic and an acceptable header, and the library reaches the end of the frame having
  consumed every byte of the wire and filled every byte of the output; and the output then has the
  advertised length.\<close>

theorem decompress_strict_exact:
  assumes "zstd_ok Z"
  shows "decompress_strict Z wire raw_len = Ok out \<longleftrightarrow>
    raw_len \<le> MAX_RAW_PAYLOAD \<and> starts_with wire ZSTD_MAGIC \<and> frame_header_ok wire raw_len \<and> length out = raw_len
    \<and> (\<exists>s. z_window_log_max Z MAX_WINDOW_LOG (z_create Z) = Some s
      \<and> stream_run Z wire raw_len s 0 (replicate raw_len 0) 0 (length wire, out, raw_len))"
  by (rule decompress_strict_Ok [OF assms])

text \<open>C33. Decompression of arbitrary bytes under an arbitrary advertised length always returns a value or an
  error: the loop ends after at most one round per byte of input and output.\<close>

theorem decompress_strict_clean:
  assumes "zstd_ok Z"
  shows "clean (decompress_strict Z wire raw_len)"
  by (rule clean_decompress_strict [OF assms])

section \<open>A library that stores\<close>

text \<open>A concrete library for the examples: a frame is a single-segment header with a one-byte content size,
  followed by the content, and is decoded in one call.\<close>

definition stored_zstd :: "unit zstd_lib" where
  "stored_zstd = \<lparr>z_create = (), z_window_log_max = (\<lambda>_ s. Some s),
     z_stream = (\<lambda>s wire ip out op.
       let n = unat (wire ! 5) in
       if ip = 0 \<and> op = 0 \<and> 6 + n \<le> length wire \<and> n \<le> length out
       then Some (s, 6 + n, sub 6 n wire @ drop n out, n, 0) else None),
     z_compress = (\<lambda>p _. if length p < 256 then Some (ZSTD_MAGIC @ [0x20, of_nat (length p)] @ p) else None)\<rparr>"

lemma stored_zstd_ok: "zstd_ok stored_zstd"
  by (auto simp: zstd_ok_def stored_zstd_def Let_def split: if_splits)

lemma stored_header:
  "length p < 256 \<Longrightarrow> frame_header_ok (ZSTD_MAGIC @ [0x20, of_nat (length p)] @ p) (length p)"
  by (simp add: frame_header_ok_def ZSTD_MAGIC_def sub_def Let_def unat_of_nat_u8)

lemma stored_run:
  "length p < 256 \<Longrightarrow> stream_run stored_zstd (ZSTD_MAGIC @ [0x20, of_nat (length p)] @ p) (length p) s 0
     (replicate (length p) 0) 0 (length (ZSTD_MAGIC @ [0x20, of_nat (length p) :: u8] @ p), p, length p)"
  by (rule stream_run.frame_end [where s' = "()"]) (simp add: stored_zstd_def ZSTD_MAGIC_def Let_def sub_def unat_of_nat_u8)

lemma decompress_strict_exact_witness:
  "decompress_strict stored_zstd (ZSTD_MAGIC @ [0x20, of_nat (length [1, 2 :: u8])] @ [1, 2]) (length [1, 2 :: u8])
     = Ok [1, 2]"
  unfolding decompress_strict_exact [OF stored_zstd_ok]
proof (intro conjI exI)
  show "z_window_log_max stored_zstd MAX_WINDOW_LOG (z_create stored_zstd) = Some ()"
    by (simp add: stored_zstd_def)
qed (rule stored_run stored_header starts_with_append; simp | simp add: MAX_RAW_PAYLOAD_def)+

lemma decompress_strict_clean_witness: "clean (decompress_strict stored_zstd (ZSTD_MAGIC @ [0x20, 2, 1]) 2)"
  by (rule decompress_strict_clean [OF stored_zstd_ok])

end
