(* ===== verification/Zstd_Library.thy ===== *)
theory Zstd_Library
  imports Zstd1 "HOL-Library.Sublist"
begin

text \<open>
  What the documentation of libzstd says of the frames its compressor writes and of the calls that decode them, and
  what follows for \<^verbatim>\<open>src/zstd1.rs\<close>. The header of a frame is that of RFC 8878, written out here without the
  checks of the crate; the decoder is described call by call, without the crate's loop. The documentation of
  \<^verbatim>\<open>ZSTD_decompressStream\<close> leaves open whether the call that delivers the last byte of the content also ends
  the frame: a non-zero result with a full output may mean that only the end of the frame is unread. The crate's loop
  gives up then. So the outcome depends on \<open>ends_promptly\<close>, and both outcomes occur.
\<close>

section \<open>Frames of the compressor\<close>

text \<open>Magic number, frame header descriptor, window descriptor (absent in a single segment) and content size, of 1,
  2, 4 or 8 bytes; no dictionary identifier. The size is always there when a frame is written by one call. A window
  of at most 8 MiB has an exponent of at most 13.\<close>

definition size_fits :: "nat \<Rightarrow> nat \<Rightarrow> bool" where
  "size_fits flag n \<longleftrightarrow>
     (if flag = 0 then n < 256 else if flag = 1 then 256 \<le> n \<and> n < 256 + 2 ^ 16
      else if flag = 2 then n < 2 ^ 32 else flag = 3 \<and> n < 2 ^ 64)"

definition size_field :: "nat \<Rightarrow> nat \<Rightarrow> bytes" where
  "size_field flag n =
     (if flag = 0 then [of_nat n] else if flag = 1 then le_bytes (of_nat (n - 256) :: u16)
      else if flag = 2 then le_bytes (of_nat n :: u32) else le_bytes (of_nat n :: u64))"

definition standard_frame :: "bytes \<Rightarrow> nat \<Rightarrow> bool" where
  "standard_frame w n \<longleftrightarrow>
     (\<exists>flag single checksum expo mant blocks.
        size_fits flag n \<and> (flag = 0 \<longrightarrow> single) \<and> mant < 8 \<and> (expo < 13 \<or> expo = 13 \<and> mant = 0) \<and>
        w = le_bytes (0xFD2FB528 :: u32) @ [of_nat (64 * flag + 32 * of_bool single + 4 * of_bool checksum)]
          @ (if single then [] else [of_nat (8 * expo + mant)]) @ size_field flag n @ blocks)"

lemma size_field_length:
  "size_fits flag n \<Longrightarrow> length (size_field flag n) = 2 ^ flag"
  by (auto simp: size_fits_def size_field_def split: if_splits)

lemma size_field_value:
  assumes "size_fits flag n"
  shows "from_le (size_field flag n) + (if flag = 1 then 256 else 0) = n"
proof (cases "flag = 1")
  case True
  define k where "k = n - 256"
  with True assms have "n = k + 256" "k < 2 ^ 16" by (auto simp: size_fits_def)
  with True show ?thesis
    by (simp add: size_field_def k_def [symmetric] le_bytes_def from_le_to_le unat_of_nat take_bit_eq_mod)
next
  case False
  with assms show ?thesis
    by (auto simp: size_fits_def size_field_def le_bytes_def from_le_to_le unat_of_nat take_bit_eq_mod split: if_splits)
qed

lemma window_small:
  assumes "expo < 13 \<or> expo = 13 \<and> mant = 0" "mant < 8"
  shows "window_size (of_nat (8 * expo + mant)) \<le> 2 ^ 23"
proof -
  have "8 * expo + mant < 256" using assms by auto
  then have u: "unat (of_nat (8 * expo + mant) :: u8) = 8 * expo + mant"
    by (simp only: unat_of_nat_u8 mod_less)
  have d: "(8 * expo + mant) div 8 = expo" "(8 * expo + mant) mod 8 = mant" using assms(2) by simp_all
  have w: "window_size (of_nat (8 * expo + mant)) = 2 ^ (10 + expo) + 2 ^ (10 + expo) div 8 * mant"
    unfolding window_size_def u d ..
  show ?thesis
  proof (cases "expo = 13")
    case True
    with assms show ?thesis unfolding w by simp
  next
    case False
    then have p: "(2::nat) ^ (10 + expo) \<le> 2 ^ 22" using assms(1) by (intro power_increasing) auto
    have "2 ^ (10 + expo) div 8 * mant \<le> 2 ^ (10 + expo) div 8 * (8::nat)" using assms(2) by (intro mult_le_mono2) simp
    also have "\<dots> \<le> 2 ^ (10 + expo)" by simp
    finally show ?thesis unfolding w using p by simp
  qed
qed

lemma frame_magic: "le_bytes (0xFD2FB528 :: u32) = ZSTD_MAGIC"
proof -
  have four: "LENGTH(32) div 8 = Suc (Suc (Suc (Suc 0)))" by simp
  show ?thesis unfolding le_bytes_def four by (simp add: ZSTD_MAGIC_def)
qed

text \<open>The crate's header check accepts these frames.\<close>

lemma standard_frame_header:
  assumes "standard_frame w n" "n \<le> MAX_RAW_PAYLOAD"
  shows "starts_with w ZSTD_MAGIC \<and> frame_header_ok w n"
proof -
  obtain flag single checksum expo mant blocks where f: "size_fits flag n" "flag = 0 \<longrightarrow> single" "mant < 8"
    "expo < 13 \<or> expo = 13 \<and> mant = 0" and
    w: "w = le_bytes (0xFD2FB528 :: u32) @ [of_nat (64 * flag + 32 * of_bool single + 4 * of_bool checksum)]
          @ (if single then [] else [of_nat (8 * expo + mant)]) @ size_field flag n @ blocks"
    using assms(1) unfolding standard_frame_def by blast
  define d where "d = 64 * flag + 32 * of_bool single + 4 * (of_bool checksum :: nat)"
  define win where "win = (if single then [] else [of_nat (8 * expo + mant) :: u8])"
  have w': "w = ZSTD_MAGIC @ [of_nat d] @ win @ size_field flag n @ blocks" by (simp add: w frame_magic d_def win_def)
  have fl: "flag < 4" using f(1) by (auto simp: size_fits_def split: if_splits)
  have "flag \<in> {0, 1, 2, 3}" using fl by auto
  then have parts: "d < 256" "d div 64 = flag" "odd (d div 32) = single" "d mod 4 = 0" "even (d div 8)"
    by (elim insertE emptyE; cases single; cases checksum; simp add: d_def)+
  then have u: "unat (of_nat d :: u8) = d" by (simp only: unat_of_nat_u8 mod_less)
  have l: "length win = (if single then 0 else 1)" by (simp add: win_def)
  have sl: "length (size_field flag n) = 2 ^ flag" by (rule size_field_length [OF f(1)])
  have clen: "(if flag = 0 then if single then 1 else 0 else 2 ^ flag) = (2 :: nat) ^ flag" using f(2) by simp
  have two: "(2 :: nat) ^ flag = 2 \<longleftrightarrow> flag = 1" using power_inject_exp [of "2::nat" flag 1] by simp
  have at4: "w ! 4 = of_nat d" by (simp add: w' ZSTD_MAGIC_def)
  have at5: "w ! 5 = of_nat (8 * expo + mant)" if "\<not> single"
    using that by (simp add: w' ZSTD_MAGIC_def win_def del: of_nat_add)
  have win_ok: "single \<or> window_size (w ! 5) \<le> 2 ^ 23" using at5 window_small [OF f(4,3)] by metis
  have sub: "sub (5 + (if single then 0 else 1)) (2 ^ flag) w = size_field flag n"
    using l sl by (simp add: sub_def w' ZSTD_MAGIC_def win_def)
  have len: "5 + (if single then 0 else 1) + 2 ^ flag \<le> length w" using l sl by (simp add: w' ZSTD_MAGIC_def)
  have "n \<le> 2 ^ 23" using assms(2) by (simp add: MAX_RAW_PAYLOAD_def)
  then have "frame_header_ok w n"
    unfolding frame_header_ok_def Let_def at4 u parts clen two
    using len sub size_field_value [OF f(1)] win_ok parts(5) by (auto simp: sub_def)
  then show ?thesis by (simp add: w')
qed

section \<open>The calls of the decoder\<close>

text \<open>A session: a fresh context that takes windows of up to 8 MiB, an empty output, and calls that each present what the call before
  left unread and unwritten, until one of them reports the end of the frame.\<close>

inductive session :: "'s zstd_lib \<Rightarrow> bytes \<Rightarrow> nat \<Rightarrow> 's \<Rightarrow> nat \<Rightarrow> bytes \<Rightarrow> nat \<Rightarrow> bool" for Z wire n where
  fresh: "z_window_log_max Z 23 (z_create Z) = Some s \<Longrightarrow> session Z wire n s 0 (replicate n 0) 0"
| again: "session Z wire n s ip out op \<Longrightarrow> z_stream Z s wire ip out op = Some (s', ip', out', op', hint) \<Longrightarrow> hint \<noteq> 0
    \<Longrightarrow> session Z wire n s' ip' out' op'"

text \<open>A call in a session on the frame \<open>w\<close> of the content \<open>p\<close>, or on a part of it, or with other bytes behind it: it reads
  no further than the end of the frame, the bytes written are those of the content, and the result is zero exactly
  when the frame is completely read and its content completely written. With the whole frame and room for the whole
  content a call succeeds and, until the frame ends, moves.\<close>

definition decodes :: "'s zstd_lib \<Rightarrow> bytes \<Rightarrow> bytes \<Rightarrow> bool" where
  "decodes Z w p \<longleftrightarrow>
     (\<forall>wire n s ip out op. prefix wire w \<or> prefix w wire \<longrightarrow> session Z wire n s ip out op \<longrightarrow>
       (case z_stream Z s wire ip out op of
          None \<Rightarrow> \<not> (prefix w wire \<and> length p \<le> n)
        | Some (s', ip', out', op', hint) \<Rightarrow>
            ip' \<le> length w \<and> op' \<le> length p \<and> take op' out' = take op' p
            \<and> (hint = 0 \<longleftrightarrow> ip' = length w \<and> op' = length p)
            \<and> (hint \<noteq> 0 \<and> prefix w wire \<and> length p \<le> n \<longrightarrow> (ip, op) \<noteq> (ip', op'))))"

text \<open>The levels 1 to 19 write frames with a window of at most 8 MiB.\<close>

definition zstd_documented :: "'s zstd_lib \<Rightarrow> bool" where
  "zstd_documented Z \<longleftrightarrow> (\<exists>s. z_window_log_max Z 23 (z_create Z) = Some s) \<and>
     (\<forall>p level w. 1 \<le> level \<longrightarrow> level \<le> 19 \<longrightarrow> z_compress Z p level = Some w \<longrightarrow>
        standard_frame w (length p) \<and> decodes Z w p)"

text \<open>What is not documented: in the session on the whole frame with room for exactly the content, a call that fills
  the output ends the frame.\<close>

definition ends_promptly :: "'s zstd_lib \<Rightarrow> bytes \<Rightarrow> bytes \<Rightarrow> bool" where
  "ends_promptly Z w p \<longleftrightarrow>
     (\<forall>s ip out op s' ip' out' hint. session Z w (length p) s ip out op \<longrightarrow>
        z_stream Z s w ip out op = Some (s', ip', out', length p, hint) \<longrightarrow> hint = 0)"

lemma session_bounds:
  assumes "zstd_ok Z"
  shows "session Z wire n s ip out op \<Longrightarrow> ip \<le> length wire \<and> op \<le> n \<and> length out = n"
proof (induction rule: session.induct)
  case (again s ip out op s' ip' out' op' hint)
  then show ?case using zstd_okD [OF assms again.hyps(2)] by auto
qed simp

lemma decodesD:
  assumes "decodes Z w p" "prefix wire w \<or> prefix w wire" "session Z wire n s ip out op"
    "z_stream Z s wire ip out op = Some (s', ip', out', op', hint)"
  shows "ip' \<le> length w" "op' \<le> length p" "take op' out' = take op' p" "hint = 0 \<longleftrightarrow> ip' = length w \<and> op' = length p"
    "hint \<noteq> 0 \<Longrightarrow> prefix w wire \<Longrightarrow> length p \<le> n \<Longrightarrow> (ip, op) \<noteq> (ip', op')"
  using assms unfolding decodes_def by fastforce+

lemma decodes_Some:
  assumes "decodes Z w p" "session Z w (length p) s ip out op"
  obtains s' ip' out' op' hint where "z_stream Z s w ip out op = Some (s', ip', out', op', hint)"
proof (cases "z_stream Z s w ip out op")
  case None
  with assms show ?thesis unfolding decodes_def by fastforce
next
  case (Some x)
  with that show ?thesis by (cases x) blast
qed

section \<open>The crate's loop on such a frame\<close>

text \<open>The loop follows the session. It ends at the end of the frame with the content, or it gives up after a call that
  has filled the output without ending the frame.\<close>

lemma stream_loop_outcome:
  assumes Z: "zstd_ok Z" and D: "decodes Z w p"
  shows "session Z w (length p) s ip out op \<Longrightarrow> ip \<le> length w \<Longrightarrow> (length w - ip) + (length p - op) < fuel \<Longrightarrow>
    stream_loop Z w (length p) fuel s ip out op = Ok (length w, p, length p) \<or>
    stream_loop Z w (length p) fuel s ip out op = Err (BadLength ''zstd output exceeds header raw_len'') \<and> \<not> ends_promptly Z w p"
proof (induction fuel arbitrary: s ip out op)
  case (Suc fuel)
  obtain s' ip' out' op' hint where st: "z_stream Z s w ip out op = Some (s', ip', out', op', hint)"
    by (rule decodes_Some [OF D Suc.prems(1)])
  note b = session_bounds [OF Z Suc.prems(1)]
  have ok: "ip \<le> ip'" "op \<le> op'" "op' \<le> length p" "length out' = length p"
    using zstd_okD [OF Z st] b by auto
  note d = decodesD [OF D _ Suc.prems(1) st, simplified]
  show ?case
  proof (cases "hint = 0")
    case True
    with d ok st show ?thesis by auto
  next
    case False
    have step: "session Z w (length p) s' ip' out' op'" by (rule again [OF Suc.prems(1) st False])
    show ?thesis
    proof (cases "op' = length p")
      case True
      then have "\<not> ends_promptly Z w p" using Suc.prems(1) st False unfolding ends_promptly_def by blast
      with True False d(5) st show ?thesis by auto
    next
      case more: False
      have "(length w - ip') + (length p - op') < fuel"
        using Suc.prems(3) ok d(1,5) False by (cases "ip = ip'") auto
      from Suc.IH [OF step d(1) this] False more d(5) st show ?thesis by auto
    qed
  qed
qed simp

text \<open>A session passes through the calls of the run that ends the frame, and no call of that run but the last fills
  the output.\<close>

lemma run_is_prompt:
  assumes "z_window_log_max Z 23 (z_create Z) = Some s0" "stream_run Z w (length p) s0 0 (replicate (length p) 0) 0 r"
  shows "ends_promptly Z w p"
proof -
  have run: "stream_run Z w (length p) s ip out op r" if "session Z w (length p) s ip out op" for s ip out op
    using that
  proof (induction rule: session.induct)
    case (fresh s)
    with assms show ?case by simp
  next
    case (again s ip out op s' ip' out' op' hint)
    from again.IH show ?case by (rule stream_run_cases) (use again.hyps in auto)
  qed
  have "hint = 0" if "session Z w (length p) s ip out op" "z_stream Z s w ip out op = Some (s', ip', out', length p, hint)"
    for s ip out op s' ip' out' hint
    using run [OF that(1)] by (rule stream_run_cases) (use that(2) in auto)
  then show ?thesis unfolding ends_promptly_def by blast
qed

text \<open>The last call of a run on any bytes that agree with the frame as far as they go.\<close>

lemma run_of_frame:
  assumes "decodes Z w p" "prefix wire w \<or> prefix w wire"
  shows "stream_run Z wire n s ip out op (ip', out', op') \<Longrightarrow> session Z wire n s ip out op \<Longrightarrow>
    ip' = length w \<and> op' = length p \<and> take op' out' = p"
proof (induction s ip out op "(ip', out', op')" rule: stream_run.induct)
  case (frame_end s ip out op s')
  from decodesD(3,4) [OF assms frame_end.prems frame_end.hyps] show ?case by simp
next
  case (more s ip out op s' ip1 out1 op1 hint)
  then show ?case by (blast intro: again)
qed

theorem decompress_frame:
  assumes Z: "zstd_ok Z" and S: "z_window_log_max Z 23 (z_create Z) = Some s0"
    and F: "standard_frame w (length p)" "decodes Z w p" and len: "length p \<le> MAX_RAW_PAYLOAD"
  shows "decompress_strict Z w (length p) =
    (if ends_promptly Z w p then Ok p else Err (BadLength ''zstd output exceeds header raw_len''))"
proof -
  have h: "starts_with w ZSTD_MAGIC" "frame_header_ok w (length p)"
    using standard_frame_header [OF F(1) len] by simp_all
  have v: "validate_frame_header w (length p) = Ok ()"
    using h(2) len by (subst validate_frame_header_Ok) (simp_all add: MAX_RAW_PAYLOAD_def)
  have m: "\<not> (length w < 4 \<or> take 4 w \<noteq> ZSTD_MAGIC)"
    using h(1) arg_cong [of "take 4 w" ZSTD_MAGIC length] by (auto simp: starts_with_def length_ZSTD_MAGIC)
  let ?loop = "stream_loop Z w (length p) (stream_fuel w (length p)) s0 0 (replicate (length p) 0) 0"
  have d: "decompress_strict Z w (length p) = and_then ?loop (\<lambda>(ip, out, op).
      if op \<noteq> length p then Err (BadLength ''zstd output shorter than header raw_len'') else
      if ip \<noteq> length w then Err (BadOrdering ''trailing bytes/second frame after the single zstd frame'') else Ok out)"
    using len m v S by (simp add: decompress_strict_def MAX_WINDOW_LOG_def del: stream_loop.simps)
  have out: "?loop = Ok (length w, p, length p) \<or>
      ?loop = Err (BadLength ''zstd output exceeds header raw_len'') \<and> \<not> ends_promptly Z w p"
    by (rule stream_loop_outcome [OF Z F(2) fresh [OF S]]) (simp_all add: stream_fuel_def)
  have "ends_promptly Z w p" if "?loop = Ok (length w, p, length p)"
    by (rule run_is_prompt [OF S stream_loop_sound [OF that]])
  with out show ?thesis unfolding d by auto
qed

text \<open>Nothing but the frame itself, under the length of its content, is taken for it.\<close>

theorem decompress_only_frame:
  assumes Z: "zstd_ok Z" and D: "decodes Z w p" and pre: "prefix wire w \<or> prefix w wire"
    and ok: "decompress_strict Z wire n = Ok out"
  shows "wire = w \<and> n = length p \<and> out = p"
proof -
  obtain s where s: "z_window_log_max Z 23 (z_create Z) = Some s" "length out = n"
    "stream_run Z wire n s 0 (replicate n 0) 0 (length wire, out, n)"
    using ok unfolding decompress_strict_Ok [OF Z] by (auto simp: MAX_WINDOW_LOG_def)
  from run_of_frame [OF D pre s(3) fresh [OF s(1)]] s(2) have "length wire = length w" "n = length p" "out = p" by auto
  with pre show ?thesis by (auto simp: prefix_def)
qed

lemma compressed_frame:
  assumes "zstd_documented Z" "zstd_compress Z payload level = Ok wire"
  shows "standard_frame wire (length payload)" "decodes Z wire payload"
proof -
  have "z_compress Z payload (min 19 (max 1 level)) = Some wire"
    using assms(2) by (simp add: zstd_compress_def ok_or_eq_Inr)
  moreover have "1 \<le> min 19 (max 1 level)" "min 19 (max 1 level) \<le> 19" by simp_all
  ultimately show "standard_frame wire (length payload)" "decodes Z wire payload"
    using assms(1) unfolding zstd_documented_def by blast+
qed

lemma decompress_zstd_compress:
  assumes "zstd_ok Z" "zstd_documented Z" "zstd_compress Z payload level = Ok wire" "length payload \<le> MAX_RAW_PAYLOAD"
  shows "decompress_strict Z wire (length payload) =
    (if ends_promptly Z wire payload then Ok payload else Err (BadLength ''zstd output exceeds header raw_len''))"
proof -
  obtain s0 where "z_window_log_max Z 23 (z_create Z) = Some s0" using assms(2) by (auto simp: zstd_documented_def)
  from decompress_frame [OF assms(1) this compressed_frame [OF assms(2,3)] assms(4)] show ?thesis .
qed

section \<open>Two libraries\<close>

text \<open>The library that stores decodes a frame in one call. This one writes an end mark behind the content and, when it
  decodes, delivers the content in one call and reads the mark in the next.\<close>

definition slow_zstd :: "unit zstd_lib" where
  "slow_zstd = \<lparr>z_create = (), z_window_log_max = (\<lambda>_ s. Some s),
     z_stream = (\<lambda>s wire ip out op.
       let n = unat (wire ! 5) in
       if ip = 0 \<and> op = 0 \<and> 6 + n \<le> length wire \<and> n \<le> length out
       then Some (s, 6 + n, sub 6 n wire @ drop n out, n, 1)
       else if 6 \<le> ip \<and> ip = 6 + n \<and> ip < length wire then Some (s, ip + 1, out, op, 0)
       else None),
     z_compress = (\<lambda>p _. if length p < 256 then Some (ZSTD_MAGIC @ [0x20, of_nat (length p)] @ p @ [0]) else None)\<rparr>"

lemma slow_zstd_ok [simp]: "zstd_ok slow_zstd"
  by (auto simp: zstd_ok_def slow_zstd_def Let_def split: if_splits)

lemma stored_frame:
  "length p < 256 \<Longrightarrow> standard_frame (ZSTD_MAGIC @ [0x20, of_nat (length p)] @ p @ t) (length p)"
proof -
  assume l: "length p < 256"
  show ?thesis
    unfolding standard_frame_def
    by (rule exI [of _ 0], rule exI [of _ True], rule exI [of _ False], rule exI [of _ 0], rule exI [of _ 0],
        rule exI [of _ "p @ t"]) (use l in \<open>simp add: frame_magic size_fits_def size_field_def\<close>)
qed

lemma prefix_nth: "prefix a b \<or> prefix b a \<Longrightarrow> i < length a \<Longrightarrow> i < length b \<Longrightarrow> a ! i = b ! i"
  by (auto simp: prefix_def nth_append)

text \<open>Size and content of such a frame, seen on any bytes that agree with it.\<close>

lemma stored_parts:
  assumes "length p < 256" "prefix wire (ZSTD_MAGIC @ [0x20, of_nat (length p)] @ p @ t) \<or> prefix (ZSTD_MAGIC @ [0x20, of_nat (length p)] @ p @ t) wire"
  shows "6 \<le> length wire \<Longrightarrow> unat (wire ! 5) = length p" "6 + length p \<le> length wire \<Longrightarrow> sub 6 (length p) wire = p"
proof -
  let ?w = "ZSTD_MAGIC @ [0x20, of_nat (length p)] @ p @ t"
  have at: "wire ! i = ?w ! i" if "i < length wire" "i < length ?w" for i
    using prefix_nth [OF assms(2) that] .
  show "unat (wire ! 5) = length p" if "6 \<le> length wire"
    using at [of 5] that assms(1) by (simp add: ZSTD_MAGIC_def unat_of_nat_u8)
  show "sub 6 (length p) wire = p" if "6 + length p \<le> length wire"
  proof (rule nth_equalityI)
    show "length (sub 6 (length p) wire) = length p" using that by simp
    show "sub 6 (length p) wire ! i = p ! i" if i: "i < length (sub 6 (length p) wire)" for i
      using at [of "6 + i"] i that \<open>6 + length p \<le> length wire\<close> by (simp add: sub_def ZSTD_MAGIC_def nth_append)
  qed
qed

lemma stored_decodes:
  assumes "length p < 256"
  shows "decodes stored_zstd (ZSTD_MAGIC @ [0x20, of_nat (length p)] @ p) p"
proof -
  have start: "session stored_zstd wire n s ip out op \<Longrightarrow> ip = 0 \<and> op = 0 \<and> length out = n" for wire n s ip out op
    by (induction rule: session.induct) (auto simp: stored_zstd_def Let_def split: if_splits)
  show ?thesis
    unfolding decodes_def
  proof (intro allI impI)
    fix wire n s ip out op
    let ?w = "ZSTD_MAGIC @ [0x20, of_nat (length p)] @ p"
    assume a: "prefix wire ?w \<or> prefix ?w wire" and "session stored_zstd wire n s ip out op"
    then have st: "ip = 0" "op = 0" "length out = n" using start by blast+
    note parts = stored_parts [where t = "[]", simplified, OF assms a [simplified]]
    have pre: "6 + length p \<le> length wire" if "prefix ?w wire" using that prefix_length_le [OF that] by (simp add: ZSTD_MAGIC_def)
    show "case z_stream stored_zstd s wire ip out op of None \<Rightarrow> \<not> (prefix ?w wire \<and> length p \<le> n)
        | Some (s', ip', out', op', hint) \<Rightarrow> ip' \<le> length ?w \<and> op' \<le> length p \<and> take op' out' = take op' p
            \<and> (hint = 0 \<longleftrightarrow> ip' = length ?w \<and> op' = length p)
            \<and> (hint \<noteq> 0 \<and> prefix ?w wire \<and> length p \<le> n \<longrightarrow> (ip, op) \<noteq> (ip', op'))"
      using st parts pre by (auto simp: stored_zstd_def Let_def ZSTD_MAGIC_def)
  qed
qed

lemma slow_session:
  assumes "length p < 256"
    and "prefix wire (ZSTD_MAGIC @ [0x20, of_nat (length p)] @ p @ [0]) \<or> prefix (ZSTD_MAGIC @ [0x20, of_nat (length p)] @ p @ [0]) wire"
  shows "session slow_zstd wire n s ip out op \<Longrightarrow> length out = n \<and>
    (ip = 0 \<and> op = 0 \<or> ip = 6 + length p \<and> op = length p \<and> length p \<le> n \<and> 6 + length p \<le> length wire \<and> take (length p) out = p)"
proof (induction rule: session.induct)
  case (again s ip out op s' ip' out' op' hint)
  note parts = stored_parts [OF assms]
  from again.IH again.hyps(2,3) parts show ?case
    by (auto simp: slow_zstd_def Let_def split: if_splits)
qed simp

lemma slow_decodes:
  assumes "length p < 256"
  shows "decodes slow_zstd (ZSTD_MAGIC @ [0x20, of_nat (length p)] @ p @ [0]) p"
  unfolding decodes_def
proof (intro allI impI)
  fix wire n s ip out op
  let ?w = "ZSTD_MAGIC @ [0x20, of_nat (length p)] @ p @ [0]"
  assume a: "prefix wire ?w \<or> prefix ?w wire" and "session slow_zstd wire n s ip out op"
  from slow_session [OF assms this] have st: "length out = n"
    "ip = 0 \<and> op = 0 \<or> ip = 6 + length p \<and> op = length p \<and> length p \<le> n \<and> 6 + length p \<le> length wire \<and> take (length p) out = p"
    by simp_all
  note parts = stored_parts [OF assms a]
  have pre: "7 + length p \<le> length wire" if "prefix ?w wire" using prefix_length_le [OF that] by (simp add: ZSTD_MAGIC_def)
  show "case z_stream slow_zstd s wire ip out op of None \<Rightarrow> \<not> (prefix ?w wire \<and> length p \<le> n)
      | Some (s', ip', out', op', hint) \<Rightarrow> ip' \<le> length ?w \<and> op' \<le> length p \<and> take op' out' = take op' p
          \<and> (hint = 0 \<longleftrightarrow> ip' = length ?w \<and> op' = length p)
          \<and> (hint \<noteq> 0 \<and> prefix ?w wire \<and> length p \<le> n \<longrightarrow> (ip, op) \<noteq> (ip', op'))"
    using st(2)
  proof
    assume "ip = 0 \<and> op = 0"
    then show ?thesis using st(1) parts pre by (auto simp: slow_zstd_def Let_def ZSTD_MAGIC_def)
  next
    assume "ip = 6 + length p \<and> op = length p \<and> length p \<le> n \<and> 6 + length p \<le> length wire \<and> take (length p) out = p"
    then show ?thesis using st(1) parts pre by (auto simp: slow_zstd_def Let_def ZSTD_MAGIC_def)
  qed
qed

lemma stored_documented [simp]: "zstd_documented stored_zstd"
proof -
  have "standard_frame w (length p) \<and> decodes stored_zstd w p" if "z_compress stored_zstd p level = Some w" for p level w
  proof -
    have w: "w = ZSTD_MAGIC @ [0x20, of_nat (length p)] @ p @ []" "length p < 256"
      using that by (auto simp: stored_zstd_def split: if_splits)
    from stored_frame [OF w(2), of "[]"] stored_decodes [OF w(2)] show ?thesis unfolding w(1) by simp
  qed
  then show ?thesis by (simp add: zstd_documented_def stored_zstd_def)
qed

lemma slow_documented [simp]: "zstd_documented slow_zstd"
proof -
  have "standard_frame w (length p) \<and> decodes slow_zstd w p" if "z_compress slow_zstd p level = Some w" for p level w
  proof -
    have w: "w = ZSTD_MAGIC @ [0x20, of_nat (length p)] @ p @ [0]" "length p < 256"
      using that by (auto simp: slow_zstd_def split: if_splits)
    from stored_frame [OF w(2), of "[0]"] slow_decodes [OF w(2)] show ?thesis unfolding w(1) by simp
  qed
  then show ?thesis by (simp add: zstd_documented_def slow_zstd_def)
qed

lemma stored_prompt: "ends_promptly stored_zstd w p"
  by (auto simp: ends_promptly_def stored_zstd_def Let_def split: if_splits)

lemma slow_not_prompt:
  assumes "length p < 256"
  shows "\<not> ends_promptly slow_zstd (ZSTD_MAGIC @ [0x20, of_nat (length p)] @ p @ [0]) p"
proof -
  let ?w = "ZSTD_MAGIC @ [0x20, of_nat (length p)] @ p @ [0]"
  have "session slow_zstd ?w (length p) () 0 (replicate (length p) 0) 0" by (rule fresh) (simp add: slow_zstd_def)
  moreover have "unat (?w ! 5) = length p" "sub 6 (length p) ?w = p"
    using stored_parts [OF assms, of ?w "[0]"] by (simp_all add: ZSTD_MAGIC_def)
  then have "z_stream slow_zstd () ?w 0 (replicate (length p) 0) 0 = Some ((), 6 + length p, p, length p, 1)"
    by (simp add: slow_zstd_def Let_def) (simp add: ZSTD_MAGIC_def)
  ultimately show ?thesis unfolding ends_promptly_def by fastforce
qed

section \<open>Properties\<close>

text \<open>C35. The outcome of \<open>decompress_strict\<close> on what \<open>compress\<close> returns, for every payload up to the limit, every level
  and every library that does what its documentation says: the payload, or, if the library fills the output before
  it reports the end of the frame, which the documentation allows, a refusal as too long. No other bytes pass for
  this frame: a frame cut short or with anything behind it, another frame included, is refused under every length,
  and so is the frame itself under any length but that of the payload.\<close>

theorem compress_decompress:
  assumes "zstd_ok Z" "zstd_documented Z" "zstd_compress Z payload level = Ok wire" "length payload \<le> MAX_RAW_PAYLOAD"
  shows "decompress_strict Z wire (length payload) =
      (if ends_promptly Z wire payload then Ok payload else Err (BadLength ''zstd output exceeds header raw_len''))
    \<and> (\<forall>wire' n out. prefix wire' wire \<or> prefix wire wire' \<longrightarrow> decompress_strict Z wire' n = Ok out \<longrightarrow>
         wire' = wire \<and> n = length payload \<and> out = payload)"
  using decompress_zstd_compress [OF assms] decompress_only_frame [OF assms(1) compressed_frame(2) [OF assms(2,3)]] by blast

theorem compress_decompress_witness:
  "decompress_strict stored_zstd (ZSTD_MAGIC @ [0x20, 3] @ [1, 2, 3]) 3 = Ok [1, 2, 3]
   \<and> decompress_strict slow_zstd (ZSTD_MAGIC @ [0x20, 3] @ [1, 2, 3, 0]) 3 = Err (BadLength ''zstd output exceeds header raw_len'')
   \<and> decompress_strict stored_zstd (ZSTD_MAGIC @ [0x20, 3] @ [1, 2, 3, 0]) 3 \<noteq> Ok [1, 2, 3]
   \<and> decompress_strict stored_zstd (ZSTD_MAGIC @ [0x20, 3] @ [1, 2]) 3 \<noteq> Ok [1, 2, 3]"
proof -
  let ?w = "ZSTD_MAGIC @ [0x20, 3] @ [1, 2, 3 :: u8]" and ?v = "ZSTD_MAGIC @ [0x20, 3] @ [1, 2, 3, 0 :: u8]"
  have c: "zstd_compress stored_zstd [1, 2, 3] 3 = Ok ?w" "zstd_compress slow_zstd [1, 2, 3] 3 = Ok ?v"
    by (simp_all add: zstd_compress_def stored_zstd_def slow_zstd_def)
  have l: "length [1, 2, 3 :: u8] \<le> MAX_RAW_PAYLOAD" by (simp add: MAX_RAW_PAYLOAD_def)
  note a = compress_decompress [OF stored_zstd_ok stored_documented c(1) l]
    and b = compress_decompress [OF slow_zstd_ok slow_documented c(2) l]
  have "\<not> ends_promptly slow_zstd ?v [1, 2, 3]" using slow_not_prompt [of "[1, 2, 3]"] by simp
  with b have "decompress_strict slow_zstd ?v 3 = Err (BadLength ''zstd output exceeds header raw_len'')"
    by (simp add: numeral_3_eq_3)
  moreover have "decompress_strict stored_zstd ?w 3 = Ok [1, 2, 3]" using a stored_prompt by (simp add: numeral_3_eq_3)
  moreover have "decompress_strict stored_zstd ?v 3 \<noteq> Ok [1, 2, 3]"
    using a [THEN conjunct2, rule_format, of ?v 3 "[1, 2, 3]"] by auto
  moreover have "decompress_strict stored_zstd (ZSTD_MAGIC @ [0x20, 3] @ [1, 2]) 3 \<noteq> Ok [1, 2, 3]"
    using a [THEN conjunct2, rule_format, of "ZSTD_MAGIC @ [0x20, 3] @ [1, 2]" 3 "[1, 2, 3]"] by auto
  ultimately show ?thesis by blast
qed

end
