(* ===== verification/Treeframe.thy ===== *)
theory Treeframe
  imports Tree_Payload Zstd_Library
begin

text \<open>
  \<^verbatim>\<open>src/treeframe.rs\<close>, one frame: the 64-byte header, \<open>parse_frame\<close> and the encoders of the five kinds.
  The cargo feature \<^verbatim>\<open>zstd\<close> is the parameter \<open>feat\<close>: \<open>None\<close> is the build without it, \<open>Some Z\<close> the build
  with the library \<open>Z\<close>. The functions that exist only with the feature take \<open>Z\<close> itself.

  \<open>header_bytes\<close> is the layout of the header, \<open>frame_payload\<close> says which raw payloads belong to a frame
  and \<open>wire_frame\<close> combines them: it is the specification the parser is shown equal to, without offsets.
\<close>

section \<open>Constants\<close>

definition FRAME_VERSION :: u16 where "FRAME_VERSION = 2"
definition HEADER_LEN :: nat where "HEADER_LEN = 64"
definition KIND_META :: u8 where "KIND_META = 1"
definition KIND_OBJECT :: u8 where "KIND_OBJECT = 2"
definition KIND_CHUNK :: u8 where "KIND_CHUNK = 3"
definition KIND_END :: u8 where "KIND_END = 254"
definition KIND_ERROR :: u8 where "KIND_ERROR = 255"
definition FLAG_ZSTD :: u8 where "FLAG_ZSTD = 0x01"
definition DATA_MAX_WIRE :: nat where "DATA_MAX_WIRE = 2097152"

definition FRAME_MAGIC :: bytes where "FRAME_MAGIC = ascii ''MST2''"

lemmas kind_defs [codec_defs] = KIND_META_def KIND_OBJECT_def KIND_CHUNK_def KIND_END_def KIND_ERROR_def

text \<open>\<open>FrameHeader\<close>: the fields of a parsed header. The parser works on the bytes; the record is the
  abstract header of the specification.\<close>

record frame_header =
  fh_kind :: u8
  fh_flags :: u8
  fh_wire_len :: u32
  fh_raw_len :: u32
  fh_stream_id :: u32
  fh_sequence :: u64
  fh_payload_sha256 :: digest

section \<open>The parser\<close>

definition raw_limit :: "u8 \<Rightarrow> nat res" where
  "raw_limit kind =
     (if kind = KIND_META then Ok META_MAX_RAW
      else if kind = KIND_OBJECT then Ok OBJECT_MAX_RAW
      else if kind = KIND_CHUNK then Ok (76 + unat CHUNK_MAX_LEN)
      else if kind = KIND_END then Ok 48
      else if kind = KIND_ERROR then Ok ERROR_MAX_BYTES
      else Err (BadConstant ''frame kind''))"

definition recover_payload :: "'s zstd_lib option \<Rightarrow> u8 \<Rightarrow> bytes \<Rightarrow> u32 \<Rightarrow> bytes res" where
  "recover_payload feat flags wire_payload raw_len =
     (if flags AND FLAG_ZSTD = 0 then Ok wire_payload else
      case feat of
        Some Z \<Rightarrow> decompress_strict Z wire_payload (unat raw_len)
      | None \<Rightarrow> Err (Unsupported ''zstd frame received by identity-only codec build''))"

definition decode_payload :: "hash \<Rightarrow> u8 \<Rightarrow> bytes \<Rightarrow> u32 \<Rightarrow> frame res" where
  "decode_payload H kind payload raw_len =
     (if kind = KIND_META then and_then (decode_meta H payload) (\<lambda>p. Ok (Frame_Meta p))
      else if kind = KIND_OBJECT then and_then (decode_object H payload) (\<lambda>p. Ok (Frame_Object p))
      else if kind = KIND_CHUNK then and_then (decode_chunk payload raw_len) (\<lambda>p. Ok (Frame_Chunk p))
      else if kind = KIND_END then and_then (decode_end payload) (\<lambda>p. Ok (Frame_End p))
      else if kind = KIND_ERROR then and_then (decode_error payload) (\<lambda>p. Ok (Frame_Error p))
      else Err (BadConstant ''frame kind''))"

definition parse_frame :: "hash \<Rightarrow> 's zstd_lib option \<Rightarrow> bytes \<Rightarrow> (frame \<times> nat) res" where
  "parse_frame H feat buf =
     (if length buf < HEADER_LEN then Err (Truncated ''frame header'') else
      and_then (slice_of buf 0 4) (\<lambda>magic.
      if magic \<noteq> FRAME_MAGIC then Err (BadConstant ''MST2 magic'') else
      and_then (read_u16 buf 4) (\<lambda>version.
      if version \<noteq> FRAME_VERSION then Err (BadConstant ''frame version'') else
      and_then (at_index buf 6) (\<lambda>kind.
      and_then (at_index buf 7) (\<lambda>flags.
      and_then (read_u32 buf 8) (\<lambda>header_len.
      if unat header_len \<noteq> HEADER_LEN then Err (BadConstant ''header_len must be 64'') else
      if flags AND NOT FLAG_ZSTD \<noteq> 0 then Err (BadConstant ''unknown frame flags'') else
      and_then (read_u32 buf 12) (\<lambda>wire_len.
      and_then (read_u32 buf 16) (\<lambda>raw_len.
      and_then (read_u32 buf 20) (\<lambda>stream_id.
      if stream_id = 0 then Err (BadConstant ''stream_id must be non-zero'') else
      and_then (read_u64 buf 24) (\<lambda>sequence.
      and_then (slice_of buf 32 64) (\<lambda>payload_sha256.
      if (kind = KIND_END \<or> kind = KIND_ERROR) \<and> flags AND FLAG_ZSTD \<noteq> 0
      then Err (BadConstant ''END/ERROR must not be compressed'') else
      if flags AND FLAG_ZSTD = 0 \<and> wire_len \<noteq> raw_len
      then Err (BadLength ''identity encoding requires wire_len == raw_len'') else
      and_then (raw_limit kind) (\<lambda>limit.
      if unat raw_len > limit \<or> unat wire_len > DATA_MAX_WIRE
      then Err (BadLength ''frame payload exceeds kind limit'') else
      and_then (ok_or (checked_add_usize HEADER_LEN (unat wire_len)) (BadLength ''frame length overflow'')) (\<lambda>tot.
      if length buf < tot then Err (Truncated ''frame payload'') else
      and_then (slice_of buf HEADER_LEN tot) (\<lambda>wire_payload.
      and_then (recover_payload feat flags wire_payload raw_len) (\<lambda>payload.
      if sha256 H [payload] \<noteq> payload_sha256 then Err (DigestMismatch ''frame raw payload'') else
      and_then (decode_payload H kind payload raw_len) (\<lambda>frame.
      Ok (frame, tot)))))))))))))))))"

section \<open>The encoders\<close>

definition header ::
  "u8 \<Rightarrow> u8 \<Rightarrow> u32 \<Rightarrow> u32 \<Rightarrow> u32 \<Rightarrow> u64 \<Rightarrow> digest \<Rightarrow> bytes" where
  "header kind flags wire_len raw_len stream_id sequence payload_sha256 =
     (let out = FRAME_MAGIC;
          out = write_u16 out FRAME_VERSION;
          out = out @ [kind];
          out = out @ [flags];
          out = write_u32 out (of_nat HEADER_LEN);
          out = write_u32 out wire_len;
          out = write_u32 out raw_len;
          out = write_u32 out stream_id;
          out = write_u64 out sequence
      in out @ payload_sha256)"

definition frame_bytes :: "hash \<Rightarrow> u8 \<Rightarrow> bytes \<Rightarrow> u32 \<Rightarrow> u64 \<Rightarrow> bytes" where
  "frame_bytes H kind payload stream_id sequence =
     (let digest = sha256 H [payload]
      in header kind 0 (of_nat (length payload)) (of_nat (length payload)) stream_id sequence digest @ payload)"

definition frame_bytes_zstd :: "'s zstd_lib \<Rightarrow> hash \<Rightarrow> u8 \<Rightarrow> bytes \<Rightarrow> u32 \<Rightarrow> u64 \<Rightarrow> bytes res" where
  "frame_bytes_zstd Z H kind raw_payload stream_id sequence =
     and_then (zstd_compress Z raw_payload 3) (\<lambda>wire.
     let digest = sha256 H [raw_payload]
     in Ok (header kind FLAG_ZSTD (of_nat (length wire)) (of_nat (length raw_payload)) stream_id sequence digest @ wire))"

definition meta_encode :: "hash \<Rightarrow> meta_payload \<Rightarrow> u32 \<Rightarrow> u64 \<Rightarrow> bytes res" where
  "meta_encode H p stream_id sequence =
     and_then (meta_encode_payload H p) (\<lambda>payload. Ok (frame_bytes H KIND_META payload stream_id sequence))"

definition meta_encode_zstd :: "'s zstd_lib \<Rightarrow> hash \<Rightarrow> meta_payload \<Rightarrow> u32 \<Rightarrow> u64 \<Rightarrow> bytes res" where
  "meta_encode_zstd Z H p stream_id sequence =
     and_then (meta_encode H p stream_id sequence) (\<lambda>_.
     and_then (meta_raw_payload p) (\<lambda>payload. frame_bytes_zstd Z H KIND_META payload stream_id sequence))"

definition object_encode :: "hash \<Rightarrow> object_payload \<Rightarrow> u32 \<Rightarrow> u64 \<Rightarrow> bytes res" where
  "object_encode H p stream_id sequence =
     and_then (object_encode_payload H p) (\<lambda>payload. Ok (frame_bytes H KIND_OBJECT payload stream_id sequence))"

definition object_encode_zstd :: "'s zstd_lib \<Rightarrow> hash \<Rightarrow> object_payload \<Rightarrow> u32 \<Rightarrow> u64 \<Rightarrow> bytes res" where
  "object_encode_zstd Z H p stream_id sequence =
     and_then (object_encode H p stream_id sequence) (\<lambda>_.
     and_then (object_raw_payload p) (\<lambda>payload. frame_bytes_zstd Z H KIND_OBJECT payload stream_id sequence))"

definition chunk_encode :: "hash \<Rightarrow> chunk_payload \<Rightarrow> u32 \<Rightarrow> u64 \<Rightarrow> bytes res" where
  "chunk_encode H p stream_id sequence =
     (if length (cp_chunk_bytes p) > unat CHUNK_MAX_LEN then Err (BadLength ''chunk over 1MiB'') else
      let payload = cp_map_id p;
          payload = payload @ cp_file_content_id p;
          payload = write_u64 payload (cp_chunk_index p);
          payload = write_u32 payload (of_nat (length (cp_chunk_bytes p)));
          payload = payload @ cp_chunk_bytes p
      in Ok (frame_bytes H KIND_CHUNK payload stream_id sequence))"

definition chunk_encode_zstd :: "'s zstd_lib \<Rightarrow> hash \<Rightarrow> chunk_payload \<Rightarrow> u32 \<Rightarrow> u64 \<Rightarrow> bytes res" where
  "chunk_encode_zstd Z H p stream_id sequence =
     (if length (cp_chunk_bytes p) > unat CHUNK_MAX_LEN then Err (BadLength ''chunk over 1MiB'') else
      let payload = chunk_raw_payload p
      in frame_bytes_zstd Z H KIND_CHUNK payload stream_id sequence)"

definition end_encode :: "hash \<Rightarrow> end_payload \<Rightarrow> u32 \<Rightarrow> u64 \<Rightarrow> bytes" where
  "end_encode H p stream_id sequence =
     (let payload = end_payload_bytes p in frame_bytes H KIND_END payload stream_id sequence)"

definition error_encode :: "hash \<Rightarrow> error_payload \<Rightarrow> u32 \<Rightarrow> u64 \<Rightarrow> bytes res" where
  "error_encode H p stream_id sequence =
     (let payload = error_json p in
      if length payload > ERROR_MAX_BYTES then Err (BadLength ''ERROR payload over 4096 bytes'') else
      Ok (frame_bytes H KIND_ERROR payload stream_id sequence))"

section \<open>The specification of a frame\<close>

definition header_bytes :: "frame_header \<Rightarrow> bytes" where
  "header_bytes h = FRAME_MAGIC @ le_bytes (2 :: u16) @ [fh_kind h, fh_flags h] @ le_bytes (64 :: u32)
     @ le_bytes (fh_wire_len h) @ le_bytes (fh_raw_len h) @ le_bytes (fh_stream_id h) @ le_bytes (fh_sequence h)
     @ fh_payload_sha256 h"

fun frame_kind :: "frame \<Rightarrow> u8" where
  "frame_kind (Frame_Meta _) = KIND_META"
| "frame_kind (Frame_Object _) = KIND_OBJECT"
| "frame_kind (Frame_Chunk _) = KIND_CHUNK"
| "frame_kind (Frame_End _) = KIND_END"
| "frame_kind (Frame_Error _) = KIND_ERROR"

fun frame_payload :: "hash \<Rightarrow> frame \<Rightarrow> bytes \<Rightarrow> bool" where
  "frame_payload H (Frame_Meta p) raw \<longleftrightarrow> meta_wf H p \<and> raw = meta_raw p"
| "frame_payload H (Frame_Object p) raw \<longleftrightarrow> object_wf H p \<and> raw = object_raw p"
| "frame_payload H (Frame_Chunk p) raw \<longleftrightarrow> chunk_wf p \<and> raw = chunk_raw p"
| "frame_payload H (Frame_End p) raw \<longleftrightarrow> end_wf p \<and> raw = end_raw p"
| "frame_payload H (Frame_Error e) raw \<longleftrightarrow> length raw \<le> 4096 \<and> is_utf8 raw \<and> error_text raw e"

fun terminal :: "frame \<Rightarrow> bool" where
  "terminal (Frame_End _) = True"
| "terminal (Frame_Error _) = True"
| "terminal _ = False"

text \<open>How the payload travels: as it is, or compressed where the kind allows it.\<close>

definition wire_form :: "'s zstd_lib option \<Rightarrow> frame \<Rightarrow> u8 \<Rightarrow> bytes \<Rightarrow> bytes \<Rightarrow> bool" where
  "wire_form feat f flags wire raw \<longleftrightarrow>
     flags = 0 \<and> wire = raw \<or>
     flags = FLAG_ZSTD \<and> \<not> terminal f \<and> (\<exists>Z. feat = Some Z \<and> decompress_strict Z wire (length raw) = Ok raw)"

definition wire_frame :: "hash \<Rightarrow> 's zstd_lib option \<Rightarrow> u32 \<Rightarrow> u64 \<Rightarrow> frame \<Rightarrow> bytes \<Rightarrow> bool" where
  "wire_frame H feat stream_id sequence f b \<longleftrightarrow>
     (\<exists>flags wire raw. b = header_bytes \<lparr>fh_kind = frame_kind f, fh_flags = flags,
         fh_wire_len = of_nat (length wire), fh_raw_len = of_nat (length raw), fh_stream_id = stream_id,
         fh_sequence = sequence, fh_payload_sha256 = sha256 H [raw]\<rparr> @ wire
       \<and> stream_id \<noteq> 0 \<and> length wire \<le> DATA_MAX_WIRE \<and> frame_payload H f raw \<and> wire_form feat f flags wire raw)"

section \<open>The header\<close>

lemma length_FRAME_MAGIC [simp]: "length FRAME_MAGIC = 4"
  by (simp add: FRAME_MAGIC_def ascii_def)

lemma header_eq:
  "header kind flags wl rl sid sequ dg = header_bytes \<lparr>fh_kind = kind, fh_flags = flags, fh_wire_len = wl, fh_raw_len = rl,
     fh_stream_id = sid, fh_sequence = sequ, fh_payload_sha256 = dg\<rparr>"
  by (simp add: header_def header_bytes_def write_defs FRAME_VERSION_def HEADER_LEN_def)

lemma length_header_bytes: "length (header_bytes h) = 32 + length (fh_payload_sha256 h)"
  by (simp add: header_bytes_def)

lemma header_parts:
  assumes "length (fh_payload_sha256 h) = 32" "buf = header_bytes h @ rest"
  shows "sub 0 4 buf = FRAME_MAGIC" "sub 4 2 buf = le_bytes (2 :: u16)" "buf ! 6 = fh_kind h" "buf ! 7 = fh_flags h"
    "sub 8 4 buf = le_bytes (64 :: u32)" "sub 12 4 buf = le_bytes (fh_wire_len h)" "sub 16 4 buf = le_bytes (fh_raw_len h)"
    "sub 20 4 buf = le_bytes (fh_stream_id h)" "sub 24 8 buf = le_bytes (fh_sequence h)" "sub 32 32 buf = fh_payload_sha256 h"
  using assms(1) by (simp_all add: assms(2) header_bytes_def sub_def nth_append)

lemma header_whole:
  assumes "64 \<le> length buf" "sub 0 4 buf = FRAME_MAGIC" "sub 4 2 buf = le_bytes (2 :: u16)" "sub 8 4 buf = le_bytes (64 :: u32)"
    "sub 12 4 buf = le_bytes (fh_wire_len h)" "sub 16 4 buf = le_bytes (fh_raw_len h)"
    "sub 20 4 buf = le_bytes (fh_stream_id h)" "sub 24 8 buf = le_bytes (fh_sequence h)"
    "buf ! 6 = fh_kind h" "buf ! 7 = fh_flags h" "sub 32 32 buf = fh_payload_sha256 h"
  shows "take 64 buf = header_bytes h"
proof -
  have "take 64 buf = sub 0 4 buf @ sub 4 2 buf @ sub 6 1 buf @ sub 7 1 buf @ sub 8 4 buf @ sub 12 4 buf @ sub 16 4 buf
      @ sub 20 4 buf @ sub 24 8 buf @ sub 32 32 buf"
    by (simp add: sub_joinI) (simp add: sub_def)
  with assms sub_single [of 6 buf] sub_single [of 7 buf] show ?thesis by (simp add: header_bytes_def)
qed

lemma flag_bits: "flags AND NOT FLAG_ZSTD = 0 \<longleftrightarrow> flags = 0 \<or> flags = FLAG_ZSTD"
  "flags = 0 \<or> flags = FLAG_ZSTD \<Longrightarrow> flags AND FLAG_ZSTD = 0 \<longleftrightarrow> flags = 0"
proof -
  have one: "flags AND 1 = 0 \<or> flags AND 1 = (1 :: u8)"
    unfolding and_one_eq by (cases "even flags") (simp_all add: odd_iff_mod_2_eq_one even_iff_mod_2_eq_zero)
  have "flags = (flags AND 1) OR (flags AND NOT 1)"
    by (rule bit_word_eqI) (auto simp: bit_simps)
  with one show "flags AND NOT FLAG_ZSTD = 0 \<longleftrightarrow> flags = 0 \<or> flags = FLAG_ZSTD"
    by (auto simp: FLAG_ZSTD_def)
qed (auto simp: FLAG_ZSTD_def)

section \<open>The parser against the specification\<close>

definition feat_ok :: "'s zstd_lib option \<Rightarrow> bool" where
  "feat_ok feat \<longleftrightarrow> (case feat of None \<Rightarrow> True | Some Z \<Rightarrow> zstd_ok Z)"

text \<open>What the parser checks, on the fields of the header.\<close>

definition header_checks :: "hash \<Rightarrow> 's zstd_lib option \<Rightarrow> frame_header \<Rightarrow> bytes \<Rightarrow> frame \<Rightarrow> bool" where
  "header_checks H feat h wire f \<longleftrightarrow> (fh_flags h = 0 \<or> fh_flags h = FLAG_ZSTD) \<and> fh_stream_id h \<noteq> 0
     \<and> \<not> ((fh_kind h = KIND_END \<or> fh_kind h = KIND_ERROR) \<and> fh_flags h \<noteq> 0)
     \<and> \<not> (fh_flags h = 0 \<and> fh_wire_len h \<noteq> fh_raw_len h)
     \<and> (\<exists>limit. raw_limit (fh_kind h) = Ok limit \<and> unat (fh_raw_len h) \<le> limit)
     \<and> unat (fh_wire_len h) \<le> DATA_MAX_WIRE
     \<and> (\<exists>payload. recover_payload feat (fh_flags h) wire (fh_raw_len h) = Ok payload
        \<and> sha256 H [payload] = fh_payload_sha256 h \<and> decode_payload H (fh_kind h) payload (fh_raw_len h) = Ok f)"

lemma end_of_wire:
  "checked_add_usize a b = Some n \<longleftrightarrow> a + b < 2 ^ 64 \<and> n = a + b" "sub a (a + b - a) xs = sub a b xs"
  by (auto simp: checked_add_usize_def)

lemma digest_len: "(64 :: nat) - 32 = 32"
  by simp

lemma parse_frame_fields:
  "parse_frame H feat buf = Ok (f, n) \<longleftrightarrow>
     (\<exists>h wire rest. buf = header_bytes h @ wire @ rest \<and> length (fh_payload_sha256 h) = 32
       \<and> length wire = unat (fh_wire_len h) \<and> n = 64 + length wire \<and> header_checks H feat h wire f)"
proof
  assume "parse_frame H feat buf = Ok (f, n)"
  then obtain ver :: u16 and hl wl rl sid :: u32 and sequ :: u64 and limit payload where
    a: "64 \<le> length buf" "sub 0 4 buf = FRAME_MAGIC" "sub 4 2 buf = le_bytes ver" "ver = 2" "sub 8 4 buf = le_bytes hl"
      "unat hl = 64" "buf ! 7 AND NOT FLAG_ZSTD = 0"
      "sub 12 4 buf = le_bytes wl" "sub 16 4 buf = le_bytes rl" "sub 20 4 buf = le_bytes sid" "sid \<noteq> 0"
      "sub 24 8 buf = le_bytes sequ" "\<not> ((buf ! 6 = KIND_END \<or> buf ! 6 = KIND_ERROR) \<and> buf ! 7 AND FLAG_ZSTD \<noteq> 0)"
      "\<not> (buf ! 7 AND FLAG_ZSTD = 0 \<and> wl \<noteq> rl)" "raw_limit (buf ! 6) = Ok limit" "unat rl \<le> limit" "unat wl \<le> DATA_MAX_WIRE"
      "64 + unat wl \<le> length buf" "recover_payload feat (buf ! 7) (sub 64 (unat wl) buf) rl = Ok payload"
      "sha256 H [payload] = sub 32 32 buf" "decode_payload H (buf ! 6) payload rl = Ok f" "n = 64 + unat wl"
    unfolding parse_frame_def
    by (simp only: if_eq_Inr_Err and_then_eq_Inr ok_or_eq_Inr slice_of_eq_Inr at_index_eq_Inr read_u16_eq_Ok read_u32_eq_Ok
        read_u64_eq_Ok HEADER_LEN_def FRAME_VERSION_def not_less not_not sum.inject prod.inject de_Morgan_disj
        end_of_wire(1) digest_len diff_zero)
      (elim exE conjE, hypsubst, simp (no_asm_use) only: end_of_wire(2), rule that; (assumption | rule refl | rule sym, assumption))
  define h where "h = \<lparr>fh_kind = buf ! 6, fh_flags = buf ! 7, fh_wire_len = wl, fh_raw_len = rl, fh_stream_id = sid,
    fh_sequence = sequ, fh_payload_sha256 = sub 32 32 buf\<rparr>"
  have "hl = 64" using a(6) by (simp add: word_unat_eq_iff)
  then have "take 64 buf = header_bytes h" using a by (intro header_whole) (simp_all add: h_def)
  moreover have "buf = take 64 buf @ sub 64 (unat wl) buf @ drop (64 + unat wl) buf"
    using drop_sub [of 64 buf "unat wl"] by (metis append_take_drop_id)
  ultimately have "buf = header_bytes h @ sub 64 (unat wl) buf @ drop (64 + unat wl) buf" by simp
  moreover have "header_checks H feat h (sub 64 (unat wl) buf) f"
    using a by (auto simp: header_checks_def h_def flag_bits)
  moreover have "length (sub 64 (unat wl) buf) = unat (fh_wire_len h)" "length (fh_payload_sha256 h) = 32"
    using a(1,18) by (simp_all add: h_def)
  ultimately show "\<exists>h wire rest. buf = header_bytes h @ wire @ rest \<and> length (fh_payload_sha256 h) = 32
       \<and> length wire = unat (fh_wire_len h) \<and> n = 64 + length wire \<and> header_checks H feat h wire f"
    using a(22) by (intro exI [of _ h] exI conjI) (assumption | simp add: h_def)+
next
  assume "\<exists>h wire rest. buf = header_bytes h @ wire @ rest \<and> length (fh_payload_sha256 h) = 32
       \<and> length wire = unat (fh_wire_len h) \<and> n = 64 + length wire \<and> header_checks H feat h wire f"
  then obtain h wire rest where b: "buf = header_bytes h @ wire @ rest" and d: "length (fh_payload_sha256 h) = 32"
    and w: "length wire = unat (fh_wire_len h)" "n = 64 + length wire" and c: "header_checks H feat h wire f" by blast
  note p = header_parts [OF d b]
  have l: "64 + unat (fh_wire_len h) \<le> length buf" using b d w by (simp add: length_header_bytes)
  have wire: "sub 64 (unat (fh_wire_len h)) buf = wire"
    using b d w by (simp add: length_header_bytes sub_def)
  have fl: "fh_flags h = 0 \<or> fh_flags h = FLAG_ZSTD" using c by (simp add: header_checks_def)
  have nw: "64 + unat (fh_wire_len h) < 2 ^ 64" using unat_u32_bound [of "fh_wire_len h"] by simp
  show "parse_frame H feat buf = Ok (f, n)"
    using c w l p fl nw wire flag_bits(2) [OF fl]
    unfolding parse_frame_def
    by (simp add: if_eq_Inr_Err and_then_eq_Inr ok_or_eq_Inr slice_of_eq_Inr at_index_eq_Inr read_u16_eq_Ok read_u32_eq_Ok
        read_u64_eq_Ok HEADER_LEN_def FRAME_VERSION_def not_less le_bytes_inject checked_add_usize_def header_checks_def
        flag_bits)
qed

lemma kinds_distinct [simp]:
  "KIND_META \<noteq> KIND_OBJECT" "KIND_META \<noteq> KIND_CHUNK" "KIND_META \<noteq> KIND_END" "KIND_META \<noteq> KIND_ERROR"
  "KIND_OBJECT \<noteq> KIND_META" "KIND_OBJECT \<noteq> KIND_CHUNK" "KIND_OBJECT \<noteq> KIND_END" "KIND_OBJECT \<noteq> KIND_ERROR"
  "KIND_CHUNK \<noteq> KIND_META" "KIND_CHUNK \<noteq> KIND_OBJECT" "KIND_CHUNK \<noteq> KIND_END" "KIND_CHUNK \<noteq> KIND_ERROR"
  "KIND_END \<noteq> KIND_META" "KIND_END \<noteq> KIND_OBJECT" "KIND_END \<noteq> KIND_CHUNK" "KIND_END \<noteq> KIND_ERROR"
  "KIND_ERROR \<noteq> KIND_META" "KIND_ERROR \<noteq> KIND_OBJECT" "KIND_ERROR \<noteq> KIND_CHUNK" "KIND_ERROR \<noteq> KIND_END"
  by (simp_all add: kind_defs)

lemma decode_payload_Ok:
  "decode_payload H kind payload rl = Ok f \<longleftrightarrow>
     kind = frame_kind f \<and> frame_payload H f payload \<and> (kind = KIND_CHUNK \<longrightarrow> unat rl = length payload)"
  by (cases f) (auto simp: decode_payload_def and_then_eq_Inr decode_meta_Ok decode_object_Ok decode_chunk_Ok
      decode_end_Ok decode_error_Ok split: if_splits)

lemma frame_payload_limit: "frame_payload H f raw \<Longrightarrow> \<exists>limit. raw_limit (frame_kind f) = Ok limit \<and> length raw \<le> limit"
  by (cases f) (auto simp: raw_limit_def payload_limits meta_wf_def object_wf_def chunk_wf_def chunk_raw_def
      end_wf_def end_raw_def)

lemma frame_payload_bound: "frame_payload H f raw \<Longrightarrow> length raw \<le> 1048652"
  by (cases f) (auto simp: meta_wf_def object_wf_def chunk_wf_def chunk_raw_def end_wf_def end_raw_def)

lemma terminal_kind: "terminal f \<longleftrightarrow> frame_kind f = KIND_END \<or> frame_kind f = KIND_ERROR"
  by (cases f) simp_all

lemma recover_payload_Ok:
  assumes "feat_ok feat" "flags = 0 \<or> flags = FLAG_ZSTD"
  shows "recover_payload feat flags wire rl = Ok raw \<longleftrightarrow>
    flags = 0 \<and> wire = raw \<or>
    flags = FLAG_ZSTD \<and> length raw = unat rl \<and> (\<exists>Z. feat = Some Z \<and> decompress_strict Z wire (length raw) = Ok raw)"
proof (cases "flags = 0")
  case True
  then show ?thesis by (auto simp: recover_payload_def FLAG_ZSTD_def)
next
  case False
  then have f: "flags = FLAG_ZSTD" using assms(2) by simp
  show ?thesis
  proof (cases feat)
    case (Some Z)
    then have "decompress_strict Z wire (unat rl) = Ok raw \<Longrightarrow> length raw = unat rl"
      using assms(1) length_decompress_strict [of Z wire "unat rl" raw] by (simp add: feat_ok_def)
    then show ?thesis using f Some by (auto simp: recover_payload_def FLAG_ZSTD_def)
  qed (use f in \<open>simp add: recover_payload_def FLAG_ZSTD_def\<close>)
qed

lemma header_checks_iff:
  assumes H: "sha_ok H" and F: "feat_ok feat"
  shows "length (fh_payload_sha256 h) = 32 \<and> length wire = unat (fh_wire_len h) \<and> header_checks H feat h wire f \<longleftrightarrow>
    (\<exists>raw. h = \<lparr>fh_kind = frame_kind f, fh_flags = fh_flags h, fh_wire_len = of_nat (length wire),
        fh_raw_len = of_nat (length raw), fh_stream_id = fh_stream_id h, fh_sequence = fh_sequence h,
        fh_payload_sha256 = sha256 H [raw]\<rparr>
      \<and> fh_stream_id h \<noteq> 0 \<and> length wire \<le> DATA_MAX_WIRE \<and> frame_payload H f raw \<and> wire_form feat f (fh_flags h) wire raw)"
    (is "?l \<longleftrightarrow> (\<exists>raw. ?R raw)")
proof
  assume l: ?l
  then have fl: "fh_flags h = 0 \<or> fh_flags h = FLAG_ZSTD" by (simp add: header_checks_def)
  from l obtain raw where p: "recover_payload feat (fh_flags h) wire (fh_raw_len h) = Ok raw" "sha256 H [raw] = fh_payload_sha256 h"
    "decode_payload H (fh_kind h) raw (fh_raw_len h) = Ok f" by (auto simp: header_checks_def)
  have k: "fh_kind h = frame_kind f" "frame_payload H f raw" using p(3) by (simp_all add: decode_payload_Ok)
  have w: "of_nat (length wire) = fh_wire_len h" using l by simp
  have len: "length raw = unat (fh_raw_len h)"
    using p(1) l unfolding recover_payload_Ok [OF F fl] by (auto simp: header_checks_def)
  then have r: "of_nat (length raw) = fh_raw_len h" by simp
  have "wire_form feat f (fh_flags h) wire raw"
    using p(1) l k(1) unfolding recover_payload_Ok [OF F fl] by (auto simp: wire_form_def header_checks_def terminal_kind FLAG_ZSTD_def)
  with l k w r p(2) have "?R raw" by (auto simp: header_checks_def)
  then show "\<exists>raw. ?R raw" ..
next
  assume "\<exists>raw. ?R raw"
  then obtain raw where r: "?R raw" by blast
  let ?h = "\<lparr>fh_kind = frame_kind f, fh_flags = fh_flags h, fh_wire_len = of_nat (length wire),
        fh_raw_len = of_nat (length raw), fh_stream_id = fh_stream_id h, fh_sequence = fh_sequence h,
        fh_payload_sha256 = sha256 H [raw]\<rparr>"
  have h: "fh_kind h = frame_kind f" "fh_wire_len h = of_nat (length wire)" "fh_raw_len h = of_nat (length raw)"
    "fh_payload_sha256 h = sha256 H [raw]"
    using arg_cong [OF r [THEN conjunct1], of fh_kind] arg_cong [OF r [THEN conjunct1], of fh_wire_len]
      arg_cong [OF r [THEN conjunct1], of fh_raw_len] arg_cong [OF r [THEN conjunct1], of fh_payload_sha256] by simp_all
  have fl: "fh_flags h = 0 \<or> fh_flags h = FLAG_ZSTD" using r by (auto simp: wire_form_def)
  have uw: "unat (fh_wire_len h) = length wire"
    unfolding h using r by (intro unat_u32_of_nat) (simp add: DATA_MAX_WIRE_def)
  have ur: "unat (fh_raw_len h) = length raw"
    unfolding h using frame_payload_bound [of H f raw] r by (intro unat_u32_of_nat) simp
  have rec: "recover_payload feat (fh_flags h) wire (fh_raw_len h) = Ok raw"
    unfolding recover_payload_Ok [OF F fl] using r ur by (auto simp: wire_form_def)
  have dec: "decode_payload H (fh_kind h) raw (fh_raw_len h) = Ok f"
    using r h ur by (simp add: decode_payload_Ok)
  obtain limit where lim: "raw_limit (fh_kind h) = Ok limit" "length raw \<le> limit"
    using frame_payload_limit [of H f raw] r h by auto
  have t: "\<not> ((fh_kind h = KIND_END \<or> fh_kind h = KIND_ERROR) \<and> fh_flags h \<noteq> 0)"
    "\<not> (fh_flags h = 0 \<and> fh_wire_len h \<noteq> fh_raw_len h)"
    using r h by (auto simp: wire_form_def terminal_kind FLAG_ZSTD_def)
  have "header_checks H feat h wire f"
    unfolding header_checks_def using fl t r lim ur uw rec dec h(4) by (intro conjI exI) (assumption | simp)+
  then show ?l using H uw h(4) by simp
qed

theorem parse_frame_Ok:
  assumes "sha_ok H" "feat_ok feat"
  shows "parse_frame H feat buf = Ok (f, n) \<longleftrightarrow>
    (\<exists>b rest sid sequ. buf = b @ rest \<and> n = length b \<and> wire_frame H feat sid sequ f b)"
proof -
  have "parse_frame H feat buf = Ok (f, n) \<longleftrightarrow> (\<exists>h wire rest. buf = header_bytes h @ wire @ rest \<and> n = 64 + length wire
      \<and> (length (fh_payload_sha256 h) = 32 \<and> length wire = unat (fh_wire_len h) \<and> header_checks H feat h wire f))"
    unfolding parse_frame_fields by (intro iffI; elim exE conjE; blast)
  also have "\<dots> \<longleftrightarrow> (\<exists>b rest sid sequ. buf = b @ rest \<and> n = length b \<and> wire_frame H feat sid sequ f b)"
    unfolding header_checks_iff [OF assms]
  proof (intro iffI; elim exE conjE)
    fix h wire rest raw
    assume a: "buf = header_bytes h @ wire @ rest" "n = 64 + length wire"
      and h: "h = \<lparr>fh_kind = frame_kind f, fh_flags = fh_flags h, fh_wire_len = of_nat (length wire),
        fh_raw_len = of_nat (length raw), fh_stream_id = fh_stream_id h, fh_sequence = fh_sequence h,
        fh_payload_sha256 = sha256 H [raw]\<rparr>"
      and r: "fh_stream_id h \<noteq> 0" "length wire \<le> DATA_MAX_WIRE" "frame_payload H f raw" "wire_form feat f (fh_flags h) wire raw"
    have "length (fh_payload_sha256 h) = 32" using arg_cong [OF h, of fh_payload_sha256] assms(1) by simp
    then have n: "n = length (header_bytes h @ wire)" using a(2) by (simp add: length_header_bytes)
    have "wire_frame H feat (fh_stream_id h) (fh_sequence h) f (header_bytes h @ wire)"
      unfolding wire_frame_def using h r by (intro exI [of _ "fh_flags h"] exI [of _ wire] exI [of _ raw]) simp
    with a(1) n show "\<exists>b rest sid sequ. buf = b @ rest \<and> n = length b \<and> wire_frame H feat sid sequ f b"
      by (intro exI [of _ "header_bytes h @ wire"] exI [of _ rest]) auto
  next
    fix b rest sid sequ
    assume a: "buf = b @ rest" "n = length b" "wire_frame H feat sid sequ f b"
    then obtain flags wire raw where b: "b = header_bytes \<lparr>fh_kind = frame_kind f, fh_flags = flags,
         fh_wire_len = of_nat (length wire), fh_raw_len = of_nat (length raw), fh_stream_id = sid,
         fh_sequence = sequ, fh_payload_sha256 = sha256 H [raw]\<rparr> @ wire" (is "_ = header_bytes ?h @ _")
      and r: "sid \<noteq> 0" "length wire \<le> DATA_MAX_WIRE" "frame_payload H f raw" "wire_form feat f flags wire raw"
      unfolding wire_frame_def by blast
    show "\<exists>h wire rest. buf = header_bytes h @ wire @ rest \<and> n = 64 + length wire
      \<and> (\<exists>raw. h = \<lparr>fh_kind = frame_kind f, fh_flags = fh_flags h, fh_wire_len = of_nat (length wire),
        fh_raw_len = of_nat (length raw), fh_stream_id = fh_stream_id h, fh_sequence = fh_sequence h,
        fh_payload_sha256 = sha256 H [raw]\<rparr>
      \<and> fh_stream_id h \<noteq> 0 \<and> length wire \<le> DATA_MAX_WIRE \<and> frame_payload H f raw \<and> wire_form feat f (fh_flags h) wire raw)"
      using a b r assms(1)
      by (intro exI [of _ ?h] exI [of _ wire] exI [of _ rest] conjI exI [of _ raw]) (simp_all add: length_header_bytes)
  qed
  finally show ?thesis .
qed

lemma parse_frame_wire:
  "sha_ok H \<Longrightarrow> feat_ok feat \<Longrightarrow> wire_frame H feat sid sequ f b \<Longrightarrow> parse_frame H feat (b @ rest) = Ok (f, length b)"
  using parse_frame_Ok by blast

lemma clean_raw_limit [simp]: "clean (raw_limit kind)"
  by (simp add: raw_limit_def)

lemma clean_recover_payload: "feat_ok feat \<Longrightarrow> clean (recover_payload feat flags wire rl)"
  by (auto simp: recover_payload_def feat_ok_def clean_decompress_strict split: option.splits)

lemma clean_decode_payload [simp]: "clean (decode_payload H kind payload rl)"
  by (auto simp: decode_payload_def intro!: clean_and_then)

lemma clean_parse_frame: "feat_ok feat \<Longrightarrow> clean (parse_frame H feat buf)"
  by (auto simp: parse_frame_def HEADER_LEN_def checked_add_usize_def ok_or_eq_Inr split: if_splits
      intro!: clean_and_then clean_slice_of clean_at_index clean_recover_payload)

text \<open>What a parsed frame consumed.\<close>

lemma parse_frame_used: "parse_frame H feat buf = Ok (f, n) \<Longrightarrow> 64 \<le> n \<and> n \<le> length buf \<and> n \<le> 64 + DATA_MAX_WIRE"
  unfolding parse_frame_fields by (auto simp: length_header_bytes header_checks_def)

lemma wire_frame_length: "sha_ok H \<Longrightarrow> wire_frame H feat sid sequ f b \<Longrightarrow> 64 \<le> length b"
  by (auto simp: wire_frame_def length_header_bytes)

lemma wire_frame_header:
  assumes "sha_ok H" "wire_frame H feat sid sequ f b"
  shows "sub 20 4 (b @ rest) = le_bytes sid" "sub 24 8 (b @ rest) = le_bytes sequ" "64 \<le> length b"
proof -
  obtain h wire where b: "b = header_bytes h @ wire" "fh_stream_id h = sid" "fh_sequence h = sequ" "length (fh_payload_sha256 h) = 32"
    using assms unfolding wire_frame_def by fastforce
  then have "b @ rest = header_bytes h @ (wire @ rest)" by simp
  from header_parts [OF b(4) this] b show "sub 20 4 (b @ rest) = le_bytes sid" "sub 24 8 (b @ rest) = le_bytes sequ" "64 \<le> length b"
    by (simp_all add: length_header_bytes)
qed

lemma wire_frame_unique:
  assumes "sha_ok H" "feat_ok feat" "wire_frame H feat sid sequ f b" "wire_frame H feat sid' sequ' f' b'" "b @ r = b' @ r'"
  shows "f = f'" "b = b'" "r = r'" "sid = sid'" "sequ = sequ'"
proof -
  have "parse_frame H feat (b @ r) = Ok (f, length b)" using parse_frame_Ok [OF assms(1,2)] assms(3) by blast
  moreover have "parse_frame H feat (b @ r) = Ok (f', length b')"
    unfolding parse_frame_Ok [OF assms(1,2)] using assms(4,5) by blast
  ultimately have e: "f = f'" "length b = length b'" by simp_all
  then show "f = f'" "b = b'" "r = r'" using assms(5) by simp_all
  then show "sid = sid'" "sequ = sequ'"
    using wire_frame_header(1,2) [OF assms(1,3), of "[]"] wire_frame_header(1,2) [OF assms(1,4), of "[]"]
    by (simp_all add: le_bytes_inject)
qed

section \<open>The encoders against the specification\<close>

text \<open>The encoder of a frame of any kind, and of its compressed form; a caller picks the method of its
  payload type.\<close>

fun encode_frame :: "hash \<Rightarrow> frame \<Rightarrow> u32 \<Rightarrow> u64 \<Rightarrow> bytes res" where
  "encode_frame H (Frame_Meta p) sid sequ = meta_encode H p sid sequ"
| "encode_frame H (Frame_Object p) sid sequ = object_encode H p sid sequ"
| "encode_frame H (Frame_Chunk p) sid sequ = chunk_encode H p sid sequ"
| "encode_frame H (Frame_End p) sid sequ = Ok (end_encode H p sid sequ)"
| "encode_frame H (Frame_Error e) sid sequ = error_encode H e sid sequ"

fun encode_frame_zstd :: "'s zstd_lib \<Rightarrow> hash \<Rightarrow> frame \<Rightarrow> u32 \<Rightarrow> u64 \<Rightarrow> bytes res" where
  "encode_frame_zstd Z H (Frame_Meta p) sid sequ = meta_encode_zstd Z H p sid sequ"
| "encode_frame_zstd Z H (Frame_Object p) sid sequ = object_encode_zstd Z H p sid sequ"
| "encode_frame_zstd Z H (Frame_Chunk p) sid sequ = chunk_encode_zstd Z H p sid sequ"
| "encode_frame_zstd Z H f sid sequ = encode_frame H f sid sequ"

text \<open>A frame the parser can return, whose error text fits in its writer's form.\<close>

fun frame_wf :: "hash \<Rightarrow> frame \<Rightarrow> bool" where
  "frame_wf H (Frame_Meta p) \<longleftrightarrow> meta_wf H p"
| "frame_wf H (Frame_Object p) \<longleftrightarrow> object_wf H p"
| "frame_wf H (Frame_Chunk p) \<longleftrightarrow> chunk_wf p"
| "frame_wf H (Frame_End p) \<longleftrightarrow> end_wf p"
| "frame_wf H (Frame_Error e) \<longleftrightarrow> is_utf8 (err_code e) \<and> is_utf8 (request_id e) \<and> length (error_json e) \<le> 4096"

fun frame_raw :: "frame \<Rightarrow> bytes" where
  "frame_raw (Frame_Meta p) = meta_raw p"
| "frame_raw (Frame_Object p) = object_raw p"
| "frame_raw (Frame_Chunk p) = chunk_raw p"
| "frame_raw (Frame_End p) = end_raw p"
| "frame_raw (Frame_Error e) = error_json e"

lemma frame_wf_payload: "frame_wf H f \<Longrightarrow> frame_payload H f (frame_raw f)"
  by (cases f) (simp_all add: error_json_text error_json_utf8)

text \<open>Which frames the encoders accept: META and OBJECT values less strictly than the decoders.\<close>

fun frame_encodable :: "hash \<Rightarrow> frame \<Rightarrow> bool" where
  "frame_encodable H (Frame_Meta p) \<longleftrightarrow> meta_encodable H p"
| "frame_encodable H (Frame_Object p) \<longleftrightarrow> object_encodable H p"
| "frame_encodable H (Frame_Chunk p) \<longleftrightarrow> length (cp_chunk_bytes p) \<le> 1048576"
| "frame_encodable H (Frame_End p) \<longleftrightarrow> True"
| "frame_encodable H (Frame_Error e) \<longleftrightarrow> length (error_json e) \<le> 4096"

lemma encode_frame_Ok:
  "encode_frame H f sid sequ = Ok b \<longleftrightarrow>
     frame_encodable H f \<and> b = frame_bytes H (frame_kind f) (frame_raw f) sid sequ"
  by (cases f) (auto simp: meta_encode_def object_encode_def chunk_encode_def end_encode_def error_encode_def
      and_then_eq_Inr if_eq_Inr_Err meta_encode_payload_Ok object_encode_payload_Ok Let_def ERROR_MAX_BYTES_def
      chunk_raw_def write_defs not_less)

lemma frame_wf_encodable: "sha_ok H \<Longrightarrow> frame_wf H f \<Longrightarrow> frame_encodable H f"
  by (cases f) (auto simp: meta_wf_encodable object_wf_encodable chunk_wf_def)

lemma encode_frame_zstd_Ok:
  assumes "\<not> terminal f"
  shows "encode_frame_zstd Z H f sid sequ = Ok b \<longleftrightarrow>
     frame_encodable H f \<and> frame_bytes_zstd Z H (frame_kind f) (frame_raw f) sid sequ = Ok b"
proof (cases f)
  case (Frame_Meta p)
  then show ?thesis
    by (auto simp: meta_encode_zstd_def meta_encode_def and_then_eq_Inr meta_encode_payload_Ok meta_raw_payload_eq)
next
  case (Frame_Object p)
  then show ?thesis
    by (auto simp: object_encode_zstd_def object_encode_def and_then_eq_Inr object_encode_payload_Ok
        object_encodable_raw_payload)
next
  case (Frame_Chunk p)
  then show ?thesis by (auto simp: chunk_encode_zstd_def if_eq_Inr_Err Let_def)
qed (use assms in simp_all)

lemma frame_bytes_wire:
  assumes "frame_payload H f raw" "sid \<noteq> 0"
  shows "wire_frame H feat sid sequ f (frame_bytes H (frame_kind f) raw sid sequ)"
  unfolding wire_frame_def using assms frame_payload_bound [OF assms(1)]
  by (intro exI [of _ 0] exI [of _ raw]) (simp add: frame_bytes_def header_eq wire_form_def DATA_MAX_WIRE_def Let_def)

text \<open>The parser on the bytes of a header, errors included.\<close>

lemma parse_header:
  assumes "length dg = 32"
  shows "parse_frame H feat (header kind flags wl rl sid sequ dg @ rest) =
    (if flags AND NOT FLAG_ZSTD \<noteq> 0 then Err (BadConstant ''unknown frame flags'') else
     if sid = 0 then Err (BadConstant ''stream_id must be non-zero'') else
     if (kind = KIND_END \<or> kind = KIND_ERROR) \<and> flags AND FLAG_ZSTD \<noteq> 0 then Err (BadConstant ''END/ERROR must not be compressed'') else
     if flags AND FLAG_ZSTD = 0 \<and> wl \<noteq> rl then Err (BadLength ''identity encoding requires wire_len == raw_len'') else
     and_then (raw_limit kind) (\<lambda>limit.
     if unat rl > limit \<or> unat wl > DATA_MAX_WIRE then Err (BadLength ''frame payload exceeds kind limit'') else
     if length rest < unat wl then Err (Truncated ''frame payload'') else
     and_then (recover_payload feat flags (take (unat wl) rest) rl) (\<lambda>payload.
     if sha256 H [payload] \<noteq> dg then Err (DigestMismatch ''frame raw payload'') else
     and_then (decode_payload H kind payload rl) (\<lambda>frame. Ok (frame, 64 + unat wl)))))"
proof -
  let ?h = "\<lparr>fh_kind = kind, fh_flags = flags, fh_wire_len = wl, fh_raw_len = rl, fh_stream_id = sid, fh_sequence = sequ, fh_payload_sha256 = dg\<rparr>"
  obtain buf where buf: "buf = header_bytes ?h @ rest" by blast
  have len: "length buf = 64 + length rest" using assms by (simp add: buf length_header_bytes)
  note parts = header_parts [OF _ buf, simplified, OF assms]
  have "unat wl < 2 ^ 32" using unsigned_less [where ?'a = nat, of wl] by simp
  then have small: "64 + unat wl < 2 ^ 64" by simp
  have "slice_of buf 64 (64 + unat wl) = (Ok (take (unat wl) rest) :: bytes res)" if "\<not> length rest < unat wl"
    using that assms by (simp add: slice_of_def sub_def buf length_header_bytes header_bytes_def)
  then show ?thesis
    unfolding header_eq buf [symmetric] using len small parts
    by (simp add: parse_frame_def HEADER_LEN_def FRAME_VERSION_def slice_of_def at_index_def read_u16_eq_Ok [THEN iffD2] read_u32_eq_Ok [THEN iffD2] read_u64_eq_Ok [THEN iffD2] checked_add_usize_def cong: if_cong)
qed

text \<open>The documented bound of the compressor's output.\<close>

definition zstd_bounded :: "'s zstd_lib \<Rightarrow> bool" where
  "zstd_bounded Z \<longleftrightarrow> (\<forall>p level w. z_compress Z p level = Some w \<longrightarrow> length w \<le> length p + length p div 256 + 64)"

lemma frame_bytes_zstd_parts:
  assumes "sha_ok H" "frame_payload H f raw" "zstd_bounded Z" "frame_bytes_zstd Z H (frame_kind f) raw sid sequ = Ok b"
  obtains wire where "zstd_compress Z raw 3 = Ok wire" "drop 64 b = wire" "length wire \<le> DATA_MAX_WIRE"
    "b = header (frame_kind f) FLAG_ZSTD (of_nat (length wire)) (of_nat (length raw)) sid sequ (sha256 H [raw]) @ wire"
proof -
  from assms(4) obtain wire where w: "zstd_compress Z raw 3 = Ok wire"
    "b = header (frame_kind f) FLAG_ZSTD (of_nat (length wire)) (of_nat (length raw)) sid sequ (sha256 H [raw]) @ wire"
    by (auto simp: frame_bytes_zstd_def and_then_eq_Inr Let_def)
  have len: "length raw \<le> 1048652" using frame_payload_bound [OF assms(2)] .
  have "length wire \<le> length raw + length raw div 256 + 64"
    using w(1) assms(3) by (auto simp: zstd_compress_def ok_or_eq_Inr zstd_bounded_def)
  also have "\<dots> \<le> 1048652 + 1048652 div 256 + 64" using len div_le_mono [OF len, of 256] by linarith
  finally have "length wire \<le> DATA_MAX_WIRE" by (simp add: DATA_MAX_WIRE_def)
  moreover have "drop 64 b = wire" using assms(1) by (simp add: w(2) header_eq length_header_bytes)
  ultimately show thesis using w that by blast
qed

lemma frame_bytes_zstd_wire:
  assumes "sha_ok H" "frame_payload H f raw" "sid \<noteq> 0" "\<not> terminal f" "zstd_ok Z" "zstd_documented Z" "zstd_bounded Z"
    "frame_bytes_zstd Z H (frame_kind f) raw sid sequ = Ok b" "ends_promptly Z (drop 64 b) raw"
  shows "wire_frame H (Some Z) sid sequ f b"
proof -
  obtain wire where w: "zstd_compress Z raw 3 = Ok wire" "drop 64 b = wire" "length wire \<le> DATA_MAX_WIRE"
    "b = header (frame_kind f) FLAG_ZSTD (of_nat (length wire)) (of_nat (length raw)) sid sequ (sha256 H [raw]) @ wire"
    by (rule frame_bytes_zstd_parts [OF assms(1,2,7,8)])
  have "decompress_strict Z wire (length raw) = Ok raw"
    using decompress_zstd_compress [OF assms(5,6) w(1)] frame_payload_bound [OF assms(2)] assms(9) w(2)
    by (simp add: MAX_RAW_PAYLOAD_def)
  with assms(2-4) w show ?thesis
    unfolding wire_frame_def by (intro exI [of _ FLAG_ZSTD] exI [of _ wire] exI [of _ raw]) (simp add: header_eq wire_form_def)
qed

lemma frame_bytes_zstd_refused:
  assumes "sha_ok H" "frame_payload H f raw" "sid \<noteq> 0" "\<not> terminal f" "zstd_ok Z" "zstd_documented Z" "zstd_bounded Z"
    "frame_bytes_zstd Z H (frame_kind f) raw sid sequ = Ok b" "\<not> ends_promptly Z (drop 64 b) raw"
  shows "parse_frame H (Some Z) (b @ rest) = Err (BadLength ''zstd output exceeds header raw_len'')"
proof -
  obtain wire where w: "zstd_compress Z raw 3 = Ok wire" "drop 64 b = wire" "length wire \<le> DATA_MAX_WIRE"
    "b = header (frame_kind f) FLAG_ZSTD (of_nat (length wire)) (of_nat (length raw)) sid sequ (sha256 H [raw]) @ wire"
    by (rule frame_bytes_zstd_parts [OF assms(1,2,7,8)])
  have len: "length raw \<le> 1048652" using frame_payload_bound [OF assms(2)] .
  then have ur: "unat (of_nat (length raw) :: u32) = length raw" by (intro unat_u32_of_nat) simp
  have uw: "unat (of_nat (length wire) :: u32) = length wire" using w(3) by (intro unat_u32_of_nat) (simp add: DATA_MAX_WIRE_def)
  obtain limit where lim: "raw_limit (frame_kind f) = Ok limit" "length raw \<le> limit"
    using frame_payload_limit [OF assms(2)] by auto
  have fz: "FLAG_ZSTD AND NOT FLAG_ZSTD = 0" "FLAG_ZSTD AND FLAG_ZSTD \<noteq> 0" by (simp_all add: FLAG_ZSTD_def)
  have "decompress_strict Z wire (length raw) = Err (BadLength ''zstd output exceeds header raw_len'')"
    using decompress_zstd_compress [OF assms(5,6) w(1)] len assms(9) w(2) by (simp add: MAX_RAW_PAYLOAD_def)
  then have "recover_payload (Some Z) FLAG_ZSTD wire (of_nat (length raw)) = Err (BadLength ''zstd output exceeds header raw_len'')"
    using fz by (simp add: recover_payload_def ur)
  moreover have "length (sha256 H [raw]) = 32" using assms(1) by simp
  ultimately show ?thesis
    using w(3) assms(3,4) fz lim by (simp add: w(4) parse_header ur uw terminal_kind not_less [symmetric])
qed

lemma encode_frame_wire:
  assumes "sha_ok H" "frame_wf H f" "sid \<noteq> 0"
  obtains b where "encode_frame H f sid sequ = Ok b" "wire_frame H feat sid sequ f b"
proof (rule that)
  show "encode_frame H f sid sequ = Ok (frame_bytes H (frame_kind f) (frame_raw f) sid sequ)"
    using frame_wf_encodable [OF assms(1,2)] by (simp add: encode_frame_Ok)
  show "wire_frame H feat sid sequ f (frame_bytes H (frame_kind f) (frame_raw f) sid sequ)"
    using frame_wf_payload [OF assms(2)] assms(3) by (rule frame_bytes_wire)
qed

text \<open>A frame that travels uncompressed, other than an ERROR, is the encoding of the value it carries.\<close>

lemma identity_frame_canonical:
  assumes "sha_ok H" "wire_frame H feat sid sequ f b" "b ! 7 = 0" "frame_kind f \<noteq> KIND_ERROR"
  shows "encode_frame H f sid sequ = Ok b"
proof -
  obtain flags wire raw where b: "b = header_bytes \<lparr>fh_kind = frame_kind f, fh_flags = flags,
         fh_wire_len = of_nat (length wire), fh_raw_len = of_nat (length raw), fh_stream_id = sid,
         fh_sequence = sequ, fh_payload_sha256 = sha256 H [raw]\<rparr> @ wire"
    and p: "frame_payload H f raw" "wire_form feat f flags wire raw"
    using assms(2) unfolding wire_frame_def by blast
  have "flags = 0" using header_parts(4) [OF _ b] assms(1,3) by simp
  then have w: "wire = raw" "raw = frame_raw f" "frame_wf H f"
    using p assms(4) by (cases f; simp add: wire_form_def FLAG_ZSTD_def)+
  then have "frame_encodable H f" using frame_wf_encodable [OF assms(1)] by simp
  with b w \<open>flags = 0\<close> show ?thesis by (simp add: encode_frame_Ok frame_bytes_def header_eq Let_def)
qed

text \<open>Reading before the place where a buffer was cut.\<close>

lemma sub_take: "a + n \<le> m \<Longrightarrow> sub a n (take m xs) = sub a n xs"
  by (simp add: sub_def drop_take min_def)

lemma read_take:
  "off + 2 \<le> m \<Longrightarrow> m \<le> length buf \<Longrightarrow> read_u16 (take m buf) off = read_u16 buf off"
  "off + 4 \<le> m \<Longrightarrow> m \<le> length buf \<Longrightarrow> read_u32 (take m buf) off = read_u32 buf off"
  "off + 8 \<le> m \<Longrightarrow> m \<le> length buf \<Longrightarrow> read_u64 (take m buf) off = read_u64 buf off"
  by (simp_all add: read_u16_def read_u32_def read_u64_def get_range_def sub_take)

lemma slice_take: "b \<le> m \<Longrightarrow> m \<le> length buf \<Longrightarrow> slice_of (take m buf) a b = slice_of buf a b"
  by (auto simp: slice_of_def sub_take)

lemma at_take: "i < m \<Longrightarrow> m \<le> length buf \<Longrightarrow> at_index (take m buf) i = at_index buf i"
  by (auto simp: at_index_def)

lemma parse_frame_cut:
  assumes "parse_frame H feat buf = Ok (f, n)" "m < n"
  shows "parse_frame H feat (take m buf) = Err (Truncated (if m < 64 then ''frame header'' else ''frame payload''))"
proof -
  have n: "n \<le> length buf" using parse_frame_used assms(1) by blast
  show ?thesis
  proof (cases "m < 64")
    case True
    then show ?thesis using assms(2) n by (simp add: parse_frame_def HEADER_LEN_def)
  next
    case False
    then have m: "64 \<le> m" "m \<le> length buf" using assms(2) n by simp_all
    have r: "read_u16 (take m buf) 4 = read_u16 buf 4" "read_u32 (take m buf) 8 = read_u32 buf 8" "read_u32 (take m buf) 12 = read_u32 buf 12"
      "read_u32 (take m buf) 16 = read_u32 buf 16" "read_u32 (take m buf) 20 = read_u32 buf 20" "read_u64 (take m buf) 24 = read_u64 buf 24"
      "at_index (take m buf) 6 = (at_index buf 6 :: u8 res)" "at_index (take m buf) 7 = (at_index buf 7 :: u8 res)"
      "slice_of (take m buf) 0 4 = (slice_of buf 0 4 :: bytes res)" "slice_of (take m buf) 32 64 = (slice_of buf 32 64 :: bytes res)"
      using m by (simp_all add: read_take slice_take at_take)
    have l: "length (take m buf) = m" using m by simp
    show ?thesis
      using assms m(1) unfolding parse_frame_def r l
      by (auto simp: and_then_eq_Inr ok_or_eq_Inr if_eq_Inr_Err HEADER_LEN_def)
  qed
qed

section \<open>Properties\<close>

text \<open>C3. The parser of a frame agrees with the specification of frames: it returns a frame and a length
  exactly when the buffer begins with the wire form of that frame, of that length: the header with a
  non-zero stream id, a payload within the limits of its kind whose digest is the one of the header, in
  the canonical layout of its kind (for an ERROR: any text of the grammar), as it is or, where the kind
  allows it, compressed.\<close>

theorem parse_frame_exact:
  assumes "sha_ok H" "feat_ok feat"
  shows "parse_frame H feat buf = Ok (f, n) \<longleftrightarrow>
    (\<exists>b rest sid sequ. buf = b @ rest \<and> n = length b \<and> wire_frame H feat sid sequ f b)"
  by (rule parse_frame_Ok [OF assms])

definition zero_hash :: hash where "zero_hash = (\<lambda>_. replicate 32 0)"

lemma zero_hash_ok [simp]: "sha_ok zero_hash"
  by (simp add: sha_ok_def zero_hash_def)

definition sample_end :: frame where
  "sample_end = Frame_End \<lparr>ep_request_item_count = 3, ep_unique_unit_count = 2, ep_logical_bytes = 70000,
     ep_request_body_sha256 = replicate 32 7\<rparr>"

lemma sample_end_wf: "frame_wf H sample_end"
  by (simp add: sample_end_def end_wf_def)

lemma feat_ok_samples [simp]: "feat_ok (None :: 's zstd_lib option)" "feat_ok (Some stored_zstd)"
  by (simp_all add: feat_ok_def stored_zstd_ok)

lemma parse_frame_exact_witness:
  "\<exists>b. parse_frame zero_hash (None :: unit zstd_lib option) (b @ [1, 2, 3]) = Ok (sample_end, length b)"
proof -
  obtain b where b: "wire_frame zero_hash (None :: unit zstd_lib option) 42 0 sample_end b"
    by (rule encode_frame_wire [OF zero_hash_ok sample_end_wf, of 42 0 "None :: unit zstd_lib option"]) simp_all
  then have "\<exists>b' rest sid sequ. b @ [1, 2, 3] = b' @ rest \<and> length b = length b'
      \<and> wire_frame zero_hash (None :: unit zstd_lib option) sid sequ sample_end b'" by blast
  with parse_frame_exact [of zero_hash "None :: unit zstd_lib option" "b @ [1, 2, 3]" sample_end "length b"]
  show ?thesis by auto
qed

text \<open>C26. A frame that was cut short is reported as truncated, at the header or at the payload, and as nothing
  else: a receiver that sees any other error knows that waiting for more bytes is of no use.\<close>

theorem parse_frame_truncated:
  assumes "parse_frame H feat buf = Ok (f, n)" "m < n"
  shows "parse_frame H feat (take m buf) = Err (Truncated (if m < 64 then ''frame header'' else ''frame payload''))"
  by (rule parse_frame_cut [OF assms])

lemma parse_frame_truncated_witness:
  "\<exists>b. parse_frame zero_hash (None :: unit zstd_lib option) b = Ok (sample_end, length b)
     \<and> parse_frame zero_hash (None :: unit zstd_lib option) (take 63 b) = Err (Truncated ''frame header'')"
proof -
  obtain b where "wire_frame zero_hash (None :: unit zstd_lib option) 42 0 sample_end b"
    by (rule encode_frame_wire [OF zero_hash_ok sample_end_wf, of 42 0 "None :: unit zstd_lib option"]) simp_all
  then have p: "parse_frame zero_hash (None :: unit zstd_lib option) b = Ok (sample_end, length b)"
    using parse_frame_wire [of zero_hash "None :: unit zstd_lib option" 42 0 sample_end b "[]"] by simp
  moreover have "63 < length b" using parse_frame_used [OF p] by simp
  ultimately show ?thesis using parse_frame_truncated [OF p, of 63] by auto
qed

text \<open>Parsing arbitrary bytes as a frame never panics and never loops, in the build with compression and
  in the build without.\<close>

theorem parse_frame_clean:
  assumes "feat_ok feat"
  shows "clean (parse_frame H feat buf)"
  by (rule clean_parse_frame [OF assms])

lemma parse_frame_clean_witness: "clean (parse_frame zero_hash (Some stored_zstd) (replicate 70 255))"
  by (rule parse_frame_clean) simp

text \<open>C28. Every frame the parser returns keeps the rules of its type: identities of 32 bytes that are the
  digests of what they name, no identity twice, counts and sizes within the limits of the kind, and strings
  that are valid UTF-8.\<close>

fun frame_valid :: "hash \<Rightarrow> frame \<Rightarrow> bool" where
  "frame_valid H (Frame_Error e) \<longleftrightarrow> is_utf8 (err_code e) \<and> is_utf8 (request_id e)"
| "frame_valid H f \<longleftrightarrow> frame_wf H f"

theorem parsed_frame_valid:
  assumes "sha_ok H" "feat_ok feat"
  shows "good (\<lambda>(f, n). frame_valid H f) (parse_frame H feat buf)"
proof -
  have "frame_valid H f" if p: "parse_frame H feat buf = Ok (f, n)" for f n
  proof -
    obtain raw where "frame_payload H f raw" using p unfolding parse_frame_Ok [OF assms] by (auto simp: wire_frame_def)
    moreover have "is_utf8 (err_code e) \<and> is_utf8 (request_id e)" if "is_utf8 raw" "error_text raw e" for e
      using goodD [OF parse_error_json_good] parse_error_json_grammar [OF that(1), of e] that(2) by blast
    ultimately show ?thesis by (cases f) auto
  qed
  then show ?thesis using clean_parse_frame [OF assms(2)] by (auto intro: goodI)
qed

text \<open>A frame is read from at least 64 and at most 2 MiB and 64 bytes, all of them within the buffer.\<close>

theorem parse_frame_length:
  "good (\<lambda>(f, n). 64 \<le> n \<and> n \<le> length buf \<and> n \<le> 64 + 2 * 1024 * 1024) (parse_frame H None buf)"
  using clean_parse_frame [of None H buf] parse_frame_used [of H None buf]
  by (auto simp: feat_ok_def DATA_MAX_WIRE_def intro!: goodI)

text \<open>What the encoders write for a well-formed frame, under any non-zero stream id and any sequence
  number, the parser reads back, whatever follows it in the buffer.\<close>

theorem frame_roundtrip:
  assumes "sha_ok H" "feat_ok feat" "frame_wf H f" "sid \<noteq> 0"
  shows "\<exists>b. encode_frame H f sid sequ = Ok b \<and> parse_frame H feat (b @ rest) = Ok (f, length b)"
proof -
  obtain b where "encode_frame H f sid sequ = Ok b" "wire_frame H feat sid sequ f b"
    by (rule encode_frame_wire [OF assms(1,3,4)])
  with parse_frame_Ok [OF assms(1,2)] show ?thesis by blast
qed

definition sample_object :: frame where
  "sample_object = Frame_Object \<lparr>op_objects = [(replicate 32 0, [1, 2, 3])]\<rparr>"

lemma sample_object_wf: "frame_wf zero_hash sample_object"
  by (simp add: sample_object_def object_wf_def object_raw_def zero_hash_def sha256_def)

lemma frame_roundtrip_witness:
  "\<exists>b. encode_frame zero_hash sample_object 7 1 = Ok b
     \<and> parse_frame zero_hash (None :: unit zstd_lib option) (b @ [9]) = Ok (sample_object, length b)"
  by (rule frame_roundtrip) (simp_all add: sample_object_wf)

text \<open>C25. The compressed encoding of a META, OBJECT or CHUNK frame, whatever follows it: the parser returns the same
  frame as for the plain encoding and consumes exactly the encoding, or, if the library fills the output of the
  payload before it reports the end of its frame, which its documentation allows, refuses it as too long. Nothing
  else is assumed of the library than what it documents of its frames, their bound and its calls.\<close>

theorem frame_roundtrip_zstd:
  assumes "sha_ok H" "zstd_ok Z" "zstd_documented Z" "zstd_bounded Z" "frame_wf H f" "\<not> terminal f" "sid \<noteq> 0"
    "encode_frame_zstd Z H f sid sequ = Ok b"
  shows "parse_frame H (Some Z) (b @ rest) =
    (if ends_promptly Z (drop 64 b) (frame_raw f) then Ok (f, length b)
     else Err (BadLength ''zstd output exceeds header raw_len''))"
proof -
  have b: "frame_bytes_zstd Z H (frame_kind f) (frame_raw f) sid sequ = Ok b"
    using assms(8) by (simp add: encode_frame_zstd_Ok [OF assms(6)])
  note args = assms(1) frame_wf_payload [OF assms(5)] assms(7,6,2,3,4) b
  have "feat_ok (Some Z)" using assms(2) by (simp add: feat_ok_def)
  then have "parse_frame H (Some Z) (b @ rest) = Ok (f, length b)" if "ends_promptly Z (drop 64 b) (frame_raw f)"
    using frame_bytes_zstd_wire [OF args that] parse_frame_Ok [OF assms(1), of "Some Z"] by auto
  moreover have "parse_frame H (Some Z) (b @ rest) = Err (BadLength ''zstd output exceeds header raw_len'')"
    if "\<not> ends_promptly Z (drop 64 b) (frame_raw f)"
    by (rule frame_bytes_zstd_refused [OF args that])
  ultimately show ?thesis by simp
qed

text \<open>The sample frame under both libraries.\<close>

lemma zstd_bounded_samples: "zstd_bounded stored_zstd" "zstd_bounded slow_zstd"
  by (auto simp: zstd_bounded_def stored_zstd_def slow_zstd_def ZSTD_MAGIC_def)

lemma sample_compressed:
  assumes "z_compress Z (frame_raw sample_object) 3 = Some w"
  obtains b where "encode_frame_zstd Z zero_hash sample_object 7 1 = Ok b" "drop 64 b = w"
proof -
  have t: "\<not> terminal sample_object" by (simp add: sample_object_def)
  obtain b where b: "b = header (frame_kind sample_object) FLAG_ZSTD (of_nat (length w)) (of_nat (length (frame_raw sample_object)))
      7 1 (sha256 zero_hash [frame_raw sample_object]) @ w" by blast
  have "frame_bytes_zstd Z zero_hash (frame_kind sample_object) (frame_raw sample_object) 7 1 = Ok b"
    using assms by (simp add: b frame_bytes_zstd_def zstd_compress_def Let_def)
  then have "encode_frame_zstd Z zero_hash sample_object 7 1 = Ok b"
    unfolding encode_frame_zstd_Ok [OF t] using frame_wf_encodable [OF zero_hash_ok sample_object_wf] by blast
  moreover have "length (sha256 zero_hash [frame_raw sample_object]) = 32" using zero_hash_ok by simp
  then have "drop 64 b = w" by (simp add: b header_eq length_header_bytes)
  ultimately show thesis by (rule that)
qed

lemma frame_roundtrip_zstd_witness:
  "(\<exists>b. encode_frame_zstd stored_zstd zero_hash sample_object 7 1 = Ok b
     \<and> parse_frame zero_hash (Some stored_zstd) (b @ [9]) = Ok (sample_object, length b)) \<and>
   (\<exists>b. encode_frame_zstd slow_zstd zero_hash sample_object 7 1 = Ok b
     \<and> parse_frame zero_hash (Some slow_zstd) (b @ [9]) = Err (BadLength ''zstd output exceeds header raw_len''))"
proof
  let ?p = "frame_raw sample_object"
  have t: "\<not> terminal sample_object" by (simp add: sample_object_def)
  have l: "length ?p < 256" by (simp add: sample_object_def object_raw_def)
  then have c: "z_compress stored_zstd ?p 3 = Some (ZSTD_MAGIC @ [0x20, of_nat (length ?p)] @ ?p)"
    "z_compress slow_zstd ?p 3 = Some (ZSTD_MAGIC @ [0x20, of_nat (length ?p)] @ ?p @ [0])"
    by (simp_all add: stored_zstd_def slow_zstd_def)
  obtain b where b: "encode_frame_zstd stored_zstd zero_hash sample_object 7 1 = Ok b" by (rule sample_compressed [OF c(1)])
  from frame_roundtrip_zstd [OF zero_hash_ok stored_zstd_ok stored_documented zstd_bounded_samples(1) sample_object_wf t _ b]
  have "parse_frame zero_hash (Some stored_zstd) (b @ [9]) = Ok (sample_object, length b)" by (simp add: stored_prompt)
  with b show "\<exists>b. encode_frame_zstd stored_zstd zero_hash sample_object 7 1 = Ok b
     \<and> parse_frame zero_hash (Some stored_zstd) (b @ [9]) = Ok (sample_object, length b)" by blast
  obtain v where v: "encode_frame_zstd slow_zstd zero_hash sample_object 7 1 = Ok v"
    "drop 64 v = ZSTD_MAGIC @ [0x20, of_nat (length ?p)] @ ?p @ [0]"
    by (rule sample_compressed [OF c(2)])
  have "\<not> ends_promptly slow_zstd (drop 64 v) ?p" unfolding v(2) by (rule slow_not_prompt [OF l])
  with frame_roundtrip_zstd [OF zero_hash_ok slow_zstd_ok slow_documented zstd_bounded_samples(2) sample_object_wf t _ v(1)]
  have "parse_frame zero_hash (Some slow_zstd) (v @ [9]) = Err (BadLength ''zstd output exceeds header raw_len'')" by simp
  with v(1) show "\<exists>b. encode_frame_zstd slow_zstd zero_hash sample_object 7 1 = Ok b
     \<and> parse_frame zero_hash (Some slow_zstd) (b @ [9]) = Err (BadLength ''zstd output exceeds header raw_len'')" by blast
qed

text \<open>An uncompressed META, OBJECT, CHUNK or END frame has one encoding: the bytes the parser consumed are
  what the encoder writes for the frame it returned, under some stream id and sequence number.\<close>

theorem parsed_frame_canonical:
  assumes "sha_ok H" "feat_ok feat" "parse_frame H feat buf = Ok (f, n)" "buf ! 7 = 0" "frame_kind f \<noteq> KIND_ERROR"
  shows "\<exists>sid sequ. encode_frame H f sid sequ = Ok (take n buf)"
proof -
  obtain b rest sid sequ where b: "buf = b @ rest" "n = length b" "wire_frame H feat sid sequ f b"
    using assms(3) unfolding parse_frame_Ok [OF assms(1,2)] by blast
  then have "b ! 7 = 0" using assms(4) wire_frame_length [OF assms(1) b(3)] by (simp add: nth_append)
  with identity_frame_canonical [OF assms(1) b(3) _ assms(5)] b show ?thesis by auto
qed

text \<open>The bytes of the END frame of the examples.\<close>

lemma sample_end_bytes:
  obtains b where "parse_frame zero_hash (None :: unit zstd_lib option) b = Ok (sample_end, length b)" "b ! 7 = 0" "length b = 112"
proof -
  let ?b = "frame_bytes zero_hash KIND_END (frame_raw sample_end) 5 6"
  have f: "frame_payload zero_hash sample_end (frame_raw sample_end)" using frame_wf_payload sample_end_wf by blast
  have k: "frame_kind sample_end = KIND_END" by (simp add: sample_end_def)
  have p: "parse_frame zero_hash (None :: unit zstd_lib option) ?b = Ok (sample_end, length ?b)"
    using parse_frame_wire [OF zero_hash_ok feat_ok_samples(1) frame_bytes_wire [OF f, of 5 _ 6], of "[]"] by (simp add: k)
  have z: "?b ! 7 = 0" by (simp add: frame_bytes_def header_eq header_bytes_def nth_append Let_def)
  have l: "length ?b = 112"
    by (simp add: frame_bytes_def header_eq length_header_bytes Let_def sample_end_def end_raw_def)
  from that [OF p z l] show thesis .
qed

lemma parsed_frame_valid_witness:
  "\<exists>b. parse_frame zero_hash (None :: unit zstd_lib option) b = Ok (sample_end, 112) \<and> frame_valid zero_hash sample_end"
proof -
  obtain b where b: "parse_frame zero_hash (None :: unit zstd_lib option) b = Ok (sample_end, length b)" "length b = 112"
    by (rule sample_end_bytes)
  from goodD [OF parsed_frame_valid [OF zero_hash_ok feat_ok_samples(1)] b(1)] b show ?thesis by auto
qed

lemma parsed_frame_canonical_witness:
  "\<exists>b sid sequ. encode_frame zero_hash sample_end sid sequ = Ok (take (length b) b) \<and> length b = 112"
proof -
  obtain b where b: "parse_frame zero_hash (None :: unit zstd_lib option) b = Ok (sample_end, length b)" "b ! 7 = 0" "length b = 112"
    by (rule sample_end_bytes)
  have k: "frame_kind sample_end \<noteq> KIND_ERROR" by (simp add: sample_end_def)
  from parsed_frame_canonical [OF zero_hash_ok feat_ok_samples(1) b(1,2) k] b(3) show ?thesis by blast
qed

text \<open>The encoder of META frames writes a frame with a page twice, which the parser refuses.\<close>

definition twice :: meta_payload where
  "twice = \<lparr>mp_pages = [(replicate 32 0, [1]), (replicate 32 0, [1])]\<rparr>"

lemma parse_identity_frame:
  assumes "sha_ok H" "parse_frame H feat (frame_bytes H kind raw sid sequ) = Ok (f, n)" "length raw < 2 ^ 32"
  shows "decode_payload H kind raw (of_nat (length raw)) = Ok f"
proof -
  let ?b = "frame_bytes H kind raw sid sequ"
  let ?h = "\<lparr>fh_kind = kind, fh_flags = 0, fh_wire_len = of_nat (length raw), fh_raw_len = of_nat (length raw),
    fh_stream_id = sid, fh_sequence = sequ, fh_payload_sha256 = sha256 H [raw]\<rparr>"
  obtain h wire rest where b: "?b = header_bytes h @ wire @ rest" "length (fh_payload_sha256 h) = 32"
    "length wire = unat (fh_wire_len h)" "header_checks H feat h wire f"
    using assms(2) unfolding parse_frame_fields by blast
  have bb: "?b = header_bytes ?h @ raw" by (simp add: frame_bytes_def header_eq Let_def)
  have hl: "length (fh_payload_sha256 ?h) = 32" using assms(1) by simp
  have same: "fh_kind h = kind" "fh_flags h = 0" "fh_wire_len h = of_nat (length raw)" "fh_raw_len h = of_nat (length raw)"
    using header_parts [OF b(2,1)] header_parts [OF hl bb] by (simp_all add: le_bytes_inject)
  have "length wire = length raw" using b(3) same(3) assms(3) by (simp add: unat_u32_of_nat)
  moreover have "length (header_bytes h) = length (header_bytes ?h)" using b(2) hl by (simp add: length_header_bytes)
  moreover have "header_bytes h @ wire @ rest = header_bytes ?h @ raw" using b(1) bb by (simp only:)
  ultimately have "wire = raw" by (metis append_eq_append_conv append_eq_conv_conj take_all_iff order_refl)
  with b(4) same show ?thesis by (auto simp: header_checks_def recover_payload_def)
qed

lemma decode_meta_twice: "decode_meta zero_hash (meta_raw twice) \<noteq> Ok p"
proof
  assume "decode_meta zero_hash (meta_raw twice) = Ok p"
  then have w: "meta_wf zero_hash p" "meta_raw twice = meta_raw p" by (simp_all add: decode_meta_Ok)
  have s: "sub 0 2 (meta_raw q) = le_bytes (of_nat (length (mp_pages q)) :: u16)" for q by (simp add: meta_raw_def sub_def)
  have "(of_nat (length (mp_pages twice)) :: u16) = of_nat (length (mp_pages p))"
    using s [of twice] s [of p] w(2) by (simp only: le_bytes_inject)
  moreover have l: "length (mp_pages p) < 2 ^ 16" "length (mp_pages twice) = 2" "(2::nat) < 2 ^ 16"
    using w(1) by (simp_all add: meta_wf_def twice_def)
  ultimately have "length (mp_pages p) = 2" using unat_u16_of_nat [OF l(1)] unat_u16_of_nat [OF l(3)] by (simp only:)
  then obtain x y where "mp_pages p = [x, y]" by (auto simp: length_Suc_conv numeral_2_eq_2)
  with w(1) show False by (cases x; cases y) (simp add: meta_wf_def page_id_def sha256_def zero_hash_def)
qed

lemma meta_encoder_writes_duplicates:
  "\<exists>b. meta_encode zero_hash twice 1 0 = Ok b \<and> \<not> is_ok (parse_frame zero_hash (None :: unit zstd_lib option) b)"
proof -
  have l: "length (meta_raw twice) = 78" by (simp add: meta_raw_def twice_def page_row_def)
  have "frame_encodable zero_hash (Frame_Meta twice)"
    using l by (simp add: meta_encodable_def) (simp add: twice_def page_id_def sha256_def zero_hash_def)
  then have e: "encode_frame zero_hash (Frame_Meta twice) 1 0 = Ok (frame_bytes zero_hash KIND_META (meta_raw twice) 1 0)"
    by (simp add: encode_frame_Ok del: encode_frame.simps)
  have "parse_frame zero_hash (None :: unit zstd_lib option) (frame_bytes zero_hash KIND_META (meta_raw twice) 1 0) \<noteq> Ok (f, n)" for f n
  proof
    assume "parse_frame zero_hash (None :: unit zstd_lib option) (frame_bytes zero_hash KIND_META (meta_raw twice) 1 0) = Ok (f, n)"
    from parse_identity_frame [OF zero_hash_ok this] l obtain p where "decode_meta zero_hash (meta_raw twice) = Ok p"
      by (auto simp: decode_payload_def and_then_eq_Inr)
    with decode_meta_twice show False by blast
  qed
  then have "\<not> is_ok (parse_frame zero_hash (None :: unit zstd_lib option) (frame_bytes zero_hash KIND_META (meta_raw twice) 1 0))"
    by (auto simp: is_ok_iff)
  with e show ?thesis by auto
qed

end
