(* ===== verification/Tree_Stream.thy ===== *)
theory Tree_Stream
  imports Treeframe "HOL-Library.Sublist"
begin

text \<open>
  \<^verbatim>\<open>src/treeframe.rs\<close>, \<open>parse_stream\<close>: a body of consecutive frames. The local variables of the function
  are a record, the body of its loop the operation \<open>stream_step\<close>, which moves the state or returns the
  error; \<open>stream_reach\<close> are the states the loop passes through. \<open>frames_at\<close> is the specification: the
  bytes are the wire forms of the frames, one after the other, under one stream id and consecutive
  sequence numbers.
\<close>

section \<open>The loop\<close>

record stream_state =
  st_off :: nat
  st_stream_id :: "u32 option"
  st_expect_seq :: u64
  st_terminated :: bool
  st_frames :: "frame list"

definition stream_start :: stream_state where
  "stream_start = \<lparr>st_off = 0, st_stream_id = None, st_expect_seq = 0, st_terminated = False, st_frames = []\<rparr>"

definition stream_step :: "hash \<Rightarrow> 's zstd_lib option \<Rightarrow> bytes \<Rightarrow> stream_state \<Rightarrow> stream_state res" where
  "stream_step H feat buf st =
     (if st_terminated st then Err (BadOrdering ''bytes after END/ERROR frame'') else
      and_then (slice_of buf (st_off st) (length buf)) (\<lambda>rest.
      and_then (parse_frame H feat rest) (\<lambda>(frame, used).
      let st = st\<lparr>st_off := st_off st + used\<rparr> in
      and_then (slice_of buf (st_off st - used) (length buf)) (\<lambda>hd1.
      and_then (read_u32 hd1 20) (\<lambda>sid.
      and_then (slice_of buf (st_off st - used) (length buf)) (\<lambda>hd2.
      and_then (read_u64 hd2 24) (\<lambda>sequ.
      and_then
        (case st_stream_id st of
           None \<Rightarrow> Ok (st\<lparr>st_stream_id := Some sid\<rparr>)
         | Some s \<Rightarrow> if s \<noteq> sid then Err (BadOrdering ''stream_id changed mid-stream'') else Ok st) (\<lambda>st.
      if sequ \<noteq> st_expect_seq st then Err (BadOrdering ''sequence must increase consecutively from 0'') else
      and_then (add64 (st_expect_seq st) 1) (\<lambda>next.
      let st = st\<lparr>st_expect_seq := next\<rparr>;
          st = (if terminal frame then st\<lparr>st_terminated := True\<rparr> else st)
      in Ok (st\<lparr>st_frames := st_frames st @ [frame]\<rparr>))))))))))"

lemma stream_step_moves:
  assumes "stream_step H feat buf st = Ok st'"
  shows "st_off st < st_off st' \<and> st_off st' \<le> length buf"
proof -
  obtain rest f n where r: "slice_of buf (st_off st) (length buf) = (Ok rest :: bytes res)" "parse_frame H feat rest = Ok (f, n)"
    and o: "st_off st' = st_off st + n"
    using assms unfolding stream_step_def
    by (auto simp: if_eq_Inr_Err and_then_eq_Inr Let_def split: option.splits if_splits)
  have "length rest = length buf - st_off st" "st_off st \<le> length buf" using r(1) by (auto simp: slice_of_eq_Inr)
  with parse_frame_used [OF r(2)] o show ?thesis by linarith
qed

function frames_loop :: "hash \<Rightarrow> 's zstd_lib option \<Rightarrow> bytes \<Rightarrow> stream_state \<Rightarrow> stream_state res" where
  "frames_loop H feat buf st =
     (if st_off st < length buf then and_then (stream_step H feat buf st) (\<lambda>st'. frames_loop H feat buf st') else Ok st)"
  by pat_completeness auto
termination
  by (relation "measure (\<lambda>(H, feat, buf, st). length buf - st_off st)") (auto dest!: stream_step_moves)

declare frames_loop.simps [simp del]

definition parse_stream :: "hash \<Rightarrow> 's zstd_lib option \<Rightarrow> bytes \<Rightarrow> frame list res" where
  "parse_stream H feat buf =
     and_then (frames_loop H feat buf stream_start) (\<lambda>st.
     if \<not> st_terminated st then Err (BadOrdering ''stream missing END/ERROR frame'') else Ok (st_frames st))"

section \<open>The specification\<close>

inductive frames_at :: "hash \<Rightarrow> 's zstd_lib option \<Rightarrow> u32 \<Rightarrow> nat \<Rightarrow> frame list \<Rightarrow> bytes \<Rightarrow> bool"
  for H feat sid where
  no_frame: "frames_at H feat sid n [] []"
| next_frame: "wire_frame H feat sid (of_nat n) f b \<Longrightarrow> frames_at H feat sid (n + 1) fs bs
    \<Longrightarrow> frames_at H feat sid n (f # fs) (b @ bs)"

inductive_simps frames_at_simps: "frames_at H feat sid n [] b" "frames_at H feat sid n (f # fs) b"

definition stream_shape :: "frame list \<Rightarrow> bool" where
  "stream_shape fs \<longleftrightarrow> fs \<noteq> [] \<and> terminal (last fs) \<and> (\<forall>f\<in>set (butlast fs). \<not> terminal f)"

definition valid_stream :: "hash \<Rightarrow> 's zstd_lib option \<Rightarrow> frame list \<Rightarrow> bytes \<Rightarrow> bool" where
  "valid_stream H feat fs b \<longleftrightarrow> stream_shape fs \<and> (\<exists>sid. frames_at H feat sid 0 fs b)"

lemma frames_at_append:
  "frames_at H feat sid n (fs @ gs) b \<longleftrightarrow>
     (\<exists>b1 b2. b = b1 @ b2 \<and> frames_at H feat sid n fs b1 \<and> frames_at H feat sid (n + length fs) gs b2)"
proof (induction fs arbitrary: n b)
  case Nil
  show ?case by (simp add: frames_at_simps)
next
  case (Cons f fs)
  show ?case by (simp add: frames_at_simps Cons.IH) (metis append.assoc)
qed

lemma frames_at_length: "sha_ok H \<Longrightarrow> frames_at H feat sid n fs b \<Longrightarrow> 64 * length fs \<le> length b"
proof (induction fs arbitrary: n b)
  case (Cons f fs)
  from Cons.prems(2) obtain b1 b2 where b: "b = b1 @ b2" "wire_frame H feat sid (of_nat n) f b1" "frames_at H feat sid (n + 1) fs b2"
    by (auto simp: frames_at_simps)
  from Cons.IH [OF Cons.prems(1) b(3)] wire_frame_length [OF Cons.prems(1) b(2)] b(1) show ?case by simp
qed simp

section \<open>The states the loop reaches\<close>

inductive stream_reach :: "hash \<Rightarrow> 's zstd_lib option \<Rightarrow> bytes \<Rightarrow> stream_state \<Rightarrow> bool" for H feat buf where
  at_start: "stream_reach H feat buf stream_start"
| after_step: "stream_reach H feat buf st \<Longrightarrow> st_off st < length buf \<Longrightarrow> stream_step H feat buf st = Ok st'
    \<Longrightarrow> stream_reach H feat buf st'"

lemma slice_of_rest: "a \<le> length xs \<Longrightarrow> slice_of xs a (length xs) = Inr (drop a xs)"
  by (simp add: slice_of_def sub_def)

text \<open>A step, in terms of the specification.\<close>

lemma stream_step_Ok:
  assumes "sha_ok H" "feat_ok feat" "st_off st \<le> length buf"
  shows "stream_step H feat buf st = Ok st' \<longleftrightarrow>
    \<not> st_terminated st \<and> unat (st_expect_seq st) + 1 < 2 ^ 64 \<and>
    (\<exists>sid f b rest. drop (st_off st) buf = b @ rest \<and> wire_frame H feat sid (st_expect_seq st) f b
      \<and> (st_stream_id st = None \<or> st_stream_id st = Some sid)
      \<and> st' = \<lparr>st_off = st_off st + length b, st_stream_id = Some sid, st_expect_seq = st_expect_seq st + 1, st_terminated = terminal f,
          st_frames = st_frames st @ [f]\<rparr>)"
    (is "?l \<longleftrightarrow> ?r")
proof
  assume l: ?l
  have s: "slice_of buf (st_off st) (length buf) = (Ok (drop (st_off st) buf) :: bytes res)"
    by (rule slice_of_rest [OF assms(3)])
  obtain f n where p: "parse_frame H feat (drop (st_off st) buf) = Ok (f, n)"
    using l unfolding stream_step_def s by (auto simp: if_eq_Inr_Err and_then_eq_Inr)
  then obtain b rest sid sequ where b: "drop (st_off st) buf = b @ rest" "n = length b" "wire_frame H feat sid sequ f b"
    unfolding parse_frame_Ok [OF assms(1,2)] by blast
  note h = wire_frame_header(1,2) [OF assms(1) b(3), of rest]
  have t: "\<not> st_terminated st" using l by (simp add: stream_step_def if_eq_Inr_Err)
  have st: "stream_step H feat buf st =
      and_then (case st_stream_id st of None \<Rightarrow> Ok (st\<lparr>st_off := st_off st + length b, st_stream_id := Some sid\<rparr>)
         | Some s \<Rightarrow> if s \<noteq> sid then Err (BadOrdering ''stream_id changed mid-stream'') else Ok (st\<lparr>st_off := st_off st + length b\<rparr>)) (\<lambda>st.
      if sequ \<noteq> st_expect_seq st then Err (BadOrdering ''sequence must increase consecutively from 0'') else
      and_then (add64 (st_expect_seq st) 1) (\<lambda>next.
      let st = st\<lparr>st_expect_seq := next\<rparr>; st = (if terminal f then st\<lparr>st_terminated := True\<rparr> else st)
      in Ok (st\<lparr>st_frames := st_frames st @ [f]\<rparr>)))"
  proof -
    have "read_u32 (b @ rest) 20 = Ok sid" "read_u64 (b @ rest) 24 = Ok sequ"
      using h wire_frame_length [OF assms(1) b(3)] by (simp_all add: read_u32_eq_Ok read_u64_eq_Ok)
    with t p b s show ?thesis by (simp add: stream_step_def Let_def)
  qed
  have "st_stream_id st = None \<or> st_stream_id st = Some sid" "sequ = st_expect_seq st" "unat (st_expect_seq st) + 1 < 2 ^ 64"
    "st' = \<lparr>st_off = st_off st + length b, st_stream_id = Some sid, st_expect_seq = st_expect_seq st + 1, st_terminated = terminal f,
        st_frames = st_frames st @ [f]\<rparr>"
    using l t unfolding st by (auto simp: and_then_eq_Inr if_eq_Inr_Err add64_def Let_def split: option.splits if_splits)
  with t b show ?r by blast
next
  assume ?r
  then obtain sid f b rest where t: "\<not> st_terminated st" "unat (st_expect_seq st) + 1 < 2 ^ 64"
    and b: "drop (st_off st) buf = b @ rest" "wire_frame H feat sid (st_expect_seq st) f b"
    and sid: "st_stream_id st = None \<or> st_stream_id st = Some sid"
    and st': "st' = \<lparr>st_off = st_off st + length b, st_stream_id = Some sid, st_expect_seq = st_expect_seq st + 1, st_terminated = terminal f,
          st_frames = st_frames st @ [f]\<rparr>" by blast
  have s: "slice_of buf (st_off st) (length buf) = (Ok (b @ rest) :: bytes res)"
    unfolding slice_of_rest [OF assms(3)] b(1) ..
  note h = wire_frame_header(1,2) [OF assms(1) b(2), of rest]
  have "read_u32 (b @ rest) 20 = Ok sid" "read_u64 (b @ rest) 24 = Ok (st_expect_seq st)"
    using h wire_frame_length [OF assms(1) b(2)] by (simp_all add: read_u32_eq_Ok read_u64_eq_Ok)
  with t s parse_frame_wire [OF assms(1,2) b(2), of rest] sid st' show ?l
    by (auto simp: stream_step_def add64_def Let_def)
qed

text \<open>The invariant of the loop: the bytes before the position are the wire forms of the frames read so
  far, the next sequence number is their number, and the loop has not passed a terminal frame.\<close>

definition stream_inv :: "hash \<Rightarrow> 's zstd_lib option \<Rightarrow> bytes \<Rightarrow> stream_state \<Rightarrow> bool" where
  "stream_inv H feat buf st \<longleftrightarrow> st_off st \<le> length buf
     \<and> st_expect_seq st = of_nat (length (st_frames st))
     \<and> (st_stream_id st = None \<longleftrightarrow> st_frames st = [])
     \<and> (\<exists>sid. (st_stream_id st = None \<or> st_stream_id st = Some sid)
         \<and> frames_at H feat sid 0 (st_frames st) (take (st_off st) buf))
     \<and> (\<forall>f\<in>set (butlast (st_frames st)). \<not> terminal f)
     \<and> (st_terminated st \<longleftrightarrow> st_frames st \<noteq> [] \<and> terminal (last (st_frames st)))"

lemma stream_inv_start: "stream_inv H feat buf stream_start"
  by (simp add: stream_inv_def stream_start_def frames_at_simps)

lemma stream_inv_step:
  assumes H: "sha_ok H" and F: "feat_ok feat" and inv: "stream_inv H feat buf st"
    and step: "stream_step H feat buf st = Ok st'"
  shows "stream_inv H feat buf st'"
proof -
  have off: "st_off st \<le> length buf" using inv by (simp add: stream_inv_def)
  from step obtain sid f b rest where t: "\<not> st_terminated st"
    and b: "drop (st_off st) buf = b @ rest" "wire_frame H feat sid (st_expect_seq st) f b"
    and sid: "st_stream_id st = None \<or> st_stream_id st = Some sid"
    and st': "st' = \<lparr>st_off = st_off st + length b, st_stream_id = Some sid, st_expect_seq = st_expect_seq st + 1,
      st_terminated = terminal f, st_frames = st_frames st @ [f]\<rparr>"
    unfolding stream_step_Ok [OF H F off] by blast
  have e: "st_expect_seq st = of_nat (length (st_frames st))" using inv by (simp add: stream_inv_def)
  obtain sid' where sid': "st_stream_id st = None \<or> st_stream_id st = Some sid'"
    "frames_at H feat sid' 0 (st_frames st) (take (st_off st) buf)" "st_stream_id st = None \<longleftrightarrow> st_frames st = []"
    using inv unfolding stream_inv_def by (elim conjE exE) (rule that)
  have old: "frames_at H feat sid 0 (st_frames st) (take (st_off st) buf)"
    using sid sid' by (cases "st_stream_id st") (auto simp: frames_at_simps)
  have "frames_at H feat sid (0 + length (st_frames st)) [f] b" using b(2) e by (simp add: frames_at_simps)
  moreover have tk: "take (st_off st + length b) buf = take (st_off st) buf @ b" "st_off st + length b \<le> length buf"
    using drop_append_iff [OF off, of b rest] b(1) by (simp_all add: take_add sub_def)
  ultimately have new: "frames_at H feat sid 0 (st_frames st @ [f]) (take (st_off st + length b) buf)"
    using old unfolding frames_at_append by blast
  have "\<forall>g\<in>set (st_frames st). \<not> terminal g"
  proof (cases "st_frames st = []")
    case False
    then have "set (st_frames st) = insert (last (st_frames st)) (set (butlast (st_frames st)))"
      by (metis append_butlast_last_id list.simps(15) rotate1.simps(2) set_rotate1)
    with inv t False show ?thesis by (auto simp: stream_inv_def)
  qed simp
  with tk new e show ?thesis unfolding st' by (auto simp: stream_inv_def)
qed

lemma stream_reach_inv:
  assumes "sha_ok H" "feat_ok feat"
  shows "stream_reach H feat buf st \<Longrightarrow> stream_inv H feat buf st"
  by (induction rule: stream_reach.induct) (use assms in \<open>auto intro: stream_inv_start stream_inv_step\<close>)

text \<open>The loop ends in a state it reaches, with every byte read.\<close>

lemma frames_loop_reach:
  "frames_loop H feat buf st = Ok st' \<Longrightarrow> stream_reach H feat buf st \<Longrightarrow>
     stream_reach H feat buf st' \<and> length buf \<le> st_off st'"
proof (induction H feat buf st rule: frames_loop.induct)
  case (1 H feat buf st)
  show ?case
  proof (cases "st_off st < length buf")
    case True
    with "1.prems"(1) obtain st1 where s: "stream_step H feat buf st = Ok st1" "frames_loop H feat buf st1 = Ok st'"
      by (subst (asm) frames_loop.simps) (auto simp: and_then_eq_Inr)
    from "1.IH" [OF True s] "1.prems"(2) True s(1) show ?thesis by (auto intro: stream_reach.after_step)
  next
    case False
    with "1.prems" show ?thesis by (subst (asm) frames_loop.simps) simp
  qed
qed

lemma frames_loop_complete:
  assumes H: "sha_ok H" and F: "feat_ok feat"
  shows "st_off st \<le> length buf \<Longrightarrow> drop (st_off st) buf = bs \<Longrightarrow> frames_at H feat sid n fs bs \<Longrightarrow>
    st_expect_seq st = of_nat n \<Longrightarrow> n + length fs < 2 ^ 64 \<Longrightarrow> st_stream_id st = None \<or> st_stream_id st = Some sid \<Longrightarrow>
    \<not> st_terminated st \<Longrightarrow> (\<forall>f\<in>set (butlast fs). \<not> terminal f) \<Longrightarrow>
    \<exists>st'. frames_loop H feat buf st = Ok st' \<and> st_frames st' = st_frames st @ fs
      \<and> st_terminated st' = (fs \<noteq> [] \<and> terminal (last fs))"
proof (induction fs arbitrary: st n bs)
  case Nil
  then have "\<not> st_off st < length buf" by (auto simp: frames_at_simps)
  with Nil show ?case by (subst frames_loop.simps) simp
next
  case (Cons f fs)
  from Cons.prems(3) obtain b rest where b: "bs = b @ rest" "wire_frame H feat sid (of_nat n) f b" "frames_at H feat sid (n + 1) fs rest"
    by (auto simp: frames_at_simps)
  have l: "64 \<le> length b" using wire_frame_length [OF H b(2)] .
  have d: "drop (st_off st) buf = b @ rest" using Cons.prems(2) b(1) by simp
  note da = drop_append_iff [OF Cons.prems(1), of b rest, THEN iffD1, OF d]
  let ?st = "\<lparr>st_off = st_off st + length b, st_stream_id = Some sid, st_expect_seq = st_expect_seq st + 1,
      st_terminated = terminal f, st_frames = st_frames st @ [f]\<rparr>"
  have u: "unat (of_nat n :: u64) = n" using Cons.prems(5) by (intro unat_of_nat_u64) simp
  then have step: "stream_step H feat buf st = Ok ?st"
    unfolding stream_step_Ok [OF H F Cons.prems(1)] using Cons.prems b d
    by (intro conjI exI [of _ sid] exI [of _ f] exI [of _ b] exI [of _ rest]) simp_all
  have lt: "st_off st < length buf" using da l by linarith
  have eq: "frames_loop H feat buf st = frames_loop H feat buf ?st"
    using lt step by (subst frames_loop.simps) simp
  show ?case
  proof (cases "fs = []")
    case True
    then have "rest = []" using b(3) by (simp add: frames_at_simps)
    then have "\<not> st_off ?st < length buf" using da by simp
    then have "frames_loop H feat buf ?st = Ok ?st" by (subst frames_loop.simps) (simp only: if_False)
    with eq True show ?thesis by simp
  next
    case False
    have "\<exists>st'. frames_loop H feat buf ?st = Ok st' \<and> st_frames st' = st_frames ?st @ fs
        \<and> st_terminated st' = (fs \<noteq> [] \<and> terminal (last fs))"
      using Cons.prems b False da by (intro Cons.IH [of _ rest "n + 1"]) (auto simp: add.commute)
    with eq False show ?thesis by auto
  qed
qed

lemma parse_stream_complete:
  assumes "sha_ok H" "feat_ok feat" "valid_stream H feat fs buf" "length fs < 2 ^ 64"
  shows "parse_stream H feat buf = Ok fs"
proof -
  obtain sid where a: "frames_at H feat sid 0 fs buf" using assms(3) by (auto simp: valid_stream_def)
  with assms(3,4) have "\<exists>st'. frames_loop H feat buf stream_start = Ok st' \<and> st_frames st' = st_frames stream_start @ fs
      \<and> st_terminated st' = (fs \<noteq> [] \<and> terminal (last fs))"
    by (intro frames_loop_complete [OF assms(1,2), where n = 0 and sid = sid and bs = buf])
      (simp_all add: stream_start_def valid_stream_def stream_shape_def)
  with assms(3) show ?thesis
    by (auto simp: parse_stream_def stream_start_def valid_stream_def stream_shape_def)
qed

theorem parse_stream_Ok:
  assumes "sha_ok H" "feat_ok feat" "length buf < 2 ^ 64"
  shows "parse_stream H feat buf = Ok fs \<longleftrightarrow> valid_stream H feat fs buf"
proof
  assume "parse_stream H feat buf = Ok fs"
  then obtain st where st: "frames_loop H feat buf stream_start = Ok st" "st_terminated st" "fs = st_frames st"
    by (auto simp: parse_stream_def and_then_eq_Inr if_eq_Inr_Err)
  have r: "stream_reach H feat buf st" "length buf \<le> st_off st"
    using frames_loop_reach [OF st(1) stream_reach.at_start] by simp_all
  from stream_reach_inv [OF assms(1,2) r(1)] r(2) st show "valid_stream H feat fs buf"
    by (auto simp: stream_inv_def valid_stream_def stream_shape_def)
next
  assume v: "valid_stream H feat fs buf"
  then obtain sid where a: "frames_at H feat sid 0 fs buf" by (auto simp: valid_stream_def)
  have "length fs < 2 ^ 64" using frames_at_length [OF assms(1) a] assms(3) by simp
  with parse_stream_complete [OF assms(1,2) v] show "parse_stream H feat buf = Ok fs" .
qed

lemma frames_at_prefix:
  assumes "sha_ok H" "feat_ok feat"
  shows "frames_at H feat sid n fs a \<Longrightarrow> frames_at H feat sid' n gs (a @ c) \<Longrightarrow> length fs \<le> length gs \<Longrightarrow>
    \<exists>hs. gs = fs @ hs \<and> frames_at H feat sid' (n + length fs) hs c"
proof (induction fs arbitrary: n gs a)
  case Nil
  then show ?case by (simp add: frames_at_simps)
next
  case (Cons f fs)
  obtain g gs' where gs: "gs = g # gs'" using Cons.prems(3) by (cases gs) auto
  from Cons.prems(1) obtain b a' where b: "a = b @ a'" "wire_frame H feat sid (of_nat n) f b" "frames_at H feat sid (n + 1) fs a'"
    by (auto simp: frames_at_simps)
  from Cons.prems(2) gs obtain b' r where b': "a @ c = b' @ r" "wire_frame H feat sid' (of_nat n) g b'" "frames_at H feat sid' (n + 1) gs' r"
    by (auto simp: frames_at_simps)
  have "b @ a' @ c = b' @ r" using b b' by simp
  from wire_frame_unique [OF assms b(2) b'(2) this] have e: "f = g" "a' @ c = r" by simp_all
  from Cons.IH [of "n + 1" a' gs'] b b' e gs Cons.prems(3) show ?case by simp
qed

lemma frames_at_shorter:
  assumes "sha_ok H" "feat_ok feat"
  shows "frames_at H feat sid n fs a \<Longrightarrow> frames_at H feat sid' n gs (a @ c) \<Longrightarrow> length fs \<le> length gs"
proof (induction fs arbitrary: n gs a)
  case (Cons f fs)
  from Cons.prems(1) obtain b a' where b: "a = b @ a'" "wire_frame H feat sid (of_nat n) f b" "frames_at H feat sid (n + 1) fs a'"
    by (auto simp: frames_at_simps)
  have "a @ c \<noteq> []" using b wire_frame_length [OF assms(1) b(2)] by auto
  with Cons.prems(2) obtain g gs' where gs: "gs = g # gs'" by (cases gs) (auto simp: frames_at_simps)
  from Cons.prems(2) gs obtain b' r where b': "a @ c = b' @ r" "wire_frame H feat sid' (of_nat n) g b'" "frames_at H feat sid' (n + 1) gs' r"
    by (auto simp: frames_at_simps)
  have "b @ a' @ c = b' @ r" using b b' by simp
  from wire_frame_unique [OF assms b(2) b'(2) this] have e: "a' @ c = r" by simp
  from Cons.IH [of "n + 1" a' gs'] b b' e gs show ?case by simp
qed simp

text \<open>Frames that begin at the same byte are the same frames, as far as the shorter text goes.\<close>

lemma frames_at_agree:
  assumes "sha_ok H" "feat_ok feat" "frames_at H feat sid n fs a" "frames_at H feat sid' n gs (a @ c)"
  obtains hs where "gs = fs @ hs" "frames_at H feat sid' (n + length fs) hs c"
  using frames_at_prefix [OF assms frames_at_shorter [OF assms]] by blast

lemma frames_at_terminal:
  assumes "sha_ok H" "feat_ok feat" "frames_at H feat sid 0 fs a" "fs \<noteq> []" "terminal (last fs)"
    and v: "valid_stream H feat gs (a @ c)"
  shows "c = [] \<and> gs = fs"
proof -
  obtain sid' where f: "frames_at H feat sid' 0 gs (a @ c)" "stream_shape gs" using v by (auto simp: valid_stream_def)
  obtain hs where hs: "gs = fs @ hs" "frames_at H feat sid' (0 + length fs) hs c"
    by (rule frames_at_agree [OF assms(1-3) f(1)])
  have "hs = []"
  proof (rule ccontr)
    assume "hs \<noteq> []"
    then have "last fs \<in> set (butlast gs)" using hs(1) assms(4) by (simp add: butlast_append)
    with f(2) assms(5) show False by (simp add: stream_shape_def)
  qed
  with hs show ?thesis by (simp add: frames_at_simps)
qed

lemma clean_stream_step:
  assumes "sha_ok H" "feat_ok feat" "length buf < 2 ^ 64" "stream_inv H feat buf st" "st_off st < length buf"
  shows "clean (stream_step H feat buf st)"
proof -
  have off: "st_off st \<le> length buf" and e: "st_expect_seq st = of_nat (length (st_frames st))"
    using assms(4) by (simp_all add: stream_inv_def)
  obtain sid where "frames_at H feat sid 0 (st_frames st) (take (st_off st) buf)" using assms(4) by (auto simp: stream_inv_def)
  from frames_at_length [OF assms(1) this] assms(3,5) have n: "length (st_frames st) + 1 < 2 ^ 64" by simp
  then have u: "unat (st_expect_seq st) = length (st_frames st)" unfolding e by (intro unat_of_nat_u64) simp
  have add: "clean (add64 (st_expect_seq st) 1 :: u64 res)" using n u by (simp add: add64_def)
  show ?thesis
    unfolding stream_step_def Let_def slice_of_rest [OF off]
    by (cases "st_stream_id st")
      (auto simp: slice_of_rest off add split: if_splits intro!: clean_and_then clean_parse_frame [OF assms(2)]
        dest!: parse_frame_used)
qed

lemma clean_frames_loop:
  assumes "sha_ok H" "feat_ok feat" "length buf < 2 ^ 64"
  shows "stream_inv H feat buf st \<Longrightarrow> clean (frames_loop H feat buf st)"
proof (induction "length buf - st_off st" arbitrary: st rule: less_induct)
  case less
  show ?case
  proof (cases "st_off st < length buf")
    case True
    have "clean (frames_loop H feat buf st')" if "stream_step H feat buf st = Ok st'" for st'
      using stream_step_moves [OF that] True
      by (intro less.hyps stream_inv_step [OF assms(1,2) less.prems that]) linarith
    with clean_stream_step [OF assms less.prems True] True show ?thesis
      by (subst frames_loop.simps) (auto intro: clean_and_then)
  next
    case False
    then show ?thesis by (subst frames_loop.simps) simp
  qed
qed

section \<open>Properties\<close>

text \<open>C1. A body of frames is accepted exactly when it is a valid stream: the wire forms of a non-empty list
  of frames, one after the other without a gap, under one stream id and with the sequence numbers 0, 1, 2,
  ..., of which the last and only the last is an END or an ERROR; the frames returned are these.\<close>

theorem parse_stream_exact:
  assumes "sha_ok H" "feat_ok feat" "length buf < 2 ^ 64"
  shows "parse_stream H feat buf = Ok fs \<longleftrightarrow> valid_stream H feat fs buf"
  by (rule parse_stream_Ok [OF assms])

text \<open>C20. Reading a stream frame by frame is sound before the end of the body is seen. In every state the loop of
  \<open>parse_stream\<close> reaches, the bytes before the position are the wire forms of the frames collected so far under
  the stream id remembered, the next sequence number is their number, and the flag is set exactly when the last
  of them is terminal; none before it is. Whatever follows these bytes, an accepted body that begins with them
  delivers the frames collected so far first, and after a terminal frame nothing can follow.\<close>

theorem stream_invariant:
  assumes "sha_ok H" "feat_ok feat" "stream_reach H feat buf st"
  shows "stream_inv H feat buf st \<and> 64 * length (st_frames st) \<le> st_off st \<and>
    (\<forall>c fs. length (take (st_off st) buf @ c) < 2 ^ 64 \<longrightarrow> parse_stream H feat (take (st_off st) buf @ c) = Ok fs \<longrightarrow>
       prefix (st_frames st) fs \<and> (st_terminated st \<longrightarrow> c = [] \<and> fs = st_frames st))"
proof -
  have inv: "stream_inv H feat buf st" by (rule stream_reach_inv [OF assms])
  then obtain sid where f: "frames_at H feat sid 0 (st_frames st) (take (st_off st) buf)" by (auto simp: stream_inv_def)
  have "prefix (st_frames st) fs \<and> (st_terminated st \<longrightarrow> c = [] \<and> fs = st_frames st)"
    if "length (take (st_off st) buf @ c) < 2 ^ 64" "parse_stream H feat (take (st_off st) buf @ c) = Ok fs" for c fs
  proof -
    have v: "valid_stream H feat fs (take (st_off st) buf @ c)" using that parse_stream_Ok [OF assms(1,2)] by blast
    then obtain sid' where "frames_at H feat sid' 0 fs (take (st_off st) buf @ c)" by (auto simp: valid_stream_def)
    from frames_at_agree [OF assms(1,2) f this] have "prefix (st_frames st) fs" by (auto simp: prefix_def)
    moreover have "c = [] \<and> fs = st_frames st" if "st_terminated st"
      using that inv by (intro frames_at_terminal [OF assms(1,2) f _ _ v]) (simp_all add: stream_inv_def)
    ultimately show ?thesis by blast
  qed
  moreover have "64 * length (st_frames st) \<le> st_off st"
    using frames_at_length [OF assms(1) f] inv by (simp add: stream_inv_def)
  ultimately show ?thesis using inv by blast
qed

text \<open>Reading arbitrary bytes as a stream always returns frames or an error: no slice is out of range, the
  sequence counter does not overflow and the loop ends.\<close>

theorem parse_stream_clean:
  assumes "sha_ok H" "feat_ok feat" "length buf < 2 ^ 64"
  shows "clean (parse_stream H feat buf)"
  using clean_frames_loop [OF assms stream_inv_start] by (auto simp: parse_stream_def intro!: clean_and_then)

text \<open>C19. Accepted streams are prefix-free: neither a stream cut short nor a stream with anything behind it is
  accepted, so a truncated or extended body is always noticed.\<close>

theorem parse_stream_prefix_free:
  assumes "sha_ok H" "feat_ok feat" "length (a @ c) < 2 ^ 64" "parse_stream H feat a = Ok fs" "parse_stream H feat (a @ c) = Ok gs"
  shows "c = [] \<and> gs = fs"
proof -
  have "valid_stream H feat fs a" "valid_stream H feat gs (a @ c)"
    using assms parse_stream_Ok [OF assms(1,2), of a fs] parse_stream_Ok [OF assms(1-3), of gs] by simp_all
  then obtain sid where f: "frames_at H feat sid 0 fs a" "valid_stream H feat gs (a @ c)" "stream_shape fs"
    by (auto simp: valid_stream_def)
  from frames_at_terminal [OF assms(1,2) f(1) _ _ f(2)] f(3) show ?thesis
    by (simp add: stream_shape_def)
qed

text \<open>The sender's side: the encodings of a list of frames under one stream id and consecutive sequence
  numbers.\<close>

fun encode_stream :: "hash \<Rightarrow> u32 \<Rightarrow> nat \<Rightarrow> frame list \<Rightarrow> bytes res" where
  "encode_stream H sid n [] = Ok []"
| "encode_stream H sid n (f # fs) =
     and_then (encode_frame H f sid (of_nat n)) (\<lambda>b. and_then (encode_stream H sid (n + 1) fs) (\<lambda>bs. Ok (b @ bs)))"

lemma encode_stream_frames:
  assumes "sha_ok H" "sid \<noteq> 0"
  shows "\<forall>f\<in>set fs. frame_wf H f \<Longrightarrow> \<exists>b. encode_stream H sid n fs = Ok b \<and> frames_at H feat sid n fs b"
proof (induction fs arbitrary: n)
  case Nil
  show ?case by (simp add: frames_at_simps)
next
  case (Cons f fs)
  obtain b where "encode_frame H f sid (of_nat n) = Ok b" "wire_frame H feat sid (of_nat n) f b"
    using Cons.prems by (auto intro: encode_frame_wire [OF assms(1) _ assms(2)])
  moreover obtain bs where "encode_stream H sid (n + 1) fs = Ok bs" "frames_at H feat sid (n + 1) fs bs"
    using Cons by auto
  ultimately show ?case by (auto simp: frames_at_simps)
qed

text \<open>C7. A sender that encodes well-formed frames under a non-zero stream id, numbers them from zero and ends
  with an END or an ERROR is always understood: the receiver gets exactly these frames.\<close>

theorem stream_roundtrip:
  assumes "sha_ok H" "feat_ok feat" "\<forall>f\<in>set fs. frame_wf H f" "stream_shape fs" "length fs < 2 ^ 64" "sid \<noteq> 0"
  shows "\<exists>b. encode_stream H sid 0 fs = Ok b \<and> parse_stream H feat b = Ok fs"
proof -
  obtain b where "encode_stream H sid 0 fs = Ok b" "frames_at H feat sid 0 fs b"
    using encode_stream_frames [OF assms(1,6,3)] by blast
  with parse_stream_complete [OF assms(1,2) _ assms(5)] assms(4) show ?thesis by (auto simp: valid_stream_def)
qed

lemma sample_shape: "stream_shape [sample_object, sample_end]"
  by (simp add: stream_shape_def sample_object_def sample_end_def)

lemma stream_roundtrip_witness:
  "\<exists>b. encode_stream zero_hash 9 0 [sample_object, sample_end] = Ok b
     \<and> parse_stream zero_hash (None :: unit zstd_lib option) b = Ok [sample_object, sample_end]"
  by (rule stream_roundtrip) (simp_all add: sample_shape sample_object_wf sample_end_wf)

lemma sample_stream:
  obtains b where "frames_at zero_hash (None :: unit zstd_lib option) 9 0 [sample_object, sample_end] b" "length b = 223"
proof -
  have s: "\<forall>f\<in>set [sample_object, sample_end]. frame_wf zero_hash f" by (simp add: sample_object_wf sample_end_wf)
  obtain b where b: "encode_stream zero_hash 9 0 [sample_object, sample_end] = Ok b"
    "frames_at zero_hash (None :: unit zstd_lib option) 9 0 [sample_object, sample_end] b"
    using encode_stream_frames [OF zero_hash_ok _ s, of 9] by force
  have "b = frame_bytes zero_hash (frame_kind sample_object) (frame_raw sample_object) 9 0
      @ frame_bytes zero_hash (frame_kind sample_end) (frame_raw sample_end) 9 1"
    using b(1) by (auto simp: and_then_eq_Inr encode_frame_Ok)
  then have "length b = 223"
    by (simp add: frame_bytes_def header_eq length_header_bytes Let_def) (simp add: sample_object_def sample_end_def object_raw_def end_raw_def)
  with b that show ?thesis by blast
qed

lemma parse_stream_exact_witness:
  "\<exists>b. parse_stream zero_hash (None :: unit zstd_lib option) b = Ok [sample_object, sample_end]"
proof -
  obtain b where b: "frames_at zero_hash (None :: unit zstd_lib option) 9 0 [sample_object, sample_end] b" "length b = 223"
    by (rule sample_stream)
  then have "valid_stream zero_hash (None :: unit zstd_lib option) [sample_object, sample_end] b"
    using sample_shape by (auto simp: valid_stream_def)
  with parse_stream_exact [OF zero_hash_ok feat_ok_samples(1), of b] b(2) show ?thesis by auto
qed

text \<open>The states of the loop on the sample stream, after its first frame and after its second.\<close>

lemma sample_states:
  obtains b st1 st2 where "stream_reach zero_hash (None :: unit zstd_lib option) b st1" "st_frames st1 = [sample_object]"
    "st_off st1 < length b" "stream_reach zero_hash (None :: unit zstd_lib option) b st2"
    "st_frames st2 = [sample_object, sample_end]" "st_off st2 = length b" "length b = 223"
    "parse_stream zero_hash (None :: unit zstd_lib option) b = Ok [sample_object, sample_end]"
proof -
  let ?F = "None :: unit zstd_lib option"
  obtain b where b: "frames_at zero_hash ?F 9 0 [sample_object, sample_end] b" "length b = 223"
    by (rule sample_stream)
  then obtain b1 b2 where p: "b = b1 @ b2" "wire_frame zero_hash ?F 9 0 sample_object b1" "wire_frame zero_hash ?F 9 1 sample_end b2"
    by (auto simp: frames_at_simps)
  have l: "64 \<le> length b1" "64 \<le> length b2" using p wire_frame_length [OF zero_hash_ok] by blast+
  let ?st = "\<lambda>n s t fs. \<lparr>st_off = n, st_stream_id = Some 9, st_expect_seq = s, st_terminated = t, st_frames = fs\<rparr>"
  let ?st1 = "?st (length b1) 1 False [sample_object]" and ?st2 = "?st (length b) 2 True [sample_object, sample_end]"
  have t: "terminal sample_object = False" "terminal sample_end = True" by (simp_all add: sample_object_def sample_end_def)
  have "stream_step zero_hash ?F b stream_start = Ok ?st1"
    by (rule stream_step_Ok [OF zero_hash_ok feat_ok_samples(1), THEN iffD2], simp add: stream_start_def, intro conjI)
      (simp add: stream_start_def, simp add: stream_start_def, rule exI [of _ 9], rule exI [of _ sample_object],
        rule exI [of _ b1], rule exI [of _ b2], use p t in \<open>simp add: stream_start_def\<close>)
  then have r1: "stream_reach zero_hash ?F b ?st1"
    using b(2) by (intro after_step [OF at_start]) (simp_all add: stream_start_def)
  have "stream_step zero_hash ?F b ?st1 = Ok ?st2"
    by (rule stream_step_Ok [OF zero_hash_ok feat_ok_samples(1), THEN iffD2], use p(1) in simp, intro conjI)
      (simp, simp, rule exI [of _ 9], rule exI [of _ sample_end], rule exI [of _ b2], rule exI [of _ "[]"], use p t in simp)
  then have r2: "stream_reach zero_hash ?F b ?st2"
    using p l by (intro after_step [OF r1]) auto
  have "parse_stream zero_hash ?F b = Ok [sample_object, sample_end]"
    using b(1) sample_shape by (intro parse_stream_complete) (auto simp: valid_stream_def)
  with r1 r2 p(1) l b(2) that show ?thesis by simp
qed

lemma stream_invariant_witness:
  "\<exists>b st1 st2. stream_reach zero_hash (None :: unit zstd_lib option) b st1 \<and> st_frames st1 = [sample_object]
     \<and> stream_inv zero_hash (None :: unit zstd_lib option) b st1 \<and> 0 < st_off st1 \<and> st_off st1 < length b
     \<and> parse_stream zero_hash (None :: unit zstd_lib option) b = Ok [sample_object, sample_end]
     \<and> prefix (st_frames st1) [sample_object, sample_end]
     \<and> stream_reach zero_hash (None :: unit zstd_lib option) b st2 \<and> st_frames st2 = [sample_object, sample_end]
     \<and> stream_inv zero_hash (None :: unit zstd_lib option) b st2 \<and> st_terminated st2
     \<and> parse_stream zero_hash (None :: unit zstd_lib option) (b @ [0]) \<noteq> Ok [sample_object, sample_end]"
proof -
  obtain b st1 st2 where s: "stream_reach zero_hash (None :: unit zstd_lib option) b st1" "st_frames st1 = [sample_object]"
    "st_off st1 < length b" "stream_reach zero_hash (None :: unit zstd_lib option) b st2"
    "st_frames st2 = [sample_object, sample_end]" "st_off st2 = length b" "length b = 223"
    "parse_stream zero_hash (None :: unit zstd_lib option) b = Ok [sample_object, sample_end]"
    by (rule sample_states)
  note i1 = stream_invariant [OF zero_hash_ok feat_ok_samples(1) s(1)]
    and i2 = stream_invariant [OF zero_hash_ok feat_ok_samples(1) s(4)]
  have w1: "prefix (st_frames st1) [sample_object, sample_end]"
    using i1 [THEN conjunct2, THEN conjunct2, rule_format, of "drop (st_off st1) b"] s by simp
  have t: "st_terminated st2" using i2 s(5) by (simp add: stream_inv_def sample_end_def)
  have w2: "parse_stream zero_hash (None :: unit zstd_lib option) (b @ [0]) \<noteq> Ok [sample_object, sample_end]"
    using i2 [THEN conjunct2, THEN conjunct2, rule_format, of "[0]" "[sample_object, sample_end]"] s t by auto
  have w3: "0 < st_off st1" using i1 s(2) by simp
  show ?thesis
    by (rule exI [of _ b], rule exI [of _ st1], rule exI [of _ st2]) (intro conjI; use s i1 i2 w1 w2 w3 t in blast)
qed

lemma parse_stream_clean_witness: "clean (parse_stream zero_hash (Some stored_zstd) (replicate 100 1))"
  by (rule parse_stream_clean) simp_all

lemma parse_stream_prefix_free_witness:
  "\<exists>b. parse_stream zero_hash (None :: unit zstd_lib option) b = Ok [sample_object, sample_end]
     \<and> parse_stream zero_hash (None :: unit zstd_lib option) (b @ [0]) \<noteq> Ok [sample_object, sample_end]"
proof -
  obtain b where b: "frames_at zero_hash (None :: unit zstd_lib option) 9 0 [sample_object, sample_end] b" "length b = 223"
    by (rule sample_stream)
  then have l: "length (b @ [0]) < 2 ^ 64" by simp
  have p: "parse_stream zero_hash (None :: unit zstd_lib option) b = Ok [sample_object, sample_end]"
    using b(1) sample_shape by (intro parse_stream_complete) (auto simp: valid_stream_def)
  show ?thesis
    using p parse_stream_prefix_free [OF zero_hash_ok feat_ok_samples(1) l p] by auto
qed

end
