(* ===== verification/Namespace.thy ===== *)
theory Namespace
  imports Codec_Lib
begin

text \<open>
  \<^verbatim>\<open>src/namespace.rs\<close>: the manifests of source snapshots, bindings and views, with their validators and the
  reader of length-prefixed fields. A Rust \<open>String\<close> is a byte string; that it is valid UTF-8 follows here
  from the validators. The getters of the three types are the fields of the records. \<open>Input\<close> is the bytes
  not read yet; its methods return the value and what is left.

  \<open>rel_path\<close> and \<open>abs_path\<close> are the canonical paths as lists of names, apart from the scans of the
  validators; \<open>source_wf\<close>, \<open>binding_wf\<close> and \<open>view_wf\<close> are what the constructors enforce.
\<close>

section \<open>Constants\<close>

definition MANIFEST_MAX_BYTES :: nat where "MANIFEST_MAX_BYTES = 16384"
definition PATH_MAX_BYTES :: nat where "PATH_MAX_BYTES = 4096"
definition SOURCE_DOMAIN :: bytes where "SOURCE_DOMAIN = ascii ''mega.source-snapshot.v1'' @ [0]"
definition BINDING_DOMAIN :: bytes where "BINDING_DOMAIN = ascii ''mega.namespace-binding.v1'' @ [0]"
definition VIEW_DOMAIN :: bytes where "VIEW_DOMAIN = ascii ''mega.namespace-view.v1'' @ [0]"
definition SHA1_STR :: bytes where "SHA1_STR = ascii ''sha1''"

section \<open>Validators\<close>

definition is_digit :: "u8 \<Rightarrow> bool" where
  "is_digit b \<longleftrightarrow> 0x30 \<le> b \<and> b \<le> 0x39"

definition lower_hex :: "u8 \<Rightarrow> bool" where
  "lower_hex b \<longleftrightarrow> is_digit b \<or> 0x61 \<le> b \<and> b \<le> 0x66"

definition validate_uuid :: "bytes \<Rightarrow> unit res" where
  "validate_uuid value =
     (if length value \<noteq> 36
       \<or> \<not> list_all (\<lambda>(i, b). if i = 8 \<or> i = 13 \<or> i = 18 \<or> i = 23 then b = 0x2D else lower_hex b) (enumerate 0 value)
       \<or> \<not> list_ex (\<lambda>b. b \<noteq> 0x30 \<and> b \<noteq> 0x2D) value
      then Err (BadName ''canonical non-nil UUID'') else Ok ())"

definition validate_oid :: "bytes \<Rightarrow> unit res" where
  "validate_oid value =
     (if length value \<noteq> 40 \<or> \<not> list_all lower_hex value then Err (BadName ''canonical SHA-1 OID'') else Ok ())"

fun validate_names :: "bytes list \<Rightarrow> unit res" where
  "validate_names [] = Ok ()"
| "validate_names (name # names) = and_then (validate_name name) (\<lambda>_. validate_names names)"

definition validate_relative_path :: "bytes \<Rightarrow> unit res" where
  "validate_relative_path path =
     (if length path > PATH_MAX_BYTES then Err (BadLength ''relative path'') else
      if path = [] then Ok () else validate_names (split_on slash path))"

definition validate_absolute_path :: "bytes \<Rightarrow> unit res" where
  "validate_absolute_path path =
     (if length path > PATH_MAX_BYTES then Err (BadLength ''absolute path'') else
      and_then (ok_or (strip_prefix [slash] path) (BadName ''absolute path'')) validate_relative_path)"

section \<open>Fields\<close>

definition write_field :: "bytes \<Rightarrow> bytes \<Rightarrow> bytes" where
  "write_field out bs = out @ be_bytes (of_nat (length bs) :: u32) @ bs"

definition input_new :: "bytes \<Rightarrow> bytes \<Rightarrow> bytes res" where
  "input_new bs domain =
     (if length bs > MANIFEST_MAX_BYTES then Err (BadLength ''manifest'') else
      ok_or (strip_prefix domain bs) (BadConstant ''manifest domain''))"

definition input_take :: "nat \<Rightarrow> bytes \<Rightarrow> (bytes \<times> bytes) res" where
  "input_take len remaining =
     and_then (ok_or (get_range remaining 0 len) (Truncated ''manifest field'')) (\<lambda>bs.
     and_then (slice_of remaining len (length remaining)) (\<lambda>rest. Ok (bs, rest)))"

definition input_byte :: "bytes \<Rightarrow> (u8 \<times> bytes) res" where
  "input_byte remaining =
     and_then (input_take 1 remaining) (\<lambda>(bs, remaining). and_then (at_index bs 0) (\<lambda>b. Ok (b, remaining)))"

definition input_digest :: "bytes \<Rightarrow> (digest \<times> bytes) res" where
  "input_digest remaining =
     and_then (input_take 32 remaining) (\<lambda>(bs, remaining). if length bs = 32 then Ok (bs, remaining) else Crash)"

definition input_field :: "bytes \<Rightarrow> (bytes \<times> bytes) res" where
  "input_field remaining =
     and_then (input_take 4 remaining) (\<lambda>(bs, remaining).
     if length bs \<noteq> 4 then Crash else input_take (unat (from_be_bytes bs :: u32)) remaining)"

definition input_text :: "bytes \<Rightarrow> (bytes \<times> bytes) res" where
  "input_text remaining =
     and_then (input_field remaining) (\<lambda>(bs, remaining).
     and_then (ok_or (from_utf8 bs) (BadName ''manifest UTF-8'')) (\<lambda>s. Ok (s, remaining)))"

definition input_finish :: "bytes \<Rightarrow> unit res" where
  "input_finish remaining = (if remaining = [] then Ok () else Err (BadLength ''manifest trailing bytes''))"

section \<open>Source snapshots\<close>

record source_snapshot =
  ss_source_id :: bytes
  ss_scope_path :: bytes
  ss_commit_oid :: bytes
  ss_root_tree_oid :: bytes

definition source_new :: "bytes \<Rightarrow> bytes \<Rightarrow> bytes \<Rightarrow> bytes \<Rightarrow> source_snapshot res" where
  "source_new source_id scope_path commit_oid root_tree_oid =
     and_then (validate_uuid source_id) (\<lambda>_.
     and_then (validate_absolute_path scope_path) (\<lambda>_.
     and_then (validate_oid commit_oid) (\<lambda>_.
     and_then (validate_oid root_tree_oid) (\<lambda>_.
     Ok \<lparr>ss_source_id = source_id, ss_scope_path = scope_path, ss_commit_oid = commit_oid,
         ss_root_tree_oid = root_tree_oid\<rparr>))))"

definition source_encode :: "source_snapshot \<Rightarrow> bytes" where
  "source_encode s =
     fold (\<lambda>field out. write_field out field)
       [ss_source_id s, ss_scope_path s, SHA1_STR, ss_commit_oid s, ss_root_tree_oid s] SOURCE_DOMAIN"

definition source_decode :: "bytes \<Rightarrow> source_snapshot res" where
  "source_decode bs =
     and_then (input_new bs SOURCE_DOMAIN) (\<lambda>input.
     and_then (input_text input) (\<lambda>(source_id, input).
     and_then (input_text input) (\<lambda>(scope_path, input).
     and_then (input_text input) (\<lambda>(format, input).
     if format \<noteq> SHA1_STR then Err (BadConstant ''source object format'') else
     and_then (input_text input) (\<lambda>(commit_oid, input).
     and_then (input_text input) (\<lambda>(root_tree_oid, input).
     and_then (input_finish input) (\<lambda>_.
     source_new source_id scope_path commit_oid root_tree_oid)))))))"

definition source_id :: "hash \<Rightarrow> source_snapshot \<Rightarrow> digest" where
  "source_id H s = sha256 H [source_encode s]"

section \<open>Bindings\<close>

datatype binding_policy = Mutable | ImmutableRelease

record namespace_binding =
  nb_mount_path :: bytes
  nb_source :: source_snapshot
  nb_source_subpath :: bytes
  nb_policy :: binding_policy

definition composed_len :: "source_snapshot \<Rightarrow> bytes \<Rightarrow> nat" where
  "composed_len source source_subpath =
     (if source_subpath = [] then length (ss_scope_path source)
      else if ss_scope_path source = [slash] then 1 + length source_subpath
      else length (ss_scope_path source) + 1 + length source_subpath)"

definition binding_new :: "bytes \<Rightarrow> source_snapshot \<Rightarrow> bytes \<Rightarrow> binding_policy \<Rightarrow> namespace_binding res" where
  "binding_new mount_path source source_subpath policy =
     and_then (validate_absolute_path mount_path) (\<lambda>_.
     and_then (validate_relative_path source_subpath) (\<lambda>_.
     if composed_len source source_subpath > PATH_MAX_BYTES then Err (BadLength ''composed source path'') else
     Ok \<lparr>nb_mount_path = mount_path, nb_source = source, nb_source_subpath = source_subpath, nb_policy = policy\<rparr>))"

definition binding_encode :: "namespace_binding \<Rightarrow> bytes" where
  "binding_encode b =
     (let out = BINDING_DOMAIN;
          out = write_field out (nb_mount_path b);
          out = write_field out (source_encode (nb_source b));
          out = write_field out (nb_source_subpath b)
      in out @ [case nb_policy b of Mutable \<Rightarrow> 1 | ImmutableRelease \<Rightarrow> 2])"

definition binding_decode :: "bytes \<Rightarrow> namespace_binding res" where
  "binding_decode bs =
     and_then (input_new bs BINDING_DOMAIN) (\<lambda>input.
     and_then (input_text input) (\<lambda>(mount_path, input).
     and_then (input_field input) (\<lambda>(source_bytes, input).
     and_then (source_decode source_bytes) (\<lambda>source.
     and_then (input_text input) (\<lambda>(source_subpath, input).
     and_then (input_byte input) (\<lambda>(p, input).
     and_then (if p = 1 then Ok Mutable else if p = 2 then Ok ImmutableRelease else Err (BadConstant ''binding policy''))
       (\<lambda>policy.
     and_then (input_finish input) (\<lambda>_.
     binding_new mount_path source source_subpath policy))))))))"

definition binding_id :: "hash \<Rightarrow> namespace_binding \<Rightarrow> digest" where
  "binding_id H b = sha256 H [binding_encode b]"

section \<open>Views\<close>

record namespace_view =
  nv_instance_id :: bytes
  nv_native :: source_snapshot
  nv_bindings_root :: digest
  nv_overrides_root :: "digest option"

definition view_new :: "bytes \<Rightarrow> source_snapshot \<Rightarrow> digest \<Rightarrow> digest option \<Rightarrow> namespace_view res" where
  "view_new instance_id native bindings_root overrides_root =
     and_then (validate_uuid instance_id) (\<lambda>_.
     if ss_scope_path native \<noteq> [slash] then Err (BadName ''native scope must be root'') else
     Ok \<lparr>nv_instance_id = instance_id, nv_native = native, nv_bindings_root = bindings_root,
         nv_overrides_root = overrides_root\<rparr>)"

definition view_encode :: "namespace_view \<Rightarrow> bytes" where
  "view_encode v =
     (let out = VIEW_DOMAIN;
          out = out @ be_bytes (1 :: u16);
          out = write_field out (nv_instance_id v);
          out = write_field out (source_encode (nv_native v));
          out = out @ nv_bindings_root v;
          out = (case nv_overrides_root v of None \<Rightarrow> out @ [0] | Some root \<Rightarrow> (out @ [1]) @ root)
      in out @ [1])"

definition view_decode :: "bytes \<Rightarrow> namespace_view res" where
  "view_decode bs =
     and_then (input_new bs VIEW_DOMAIN) (\<lambda>input.
     and_then (input_take 2 input) (\<lambda>(schema, input).
     if schema \<noteq> be_bytes (1 :: u16) then Err (BadConstant ''namespace schema'') else
     and_then (input_text input) (\<lambda>(instance_id, input).
     and_then (input_field input) (\<lambda>(native_bytes, input).
     and_then (source_decode native_bytes) (\<lambda>native.
     and_then (input_digest input) (\<lambda>(bindings_root, input).
     and_then (input_byte input) (\<lambda>(presence, input).
     and_then
       (if presence = 0 then Ok (None, input)
        else if presence = 1 then and_then (input_digest input) (\<lambda>(root, input). Ok (Some root, input))
        else Err (BadConstant ''override presence'')) (\<lambda>(overrides_root, input).
     and_then (input_byte input) (\<lambda>(policy, input).
     if policy \<noteq> 1 then Err (BadConstant ''materialization policy'') else
     and_then (input_finish input) (\<lambda>_.
     view_new instance_id native bindings_root overrides_root))))))))))"

definition view_id :: "hash \<Rightarrow> namespace_view \<Rightarrow> digest" where
  "view_id H v = sha256 H [view_encode v]"

section \<open>Canonical paths\<close>

text \<open>Names joined by slashes, none of them empty, dotted or too long; an absolute path adds a slash in front.
  Both fit in 4096 bytes.\<close>

definition rel_path :: "bytes \<Rightarrow> bool" where
  "rel_path p \<longleftrightarrow> length p \<le> 4096 \<and> (p = [] \<or> (\<exists>names. names \<noteq> [] \<and> (\<forall>n\<in>set names. canonical_name n) \<and> p = join_with slash names))"

definition abs_path :: "bytes \<Rightarrow> bool" where
  "abs_path p \<longleftrightarrow> length p \<le> 4096 \<and> (\<exists>r. p = slash # r \<and> rel_path r)"

lemma validate_names_Ok: "validate_names ns = Inr u \<longleftrightarrow> (\<forall>n\<in>set ns. canonical_name n)"
  by (induction ns) (auto simp: and_then_eq_Inr validate_name_eq_Ok)

lemma validate_relative_path_Ok: "validate_relative_path p = Inr u \<longleftrightarrow> rel_path p"
proof -
  have eq: "(\<forall>n\<in>set (split_on slash p). canonical_name n) \<longleftrightarrow>
      (\<exists>names. names \<noteq> [] \<and> (\<forall>n\<in>set names. canonical_name n) \<and> p = join_with slash names)"
  proof
    assume "\<forall>n\<in>set (split_on slash p). canonical_name n"
    then show "\<exists>names. names \<noteq> [] \<and> (\<forall>n\<in>set names. canonical_name n) \<and> p = join_with slash names"
      by (intro exI [of _ "split_on slash p"]) simp
  next
    assume "\<exists>names. names \<noteq> [] \<and> (\<forall>n\<in>set names. canonical_name n) \<and> p = join_with slash names"
    then obtain names where n: "names \<noteq> []" "\<forall>n\<in>set names. canonical_name n" "p = join_with slash names" by blast
    have "split_on slash p = names"
      unfolding n(3) by (rule split_join [OF n(1)]) (use n(2) in \<open>simp add: canonical_name_def\<close>)
    with n(2) show "\<forall>n\<in>set (split_on slash p). canonical_name n" by simp
  qed
  have "validate_relative_path p = Inr u \<longleftrightarrow> length p \<le> 4096 \<and> (p = [] \<or> (\<forall>n\<in>set (split_on slash p). canonical_name n))"
    by (simp add: validate_relative_path_def PATH_MAX_BYTES_def if_eq_Inr_Err validate_names_Ok not_less)
  then show ?thesis unfolding eq rel_path_def .
qed

lemma validate_absolute_path_Ok: "validate_absolute_path p = Inr u \<longleftrightarrow> abs_path p"
  by (auto simp: validate_absolute_path_def abs_path_def if_eq_Inr_Err and_then_eq_Inr ok_or_eq_Inr
      strip_prefix_eq_Some validate_relative_path_Ok PATH_MAX_BYTES_def not_less)

lemma clean_validate_paths [simp]: "clean (validate_relative_path p)" "clean (validate_absolute_path p)"
proof -
  have "clean (validate_names ns)" for ns by (induction ns) (auto intro!: clean_and_then)
  then show "clean (validate_relative_path p)" for p by (simp add: validate_relative_path_def)
  then show "clean (validate_absolute_path p)" by (auto simp: validate_absolute_path_def intro!: clean_and_then)
qed

lemma join_utf8: "(\<forall>n\<in>set ns. is_utf8 n) \<Longrightarrow> is_utf8 (join_with slash ns)"
  by (induction slash ns rule: join_with.induct) (auto simp: is_utf8_append is_utf8_Cons_ascii slash_def)

lemma rel_path_utf8: "rel_path p \<Longrightarrow> is_utf8 p"
  by (auto simp: rel_path_def canonical_name_def intro: join_utf8)

lemma abs_path_utf8: "abs_path p \<Longrightarrow> is_utf8 p"
  by (auto simp: abs_path_def is_utf8_Cons_ascii slash_def rel_path_utf8)

text \<open>UUIDs and object ids.\<close>

definition uuid_text :: "bytes \<Rightarrow> bool" where
  "uuid_text v \<longleftrightarrow> length v = 36
     \<and> (\<forall>i<36. if i \<in> {8, 13, 18, 23} then v ! i = 0x2D else lower_hex (v ! i))
     \<and> (\<exists>b\<in>set v. b \<noteq> 0x30 \<and> b \<noteq> 0x2D)"

definition oid_text :: "bytes \<Rightarrow> bool" where
  "oid_text v \<longleftrightarrow> length v = 40 \<and> (\<forall>b\<in>set v. lower_hex b)"

lemma validate_uuid_Ok: "validate_uuid v = Inr u \<longleftrightarrow> uuid_text v"
proof -
  have "list_all (\<lambda>(i, b). if i = 8 \<or> i = 13 \<or> i = 18 \<or> i = 23 then b = 0x2D else lower_hex b) (enumerate 0 v) \<longleftrightarrow>
      (\<forall>i<length v. if i \<in> {8, 13, 18, 23} then v ! i = 0x2D else lower_hex (v ! i))"
    by (auto simp: list_all_length nth_enumerate_eq)
  then show ?thesis by (auto simp: validate_uuid_def uuid_text_def list_ex_iff)
qed

lemma validate_oid_Ok: "validate_oid v = Inr u \<longleftrightarrow> oid_text v"
  by (auto simp: validate_oid_def oid_text_def list_all_iff)

lemma lower_hex_ascii: "lower_hex b \<Longrightarrow> b < 0x80"
  by (auto simp: lower_hex_def is_digit_def u8_order)

lemma oid_utf8: "oid_text v \<Longrightarrow> is_utf8 v"
  by (rule is_utf8_ascii) (auto simp: oid_text_def lower_hex_ascii)

lemma uuid_utf8: "uuid_text v \<Longrightarrow> is_utf8 v"
proof (rule is_utf8_ascii, rule ballI)
  fix b
  assume u: "uuid_text v" and "b \<in> set v"
  then obtain i where i: "i < 36" "v ! i = b" by (auto simp: in_set_conv_nth uuid_text_def)
  with u have "b = 0x2D \<or> lower_hex b" unfolding uuid_text_def by metis
  then show "b < 0x80" by (auto simp: lower_hex_ascii)
qed

lemma clean_validate_ids [simp]: "clean (validate_uuid v)" "clean (validate_oid v)"
  by (simp_all add: validate_uuid_def validate_oid_def)

section \<open>What the reader reads\<close>

definition field_bytes :: "bytes \<Rightarrow> bytes" where
  "field_bytes x = be_bytes (of_nat (length x) :: u32) @ x"

lemma length_field_bytes [simp]: "length (field_bytes x) = 4 + length x"
  by (simp add: field_bytes_def)

lemma write_field_eq: "write_field out x = out @ field_bytes x"
  by (simp add: write_field_def field_bytes_def)

lemma input_new_Ok: "input_new bs d = Inr r \<longleftrightarrow> length bs \<le> 16384 \<and> bs = d @ r"
  by (auto simp: input_new_def if_eq_Inr_Err ok_or_eq_Inr strip_prefix_eq_Some MANIFEST_MAX_BYTES_def not_less)

lemma input_take_Ok: "input_take n rem = Inr (x, r) \<longleftrightarrow> rem = x @ r \<and> length x = n"
  by (auto simp: input_take_def and_then_eq_Inr ok_or_eq_Inr get_range_eq_Some slice_of_eq_Inr sub_def)

lemma input_byte_Ok: "input_byte rem = Inr (b, r) \<longleftrightarrow> rem = b # r"
proof
  assume "input_byte rem = Inr (b, r)"
  then obtain x where "rem = x @ r" "length x = 1" "b = x ! 0"
    by (auto simp: input_byte_def and_then_eq_Inr input_take_Ok at_index_eq_Inr)
  then show "rem = b # r" by (cases x) auto
next
  assume "rem = b # r"
  then have "input_take 1 rem = Inr ([b], r)" by (simp add: input_take_Ok)
  then show "input_byte rem = Inr (b, r)" by (simp add: input_byte_def at_index_def)
qed

lemma input_digest_Ok: "input_digest rem = Inr (d, r) \<longleftrightarrow> rem = d @ r \<and> length d = 32"
  by (auto simp: input_digest_def and_then_eq_Inr input_take_Ok)

lemma input_field_Ok: "input_field rem = Inr (x, r) \<longleftrightarrow> rem = field_bytes x @ r \<and> length x < 2 ^ 32"
proof
  assume "input_field rem = Inr (x, r)"
  then obtain l rest where l: "rem = l @ rest" "length l = 4" "rest = x @ r" "length x = unat (from_be_bytes l :: u32)"
    by (auto simp: input_field_def and_then_eq_Inr input_take_Ok split: if_splits)
  then have "be_bytes (of_nat (length x) :: u32) = l" using from_be_bytes_inverse_u32 [OF l(2)] by simp
  with l unat_u32_bound [of "from_be_bytes l"] show "rem = field_bytes x @ r \<and> length x < 2 ^ 32"
    by (simp add: field_bytes_def)
next
  assume a: "rem = field_bytes x @ r \<and> length x < 2 ^ 32"
  then have "input_take 4 rem = Inr (be_bytes (of_nat (length x) :: u32), x @ r)"
    by (simp add: input_take_Ok field_bytes_def)
  moreover have "unat (of_nat (length x) :: u32) = length x" using a by (simp add: unat_of_nat)
  then have "input_take (unat (of_nat (length x) :: u32)) (x @ r) = Inr (x, r)" by (simp only: input_take_Ok)
  ultimately show "input_field rem = Inr (x, r)" by (simp add: input_field_def)
qed

lemma input_text_Ok: "input_text rem = Inr (x, r) \<longleftrightarrow> rem = field_bytes x @ r \<and> length x < 2 ^ 32 \<and> is_utf8 x"
  by (auto simp: input_text_def and_then_eq_Inr ok_or_eq_Inr from_utf8_eq_Some input_field_Ok)

lemma input_finish_Ok: "input_finish rem = Inr u \<longleftrightarrow> rem = []"
  by (simp add: input_finish_def)

lemmas input_Ok = input_new_Ok input_take_Ok input_byte_Ok input_digest_Ok input_field_Ok input_text_Ok input_finish_Ok

lemma clean_input_take [simp]: "clean (input_take n rem)"
  by (auto simp: input_take_def ok_or_eq_Inr get_range_eq_Some intro!: clean_and_then clean_slice_of)

lemma clean_inputs [simp]: "clean (input_new bs d)" "clean (input_byte rem)" "clean (input_digest rem)"
  "clean (input_field rem)" "clean (input_text rem)" "clean (input_finish rem)"
proof -
  show "clean (input_new bs d)" "clean (input_finish rem)" by (simp_all add: input_new_def input_finish_def)
  show "clean (input_byte rem)" "clean (input_digest rem)"
    by (auto simp: input_byte_def input_digest_def input_take_Ok intro!: clean_and_then clean_at_index)
  show f: "clean (input_field rem)" by (auto simp: input_field_def input_take_Ok intro!: clean_and_then)
  show "clean (input_text rem)" using f by (auto simp: input_text_def intro!: clean_and_then)
qed

text \<open>Reading what was written.\<close>

lemma input_written [simp]:
  "length x < 2 ^ 32 \<Longrightarrow> input_field (field_bytes x @ r) = Inr (x, r)"
  "length x < 2 ^ 32 \<Longrightarrow> is_utf8 x \<Longrightarrow> input_text (field_bytes x @ r) = Inr (x, r)"
  "length x < 2 ^ 32 \<Longrightarrow> is_utf8 x \<Longrightarrow> input_text (field_bytes x) = Inr (x, [])"
  "input_byte (b # r) = Inr (b, r)"
  "length d = 32 \<Longrightarrow> input_digest (d @ r) = Inr (d, r)"
  "input_finish [] = Inr ()"
  "length m \<le> 16384 \<Longrightarrow> m = d @ r \<Longrightarrow> input_new m d = Inr r"
  by (simp_all add: input_Ok)

section \<open>The codecs\<close>

definition source_wf :: "source_snapshot \<Rightarrow> bool" where
  "source_wf s \<longleftrightarrow> uuid_text (ss_source_id s) \<and> abs_path (ss_scope_path s) \<and> oid_text (ss_commit_oid s)
     \<and> oid_text (ss_root_tree_oid s)"

definition binding_wf :: "namespace_binding \<Rightarrow> bool" where
  "binding_wf b \<longleftrightarrow> abs_path (nb_mount_path b) \<and> source_wf (nb_source b) \<and> rel_path (nb_source_subpath b)
     \<and> composed_len (nb_source b) (nb_source_subpath b) \<le> 4096"

definition view_wf :: "namespace_view \<Rightarrow> bool" where
  "view_wf v \<longleftrightarrow> uuid_text (nv_instance_id v) \<and> source_wf (nv_native v) \<and> ss_scope_path (nv_native v) = [slash]
     \<and> length (nv_bindings_root v) = 32 \<and> (case nv_overrides_root v of None \<Rightarrow> True | Some root \<Rightarrow> length root = 32)"

lemma source_new_Ok:
  "source_new a b c d = Inr s \<longleftrightarrow> s = \<lparr>ss_source_id = a, ss_scope_path = b, ss_commit_oid = c, ss_root_tree_oid = d\<rparr> \<and> source_wf s"
  by (auto simp: source_new_def and_then_eq_Inr validate_uuid_Ok validate_absolute_path_Ok validate_oid_Ok source_wf_def)

lemma binding_new_Ok:
  "source_wf b \<Longrightarrow> binding_new a b c d = Inr n \<longleftrightarrow>
     n = \<lparr>nb_mount_path = a, nb_source = b, nb_source_subpath = c, nb_policy = d\<rparr> \<and> binding_wf n"
  by (auto simp: binding_new_def and_then_eq_Inr if_eq_Inr_Err validate_absolute_path_Ok validate_relative_path_Ok
      binding_wf_def PATH_MAX_BYTES_def not_less)

lemma view_new_Ok:
  "source_wf b \<Longrightarrow> length c = 32 \<Longrightarrow> (case d of None \<Rightarrow> True | Some root \<Rightarrow> length root = 32) \<Longrightarrow> view_new a b c d = Inr n \<longleftrightarrow>
     n = \<lparr>nv_instance_id = a, nv_native = b, nv_bindings_root = c, nv_overrides_root = d\<rparr> \<and> view_wf n"
  by (auto simp: view_new_def and_then_eq_Inr if_eq_Inr_Err validate_uuid_Ok view_wf_def)

lemma source_encode_eq:
  "source_encode s = SOURCE_DOMAIN @ field_bytes (ss_source_id s) @ field_bytes (ss_scope_path s) @ field_bytes SHA1_STR
     @ field_bytes (ss_commit_oid s) @ field_bytes (ss_root_tree_oid s)"
  by (simp add: source_encode_def write_field_eq)

lemma binding_encode_eq:
  "binding_encode b = BINDING_DOMAIN @ field_bytes (nb_mount_path b) @ field_bytes (source_encode (nb_source b))
     @ field_bytes (nb_source_subpath b) @ [case nb_policy b of Mutable \<Rightarrow> 1 | ImmutableRelease \<Rightarrow> 2]"
  by (simp add: binding_encode_def write_field_eq Let_def)

lemma view_encode_eq:
  "view_encode v = VIEW_DOMAIN @ be_bytes (1 :: u16) @ field_bytes (nv_instance_id v) @ field_bytes (source_encode (nv_native v))
     @ nv_bindings_root v @ (case nv_overrides_root v of None \<Rightarrow> [0] | Some root \<Rightarrow> 1 # root) @ [1]"
  by (simp add: view_encode_def write_field_eq Let_def split: option.split)

lemma domain_lengths [simp]: "length SOURCE_DOMAIN = 24" "length BINDING_DOMAIN = 26" "length VIEW_DOMAIN = 23" "length SHA1_STR = 4"
  by (simp_all add: SOURCE_DOMAIN_def BINDING_DOMAIN_def VIEW_DOMAIN_def SHA1_STR_def ascii_def)

lemma source_encode_length: "source_wf s \<Longrightarrow> length (source_encode s) = 164 + length (ss_scope_path s)"
  by (simp add: source_encode_eq source_wf_def uuid_text_def oid_text_def)

lemma path_lengths: "rel_path p \<Longrightarrow> length p \<le> 4096" "abs_path p \<Longrightarrow> length p \<le> 4096"
  by (simp_all add: rel_path_def abs_path_def)

lemma source_encode_bound: "source_wf s \<Longrightarrow> length (source_encode s) \<le> 4260"
  using source_encode_length [of s] path_lengths(2) [of "ss_scope_path s"] by (simp add: source_wf_def)

lemma binding_encode_bound: "binding_wf b \<Longrightarrow> length (binding_encode b) \<le> 12491"
  using source_encode_bound [of "nb_source b"] path_lengths(2) [of "nb_mount_path b"] path_lengths(1) [of "nb_source_subpath b"]
  by (simp add: binding_encode_eq binding_wf_def)

lemma view_encode_bound: "view_wf v \<Longrightarrow> length (view_encode v) \<le> 300"
  using source_encode_length [of "nv_native v"]
  by (auto simp: view_encode_eq view_wf_def uuid_text_def split: option.splits)

lemma SHA1_STR_utf8 [simp]: "is_utf8 SHA1_STR"
  by (rule is_utf8_ascii) (simp add: SHA1_STR_def ascii_def)

lemma source_fields:
  "source_wf s \<Longrightarrow> is_utf8 (ss_source_id s) \<and> is_utf8 (ss_scope_path s) \<and> is_utf8 (ss_commit_oid s) \<and> is_utf8 (ss_root_tree_oid s)
    \<and> length (ss_source_id s) < 2 ^ 32 \<and> length (ss_scope_path s) < 2 ^ 32 \<and> length (ss_commit_oid s) < 2 ^ 32
    \<and> length (ss_root_tree_oid s) < 2 ^ 32"
  using path_lengths(2) [of "ss_scope_path s"]
  by (simp add: source_wf_def uuid_utf8 abs_path_utf8 oid_utf8) (simp add: uuid_text_def oid_text_def)

lemma source_decode_Ok: "source_decode bs = Inr s \<longleftrightarrow> source_wf s \<and> bs = source_encode s"
proof
  assume "source_decode bs = Inr s"
  then obtain a b c d where "bs = SOURCE_DOMAIN @ field_bytes a @ field_bytes b @ field_bytes SHA1_STR @ field_bytes c @ field_bytes d"
    "source_new a b c d = Inr s"
    by (auto simp: source_decode_def and_then_eq_Inr if_eq_Inr_Err input_Ok)
  then show "source_wf s \<and> bs = source_encode s" by (auto simp: source_new_Ok source_encode_eq)
next
  assume w: "source_wf s \<and> bs = source_encode s"
  then have l: "length bs \<le> 16384" using source_encode_bound [of s] by simp
  have n: "source_new (ss_source_id s) (ss_scope_path s) (ss_commit_oid s) (ss_root_tree_oid s) = Inr s"
    using w by (simp add: source_new_Ok)
  have i: "input_new bs SOURCE_DOMAIN = Inr (field_bytes (ss_source_id s) @ field_bytes (ss_scope_path s) @ field_bytes SHA1_STR
     @ field_bytes (ss_commit_oid s) @ field_bytes (ss_root_tree_oid s))"
    using w l by (simp add: input_new_Ok source_encode_eq)
  show "source_decode bs = Inr s"
    unfolding source_decode_def i using source_fields [of s] w n by simp
qed

lemma binding_decode_Ok: "binding_decode bs = Inr b \<longleftrightarrow> binding_wf b \<and> bs = binding_encode b"
proof
  assume "binding_decode bs = Inr b"
  then obtain m sb src sp p pol where d: "bs = BINDING_DOMAIN @ field_bytes m @ field_bytes sb @ field_bytes sp @ [p]"
    "source_decode sb = Inr src" "p = 1 \<and> pol = Mutable \<or> p = 2 \<and> pol = ImmutableRelease" "binding_new m src sp pol = Inr b"
    by (auto simp: binding_decode_def and_then_eq_Inr if_eq_Inr_Err input_Ok split: if_splits)
  then have "source_wf src" "sb = source_encode src" by (simp_all add: source_decode_Ok)
  with d show "binding_wf b \<and> bs = binding_encode b" by (auto simp: binding_new_Ok binding_encode_eq)
next
  assume w: "binding_wf b \<and> bs = binding_encode b"
  then have l: "length bs \<le> 16384" using binding_encode_bound [of b] by simp
  have src: "source_wf (nb_source b)" using w by (simp add: binding_wf_def)
  then have n: "binding_new (nb_mount_path b) (nb_source b) (nb_source_subpath b) (nb_policy b) = Inr b"
    using w by (simp add: binding_new_Ok)
  have i: "input_new bs BINDING_DOMAIN = Inr (field_bytes (nb_mount_path b) @ field_bytes (source_encode (nb_source b))
      @ field_bytes (nb_source_subpath b) @ [case nb_policy b of Mutable \<Rightarrow> 1 | ImmutableRelease \<Rightarrow> 2])"
    using w l by (simp add: input_new_Ok binding_encode_eq)
  have f: "is_utf8 (nb_mount_path b)" "is_utf8 (nb_source_subpath b)" "length (nb_mount_path b) < 2 ^ 32"
    "length (nb_source_subpath b) < 2 ^ 32" "length (source_encode (nb_source b)) < 2 ^ 32"
    using w path_lengths [of "nb_source_subpath b"] path_lengths(2) [of "nb_mount_path b"] source_encode_bound [OF src]
    by (simp_all add: binding_wf_def abs_path_utf8 rel_path_utf8)
  have s: "source_decode (source_encode (nb_source b)) = Inr (nb_source b)" using src by (simp add: source_decode_Ok)
  show "binding_decode bs = Inr b"
    unfolding binding_decode_def i using f n s by (cases "nb_policy b") simp_all
qed

lemma view_decode_Ok: "view_decode bs = Inr v \<longleftrightarrow> view_wf v \<and> bs = view_encode v"
proof
  assume "view_decode bs = Inr v"
  then obtain i sb src d p ov where d: "bs = VIEW_DOMAIN @ be_bytes (1 :: u16) @ field_bytes i @ field_bytes sb @ d @ p @ [1]"
    "source_decode sb = Inr src" "length d = 32" "ov = None \<and> p = [0] \<or> (\<exists>r. ov = Some r \<and> p = 1 # r \<and> length r = 32)"
    "view_new i src d ov = Inr v"
    by (auto simp: view_decode_def and_then_eq_Inr if_eq_Inr_Err input_Ok split: if_splits)
  then have "source_wf src" "sb = source_encode src" by (simp_all add: source_decode_Ok)
  with d show "view_wf v \<and> bs = view_encode v" by (auto simp: view_new_Ok view_encode_eq)
next
  assume w: "view_wf v \<and> bs = view_encode v"
  then have l: "length bs \<le> 16384" using view_encode_bound [of v] by simp
  have src: "source_wf (nv_native v)" using w by (simp add: view_wf_def)
  then have n: "view_new (nv_instance_id v) (nv_native v) (nv_bindings_root v) (nv_overrides_root v) = Inr v"
    using w by (subst view_new_Ok) (auto simp: view_wf_def)
  have i: "input_new bs VIEW_DOMAIN = Inr (be_bytes (1 :: u16) @ field_bytes (nv_instance_id v) @ field_bytes (source_encode (nv_native v))
     @ nv_bindings_root v @ (case nv_overrides_root v of None \<Rightarrow> [0] | Some root \<Rightarrow> 1 # root) @ [1])"
    using w l by (simp add: input_new_Ok view_encode_eq)
  have t: "input_take 2 (be_bytes (1 :: u16) @ r) = Inr (be_bytes (1 :: u16), r)" for r by (simp add: input_take_Ok)
  have f: "is_utf8 (nv_instance_id v)" "length (nv_instance_id v) < 2 ^ 32" "length (source_encode (nv_native v)) < 2 ^ 32"
    "length (nv_bindings_root v) = 32"
    using w source_encode_bound [OF src] by (simp_all add: view_wf_def uuid_utf8) (simp add: uuid_text_def)
  have s: "source_decode (source_encode (nv_native v)) = Inr (nv_native v)" using src by (simp add: source_decode_Ok)
  show "view_decode bs = Inr v"
  proof (cases "nv_overrides_root v")
    case None
    then show ?thesis unfolding view_decode_def i using f n s by (simp add: t)
  next
    case (Some r)
    then have "length r = 32" using w by (simp add: view_wf_def)
    with Some show ?thesis unfolding view_decode_def i using f n s by (simp add: t)
  qed
qed

text \<open>The three manifests keep the contract of strict codecs.\<close>

interpretation source_codec: strict_codec "\<lambda>s. Ok (source_encode s)" source_decode source_wf
  by unfold_locales (auto simp: source_decode_Ok)

interpretation binding_codec: strict_codec "\<lambda>b. Ok (binding_encode b)" binding_decode binding_wf
  by unfold_locales (auto simp: binding_decode_Ok)

interpretation view_codec: strict_codec "\<lambda>v. Ok (view_encode v)" view_decode view_wf
  by unfold_locales (auto simp: view_decode_Ok)

lemma clean_manifests [simp]: "clean (source_decode bs)" "clean (binding_decode bs)" "clean (view_decode bs)"
proof -
  have n: "clean (source_new a b c d)" for a b c d by (auto simp: source_new_def intro!: clean_and_then)
  have nb: "clean (binding_new a b' c p)" for a b' c p by (auto simp: binding_new_def intro!: clean_and_then)
  have nv: "clean (view_new a b' c d)" for a b' c d by (auto simp: view_new_def intro!: clean_and_then)
  show s: "clean (source_decode bs)" for bs by (auto simp: source_decode_def n intro!: clean_and_then)
  show "clean (binding_decode bs)" by (auto simp: binding_decode_def nb s intro!: clean_and_then)
  show "clean (view_decode bs)" by (auto simp: view_decode_def nv s intro!: clean_and_then)
qed

section \<open>Properties\<close>

text \<open>C22. The decoders of the three manifests accept exactly the encodings of the values their constructors
  admit, and return these values: one byte string per source snapshot, per binding and per view, with
  the source snapshot inside a binding or a view canonical as well.\<close>

theorem manifest_codecs:
  "(source_decode bs = Ok s \<longleftrightarrow> source_wf s \<and> bs = source_encode s)
    \<and> (binding_decode bs = Ok b \<longleftrightarrow> binding_wf b \<and> bs = binding_encode b)
    \<and> (view_decode bs = Ok v \<longleftrightarrow> view_wf v \<and> bs = view_encode v)"
  by (simp add: source_decode_Ok binding_decode_Ok view_decode_Ok)

text \<open>The validator of absolute paths accepts exactly the slash and the paths of names joined by slashes
  behind a slash, none of the names empty, dotted, with a NUL, too long or not UTF-8, up to 4096 bytes.\<close>

theorem validate_absolute_path_exact:
  "validate_absolute_path p = Ok () \<longleftrightarrow> length p \<le> 4096 \<and>
     (p = [slash] \<or> (\<exists>names. names \<noteq> [] \<and> list_all canonical_name names \<and> p = slash # join_with slash names))"
proof -
  have "abs_path p \<longleftrightarrow> length p \<le> 4096 \<and>
     (p = [slash] \<or> (\<exists>names. names \<noteq> [] \<and> (\<forall>n\<in>set names. canonical_name n) \<and> p = slash # join_with slash names))"
    unfolding abs_path_def rel_path_def by fastforce
  then show ?thesis by (simp add: validate_absolute_path_Ok list_all_iff)
qed

text \<open>Every complete manifest is smaller than the limit the reader enforces, and every field fits its
  32-bit length, as the encoder assumes.\<close>

theorem manifest_bounds:
  assumes "binding_wf b" "view_wf v"
  shows "length (source_encode (nb_source b)) < MANIFEST_MAX_BYTES \<and> length (binding_encode b) < MANIFEST_MAX_BYTES
    \<and> length (view_encode v) < MANIFEST_MAX_BYTES \<and> length (nb_mount_path b) < 2 ^ 32"
  using binding_encode_bound [OF assms(1)] view_encode_bound [OF assms(2)] source_encode_bound [of "nb_source b"] assms
    path_lengths(2) [of "nb_mount_path b"]
  by (simp add: binding_wf_def MANIFEST_MAX_BYTES_def)

text \<open>C30. Two views with the same identity are equal, and so are the snapshots they name, unless their
  encodings collide under SHA-256; the same holds of bindings, and a view and a binding never share one.\<close>

theorem manifest_ids_pin:
  assumes "view_wf v" "view_wf w" "binding_wf b" "binding_wf c"
    and "collision_free H {view_encode v, view_encode w, binding_encode b, binding_encode c}"
  shows "(view_id H v = view_id H w \<longleftrightarrow> v = w) \<and> (binding_id H b = binding_id H c \<longleftrightarrow> b = c)
    \<and> view_id H v \<noteq> binding_id H b"
proof -
  have ve: "view_encode v = view_encode w \<longleftrightarrow> v = w" using view_codec.enc_inj [OF assms(1,2)] by auto
  have be: "binding_encode b = binding_encode c \<longleftrightarrow> b = c" using binding_codec.enc_inj [OF assms(3,4)] by auto
  have "take 16 (view_encode v) \<noteq> take 16 (binding_encode b)"
    by (simp add: view_encode_eq binding_encode_eq VIEW_DOMAIN_def BINDING_DOMAIN_def ascii_def)
  then have ne: "view_encode v \<noteq> binding_encode b" by auto
  have "view_id H v = view_id H w \<longleftrightarrow> view_encode v = view_encode w"
    using collision_freeD [OF assms(5), of "view_encode v" "view_encode w"] by (auto simp: view_id_def sha256_def)
  moreover have "binding_id H b = binding_id H c \<longleftrightarrow> binding_encode b = binding_encode c"
    using collision_freeD [OF assms(5), of "binding_encode b" "binding_encode c"] by (auto simp: binding_id_def sha256_def)
  moreover have "view_id H v \<noteq> binding_id H b"
    using collision_freeD [OF assms(5), of "view_encode v" "binding_encode b"] ne by (auto simp: view_id_def binding_id_def sha256_def)
  ultimately show ?thesis using ve be by simp
qed

definition sample_source :: source_snapshot where
  "sample_source = \<lparr>ss_source_id = ascii ''01234567-89ab-cdef-0123-456789abcdef'', ss_scope_path = [slash],
     ss_commit_oid = replicate 40 0x61, ss_root_tree_oid = replicate 40 0x30\<rparr>"

definition sample_binding :: namespace_binding where
  "sample_binding = \<lparr>nb_mount_path = [slash, 0x61], nb_source = sample_source, nb_source_subpath = [0x62], nb_policy = ImmutableRelease\<rparr>"

definition sample_view :: namespace_view where
  "sample_view = \<lparr>nv_instance_id = ss_source_id sample_source, nv_native = sample_source, nv_bindings_root = replicate 32 1,
     nv_overrides_root = None\<rparr>"

lemma sample_manifests: "source_wf sample_source" "binding_wf sample_binding" "view_wf sample_view"
proof -
  have "validate_uuid (ss_source_id sample_source) = Ok ()" by code_simp
  then have u: "uuid_text (ss_source_id sample_source)" by (simp add: validate_uuid_Ok)
  have c: "canonical_name [0x61]" "canonical_name [0x62]"
    by (simp_all add: canonical_name_def slash_def dot_def is_utf8_ascii)
  have r: "rel_path [0x61]" "rel_path [0x62]" using c by (auto simp: rel_path_def intro: exI [of _ "[[0x61]]"] exI [of _ "[[0x62]]"])
  then have p: "abs_path [slash]" "abs_path [slash, 0x61]" by (simp_all add: abs_path_def) (simp add: rel_path_def)
  show s: "source_wf sample_source"
    using u p by (simp add: source_wf_def sample_source_def oid_text_def lower_hex_def is_digit_def)
  show "binding_wf sample_binding"
    using s r p by (simp add: binding_wf_def sample_binding_def composed_len_def sample_source_def)
  show "view_wf sample_view" using s u by (simp add: view_wf_def sample_view_def) (simp add: sample_source_def)
qed

lemma manifest_bounds_witness: "length (binding_encode sample_binding) < MANIFEST_MAX_BYTES"
  using manifest_bounds [OF sample_manifests(2,3)] by simp

theorem manifest_ids_pin_witness:
  "(view_id id sample_view = view_id id sample_view \<longleftrightarrow> sample_view = sample_view)
     \<and> (binding_id id sample_binding = binding_id id sample_binding \<longleftrightarrow> sample_binding = sample_binding)
     \<and> view_id id sample_view \<noteq> binding_id id sample_binding"
  by (rule manifest_ids_pin [OF sample_manifests(3,3,2,2)]) (simp add: collision_free_def)

end
