(* ===== verification/Radix.thy ===== *)
theory Radix
  imports Namespace
begin

text \<open>
  \<^verbatim>\<open>src/namespace/radix.rs\<close>: the nodes of the binding index with their canonical local shape, and the keys
  under which the index files absolute paths. The getters of a node are the fields of its record.
  \<open>node_wf\<close> is the shape the constructor enforces. A key is the list of the names of a path, each closed
  by a NUL byte: \<open>key_of\<close> states it on the list, \<open>encode_key\<close> and \<open>decode_key\<close> are the code.
\<close>

section \<open>Nodes\<close>

definition NODE_MAX_BYTES :: nat where "NODE_MAX_BYTES = 16384"
definition CHILD_MAX_COUNT :: nat where "CHILD_MAX_COUNT = 256"
definition NODE_DOMAIN :: bytes where "NODE_DOMAIN = ascii ''mega.namespace-radix.v1'' @ [0]"

record radix_child =
  rc_edge :: u8
  rc_digest :: digest

record radix_node =
  rn_label :: bytes
  rn_binding :: "digest option"
  rn_children :: "radix_child list"

text \<open>The loop over \<open>children.windows(2)\<close>.\<close>

fun check_edges :: "radix_child list \<Rightarrow> unit res" where
  "check_edges (a # b # rest) =
     (if rc_edge a \<ge> rc_edge b then Err (BadOrdering ''radix child edges'') else check_edges (b # rest))"
| "check_edges _ = Ok ()"

definition node_new :: "bytes \<Rightarrow> digest option \<Rightarrow> radix_child list \<Rightarrow> radix_node res" where
  "node_new label binding children =
     (if length label > PATH_MAX_BYTES then Err (BadLength ''radix label'') else
      if length children > CHILD_MAX_COUNT then Err (BadLength ''radix fanout'') else
      and_then (check_edges children) (\<lambda>_.
      if binding = None \<and> (length children = 1 \<or> (children = [] \<and> label \<noteq> []))
      then Err (BadOrdering ''noncanonical radix compression'') else
      Ok \<lparr>rn_label = label, rn_binding = binding, rn_children = children\<rparr>))"

definition node_empty :: radix_node where
  "node_empty = \<lparr>rn_label = [], rn_binding = None, rn_children = []\<rparr>"

definition node_encode :: "radix_node \<Rightarrow> bytes" where
  "node_encode n =
     (let out = NODE_DOMAIN;
          out = out @ be_bytes (of_nat (length (rn_label n)) :: u16);
          out = out @ rn_label n;
          out = out @ [if rn_binding n \<noteq> None then 1 else 0];
          out = (case rn_binding n of Some binding \<Rightarrow> out @ binding | None \<Rightarrow> out);
          out = out @ be_bytes (of_nat (length (rn_children n)) :: u16)
      in fold (\<lambda>child out. (out @ [rc_edge child]) @ rc_digest child) (rn_children n) out)"

definition radix_take :: "bytes \<Rightarrow> nat \<Rightarrow> (bytes \<times> bytes) res" where
  "radix_take input count =
     and_then (ok_or (get_range input 0 count) (Truncated ''radix node field'')) (\<lambda>hd.
     and_then (slice_of input count (length input)) (\<lambda>rest. Ok (hd, rest)))"

definition radix_read_u16 :: "bytes \<Rightarrow> (nat \<times> bytes) res" where
  "radix_read_u16 input =
     and_then (radix_take input 2) (\<lambda>(bs, input).
     and_then (at_index bs 0) (\<lambda>b0. and_then (at_index bs 1) (\<lambda>b1.
     Ok (unat (from_be_bytes [b0, b1] :: u16), input))))"

definition radix_read_digest :: "bytes \<Rightarrow> (digest \<times> bytes) res" where
  "radix_read_digest input =
     and_then (radix_take input 32) (\<lambda>(bs, input). if length bs = 32 then Ok (bs, input) else Crash)"

fun radix_children :: "nat \<Rightarrow> bytes \<Rightarrow> radix_child list \<Rightarrow> (radix_child list \<times> bytes) res" where
  "radix_children 0 input children = Ok (children, input)"
| "radix_children (Suc n) input children =
     and_then (radix_take input 1) (\<lambda>(bs, input).
     and_then (at_index bs 0) (\<lambda>edge.
     and_then (radix_read_digest input) (\<lambda>(digest, input).
     radix_children n input (children @ [\<lparr>rc_edge = edge, rc_digest = digest\<rparr>]))))"

definition node_decode :: "bytes \<Rightarrow> radix_node res" where
  "node_decode bs =
     (if length bs > NODE_MAX_BYTES then Err (BadLength ''radix node'') else
      and_then (ok_or (strip_prefix NODE_DOMAIN bs) (BadConstant ''radix domain'')) (\<lambda>input.
      and_then (radix_read_u16 input) (\<lambda>(label_len, input).
      if label_len > PATH_MAX_BYTES then Err (BadLength ''radix label'') else
      and_then (radix_take input label_len) (\<lambda>(label, input).
      and_then (radix_take input 1) (\<lambda>(p, input).
      and_then (at_index p 0) (\<lambda>presence.
      and_then
        (if presence = 0 then Ok (None, input)
         else if presence = 1 then and_then (radix_read_digest input) (\<lambda>(d, input). Ok (Some d, input))
         else Err (BadConstant ''radix binding presence'')) (\<lambda>(binding, input).
      and_then (radix_read_u16 input) (\<lambda>(child_count, input).
      if child_count > CHILD_MAX_COUNT then Err (BadLength ''radix fanout'') else
      and_then (radix_children child_count input []) (\<lambda>(children, input).
      if input \<noteq> [] then Err (BadLength ''radix trailing bytes'') else
      node_new label binding children)))))))))"

definition node_id :: "hash \<Rightarrow> radix_node \<Rightarrow> digest" where
  "node_id H n = sha256 H [node_encode n]"

definition empty_root :: "hash \<Rightarrow> digest" where
  "empty_root H = node_id H node_empty"

section \<open>Keys\<close>

definition encode_key :: "bytes \<Rightarrow> bytes res" where
  "encode_key path =
     and_then (validate_absolute_path path) (\<lambda>_.
     if path = [slash] then Ok [] else
     and_then (slice_of path 1 (length path)) (\<lambda>key.
     let key = map (\<lambda>byte. if byte = slash then 0 else byte) key
     in Ok (key @ [0])))"

definition decode_key :: "bytes \<Rightarrow> bytes res" where
  "decode_key key =
     (if length key > PATH_MAX_BYTES then Err (BadLength ''radix key'') else
      if key = [] then Ok [slash] else
      if last key \<noteq> 0 \<or> slash \<in> set key then Err (BadName ''radix key boundary'') else
      and_then (slice_of key 0 (length key - 1)) (\<lambda>names.
      let path = slash # map (\<lambda>byte. if byte = 0 then slash else byte) names in
      and_then (ok_or (from_utf8 path) (BadName ''radix key UTF-8'')) (\<lambda>path.
      and_then (validate_absolute_path path) (\<lambda>_.
      and_then (encode_key path) (\<lambda>k.
      if k \<noteq> key then Err (BadName ''noncanonical radix key'') else Ok path)))))"

section \<open>The node codec\<close>

definition radix_child_bytes :: "radix_child \<Rightarrow> bytes" where
  "radix_child_bytes c = rc_edge c # rc_digest c"

text \<open>The shape the constructor enforces, and what Rust's types fix: digests have 32 bytes.\<close>

definition local_shape :: "radix_node \<Rightarrow> bool" where
  "local_shape n \<longleftrightarrow> length (rn_label n) \<le> 4096 \<and> length (rn_children n) \<le> 256
     \<and> sorted_wrt (<) (map rc_edge (rn_children n))
     \<and> (rn_binding n = None \<longrightarrow> length (rn_children n) \<noteq> 1 \<and> (rn_children n = [] \<longrightarrow> rn_label n = []))"

definition node_wf :: "radix_node \<Rightarrow> bool" where
  "node_wf n \<longleftrightarrow> local_shape n \<and> (\<forall>d. rn_binding n = Some d \<longrightarrow> length d = 32)
     \<and> (\<forall>c\<in>set (rn_children n). length (rc_digest c) = 32)"

lemma check_edges_Ok: "check_edges cs = Inr u \<longleftrightarrow> sorted_wrt (<) (map rc_edge cs)"
proof (induction cs rule: check_edges.induct)
  case (1 a b rest)
  then show ?case by (auto simp: not_le)
qed auto

lemma node_new_Ok:
  "node_new l b cs = Inr n \<longleftrightarrow> n = \<lparr>rn_label = l, rn_binding = b, rn_children = cs\<rparr> \<and> local_shape n"
  by (auto simp: node_new_def if_eq_Inr_Err and_then_eq_Inr check_edges_Ok PATH_MAX_BYTES_def CHILD_MAX_COUNT_def
      local_shape_def not_less)

lemma clean_node_new [simp]: "clean (node_new l b cs)"
proof -
  have "clean (check_edges cs)" by (induction cs rule: check_edges.induct) auto
  then show ?thesis by (auto simp: node_new_def intro!: clean_and_then)
qed

lemma node_encode_eq:
  "node_encode n = NODE_DOMAIN @ be_bytes (of_nat (length (rn_label n)) :: u16) @ rn_label n
     @ (case rn_binding n of None \<Rightarrow> [0] | Some d \<Rightarrow> 1 # d) @ be_bytes (of_nat (length (rn_children n)) :: u16)
     @ concat (map radix_child_bytes (rn_children n))"
proof -
  have "fold (\<lambda>child out. (out @ [rc_edge child]) @ rc_digest child) cs out = out @ concat (map radix_child_bytes cs)" for cs out
    by (induction cs arbitrary: out) (simp_all add: radix_child_bytes_def)
  then show ?thesis by (simp add: node_encode_def Let_def split: option.split)
qed

lemma radix_take_Ok: "radix_take inp n = Inr (x, r) \<longleftrightarrow> inp = x @ r \<and> length x = n"
  by (auto simp: radix_take_def and_then_eq_Inr ok_or_eq_Inr get_range_eq_Some slice_of_eq_Inr sub_def)

lemma clean_radix_take [simp]: "clean (radix_take inp n)"
  by (auto simp: radix_take_def ok_or_eq_Inr get_range_eq_Some intro!: clean_and_then clean_slice_of)

lemma radix_read_digest_Ok: "radix_read_digest inp = Inr (d, r) \<longleftrightarrow> inp = d @ r \<and> length d = 32"
  by (auto simp: radix_read_digest_def and_then_eq_Inr radix_take_Ok)

lemma two_bytes: "length bs = 2 \<Longrightarrow> \<exists>a b. bs = [a, b]"
  by (auto simp: length_Suc_conv numeral_2_eq_2)

lemma radix_read_u16_Ok: "radix_read_u16 inp = Inr (n, r) \<longleftrightarrow> inp = be_bytes (of_nat n :: u16) @ r \<and> n < 2 ^ 16"
proof
  assume "radix_read_u16 inp = Inr (n, r)"
  then obtain bs where bs: "inp = bs @ r" "length bs = 2" "n = unat (from_be_bytes [bs ! 0, bs ! 1] :: u16)"
    by (auto simp: radix_read_u16_def and_then_eq_Inr radix_take_Ok at_index_eq_Inr)
  then obtain a b where ab: "bs = [a, b]" using two_bytes by blast
  then have "be_bytes (of_nat n :: u16) = bs" using bs from_be_bytes_inverse_u16 [OF bs(2)] by simp
  with bs unat_u16_bound [of "from_be_bytes [bs ! 0, bs ! 1]"] show "inp = be_bytes (of_nat n :: u16) @ r \<and> n < 2 ^ 16" by simp
next
  assume a: "inp = be_bytes (of_nat n :: u16) @ r \<and> n < 2 ^ 16"
  obtain x y where xy: "be_bytes (of_nat n :: u16) = [x, y]" using two_bytes [of "be_bytes (of_nat n :: u16)"] by auto
  have "radix_take inp 2 = Inr ([x, y], r)" using a xy by (simp add: radix_take_Ok)
  moreover have "unat (from_be_bytes [x, y] :: u16) = n" unfolding xy [symmetric] using a by (simp add: unat_of_nat)
  ultimately show "radix_read_u16 inp = Inr (n, r)" by (simp add: radix_read_u16_def at_index_def)
qed

lemma clean_radix_reads [simp]: "clean (radix_read_u16 inp)" "clean (radix_read_digest inp)"
  by (auto simp: radix_read_u16_def radix_read_digest_def radix_take_Ok intro!: clean_and_then clean_at_index)

lemma radix_children_Ok:
  "radix_children n inp cs = Inr (r, rest) \<longleftrightarrow>
     (\<exists>ds. r = cs @ ds \<and> length ds = n \<and> (\<forall>c\<in>set ds. length (rc_digest c) = 32) \<and> inp = concat (map radix_child_bytes ds) @ rest)"
proof (induction n arbitrary: inp cs)
  case (Suc n)
  have step: "radix_children (Suc n) inp cs = Inr (r, rest) \<longleftrightarrow>
      (\<exists>e d inp'. inp = e # d @ inp' \<and> length d = 32 \<and> radix_children n inp' (cs @ [\<lparr>rc_edge = e, rc_digest = d\<rparr>]) = Inr (r, rest))"
    (is "?l \<longleftrightarrow> ?r")
  proof
    assume ?l
    then show ?r
      by (auto simp: and_then_eq_Inr radix_take_Ok at_index_eq_Inr radix_read_digest_Ok length_Suc_conv) blast
  next
    assume ?r
    then obtain e d inp' where r: "inp = e # d @ inp'" "length d = 32"
      "radix_children n inp' (cs @ [\<lparr>rc_edge = e, rc_digest = d\<rparr>]) = Inr (r, rest)" by blast
    have "radix_take inp 1 = Inr ([e], d @ inp')" "radix_read_digest (d @ inp') = Inr (d, inp')"
      using r by (simp_all add: radix_take_Ok radix_read_digest_Ok)
    with r(3) show ?l by (simp add: at_index_def)
  qed
  show ?case
    unfolding step Suc.IH
  proof (intro iffI; elim exE conjE)
    fix e d inp' ds
    assume "inp = e # d @ inp'" "length d = 32" "r = (cs @ [\<lparr>rc_edge = e, rc_digest = d\<rparr>]) @ ds" "length ds = n"
      "\<forall>c\<in>set ds. length (rc_digest c) = 32" "inp' = concat (map radix_child_bytes ds) @ rest"
    then show "\<exists>ds. r = cs @ ds \<and> length ds = Suc n \<and> (\<forall>c\<in>set ds. length (rc_digest c) = 32) \<and> inp = concat (map radix_child_bytes ds) @ rest"
      by (intro exI [of _ "\<lparr>rc_edge = e, rc_digest = d\<rparr> # ds"]) (simp add: radix_child_bytes_def)
  next
    fix ds
    assume a: "r = cs @ ds" "length ds = Suc n" "\<forall>c\<in>set ds. length (rc_digest c) = 32" "inp = concat (map radix_child_bytes ds) @ rest"
    obtain c ds' where ds: "ds = c # ds'" using a(2) by (cases ds) auto
    have c: "c = \<lparr>rc_edge = rc_edge c, rc_digest = rc_digest c\<rparr>" by simp
    show "\<exists>e d inp'. inp = e # d @ inp' \<and> length d = 32 \<and> (\<exists>ds. r = (cs @ [\<lparr>rc_edge = e, rc_digest = d\<rparr>]) @ ds \<and> length ds = n
        \<and> (\<forall>c\<in>set ds. length (rc_digest c) = 32) \<and> inp' = concat (map radix_child_bytes ds) @ rest)"
      using a ds c by (intro exI [of _ "rc_edge c"] exI [of _ "rc_digest c"] exI [of _ "concat (map radix_child_bytes ds') @ rest"] conjI
          exI [of _ ds']) (simp_all add: radix_child_bytes_def)
  qed
qed auto

lemma length_NODE_DOMAIN [simp]: "length NODE_DOMAIN = 24"
  by (simp add: NODE_DOMAIN_def ascii_def)

lemma concat_children_length:
  "(\<forall>c\<in>set cs. length (rc_digest c) = 32) \<Longrightarrow> length (concat (map radix_child_bytes cs)) = 33 * length cs"
  by (induction cs) (simp_all add: radix_child_bytes_def)

lemma node_encode_bound: "node_wf n \<Longrightarrow> length (node_encode n) \<le> 12605"
proof -
  assume w: "node_wf n"
  then have "length (concat (map radix_child_bytes (rn_children n))) = 33 * length (rn_children n)"
    by (intro concat_children_length) (simp add: node_wf_def)
  with w show ?thesis
    by (cases "rn_binding n") (simp_all add: node_encode_eq node_wf_def local_shape_def)
qed

lemma node_decode_Ok: "node_decode bs = Inr n \<longleftrightarrow> node_wf n \<and> bs = node_encode n"
proof
  assume "node_decode bs = Inr n"
  then show "node_wf n \<and> bs = node_encode n"
    by (auto simp: node_decode_def and_then_eq_Inr if_eq_Inr_Err ok_or_eq_Inr strip_prefix_eq_Some radix_take_Ok
        radix_read_u16_Ok radix_read_digest_Ok radix_children_Ok at_index_eq_Inr length_Suc_conv node_new_Ok node_wf_def
        node_encode_eq split: if_splits)
next
  assume w: "node_wf n \<and> bs = node_encode n"
  let ?cb = "concat (map radix_child_bytes (rn_children n))"
  let ?cc = "be_bytes (of_nat (length (rn_children n)) :: u16) @ ?cb"
  have l: "length bs \<le> NODE_MAX_BYTES" using node_encode_bound [of n] w by (simp add: NODE_MAX_BYTES_def)
  have sh: "length (rn_label n) \<le> 4096" "length (rn_children n) \<le> 256" "local_shape n"
    using w by (auto simp: node_wf_def local_shape_def)
  have s: "strip_prefix NODE_DOMAIN bs = Some (be_bytes (of_nat (length (rn_label n)) :: u16) @ rn_label n
      @ (case rn_binding n of None \<Rightarrow> [0] | Some d \<Rightarrow> 1 # d) @ ?cc)"
    using w by (simp add: strip_prefix_eq_Some node_encode_eq)
  have u: "radix_read_u16 (be_bytes (of_nat m :: u16) @ r) = Inr (m, r)" if "m \<le> 4096" for m r
    using that by (simp add: radix_read_u16_Ok)
  have t: "radix_take (rn_label n @ r) (length (rn_label n)) = Inr (rn_label n, r)" "radix_take (x # r) (Suc 0) = Inr ([x], r)" for x r
    by (simp_all add: radix_take_Ok)
  have c: "radix_children (length (rn_children n)) ?cb [] = Inr (rn_children n, [])"
    unfolding radix_children_Ok using w by (auto simp: node_wf_def)
  have n: "node_new (rn_label n) (rn_binding n) (rn_children n) = Inr n" using sh(3) by (simp add: node_new_Ok)
  have dg: "radix_read_digest (d @ r) = Inr (d, r)" if "rn_binding n = Some d" for d r
    using that w by (simp add: radix_read_digest_Ok node_wf_def)
  have lim: "\<not> length (rn_label n) > PATH_MAX_BYTES" "\<not> length (rn_children n) > CHILD_MAX_COUNT" "\<not> length bs > NODE_MAX_BYTES"
    using sh l by (simp_all add: PATH_MAX_BYTES_def CHILD_MAX_COUNT_def)
  show "node_decode bs = Inr n"
  proof (cases "rn_binding n")
    case None
    then show ?thesis using sh lim s n by (simp add: node_decode_def u t c at_index_def)
  next
    case (Some d)
    then show ?thesis using sh lim s n by (simp add: node_decode_def u t c at_index_def dg)
  qed
qed

interpretation node_codec: strict_codec "\<lambda>n. Ok (node_encode n)" node_decode node_wf
  by unfold_locales (auto simp: node_decode_Ok)

lemma clean_node_decode [simp]: "clean (node_decode bs)"
proof -
  have "clean (radix_children n inp cs)" for n inp cs
    by (induction n inp cs rule: radix_children.induct) (auto simp: radix_take_Ok intro!: clean_and_then clean_at_index)
  then show ?thesis
    by (auto simp: node_decode_def radix_take_Ok intro!: clean_and_then clean_at_index)
qed

section \<open>The key codec\<close>

text \<open>The names of a path, and the key of a list of names.\<close>

definition key_of :: "bytes list \<Rightarrow> bytes" where
  "key_of names = concat (map (\<lambda>n. n @ [0]) names)"

definition path_of :: "bytes list \<Rightarrow> bytes" where
  "path_of names = slash # join_with slash names"

definition names_ok :: "bytes list \<Rightarrow> bool" where
  "names_ok names \<longleftrightarrow> (\<forall>n\<in>set names. canonical_name n) \<and> length (path_of names) \<le> 4096"

lemma abs_path_names: "abs_path p \<longleftrightarrow> (\<exists>names. names_ok names \<and> p = path_of names)"
proof
  assume "abs_path p"
  then obtain r where r: "length p \<le> 4096" "p = slash # r" "rel_path r" by (auto simp: abs_path_def)
  show "\<exists>names. names_ok names \<and> p = path_of names"
  proof (cases "r = []")
    case True
    with r show ?thesis by (intro exI [of _ "[]"]) (simp add: names_ok_def path_of_def)
  next
    case False
    with r show ?thesis by (auto simp: rel_path_def names_ok_def path_of_def)
  qed
next
  assume "\<exists>names. names_ok names \<and> p = path_of names"
  then obtain names where n: "names_ok names" "p = path_of names" by blast
  have "rel_path (join_with slash names)"
    using n by (cases "names = []") (auto simp: rel_path_def names_ok_def path_of_def)
  with n show "abs_path p" by (simp add: abs_path_def names_ok_def path_of_def)
qed

lemma split_path_of: "names_ok names \<Longrightarrow> names \<noteq> [] \<Longrightarrow> split_on slash (tl (path_of names)) = names"
  by (simp add: path_of_def) (rule split_join, auto simp: names_ok_def canonical_name_def)

lemma path_of_inj: "names_ok a \<Longrightarrow> names_ok b \<Longrightarrow> path_of a = path_of b \<Longrightarrow> a = b"
proof -
  assume a: "names_ok a" "names_ok b" "path_of a = path_of b"
  have ne: "join_with slash ns \<noteq> []" if "names_ok ns" "ns \<noteq> []" for ns
    using that by (cases "(slash, ns)" rule: join_with.cases) (auto simp: names_ok_def canonical_name_def)
  show "a = b"
  proof (cases "a = [] \<or> b = []")
    case True
    have "join_with slash a = join_with slash b" using a(3) by (simp add: path_of_def)
    with True ne [OF a(1)] ne [OF a(2)] show ?thesis by (cases "a = []"; cases "b = []") simp_all
  next
    case False
    then have "a = split_on slash (tl (path_of a))" using split_path_of [OF a(1)] by simp
    also have "\<dots> = b" unfolding a(3) using split_path_of [OF a(2)] False by simp
    finally show ?thesis .
  qed
qed

lemma map_join: "map f (join_with c ns) = join_with (f c) (map (map f) ns)"
  by (induction c ns rule: join_with.induct) auto

lemma join_key: "ns \<noteq> [] \<Longrightarrow> join_with 0 ns @ [0] = key_of ns"
  unfolding key_of_def by (induction "0 :: u8" ns rule: join_with.induct) auto

lemma map_id_on: "(\<forall>x\<in>set xs. f x = x) \<Longrightarrow> map f xs = xs"
  by (induction xs) auto

lemma encode_key_names: "names_ok names \<Longrightarrow> encode_key (path_of names) = Inr (key_of names)"
proof -
  assume n: "names_ok names"
  then have v: "validate_absolute_path (path_of names) = Ok ()"
    using validate_absolute_path_Ok abs_path_names by blast
  show ?thesis
  proof (cases "names = []")
    case True
    with v show ?thesis by (simp add: encode_key_def path_of_def key_of_def)
  next
    case False
    have ne: "join_with slash names \<noteq> []"
      using n False by (cases "(slash, names)" rule: join_with.cases) (auto simp: names_ok_def canonical_name_def)
    let ?f = "\<lambda>byte. if byte = slash then 0 else byte"
    have "map (map ?f) names = names"
      using n by (intro map_id_on ballI) (auto simp: names_ok_def canonical_name_def intro!: map_id_on)
    then have "map ?f (join_with slash names) = join_with 0 names" by (simp add: map_join)
    moreover have "slice_of (path_of names) 1 (length (path_of names)) = (Ok (join_with slash names) :: bytes res)"
      by (simp add: slice_of_def sub_def path_of_def)
    ultimately show ?thesis
      using v ne join_key [OF False] by (simp add: encode_key_def path_of_def Let_def)
  qed
qed

lemma encode_key_Ok: "encode_key p = Inr k \<longleftrightarrow> (\<exists>names. names_ok names \<and> p = path_of names \<and> k = key_of names)"
proof
  assume e: "encode_key p = Inr k"
  then have "abs_path p" by (auto simp: encode_key_def and_then_eq_Inr validate_absolute_path_Ok)
  with e show "\<exists>names. names_ok names \<and> p = path_of names \<and> k = key_of names"
    unfolding abs_path_names using encode_key_names by fastforce
qed (auto simp: encode_key_names)

lemma length_join_with: "length (join_with c ns) = length (join_with d ns)"
  by (induction c ns rule: join_with.induct) auto

lemma length_key_of: "length (key_of ns) = (if ns = [] then 0 else length (path_of ns))"
proof -
  have "length (key_of ns) = length (path_of ns)" if "ns \<noteq> []"
    unfolding join_key [OF that, symmetric] path_of_def using length_join_with [of 0 ns slash] by simp
  then show ?thesis by (auto simp: key_of_def)
qed

lemma decode_key_Ok: "decode_key k = Inr p \<longleftrightarrow> (\<exists>names. names_ok names \<and> p = path_of names \<and> k = key_of names)"
proof
  assume d: "decode_key k = Inr p"
  show "\<exists>names. names_ok names \<and> p = path_of names \<and> k = key_of names"
  proof (cases "k = []")
    case True
    with d show ?thesis
      by (intro exI [of _ "[]"]) (auto simp: decode_key_def names_ok_def path_of_def key_of_def PATH_MAX_BYTES_def)
  next
    case False
    with d have "encode_key p = Inr k"
      by (auto simp: decode_key_def if_eq_Inr_Err and_then_eq_Inr Let_def ok_or_eq_Inr from_utf8_eq_Some split: if_splits)
    then show ?thesis by (simp add: encode_key_Ok)
  qed
next
  assume "\<exists>names. names_ok names \<and> p = path_of names \<and> k = key_of names"
  then obtain ns where n: "names_ok ns" "p = path_of ns" "k = key_of ns" by blast
  have e: "encode_key p = Inr k" using n encode_key_names by simp
  have v: "abs_path p" using n abs_path_names by blast
  show "decode_key k = Inr p"
  proof (cases "ns = []")
    case True
    with n show ?thesis by (simp add: decode_key_def key_of_def path_of_def)
  next
    case False
    then have k: "k = join_with 0 ns @ [0]" using n join_key by simp
    have sl: "slash \<notin> set (join_with 0 ns)"
      using n(1) set_join_with [of 0 ns] by (auto simp: names_ok_def canonical_name_def slash_def)
    let ?f = "\<lambda>byte. if byte = 0 then slash else byte"
    have "map (map ?f) ns = ns"
      using n by (intro map_id_on ballI) (auto simp: names_ok_def canonical_name_def intro!: map_id_on)
    then have m: "slash # map ?f (join_with 0 ns) = p" using n by (simp add: map_join path_of_def)
    have "length k \<le> 4096" using n False length_key_of [of ns] by (simp add: names_ok_def)
    moreover have "slice_of k 0 (length k - 1) = (Ok (join_with 0 ns) :: bytes res)" by (simp add: k slice_of_def sub_def)
    ultimately show ?thesis
      using v e m sl abs_path_utf8 [OF v] validate_absolute_path_Ok [of p "()"]
      by (simp add: decode_key_def PATH_MAX_BYTES_def k from_utf8_def Let_def slash_def)
  qed
qed

lemma clean_encode_key [simp]: "clean (encode_key p)"
proof -
  have "p \<noteq> []" if "validate_absolute_path p = Inr u" for u using that by (auto simp: validate_absolute_path_Ok abs_path_def)
  then show ?thesis by (auto simp: encode_key_def Let_def Suc_le_eq intro!: clean_and_then clean_slice_of)
qed

lemma clean_decode_key [simp]: "clean (decode_key k)"
  by (auto simp: decode_key_def Let_def intro!: clean_and_then clean_slice_of)

text \<open>Keys and names correspond one to one, and the key of a list of names begins with the key of another
  exactly when the list does: a compressed trie on keys is a trie on names.\<close>

lemma key_prefix_names:
  "(\<forall>n\<in>set a. 0 \<notin> set n) \<Longrightarrow> (\<forall>n\<in>set b. 0 \<notin> set n) \<Longrightarrow>
     (\<exists>r. key_of b = key_of a @ r) \<longleftrightarrow> (\<exists>c. b = a @ c)"
proof (induction a arbitrary: b)
  case Nil
  then show ?case by (simp add: key_of_def)
next
  case (Cons x a)
  show ?case
  proof (cases b)
    case Nil
    then show ?thesis by (simp add: key_of_def)
  next
    case (Cons y b')
    have "x = y \<and> key_of b' = key_of a @ r \<longleftrightarrow> (y @ [0]) @ key_of b' = (x @ [0]) @ key_of a @ r" for r
    proof
      assume e: "(y @ [0]) @ key_of b' = (x @ [0]) @ key_of a @ r"
      have "split_on 0 (y @ 0 # key_of b') = split_on 0 (x @ 0 # key_of a @ r)" using e by simp
      then have "x = y" using Cons Cons.prems by (simp add: split_on_append)
      with e show "x = y \<and> key_of b' = key_of a @ r" by simp
    qed auto
    moreover have "key_of b = (y @ [0]) @ key_of b'" "key_of (x # a) = (x @ [0]) @ key_of a" by (simp_all add: Cons key_of_def)
    ultimately have "(\<exists>r. key_of b = key_of (x # a) @ r) \<longleftrightarrow> x = y \<and> (\<exists>r. key_of b' = key_of a @ r)" by auto
    then show ?thesis using Cons.IH [of b'] Cons Cons.prems by auto
  qed
qed

section \<open>Properties\<close>

text \<open>C23. The node decoder accepts exactly the encodings of nodes of canonical local shape (label and fan-out
  within their limits, edges strictly ascending, no node without a binding that could be merged with its
  only child or dropped) and returns the node.\<close>

theorem radix_node_codec: "node_decode bs = Ok n \<longleftrightarrow> node_wf n \<and> bs = node_encode n"
  by (rule node_decode_Ok)

text \<open>C37. The two directions of the key codec are inverse to each other on the nose: a key decodes to a path
  exactly when the path encodes to the key, so a path has one key and a key one path.\<close>

theorem radix_key_codec: "decode_key k = Ok p \<longleftrightarrow> encode_key p = Ok k"
  by (simp add: decode_key_Ok encode_key_Ok)

end
