(* ===== verification/Radix_Index.thy ===== *)
theory Radix_Index
  imports Radix
begin

text \<open>
  \<^verbatim>\<open>src/namespace/radix/index.rs\<close>: the persistent binding index over a store of nodes. A store is a record
  of the two methods of the trait \<open>NodeStore\<close> on a state of any type; an operation takes the state and
  returns the outcome and the state after it, since a failing operation may have changed it. The only
  implementation of the trait in the repository is the in-memory store of the tests
  (\<^verbatim>\<open>src/namespace/radix/index/tests.rs\<close>), modelled at the end.

  The descent of \<open>update\<close> goes on only into a child whose label begins with the edge it came by, so the
  position in the key grows and the loop ends; the same holds of \<open>walk\<close>. The stack of ancestors is a list
  with its top in front.
\<close>

section \<open>Errors and stores\<close>

datatype index_error = Idx_Codec codec_error | Idx_Store string

type_synonym 'a ires = "(index_error, 'a) outcome"

fun index_error_fmt :: "index_error \<Rightarrow> string" where
  "index_error_fmt (Idx_Codec e) = codec_error_fmt e"
| "index_error_fmt (Idx_Store message) = ''binding index store unavailable: '' @ message"

definition from_codec :: "'a res \<Rightarrow> 'a ires" where
  "from_codec m = (case m of Inr x \<Rightarrow> Ok x | Inl (Fail e) \<Rightarrow> Err (Idx_Codec e) | Inl Panic \<Rightarrow> Crash | Inl Diverge \<Rightarrow> Inl Diverge)"

abbreviation Idx_Err :: "codec_error \<Rightarrow> 'a ires" where
  "Idx_Err e \<equiv> Err (Idx_Codec e)"

type_synonym ('s, 'a) iop = "'s \<Rightarrow> 'a ires \<times> 's"

record 's node_store =
  ns_read :: "digest \<Rightarrow> ('s, bytes) iop"
  ns_insert :: "digest \<Rightarrow> bytes \<Rightarrow> ('s, unit) iop"

definition pure_op :: "'a ires \<Rightarrow> ('s, 'a) iop" where
  "pure_op r = (\<lambda>s. (r, s))"

definition op_then :: "('s, 'a) iop \<Rightarrow> ('a \<Rightarrow> ('s, 'b) iop) \<Rightarrow> ('s, 'b) iop" where
  "op_then m f = (\<lambda>s. case m s of (Inl e, s') \<Rightarrow> (Inl e, s') | (Inr x, s') \<Rightarrow> f x s')"

lemma pure_op_simp [simp]: "pure_op r s = (r, s)"
  by (simp add: pure_op_def)

lemma op_then_pure [simp]: "op_then (pure_op (Inr x)) f s = f x s" "op_then (pure_op (Inl e)) f s = (Inl e, s)"
  by (simp_all add: op_then_def)

lemma op_then_cong [fundef_cong]:
  "m s = m' s' \<Longrightarrow> s = s' \<Longrightarrow> (\<And>x s1. m' s' = (Inr x, s1) \<Longrightarrow> f x s1 = f' x s1) \<Longrightarrow> op_then m f s = op_then m' f' s'"
  by (auto simp: op_then_def split: prod.splits sum.splits)

lemma op_then_Inr: "op_then m f s = (Inr y, s2) \<longleftrightarrow> (\<exists>x s1. m s = (Inr x, s1) \<and> f x s1 = (Inr y, s2))"
  by (auto simp: op_then_def split: prod.splits sum.splits)

section \<open>Helpers\<close>

definition joined_key :: "bytes \<Rightarrow> bytes \<Rightarrow> bytes ires" where
  "joined_key pfx label =
     (if length pfx + length label > PATH_MAX_BYTES then Idx_Err (BadLength ''radix assembled key'') else Ok (pfx @ label))"

definition validate_position :: "bytes \<Rightarrow> radix_node \<Rightarrow> unit ires" where
  "validate_position pfx node =
     and_then (joined_key pfx (rn_label node)) (\<lambda>assembled.
     if rn_binding node \<noteq> None then and_then (from_codec (decode_key assembled)) (\<lambda>_. Ok ()) else Ok ())"

text \<open>\<open>binary_search_by_key\<close> on a list ascending in its edges, as the children of a node are: the place of the
  edge, or the place where it belongs.\<close>

definition search_edge :: "u8 \<Rightarrow> radix_child list \<Rightarrow> nat + nat" where
  "search_edge edge children =
     (let i = length (takeWhile (\<lambda>c. rc_edge c < edge) children)
      in if i < length children \<and> rc_edge (children ! i) = edge then Inr i else Inl i)"

definition set_child :: "radix_child list \<Rightarrow> u8 \<Rightarrow> digest option \<Rightarrow> radix_child list" where
  "set_child children edge digest =
     (case (search_edge edge children, digest) of
        (Inr i, Some d) \<Rightarrow> children[i := (children ! i)\<lparr>rc_digest := d\<rparr>]
      | (Inr i, None) \<Rightarrow> take i children @ drop (i + 1) children
      | (Inl i, Some d) \<Rightarrow> take i children @ \<lparr>rc_edge = edge, rc_digest = d\<rparr> # drop i children
      | (Inl i, None) \<Rightarrow> children)"

definition required_id :: "digest option \<Rightarrow> digest ires" where
  "required_id x = ok_or x (Idx_Codec (BadOrdering ''unexpected empty radix replacement''))"

definition common_len :: "bytes \<Rightarrow> bytes \<Rightarrow> nat" where
  "common_len remaining label = length (takeWhile (\<lambda>(a, b). a = b) (zip remaining label))"

section \<open>Loading and saving a node\<close>

definition wrong_edge :: "u8 option \<Rightarrow> radix_node \<Rightarrow> bool" where
  "wrong_edge edge node \<longleftrightarrow> (case edge of None \<Rightarrow> False | Some e \<Rightarrow> get_at (rn_label node) 0 \<noteq> Some e)"

definition index_load :: "hash \<Rightarrow> 's node_store \<Rightarrow> digest \<Rightarrow> u8 option \<Rightarrow> bytes \<Rightarrow> ('s, radix_node) iop" where
  "index_load H S nid edge pfx =
     op_then
       (if nid = empty_root H then pure_op (Ok node_empty) else
        op_then (ns_read S nid) (\<lambda>bs. pure_op (
          if length bs > NODE_MAX_BYTES then Idx_Err (BadLength ''radix stored node'') else
          if sha256 H [bs] \<noteq> nid then Idx_Err (DigestMismatch ''radix stored node'') else
          from_codec (node_decode bs)))) (\<lambda>node. pure_op (
     if wrong_edge edge node then Idx_Err (BadOrdering ''radix incoming child label'') else
     and_then (validate_position pfx node) (\<lambda>_. Ok node)))"

definition store_node :: "hash \<Rightarrow> 's node_store \<Rightarrow> bytes \<Rightarrow> radix_node \<Rightarrow> ('s, digest option) iop" where
  "store_node H S pfx node =
     op_then (pure_op (validate_position pfx node)) (\<lambda>_.
     op_then (pure_op (from_codec (node_new (rn_label node) (rn_binding node) (rn_children node)))) (\<lambda>node.
     let bs = node_encode node; nid = sha256 H [bs]
     in op_then (ns_insert S nid bs) (\<lambda>_. pure_op (Ok (Some nid)))))"

definition index_save :: "hash \<Rightarrow> 's node_store \<Rightarrow> radix_node \<Rightarrow> bytes \<Rightarrow> ('s, digest option) iop" where
  "index_save H S node pfx =
     (if rn_binding node = None \<and> rn_children node = [] then pure_op (Ok None) else
      op_then
        (if rn_binding node = None \<and> length (rn_children node) = 1 then
           op_then (pure_op (at_index (rn_children node) 0)) (\<lambda>child_ref.
           op_then (pure_op (joined_key pfx (rn_label node))) (\<lambda>child_prefix.
           op_then (index_load H S (rc_digest child_ref) (Some (rc_edge child_ref)) child_prefix) (\<lambda>child.
           pure_op (Ok (node\<lparr>rn_label := rn_label node @ rn_label child, rn_binding := rn_binding child,
             rn_children := rn_children child\<rparr>)))))
         else pure_op (Ok node)) (\<lambda>node. store_node H S pfx node))"

section \<open>Updating\<close>

text \<open>The result of the descent: the binding is as wanted already, or a replacement for the node reached and
  the ancestors to save again.\<close>

datatype descent = Unchanged | Changed "digest option" "(radix_node \<times> u8 \<times> nat) list"

text \<open>The branch of the loop that splits a label.\<close>

definition split_label :: "hash \<Rightarrow> 's node_store \<Rightarrow> bytes \<Rightarrow> digest \<Rightarrow> radix_node \<Rightarrow> nat \<Rightarrow> nat \<Rightarrow> ('s, digest option) iop" where
  "split_label H S key binding node offset common =
     op_then (pure_op (slice_of key offset (length key))) (\<lambda>remaining.
     op_then (pure_op (slice_of (rn_label node) 0 common)) (\<lambda>head_label.
     let parent = \<lparr>rn_label = head_label, rn_binding = None, rn_children = []\<rparr>;
         node = node\<lparr>rn_label := drop common (rn_label node)\<rparr> in
     op_then (pure_op (slice_of key 0 offset)) (\<lambda>pfx.
     op_then (pure_op (joined_key pfx (rn_label parent))) (\<lambda>child_prefix.
     op_then (pure_op (at_index (rn_label node) 0)) (\<lambda>child_edge.
     op_then (index_save H S node child_prefix) (\<lambda>saved.
     op_then (pure_op (required_id saved)) (\<lambda>child_id.
     let parent = parent\<lparr>rn_children := set_child (rn_children parent) child_edge (Some child_id)\<rparr> in
     op_then
       (if common = length remaining then pure_op (Ok (parent\<lparr>rn_binding := Some binding\<rparr>)) else
        op_then (pure_op (slice_of remaining common (length remaining))) (\<lambda>suffix.
        op_then (pure_op (from_codec (node_new suffix (Some binding) []))) (\<lambda>leaf.
        op_then (index_save H S leaf child_prefix) (\<lambda>saved.
        op_then (pure_op (required_id saved)) (\<lambda>leaf_id.
        op_then (pure_op (at_index suffix 0)) (\<lambda>edge.
        pure_op (Ok (parent\<lparr>rn_children := set_child (rn_children parent) edge (Some leaf_id)\<rparr>)))))))) (\<lambda>parent.
     index_save H S parent pfx))))))))"

text \<open>The branch that adds a leaf to a node.\<close>

definition add_leaf :: "hash \<Rightarrow> 's node_store \<Rightarrow> bytes \<Rightarrow> digest \<Rightarrow> radix_node \<Rightarrow> nat \<Rightarrow> nat \<Rightarrow> u8 \<Rightarrow> ('s, digest option) iop" where
  "add_leaf H S key binding node parent_offset offset next_edge =
     op_then (pure_op (slice_of key offset (length key))) (\<lambda>rest.
     op_then (pure_op (from_codec (node_new rest (Some binding) []))) (\<lambda>leaf.
     op_then (pure_op (slice_of key 0 offset)) (\<lambda>leaf_prefix.
     op_then (index_save H S leaf leaf_prefix) (\<lambda>saved.
     op_then (pure_op (required_id saved)) (\<lambda>leaf_id.
     let node = node\<lparr>rn_children := set_child (rn_children node) next_edge (Some leaf_id)\<rparr> in
     op_then (pure_op (slice_of key 0 parent_offset)) (\<lambda>pfx. index_save H S node pfx))))))"

lemma load_edge: "index_load H S nid (Some e) pfx s = (Inr node, s') \<Longrightarrow> get_at (rn_label node) 0 = Some e"
  by (auto simp: index_load_def op_then_Inr wrong_edge_def and_then_eq_Inr split: if_splits)

lemma common_len_bounds: "common_len k l \<le> length l" "common_len k l \<le> length k"
proof -
  have "common_len k l \<le> length (zip k l)" unfolding common_len_def by (rule length_takeWhile_le)
  then show "common_len k l \<le> length l" "common_len k l \<le> length k" by simp_all
qed

function index_descend ::
  "hash \<Rightarrow> 's node_store \<Rightarrow> bytes \<Rightarrow> digest option \<Rightarrow> digest \<Rightarrow> u8 option \<Rightarrow> nat \<Rightarrow> (radix_node \<times> u8 \<times> nat) list
    \<Rightarrow> ('s, descent) iop" where
  "index_descend H S key binding nid edge offset ancestors s =
     op_then (pure_op (slice_of key 0 offset)) (\<lambda>pfx.
     op_then (index_load H S nid edge pfx) (\<lambda>node.
     op_then (pure_op (slice_of key offset (length key))) (\<lambda>remaining.
     let common = common_len remaining (rn_label node) in
     if common < length (rn_label node) then
       (case binding of
          None \<Rightarrow> pure_op (Ok Unchanged)
        | Some b \<Rightarrow> op_then (split_label H S key b node offset common) (\<lambda>r. pure_op (Ok (Changed r ancestors))))
     else
     let parent_offset = offset; offset = offset + common in
     if offset = length key then
       (if rn_binding node = binding then pure_op (Ok Unchanged) else
        op_then (pure_op (slice_of key 0 parent_offset)) (\<lambda>pfx.
        op_then (index_save H S (node\<lparr>rn_binding := binding\<rparr>) pfx) (\<lambda>r. pure_op (Ok (Changed r ancestors)))))
     else
     op_then (pure_op (at_index key offset)) (\<lambda>next_edge.
     (case find (\<lambda>c. rc_edge c = next_edge) (rn_children node) of
        Some child \<Rightarrow>
          (\<lambda>s. index_descend H S key binding (rc_digest child) (Some next_edge) offset ((node, next_edge, parent_offset) # ancestors) s)
      | None \<Rightarrow>
          (case binding of
             None \<Rightarrow> pure_op (Ok Unchanged)
           | Some b \<Rightarrow> op_then (add_leaf H S key b node parent_offset offset next_edge)
               (\<lambda>r. pure_op (Ok (Changed r ancestors))))))))) s"
  by pat_completeness auto
termination
proof (relation "measure (\<lambda>(H, S, key, binding, nid, edge, offset, ancestors, s). 2 * (length key - offset) + (if edge = None then 1 else 0))",
    goal_cases)
  case 1
  show ?case by simp
next
  case (2 H S key binding nid edge offset ancestors s pfx s1 node s2 remaining s3 common parent_offset offset' next_edge child s5)
  have rem: "remaining = drop offset key" "offset \<le> length key"
    using 2(3) by (auto simp: slice_of_eq_Inr sub_def)
  have off: "offset' = offset + common" "offset' < length key"
    using 2(4,6,7,8) rem common_len_bounds(2) [of remaining "rn_label node"] by auto
  show ?case
  proof (cases edge)
    case None
    with off show ?thesis by auto
  next
    case (Some e)
    have "rn_label node \<noteq> []" using load_edge [of H S nid e pfx s1 node s2] 2(2) Some by (auto simp: get_at_def)
    moreover have "common = length (rn_label node)" using 2(4,5) common_len_bounds(1) [of remaining "rn_label node"] by simp
    ultimately have "0 < common" by simp
    with off Some show ?thesis by auto
  qed
qed

declare index_descend.simps [simp del]

text \<open>The loop that saves the ancestors again, from the bottom of the tree to the root.\<close>

fun index_climb :: "hash \<Rightarrow> 's node_store \<Rightarrow> bytes \<Rightarrow> (radix_node \<times> u8 \<times> nat) list \<Rightarrow> digest option \<Rightarrow> ('s, digest option) iop" where
  "index_climb H S key [] replacement = pure_op (Ok replacement)"
| "index_climb H S key ((parent, edge, parent_offset) # ancestors) replacement =
     op_then (pure_op (slice_of key 0 parent_offset)) (\<lambda>pfx.
     op_then (index_save H S (parent\<lparr>rn_children := set_child (rn_children parent) edge replacement\<rparr>) pfx) (\<lambda>replacement.
     index_climb H S key ancestors replacement))"

definition index_update :: "hash \<Rightarrow> 's node_store \<Rightarrow> digest \<Rightarrow> bytes \<Rightarrow> digest option \<Rightarrow> ('s, digest) iop" where
  "index_update H S root path binding =
     op_then (pure_op (from_codec (encode_key path))) (\<lambda>key.
     op_then (index_descend H S key binding root None 0 []) (\<lambda>d.
     (case d of
        Unchanged \<Rightarrow> pure_op (Ok root)
      | Changed replacement ancestors \<Rightarrow>
          op_then (index_climb H S key ancestors replacement) (\<lambda>replacement.
          pure_op (Ok (case replacement of Some d \<Rightarrow> d | None \<Rightarrow> empty_root H))))))"

section \<open>Reading\<close>

text \<open>The loop of \<open>walk\<close>: the value with which it is left, and whether it was left at the end of the key.\<close>

function walk_loop ::
  "hash \<Rightarrow> 's node_store \<Rightarrow> bytes \<Rightarrow> digest \<Rightarrow> u8 option \<Rightarrow> nat \<Rightarrow> (bytes \<times> digest) option
    \<Rightarrow> ('s, bool \<times> (bytes \<times> digest) option) iop" where
  "walk_loop H S key nid edge offset found s =
     op_then (pure_op (slice_of key 0 offset)) (\<lambda>pfx.
     op_then (index_load H S nid edge pfx) (\<lambda>node.
     op_then (pure_op (slice_of key offset (length key))) (\<lambda>remaining.
     if \<not> starts_with remaining (rn_label node) then pure_op (Ok (False, found)) else
     let offset = offset + length (rn_label node) in
     op_then
       (case rn_binding node of
          None \<Rightarrow> pure_op (Ok found)
        | Some binding \<Rightarrow>
            op_then (pure_op (slice_of key 0 offset)) (\<lambda>matched_key.
            op_then (pure_op (from_codec (decode_key matched_key))) (\<lambda>matched. pure_op (Ok (Some (matched, binding)))))) (\<lambda>found.
     if offset = length key then pure_op (Ok (True, found)) else
     op_then (pure_op (at_index key offset)) (\<lambda>next_edge.
     (case find (\<lambda>c. rc_edge c = next_edge) (rn_children node) of
        None \<Rightarrow> pure_op (Ok (False, found))
      | Some child \<Rightarrow> (\<lambda>s. walk_loop H S key (rc_digest child) (Some next_edge) offset found s))))))) s"
  by pat_completeness auto
termination
proof (relation "measure (\<lambda>(H, S, key, nid, edge, offset, found, s). 2 * (length key - offset) + (if edge = None then 1 else 0))",
    goal_cases)
  case 1
  show ?case by simp
next
  case (2 H S key nid edge offset found s pfx s1 node s2 remaining s3 offset' found' next_edge child s5)
  have rem: "remaining = drop offset key" "offset \<le> length key"
    using 2(3) by (auto simp: slice_of_eq_Inr sub_def)
  have "length (rn_label node) \<le> length key - offset"
    using 2(4) rem by (auto simp: starts_with_def) (metis length_drop length_take min.cobounded1)
  then have off: "offset' = offset + length (rn_label node)" "offset' < length key" using 2(5,6) rem by auto
  show ?case
  proof (cases edge)
    case None
    with off show ?thesis by auto
  next
    case (Some e)
    have "0 < length (rn_label node)" using load_edge [of H S nid e pfx s1 node s2] 2(2) Some by (auto simp: get_at_def)
    then have "length key - offset' < length key - offset" using off by linarith
    with Some show ?thesis by simp
  qed
qed

declare walk_loop.simps [simp del]

definition index_walk :: "hash \<Rightarrow> 's node_store \<Rightarrow> digest \<Rightarrow> bytes \<Rightarrow> bool \<Rightarrow> ('s, (bytes \<times> digest) option) iop" where
  "index_walk H S root path ancestors =
     op_then (pure_op (from_codec (encode_key path))) (\<lambda>key.
     op_then (walk_loop H S key root None 0 None) (\<lambda>(at_end, found).
     if at_end then
       pure_op (Ok (case found of None \<Rightarrow> None | Some (matched, d) \<Rightarrow> if ancestors \<or> matched = path then Some (matched, d) else None))
     else pure_op (Ok (if ancestors then found else None))))"

definition index_get :: "hash \<Rightarrow> 's node_store \<Rightarrow> digest \<Rightarrow> bytes \<Rightarrow> ('s, digest option) iop" where
  "index_get H S root path = op_then (index_walk H S root path False) (\<lambda>r. pure_op (Ok (map_option snd r)))"

definition index_longest_prefix :: "hash \<Rightarrow> 's node_store \<Rightarrow> digest \<Rightarrow> bytes \<Rightarrow> ('s, (bytes \<times> digest) option) iop" where
  "index_longest_prefix H S root path = index_walk H S root path True"

section \<open>The store of the tests\<close>

record memory_store =
  ms_nodes :: "digest \<rightharpoonup> bytes"
  ms_reads :: nat
  ms_writes :: nat
  ms_fail_write_at :: "nat option"
  ms_written :: "digest set"

definition memory_default :: memory_store where
  "memory_default = \<lparr>ms_nodes = Map.empty, ms_reads = 0, ms_writes = 0, ms_fail_write_at = None, ms_written = {}\<rparr>"

definition memory_read :: "digest \<Rightarrow> (memory_store, bytes) iop" where
  "memory_read nid s =
     (let s = s\<lparr>ms_reads := ms_reads s + 1\<rparr>
      in (ok_or (ms_nodes s nid) (Idx_Store ''missing node''), s))"

definition memory_insert :: "digest \<Rightarrow> bytes \<Rightarrow> (memory_store, unit) iop" where
  "memory_insert nid bs s =
     (let s = s\<lparr>ms_writes := ms_writes s + 1\<rparr> in
      if ms_fail_write_at s = Some (ms_writes s) then (Err (Idx_Store ''injected insertion failure''), s) else
      if (case ms_nodes s nid of None \<Rightarrow> False | Some existing \<Rightarrow> existing \<noteq> bs)
      then (Err (Idx_Store ''conflicting immutable bytes''), s) else
      (Ok (), s\<lparr>ms_nodes := (ms_nodes s)(nid \<mapsto> bs), ms_written := insert nid (ms_written s)\<rparr>))"

definition memory :: "memory_store node_store" where
  "memory = \<lparr>ns_read = memory_read, ns_insert = memory_insert\<rparr>"

end
