(* ===== verification/Radix_Trie.thy ===== *)
theory Radix_Trie
  imports Radix_Index
begin

text \<open>
  The binding index as a tree of values. A \<open>trie\<close> is the tree a root digest stands for: every node carries
  its label, its binding and the trees below it. \<open>t_get\<close> is the finite map the tree represents, from keys
  to bindings; \<open>t_ok\<close> its canonical form; \<open>t_upd\<close> the update the index performs, written as a recursion on
  the tree. The lemmas show that \<open>t_upd\<close> updates the map and keeps the form, and that a canonical tree is
  determined by its map.
\<close>

section \<open>Trees\<close>

datatype trie = Trie (t_label: bytes) (t_binding: "digest option") (t_kids: "trie list")

abbreviation t_empty :: trie where
  "t_empty \<equiv> Trie [] None []"

abbreviation edge_of :: "trie \<Rightarrow> u8" where
  "edge_of t \<equiv> hd (t_label t)"

definition key_ok :: "bytes \<Rightarrow> bool" where
  "key_ok k \<longleftrightarrow> (\<exists>names. names_ok names \<and> k = key_of names)"

definition find_kid :: "trie list \<Rightarrow> u8 \<Rightarrow> trie option" where
  "find_kid ks e = find (\<lambda>u. edge_of u = e) ks"

lemma find_kid_Some: "find_kid ks e = Some u \<Longrightarrow> u \<in> set ks \<and> edge_of u = e"
  by (auto simp: find_kid_def find_Some_iff)

lemma find_kid_None: "find_kid ks e = None \<longleftrightarrow> (\<forall>u\<in>set ks. edge_of u \<noteq> e)"
  by (auto simp: find_kid_def find_None_iff)

lemma find_kid_sorted: "sorted_wrt (<) (map edge_of ks) \<Longrightarrow> u \<in> set ks \<Longrightarrow> find_kid ks (edge_of u) = Some u"
  unfolding find_kid_def by (induction ks) auto

lemma kid_size: "u \<in> set ks \<Longrightarrow> size u < size (Trie l b ks)"
  by (induction ks) auto

text \<open>The map of a tree: the binding of a key relative to the root of the tree.\<close>

function t_get :: "trie \<Rightarrow> bytes \<Rightarrow> digest option" where
  "t_get (Trie l b ks) k =
     (if \<not> starts_with k l then None else
      let r = drop (length l) k in
      if r = [] then b else
      case find_kid ks (hd r) of None \<Rightarrow> None | Some u \<Rightarrow> t_get u r)"
  by pat_completeness auto
termination
  by (relation "measure (\<lambda>(t, k). size t)") (auto dest!: find_kid_Some dest: kid_size)

declare t_get.simps [simp del]

text \<open>The form of a tree whose root may need compression, and of a tree that needs none.\<close>

fun compressed :: "trie \<Rightarrow> bool" where
  "compressed (Trie l b ks) \<longleftrightarrow> (b = None \<longrightarrow> length ks \<noteq> 1 \<and> (ks = [] \<longrightarrow> l = []))"

definition root_ok :: "bytes \<Rightarrow> trie \<Rightarrow> bool" where
  "root_ok pfx t \<longleftrightarrow> length (pfx @ t_label t) \<le> 4096
     \<and> (\<forall>d. t_binding t = Some d \<longrightarrow> length d = 32 \<and> key_ok (pfx @ t_label t))
     \<and> sorted_wrt (<) (map edge_of (t_kids t)) \<and> (\<forall>u\<in>set (t_kids t). t_label u \<noteq> [])"

fun t_ok :: "bytes \<Rightarrow> trie \<Rightarrow> bool" where
  "t_ok pfx (Trie l b ks) \<longleftrightarrow> root_ok pfx (Trie l b ks) \<and> compressed (Trie l b ks) \<and> (\<forall>u\<in>set ks. t_ok (pfx @ l) u)"

definition raw_ok :: "bytes \<Rightarrow> trie \<Rightarrow> bool" where
  "raw_ok pfx t \<longleftrightarrow> root_ok pfx t \<and> (\<forall>u\<in>set (t_kids t). t_ok (pfx @ t_label t) u)"

lemma t_ok_raw: "t_ok pfx t \<longleftrightarrow> raw_ok pfx t \<and> compressed t"
  by (cases t) (auto simp: raw_ok_def)

lemma t_ok_empty: "t_ok [] t_empty"
  by (simp add: root_ok_def)

section \<open>The map of a tree\<close>

lemma t_get_kids:
  "t_get (Trie l b ks) (l @ r) = (if r = [] then b else case find_kid ks (hd r) of None \<Rightarrow> None | Some u \<Rightarrow> t_get u r)"
  by (subst t_get.simps) (simp add: Let_def)

lemma t_get_other: "(\<nexists>r. k = t_label t @ r) \<Longrightarrow> t_get t k = None"
  by (cases t) (auto simp: t_get.simps starts_with_iff)

lemma t_get_root [simp]: "t_get (Trie l b ks) l = b"
  using t_get_kids [of l b ks "[]"] by simp

lemma t_get_label: "t_get t k = Some d \<Longrightarrow> \<exists>r. k = t_label t @ r"
  using t_get_other [of k t] by (metis option.distinct(1))

lemma t_get_kid_hd: "t_get u r = Some d \<Longrightarrow> t_label u \<noteq> [] \<Longrightarrow> r \<noteq> [] \<and> hd r = edge_of u"
  using t_get_label [of u r d] by (cases "t_label u") auto

lemma t_get_Some_key: "t_ok pfx t \<Longrightarrow> t_get t k = Some d \<Longrightarrow> key_ok (pfx @ k) \<and> length d = 32"
proof (induction t arbitrary: pfx k)
  case (Trie l b ks)
  obtain r where k: "k = l @ r" using t_get_other [of k "Trie l b ks"] Trie.prems(2) by force
  show ?case
  proof (cases "r = []")
    case True
    then have "k = l" "b = Some d" using Trie.prems(2) k by simp_all
    then show ?thesis using Trie.prems(1) by (simp add: root_ok_def)
  next
    case False
    then obtain u where u: "find_kid ks (hd r) = Some u" "t_get u r = Some d"
      using Trie.prems(2) k by (auto simp: t_get_kids split: option.splits)
    then have "u \<in> set ks" "t_ok (pfx @ l) u" using find_kid_Some [OF u(1)] Trie.prems(1) by auto
    with Trie.IH u(2) have "key_ok ((pfx @ l) @ r) \<and> length d = 32" by blast
    then show ?thesis by (simp add: k)
  qed
qed

text \<open>A canonical tree other than the empty one represents some key.\<close>

lemma t_get_inhabited: "t_ok pfx t \<Longrightarrow> t \<noteq> t_empty \<Longrightarrow> \<exists>k. t_get t k \<noteq> None"
proof (induction t arbitrary: pfx)
  case (Trie l b ks)
  show ?case
  proof (cases b)
    case (Some d)
    then show ?thesis by (intro exI [of _ l]) simp
  next
    case None
    then have "ks \<noteq> []" using Trie.prems by auto
    then obtain u where u: "u \<in> set ks" by (cases ks) auto
    then have uo: "t_ok (pfx @ l) u" "t_label u \<noteq> []" "sorted_wrt (<) (map edge_of ks)"
      using Trie.prems by (auto simp: root_ok_def)
    have "u \<noteq> t_empty" using uo(2) by auto
    then obtain r d where r: "t_get u r = Some d" using Trie.IH [OF u uo(1)] by auto
    with t_get_kid_hd uo(2) have "r \<noteq> []" "hd r = edge_of u" by auto
    with r find_kid_sorted [OF uo(3) u] show ?thesis by (intro exI [of _ "l @ r"]) (simp add: t_get_kids)
  qed
qed

section \<open>Canonicity\<close>

text \<open>Two canonical trees with the same map agree in the label: a shorter one would have keys that branch off
  the longer one. The children are found by the next byte.\<close>

lemma two_kids:
  assumes "t_ok pfx (Trie l None ks)" "ks \<noteq> []"
  shows "\<exists>x y r s. x \<noteq> y \<and> t_get (Trie l None ks) (l @ x # r) \<noteq> None \<and> t_get (Trie l None ks) (l @ y # s) \<noteq> None"
proof -
  obtain u v ks' where ks: "ks = u # v # ks'" using assms by (cases ks; cases "tl ks") auto
  have o: "t_ok (pfx @ l) u" "t_ok (pfx @ l) v" "t_label u \<noteq> []" "t_label v \<noteq> []" "edge_of u < edge_of v"
    "sorted_wrt (<) (map edge_of ks)"
    using assms ks by (auto simp: root_ok_def)
  obtain r d where r: "t_get u r = Some d" using t_get_inhabited [OF o(1)] o(3) by force
  obtain s d' where s: "t_get v s = Some d'" using t_get_inhabited [OF o(2)] o(4) by force
  have rs: "r = edge_of u # tl r" "s = edge_of v # tl s"
    using t_get_kid_hd [OF r o(3)] t_get_kid_hd [OF s o(4)] by (metis list.collapse)+
  have "find_kid ks (edge_of u) = Some u" "find_kid ks (edge_of v) = Some v"
    using find_kid_sorted [OF o(6)] ks by simp_all
  then have "t_get (Trie l None ks) (l @ r) \<noteq> None" "t_get (Trie l None ks) (l @ s) \<noteq> None"
    using r s t_get_kid_hd [OF r o(3)] t_get_kid_hd [OF s o(4)] by (simp_all add: t_get_kids)
  with rs o(5) show ?thesis
    by (intro exI [of _ "edge_of u"] exI [of _ "edge_of v"] exI [of _ "tl r"] exI [of _ "tl s"]) (metis order_less_irrefl)
qed

lemma label_shorter:
  assumes "t_ok pfx t" "t_ok pfx u" "t_get t = t_get u" "t \<noteq> t_empty"
  shows "\<exists>x. t_label t = t_label u @ x"
proof -
  obtain l b ks where t: "t = Trie l b ks" by (cases t)
  show ?thesis
  proof (cases b)
    case (Some d)
    then have "t_get t l = Some d" using t by simp
    then have "t_get u l = Some d" by (simp only: assms(3))
    then show ?thesis using t_get_label t by auto
  next
    case None
    with assms(1,4) t have "ks \<noteq> []" by auto
    moreover have "t_ok pfx (Trie l None ks)" "t_get (Trie l None ks) = t_get u" using assms t None by simp_all
    ultimately obtain x y r s where xy: "x \<noteq> y" "t_get u (l @ x # r) \<noteq> None" "t_get u (l @ y # s) \<noteq> None"
      using two_kids [of pfx l ks] by metis
    then obtain r' s' where a: "l @ x # r = t_label u @ r'" "l @ y # s = t_label u @ s'" using t_get_label by blast
    show ?thesis
    proof (cases "length (t_label u) \<le> length l")
      case True
      then have "l = t_label u @ drop (length (t_label u)) l" using a(1) by (metis append_eq_append_conv_if append_take_drop_id)
      then show ?thesis using t by auto
    next
      case False
      then have "(t_label u) ! length l = x" "(t_label u) ! length l = y"
        using a by (metis not_le nth_append nth_append_length)+
      with xy(1) show ?thesis by simp
    qed
  qed
qed

lemma kids_of_map:
  assumes "t_ok pfx (Trie l b ks)"
  shows "find_kid ks x = None \<longleftrightarrow> (\<forall>r. t_get (Trie l b ks) (l @ x # r) = None)"
    and "find_kid ks x = Some u \<Longrightarrow> t_get u k = (if k \<noteq> [] \<and> hd k = x then t_get (Trie l b ks) (l @ k) else None)"
proof -
  have uo: "t_ok (pfx @ l) u \<and> t_label u \<noteq> [] \<and> edge_of u = x" if "find_kid ks x = Some u" for u
    using find_kid_Some [OF that] assms by (auto simp: root_ok_def)
  have hdl: "t_get u k = None" if "find_kid ks x = Some u" "\<not> (k \<noteq> [] \<and> hd k = x)" for u k
    using t_get_kid_hd [of u k] uo [OF that(1)] that(2) by (cases "t_get u k") auto
  show "find_kid ks x = None \<longleftrightarrow> (\<forall>r. t_get (Trie l b ks) (l @ x # r) = None)"
  proof (cases "find_kid ks x")
    case (Some u)
    then obtain k d where k: "t_get u k = Some d" using t_get_inhabited uo by fastforce
    then have "k = x # tl k" using t_get_kid_hd [OF k] uo [OF Some] by (metis list.collapse)
    with k Some show ?thesis by (simp add: t_get_kids) (metis)
  qed (simp add: t_get_kids)
  assume s: "find_kid ks x = Some u"
  show "t_get u k = (if k \<noteq> [] \<and> hd k = x then t_get (Trie l b ks) (l @ k) else None)"
    using hdl [OF s, of k] s by (cases "k \<noteq> [] \<and> hd k = x") (simp_all add: t_get_kids)
qed

lemma kids_eqI:
  assumes "sorted_wrt (<) (map edge_of ks)" "sorted_wrt (<) (map edge_of js)" "\<And>x. find_kid ks x = find_kid js x"
  shows "ks = js"
proof -
  have sub: "set ks \<subseteq> set js" if "sorted_wrt (<) (map edge_of ks)" "\<And>x. find_kid ks x = find_kid js x" for ks js
    using that find_kid_sorted find_kid_Some by (metis subsetI)
  have "set ks = set js" using sub [of ks js] sub [of js ks] assms by auto
  moreover have "distinct (map edge_of ks)" "distinct (map edge_of js)" "sorted (map edge_of ks)" "sorted (map edge_of js)"
    using assms(1,2) by (simp_all add: strict_sorted_iff)
  moreover from this calculation have "map edge_of ks = map edge_of js" by (intro sorted_distinct_set_unique) simp_all
  ultimately show ?thesis using map_inj_on [of edge_of ks js] by (simp add: distinct_map)
qed

lemma t_canonical: "t_ok pfx t \<Longrightarrow> t_ok pfx u \<Longrightarrow> t_get t = t_get u \<Longrightarrow> t = u"
proof (induction t arbitrary: pfx u)
  case (Trie l b ks)
  obtain m c js where u: "u = Trie m c js" by (cases u)
  have emp: "t_get t_empty k = None" for k by (simp add: t_get.simps find_kid_def Let_def)
  show ?case
  proof (cases "Trie l b ks = t_empty \<or> u = t_empty")
    case True
    then show ?thesis using t_get_inhabited [OF Trie.prems(1)] t_get_inhabited [OF Trie.prems(2)] Trie.prems(3) emp by metis
  next
    case False
    have "\<exists>x. l = m @ x" "\<exists>x. m = l @ x"
      using label_shorter [OF Trie.prems] label_shorter [OF Trie.prems(2,1) Trie.prems(3) [symmetric]] False u by auto
    then have m: "m = l" by auto
    have b: "b = c" using fun_cong [OF Trie.prems(3), of l] u m by simp
    have uo: "t_ok pfx (Trie l c js)" using Trie.prems(2) u m by simp
    have g: "t_get (Trie l b ks) = t_get (Trie l c js)" using Trie.prems(3) u m by simp
    have "find_kid ks x = find_kid js x" for x
    proof (cases "find_kid ks x")
      case None
      then have "find_kid js x = None" using kids_of_map(1) [OF Trie.prems(1), of x] kids_of_map(1) [OF uo, of x] g by simp
      with None show ?thesis by simp
    next
      case (Some v)
      then obtain w where w: "find_kid js x = Some w"
        using kids_of_map(1) [OF Trie.prems(1), of x] kids_of_map(1) [OF uo, of x] g by (cases "find_kid js x") auto
      have "t_get v = t_get w" using kids_of_map(2) [OF Trie.prems(1) Some] kids_of_map(2) [OF uo w] g by auto
      then have "v = w"
        using Trie.IH [of v "pfx @ l" w] find_kid_Some [OF Some] find_kid_Some [OF w] Trie.prems(1) uo by auto
      with Some w show ?thesis by simp
    qed
    then have "ks = js" using kids_eqI [of ks js] Trie.prems(1) uo by (simp add: root_ok_def)
    with u m b show ?thesis by simp
  qed
qed

section \<open>Updating a tree\<close>

definition set_kid :: "trie list \<Rightarrow> u8 \<Rightarrow> trie option \<Rightarrow> trie list" where
  "set_kid ks e w = filter (\<lambda>u. edge_of u < e) ks @ (case w of None \<Rightarrow> [] | Some u \<Rightarrow> [u]) @ filter (\<lambda>u. e < edge_of u) ks"

fun t_save :: "trie \<Rightarrow> trie option" where
  "t_save (Trie l None []) = None"
| "t_save (Trie l None [Trie l' b' ks']) = Some (Trie (l @ l') b' ks')"
| "t_save t = Some t"

definition t_leaf :: "bytes \<Rightarrow> digest \<Rightarrow> trie" where
  "t_leaf k d = Trie k (Some d) []"

definition t_split :: "digest \<Rightarrow> trie \<Rightarrow> bytes \<Rightarrow> nat \<Rightarrow> trie" where
  "t_split d t k c =
     (let low = Trie (drop c (t_label t)) (t_binding t) (t_kids t) in
      if c = length k then Trie (take c (t_label t)) (Some d) [low]
      else Trie (take c (t_label t)) None (set_kid [low] (k ! c) (Some (t_leaf (drop c k) d))))"

text \<open>\<open>None\<close>: the binding is as wanted already. \<open>Some w\<close>: \<open>w\<close> takes the place of the tree.\<close>

function t_upd :: "digest option \<Rightarrow> trie \<Rightarrow> bytes \<Rightarrow> trie option option" where
  "t_upd b (Trie l v ks) k =
     (let c = common_len k l in
      if c < length l then (case b of None \<Rightarrow> None | Some d \<Rightarrow> Some (Some (t_split d (Trie l v ks) k c)))
      else
      let r = drop c k in
      if r = [] then (if v = b then None else Some (t_save (Trie l b ks)))
      else case find_kid ks (hd r) of
          Some u \<Rightarrow> (case t_upd b u r of None \<Rightarrow> None | Some w \<Rightarrow> Some (t_save (Trie l v (set_kid ks (hd r) w))))
        | None \<Rightarrow> (case b of None \<Rightarrow> None | Some d \<Rightarrow> Some (t_save (Trie l v (set_kid ks (hd r) (Some (t_leaf r d)))))))"
  by pat_completeness auto
termination
  by (relation "measure (\<lambda>(b, t, k). size t)") (auto dest!: find_kid_Some dest: kid_size)

declare t_upd.simps [simp del]

abbreviation opt_get :: "trie option \<Rightarrow> bytes \<Rightarrow> digest option" where
  "opt_get w k \<equiv> (case w of None \<Rightarrow> None | Some u \<Rightarrow> t_get u k)"

subsection \<open>The common prefix\<close>

lemma common_len_Nil [simp]: "common_len [] l = 0" "common_len k [] = 0"
  by (simp_all add: common_len_def)

lemma common_len_Cons [simp]: "common_len (x # k) (y # l) = (if x = y then Suc (common_len k l) else 0)"
  by (simp add: common_len_def)

lemma common_len_take: "take (common_len k l) l = take (common_len k l) k"
  by (induction k l rule: list_induct2') auto

lemma common_len_differ: "common_len k l < length l \<Longrightarrow> common_len k l < length k \<Longrightarrow> k ! common_len k l \<noteq> l ! common_len k l"
  by (induction k l rule: list_induct2') auto

lemma common_len_append [simp]: "common_len (l @ r) l = length l"
  by (induction l) auto

lemma common_len_short:
  assumes "common_len k l < length l"
  shows "\<nexists>r. k = l @ r"
  using assms by auto

lemma common_len_full: "\<not> common_len k l < length l \<Longrightarrow> \<exists>r. k = l @ r \<and> common_len k l = length l"
  using common_len_bounds [of k l] common_len_take [of k l]
  by (intro exI [of _ "drop (length l) k"]) (metis append_take_drop_id le_antisym not_le take_all)

subsection \<open>The map of an updated tree\<close>

lemma t_get_prefixed: "t_get (Trie (p @ l) b ks) (p @ r) = t_get (Trie l b ks) r"
  by (simp add: t_get.simps starts_with_def)

lemma find_set_kid:
  "(\<And>u. w = Some u \<Longrightarrow> edge_of u = e) \<Longrightarrow> find_kid (set_kid ks e w) x = (if x = e then w else find_kid ks x)"
proof -
  assume w: "\<And>u. w = Some u \<Longrightarrow> edge_of u = e"
  have a: "find_kid (xs @ ys) x = (case find_kid xs x of None \<Rightarrow> find_kid ys x | Some u \<Rightarrow> Some u)" for xs ys
    unfolding find_kid_def by (induction xs) auto
  have f: "find_kid (filter (\<lambda>u. edge_of u < e) ks) x = (if x < e then find_kid ks x else None)"
    "find_kid (filter (\<lambda>u. e < edge_of u) ks) x = (if e < x then find_kid ks x else None)"
    unfolding find_kid_def by (induction ks) auto
  have m: "find_kid (case w of None \<Rightarrow> [] | Some u \<Rightarrow> [u]) x = (if x = e then w else None)"
    using w by (cases w) (auto simp: find_kid_def)
  show ?thesis
  proof (cases x e rule: linorder_cases)
    case less
    then have "x \<noteq> e" "\<not> e < x" by auto
    with less show ?thesis unfolding set_kid_def a m f by (simp split: option.split)
  next
    case equal
    then show ?thesis unfolding set_kid_def a m f by (simp split: option.split)
  next
    case greater
    then have "\<not> x < e" "x \<noteq> e" by auto
    with greater show ?thesis unfolding set_kid_def a m f by simp
  qed
qed

lemma t_get_leaf: "t_get (t_leaf k d) x = (if x = k then Some d else None)"
  by (auto simp: t_leaf_def t_get.simps starts_with_iff find_kid_def Let_def)

lemma find_kid_single: "find_kid [u] x = (if edge_of u = x then Some u else None)"
  by (simp add: find_kid_def)

lemma t_get_save: "\<forall>u\<in>set (t_kids t). t_label u \<noteq> [] \<Longrightarrow> opt_get (t_save t) x = t_get t x"
proof (induction t rule: t_save.induct)
  case (1 l)
  show ?case by (simp add: t_get.simps find_kid_def Let_def)
next
  case (2 l l' b' ks')
  show ?case
  proof (cases "\<exists>r. x = l @ r")
    case True
    then obtain r where r: "x = l @ r" by blast
    show ?thesis
      using t_get_kid_hd [of "Trie l' b' ks'" r] 2 r
      by (cases "t_get (Trie l' b' ks') r") (auto simp: t_get_kids t_get_prefixed find_kid_single)
  next
    case False
    then have "t_get (Trie (l @ l') b' ks') x = None" "t_get (Trie l None [Trie l' b' ks']) x = None"
      by (auto intro!: t_get_other)
    then show ?thesis by simp
  qed
qed simp_all

lemma t_get_split:
  assumes "common_len k l < length l" "\<forall>u\<in>set ks. t_label u \<noteq> []"
  shows "t_get (t_split d (Trie l v ks) k (common_len k l)) x = (if x = k then Some d else t_get (Trie l v ks) x)"
proof -
  let ?c = "common_len k l"
  let ?p = "take ?c l" and ?low = "Trie (drop ?c l) v ks"
  have k: "k = ?p @ drop ?c k" using common_len_take [of k l] by simp
  have l: "Trie l v ks = Trie (?p @ drop ?c l) v ks" by simp
  have low: "t_get (Trie l v ks) (?p @ r) = t_get ?low r" for r by (subst l) (rule t_get_prefixed)
  have el: "edge_of ?low = l ! ?c" "drop ?c l \<noteq> []" using assms(1) by (simp_all add: hd_drop_conv_nth)
  have hl: "r \<noteq> [] \<and> hd r = l ! ?c" if "t_get ?low r = Some y" for r y using t_get_kid_hd [OF that] el by simp
  show ?thesis
  proof (cases "\<exists>r. x = ?p @ r")
    case False
    then have "t_get (t_split d (Trie l v ks) k ?c) x = None" "t_get (Trie l v ks) x = None" "x \<noteq> k"
      using k l by (auto intro!: t_get_other simp: t_split_def Let_def simp del: append_take_drop_id)
        (metis append.assoc append_take_drop_id)
    then show ?thesis by simp
  next
    case True
    then obtain r where r: "x = ?p @ r" by blast
    then have xk: "x = k \<longleftrightarrow> r = drop ?c k" using k by (metis same_append_eq)
    show ?thesis
    proof (cases "?c = length k")
      case True
      then have p: "?p = k" using k by simp
      have "t_get (t_split d (Trie l v ks) k ?c) x = (if r = [] then Some d else case find_kid [?low] (hd r) of None \<Rightarrow> None | Some u \<Rightarrow> t_get u r)"
        using True p by (simp add: t_split_def Let_def r t_get_kids)
      also have "\<dots> = (if r = [] then Some d else t_get ?low r)"
        using hl [of r] el(1) by (cases "t_get ?low r") (auto simp: find_kid_single)
      also have "\<dots> = (if r = [] then Some d else t_get (Trie l v ks) x)" using low [of r] r by (simp only:)
      also have "r = [] \<longleftrightarrow> x = k" using xk True by simp
      finally show ?thesis .
    next
      case False
      then have ck: "?c < length k" using common_len_bounds(2) [of k l] by simp
      have df: "k ! ?c \<noteq> l ! ?c" using common_len_differ assms(1) ck by blast
      have e: "edge_of (t_leaf (drop ?c k) d) = k ! ?c" using ck by (simp add: t_leaf_def hd_drop_conv_nth)
      have "t_get (t_split d (Trie l v ks) k ?c) x = (if r = [] then None else
          case (if hd r = k ! ?c then Some (t_leaf (drop ?c k) d) else find_kid [?low] (hd r)) of None \<Rightarrow> None | Some u \<Rightarrow> t_get u r)"
        using e ck by (subst find_set_kid [symmetric]) (auto simp: t_split_def Let_def r t_get_kids)
      also have "\<dots> = (if r = drop ?c k then Some d else t_get ?low r)"
      proof (cases "t_get ?low r")
        case None
        then show ?thesis using ck by (auto simp: t_get_leaf find_kid_single hd_drop_conv_nth)
      next
        case (Some y)
        then have "r \<noteq> []" "hd r = l ! ?c" using hl by auto
        with df have "hd r \<noteq> k ! ?c" "r \<noteq> drop ?c k" using ck by (auto simp: hd_drop_conv_nth)
        then show ?thesis using Some \<open>r \<noteq> []\<close> \<open>hd r = l ! ?c\<close> el by (simp add: find_kid_single)
      qed
      also have "t_get ?low r = t_get (Trie l v ks) x" using low [of r] r by (simp only:)
      finally show ?thesis by (simp only: xk)
    qed
  qed
qed

lemma edge_of_leaf: "edge_of (t_leaf k d) = hd k"
  by (simp add: t_leaf_def)


lemma t_upd_short:
  "common_len k l < length l \<Longrightarrow>
     t_upd b (Trie l v ks) k = (case b of None \<Rightarrow> None | Some d \<Rightarrow> Some (Some (t_split d (Trie l v ks) k (common_len k l))))"
  by (subst t_upd.simps) (simp add: Let_def)

lemma t_upd_long:
  "t_upd b (Trie l v ks) (l @ r) = (if r = [] then (if v = b then None else Some (t_save (Trie l b ks)))
     else case find_kid ks (hd r) of
       Some u \<Rightarrow> (case t_upd b u r of None \<Rightarrow> None | Some w \<Rightarrow> Some (t_save (Trie l v (set_kid ks (hd r) w))))
     | None \<Rightarrow> (case b of None \<Rightarrow> None | Some d \<Rightarrow> Some (t_save (Trie l v (set_kid ks (hd r) (Some (t_leaf r d)))))))"
  by (subst t_upd.simps) (simp add: Let_def)

text \<open>An update does not change the edge a tree hangs on.\<close>

lemma t_save_edge: "t_save t = Some u \<Longrightarrow> t_label t \<noteq> [] \<Longrightarrow> t_label u \<noteq> [] \<and> edge_of u = edge_of t"
  by (induction t rule: t_save.induct) auto

lemma t_upd_edge:
  assumes "t_upd b t k = Some (Some u)" "t_label t \<noteq> []" "k \<noteq> []" "hd k = edge_of t"
  shows "t_label u \<noteq> [] \<and> edge_of u = hd k"
proof -
  obtain l v ks where t: "t = Trie l v ks" by (cases t)
  show ?thesis
  proof (cases "common_len k l < length l")
    case True
    have "0 < common_len k l" using assms t by (cases k; cases l) auto
    then have "take (common_len k l) l \<noteq> []" "hd (take (common_len k l) l) = hd l" using assms(2) t by (auto simp: hd_take)
    then show ?thesis
      using assms t by (auto simp: t_upd_short [OF True] t_split_def Let_def split: option.splits if_splits)
  next
    case False
    then obtain r where k: "k = l @ r" using common_len_full by blast
    then have "\<exists>v' js. t_save (Trie l v' js) = Some u"
      using assms(1) t by (auto simp: t_upd_long split: if_splits option.splits)
    with t_save_edge assms t show ?thesis by force
  qed
qed

text \<open>The update changes the map at the key and nowhere else, and reports no change exactly when the key is bound
  as wanted.\<close>

lemma t_upd_get:
  assumes "t_ok pfx t"
  shows "t_upd b t k = None \<Longrightarrow> t_get t k = b"
    and "t_upd b t k = Some w \<Longrightarrow> opt_get w x = (if x = k then b else t_get t x)"
proof -
  have "(t_upd b t k = None \<longrightarrow> t_get t k = b) \<and> (\<forall>w. t_upd b t k = Some w \<longrightarrow> (\<forall>x. opt_get w x = (if x = k then b else t_get t x)))"
    using assms
  proof (induction t arbitrary: pfx k)
    case (Trie l v ks)
    have ne: "\<forall>u\<in>set ks. t_label u \<noteq> []" and srt: "sorted_wrt (<) (map edge_of ks)"
      using Trie.prems by (auto simp: root_ok_def)
    show ?case
    proof (cases "common_len k l < length l")
      case True
      then have "t_get (Trie l v ks) k = None" using common_len_short by (intro t_get_other) simp
      then show ?thesis
        using t_get_split [OF True ne] by (cases b) (auto simp: t_upd_short [OF True])
    next
      case False
      then obtain r where k: "k = l @ r" using common_len_full by blast
      note step = t_upd_long [of b l v ks r, folded k]
      have sv: "opt_get (t_save (Trie l v' js)) x = t_get (Trie l v' js) x" if "\<forall>u\<in>set js. t_label u \<noteq> []" for v' js x
        using t_get_save [of "Trie l v' js"] that by simp
      show ?thesis
      proof (cases "r = []")
        case True
        have "t_get (Trie l b ks) x = (if x = l then b else t_get (Trie l v ks) x)" for x
          by (cases "\<exists>r. x = l @ r") (auto simp: t_get_kids t_get_other split: if_splits)
        moreover have "t_upd b (Trie l v ks) k = (if v = b then None else Some (t_save (Trie l b ks)))"
          using True step by simp
        ultimately show ?thesis using True k by (auto simp: sv ne)
      next
        case rne: False
        have at: "t_get (Trie l v (set_kid ks (hd r) w)) x = (if x = k then b else t_get (Trie l v ks) x)"
          if w: "\<And>u. w = Some u \<Longrightarrow> edge_of u = hd r"
            and g: "\<And>y. y \<noteq> [] \<Longrightarrow> hd y = hd r \<Longrightarrow> opt_get w y = (if y = r then b else t_get (Trie l v ks) (l @ y))" for w x
        proof (cases "\<exists>y. x = l @ y")
          case True
          then obtain y where y: "x = l @ y" by blast
          show ?thesis
            using g [of y] rne k y by (cases "y = [] \<or> hd y \<noteq> hd r") (auto simp: t_get_kids find_set_kid [OF w])
        qed (auto simp: t_get_other k)
        have kid: "opt_get (find_kid ks (hd y)) y = t_get (Trie l v ks) (l @ y)" if "y \<noteq> []" for y
          using that by (simp add: t_get_kids)
        show ?thesis
        proof (cases "find_kid ks (hd r)")
          case None
          have "\<forall>u\<in>set (set_kid ks (hd r) (Some (t_leaf r d))). t_label u \<noteq> []" for d
            using ne rne by (auto simp: set_kid_def t_leaf_def)
          moreover have "t_get (Trie l v ks) k = None" using None rne k by (simp add: t_get_kids)
          moreover have "t_get (Trie l v (set_kid ks (hd r) (Some (t_leaf r d)))) x = (if x = k then b else t_get (Trie l v ks) x)"
            if "b = Some d" for d x
            using None kid that by (intro at) (auto simp: t_get_leaf edge_of_leaf t_get_kids)
          ultimately show ?thesis using None rne by (auto simp: step sv split: option.splits)
        next
          case (Some u)
          then have u: "u \<in> set ks" "t_ok (pfx @ l) u" "t_label u \<noteq> []" "edge_of u = hd r"
            using find_kid_Some [OF Some] Trie.prems ne by auto
          note ih = Trie.IH [OF u(1,2), of r]
          have tk: "t_get (Trie l v ks) (l @ y) = t_get u y" if "y \<noteq> []" "hd y = hd r" for y
            using that Some by (simp add: t_get_kids)
          show ?thesis
          proof (cases "t_upd b u r")
            case None
            then show ?thesis using ih tk [of r] rne Some k by (simp add: t_upd_long)
          next
            case w: (Some w)
            have e: "t_label u' \<noteq> [] \<and> edge_of u' = hd r" if "w = Some u'" for u'
              using t_upd_edge [of b u r u'] w that u rne by simp
            then have "\<forall>u\<in>set (set_kid ks (hd r) w). t_label u \<noteq> []"
              using ne by (auto simp: set_kid_def split: option.splits)
            moreover have "t_get (Trie l v (set_kid ks (hd r) w)) x = (if x = k then b else t_get (Trie l v ks) x)" for x
              using ih w e tk by (intro at) auto
            ultimately show ?thesis using w Some rne by (simp add: step sv)
          qed
        qed
      qed
    qed
  qed
  then show "t_upd b t k = None \<Longrightarrow> t_get t k = b"
    and "t_upd b t k = Some w \<Longrightarrow> opt_get w x = (if x = k then b else t_get t x)" by auto
qed


subsection \<open>The form of an updated tree\<close>

lemma key_ok_length: "key_ok k \<Longrightarrow> length k \<le> 4096"
  by (auto simp: key_ok_def names_ok_def length_key_of)

lemma t_ok_leaf: "key_ok (pfx @ k) \<Longrightarrow> length d = 32 \<Longrightarrow> t_ok pfx (t_leaf k d)"
  using key_ok_length [of "pfx @ k"] by (simp add: t_leaf_def root_ok_def)

lemma t_ok_cut: "t_ok pfx (Trie (p @ l) v ks) \<Longrightarrow> l \<noteq> [] \<Longrightarrow> t_ok (pfx @ p) (Trie l v ks)"
  by (auto simp: root_ok_def)

lemma t_ok_save: "raw_ok pfx t \<Longrightarrow> t_save t = Some u \<Longrightarrow> t_ok pfx u"
proof (induction t rule: t_save.induct)
  case (2 l l' b' ks')
  then show ?case by (cases "ks'") (auto simp: raw_ok_def root_ok_def)
qed (auto simp: raw_ok_def)

lemma set_set_kid: "set (set_kid ks e w) \<subseteq> set ks \<union> set_option w"
  by (auto simp: set_kid_def split: option.splits)

lemma raw_ok_set_kid:
  assumes "raw_ok pfx (Trie l v ks)" "\<And>u. w = Some u \<Longrightarrow> t_ok (pfx @ l) u \<and> t_label u \<noteq> [] \<and> edge_of u = e"
  shows "raw_ok pfx (Trie l v (set_kid ks e w))"
proof -
  have "sorted_wrt (<) (map edge_of (set_kid ks e w))"
  proof (cases w)
    case None
    then show ?thesis using assms(1)
      by (auto simp: raw_ok_def root_ok_def set_kid_def sorted_wrt_map sorted_wrt_append intro: sorted_wrt_filter)
  next
    case (Some u)
    then show ?thesis using assms
      by (auto simp: raw_ok_def root_ok_def set_kid_def sorted_wrt_map sorted_wrt_append intro: sorted_wrt_filter)
  qed
  moreover have "t_ok (pfx @ l) u \<and> t_label u \<noteq> []" if "u \<in> set (set_kid ks e w)" for u
    using set_set_kid [of ks e w] that assms by (auto simp: raw_ok_def root_ok_def)
  ultimately show ?thesis using assms(1) by (auto simp: raw_ok_def root_ok_def)
qed

text \<open>The two parts of a split label.\<close>

lemma split_parts:
  assumes "t_ok pfx (Trie l v ks)" "common_len k l < length l" "key_ok (pfx @ k)" "length d = 32"
  defines "p \<equiv> take (common_len k l) l" and "low \<equiv> Trie (drop (common_len k l) l) v ks"
  shows "k = p @ drop (common_len k l) k" "t_ok (pfx @ p) low" "t_label low \<noteq> []" "edge_of low = l ! common_len k l"
    "raw_ok pfx (Trie p None [low])" "raw_ok pfx (Trie p None [])"
    "common_len k l \<noteq> length k \<Longrightarrow> t_ok (pfx @ p) (t_leaf (drop (common_len k l) k) d) \<and> drop (common_len k l) k \<noteq> []
       \<and> edge_of (t_leaf (drop (common_len k l) k) d) = k ! common_len k l \<and> k ! common_len k l \<noteq> l ! common_len k l"
proof -
  show k: "k = p @ drop (common_len k l) k" using common_len_take [of k l] by (simp add: p_def)
  show low: "t_ok (pfx @ p) low" unfolding low_def p_def using assms(1,2) by (intro t_ok_cut) simp_all
  show lne: "t_label low \<noteq> []" "edge_of low = l ! common_len k l" using assms(2) by (simp_all add: low_def hd_drop_conv_nth)
  have "length (pfx @ p) \<le> 4096" using assms(1) by (auto simp: p_def root_ok_def min_def)
  then show "raw_ok pfx (Trie p None [low])" "raw_ok pfx (Trie p None [])" using low lne by (simp_all add: raw_ok_def root_ok_def)
  assume "common_len k l \<noteq> length k"
  then have ck: "common_len k l < length k" using common_len_bounds(2) [of k l] by simp
  have "key_ok ((pfx @ p) @ drop (common_len k l) k)" using assms(3) k by simp
  with ck assms(4) common_len_differ [OF assms(2) ck]
  show "t_ok (pfx @ p) (t_leaf (drop (common_len k l) k) d) \<and> drop (common_len k l) k \<noteq> []
       \<and> edge_of (t_leaf (drop (common_len k l) k) d) = k ! common_len k l \<and> k ! common_len k l \<noteq> l ! common_len k l"
    using t_ok_leaf by (simp add: edge_of_leaf hd_drop_conv_nth)
qed

lemma t_ok_split:
  assumes "t_ok pfx (Trie l v ks)" "common_len k l < length l" "key_ok (pfx @ k)" "length d = 32"
  shows "t_ok pfx (t_split d (Trie l v ks) k (common_len k l))"
proof -
  note sp = split_parts [OF assms]
  let ?p = "take (common_len k l) l" and ?low = "Trie (drop (common_len k l) l) v ks"
  show ?thesis
  proof (cases "common_len k l = length k")
    case True
    then have "?p = k" using sp(1) by simp
    moreover have "raw_ok pfx (Trie q (Some d) [x])" if "raw_ok pfx (Trie q None [x])" "key_ok (pfx @ q)" for q x
      using that assms(4) by (simp add: raw_ok_def root_ok_def)
    ultimately have "raw_ok pfx (Trie ?p (Some d) [?low])" using sp(5) assms(3) by metis
    then show ?thesis using True by (simp add: t_split_def t_ok_raw del: t_ok.simps)
  next
    case False
    let ?leaf = "t_leaf (drop (common_len k l) k) d"
    have "raw_ok pfx (Trie ?p None (set_kid [?low] (k ! common_len k l) (Some ?leaf)))"
      using sp(5,7) False by (intro raw_ok_set_kid) (auto simp: t_leaf_def)
    moreover have "length (set_kid [?low] (k ! common_len k l) (Some ?leaf)) = 2"
      using sp(4,7) False by (auto simp: set_kid_def)
    ultimately show ?thesis using False by (auto simp: t_split_def Let_def t_ok_raw)
  qed
qed

lemma t_upd_ok:
  "t_ok pfx t \<Longrightarrow> key_ok (pfx @ k) \<Longrightarrow> (\<And>d. b = Some d \<Longrightarrow> length d = 32) \<Longrightarrow> t_upd b t k = Some (Some u) \<Longrightarrow> t_ok pfx u"
proof (induction t arbitrary: pfx k u)
  case (Trie l v ks)
  have raw: "raw_ok pfx (Trie l v ks)" using Trie.prems(1) by (simp add: t_ok_raw)
  show ?case
  proof (cases "common_len k l < length l")
    case True
    then show ?thesis using Trie.prems t_ok_split by (auto simp: t_upd_short [OF True] split: option.splits)
  next
    case False
    then obtain r where k: "k = l @ r" using common_len_full by blast
    consider "r = []" "t_save (Trie l b ks) = Some u"
      | w where "r \<noteq> []" "t_save (Trie l v (set_kid ks (hd r) w)) = Some u"
          "\<exists>u. find_kid ks (hd r) = Some u \<and> t_upd b u r = Some w"
      | d where "r \<noteq> []" "t_save (Trie l v (set_kid ks (hd r) (Some (t_leaf r d)))) = Some u" "b = Some d"
      using Trie.prems(4) k by (auto simp: t_upd_long split: if_splits option.splits)
    then show ?thesis
    proof cases
      case 1
      have "raw_ok pfx (Trie l b ks)" using raw Trie.prems(2,3) k 1(1) by (simp add: raw_ok_def root_ok_def)
      with t_ok_save 1(2) show ?thesis by blast
    next
      case (2 w)
      then obtain x where x: "find_kid ks (hd r) = Some x" "t_upd b x r = Some w" by blast
      have xo: "x \<in> set ks" "t_ok (pfx @ l) x" "t_label x \<noteq> []" "edge_of x = hd r"
        using find_kid_Some [OF x(1)] Trie.prems(1) by (auto simp: root_ok_def)
      have "t_ok (pfx @ l) y \<and> t_label y \<noteq> [] \<and> edge_of y = hd r" if "w = Some y" for y
        using Trie.IH [OF xo(1,2)] Trie.prems(2,3) t_upd_edge [of b x r y] xo(3,4) x(2) that k 2(1) by auto
      then have "raw_ok pfx (Trie l v (set_kid ks (hd r) w))" using raw by (intro raw_ok_set_kid) auto
      with t_ok_save 2(2) show ?thesis by blast
    next
      case (3 d)
      then have "t_ok (pfx @ l) (t_leaf r d)" using Trie.prems(2,3) k by (intro t_ok_leaf) auto
      then have "raw_ok pfx (Trie l v (set_kid ks (hd r) (Some (t_leaf r d))))"
        using raw 3(1) by (intro raw_ok_set_kid) (auto simp: edge_of_leaf t_leaf_def)
      with t_ok_save 3(2) show ?thesis by blast
    qed
  qed
qed

end
