(* ===== verification/Radix_Refine.thy ===== *)
theory Radix_Refine
  imports Radix_Trie
begin

text \<open>
  The refinement: the operations of the index on a store, against the trees. \<open>trie_node\<close> is the node of a
  tree, with the digests of its children, \<open>trie_id\<close> its digest. A store holds a tree when it returns the
  encoding of every node under its digest. The contract of a store is the locale \<open>node_contract\<close>, and the
  store of the tests is shown to keep it.
\<close>

section \<open>The nodes of a tree\<close>

fun trie_node :: "hash \<Rightarrow> trie \<Rightarrow> radix_node" where
  "trie_node H (Trie l b ks) =
     \<lparr>rn_label = l, rn_binding = b, rn_children = map (\<lambda>u. \<lparr>rc_edge = edge_of u, rc_digest = node_id H (trie_node H u)\<rparr>) ks\<rparr>"

definition trie_id :: "hash \<Rightarrow> trie \<Rightarrow> digest" where
  "trie_id H t = node_id H (trie_node H t)"

definition kid_ref :: "hash \<Rightarrow> trie \<Rightarrow> radix_child" where
  "kid_ref H u = \<lparr>rc_edge = edge_of u, rc_digest = trie_id H u\<rparr>"

lemma trie_node_eq: "trie_node H (Trie l b ks) = \<lparr>rn_label = l, rn_binding = b, rn_children = map (kid_ref H) ks\<rparr>"
  by (simp add: kid_ref_def trie_id_def)

declare trie_node.simps [simp del]

lemma trie_node_fields [simp]:
  "rn_label (trie_node H t) = t_label t" "rn_binding (trie_node H t) = t_binding t"
  "rn_children (trie_node H t) = map (kid_ref H) (t_kids t)"
  by (cases t; simp add: trie_node_eq)+

lemma kid_ref_fields [simp]: "rc_edge (kid_ref H u) = edge_of u" "rc_digest (kid_ref H u) = trie_id H u"
  by (simp_all add: kid_ref_def)

lemma edges_of_refs [simp]: "rc_edge \<circ> kid_ref H = edge_of"
  by auto

lemma trie_node_empty: "trie_node H t_empty = node_empty"
  by (simp add: trie_node_eq node_empty_def)

lemma trie_id_empty: "trie_id H t_empty = empty_root H"
  by (simp add: trie_id_def empty_root_def trie_node_empty)

lemma find_refs:
  "find (\<lambda>c. rc_edge c = e) (map (kid_ref H) ks) = map_option (kid_ref H) (find_kid ks e)"
  by (induction ks) (auto simp: find_kid_def)

lemma length_u8_ascending: "sorted_wrt (<) (map f xs) \<Longrightarrow> length xs \<le> 256" for f :: "'a \<Rightarrow> u8"
proof -
  assume "sorted_wrt (<) (map f xs)"
  then have "distinct (map f xs)" by (simp add: strict_sorted_iff)
  then have "length xs = card (set (map f xs))" using distinct_card [of "map f xs"] by simp
  also have "\<dots> \<le> card (UNIV :: u8 set)" by (rule card_mono) auto
  also have "\<dots> = 256" by (simp add: card_word)
  finally show ?thesis .
qed

lemma length_node_id [simp]: "sha_ok H \<Longrightarrow> length (node_id H n) = 32"
  by (simp add: node_id_def sha256_def sha_ok_def)

lemma node_wf_trie: "sha_ok H \<Longrightarrow> t_ok pfx t \<Longrightarrow> node_wf (trie_node H t)"
proof -
  assume a: "sha_ok H" "t_ok pfx t"
  obtain l b ks where t: "t = Trie l b ks" by (cases t)
  have s: "sorted_wrt (<) (map edge_of ks)" using a t by (simp add: root_ok_def)
  then have "length ks \<le> 256" by (rule length_u8_ascending)
  then show ?thesis using a t s by (auto simp: node_wf_def local_shape_def root_ok_def trie_id_def)
qed

text \<open>\<open>set_child\<close> on an ascending list: the child under the edge is replaced, removed or put in its place.\<close>

lemma takeWhile_ascending:
  "sorted_wrt (<) (map f xs) \<Longrightarrow> filter (\<lambda>x. f x < e) xs = takeWhile (\<lambda>x. f x < e) xs" for f :: "'a \<Rightarrow> u8"
proof (induction xs)
  case (Cons a xs)
  have "\<forall>x\<in>set xs. \<not> f x < e" if "\<not> f a < e" using Cons.prems that by force
  then have "filter (\<lambda>x. f x < e) xs = []" if "\<not> f a < e" using that by (simp add: filter_empty_conv)
  with Cons show ?case by simp
qed simp

lemma set_child_ascending:
  assumes "sorted_wrt (<) (map rc_edge cs)"
  shows "set_child cs e d = filter (\<lambda>c. rc_edge c < e) cs
    @ (case d of None \<Rightarrow> [] | Some d \<Rightarrow> [\<lparr>rc_edge = e, rc_digest = d\<rparr>]) @ filter (\<lambda>c. e < rc_edge c) cs"
proof -
  define lo hi where "lo = takeWhile (\<lambda>c. rc_edge c < e) cs" and "hi = dropWhile (\<lambda>c. rc_edge c < e) cs"
  have cs: "cs = lo @ hi" by (simp add: lo_def hi_def)
  have lo: "filter (\<lambda>c. rc_edge c < e) cs = lo" using takeWhile_ascending [OF assms] by (simp add: lo_def)
  have lo2: "\<forall>c\<in>set lo. rc_edge c < e" by (auto simp: lo_def dest: set_takeWhileD)
  then have hf: "filter (\<lambda>c. e < rc_edge c) cs = filter (\<lambda>c. e < rc_edge c) hi" by (auto simp: cs filter_empty_conv)
  have sh: "sorted_wrt (<) (map rc_edge hi)" using assms cs by (metis map_append sorted_wrt_append)
  have tw: "takeWhile (\<lambda>c. rc_edge c < e) cs = lo" by (simp add: lo_def)
  have se: "search_edge e cs = (if length lo < length cs \<and> rc_edge (cs ! length lo) = e then Inr (length lo) else Inl (length lo))"
    by (simp add: search_edge_def Let_def tw)
  show ?thesis
  proof (cases "hi \<noteq> [] \<and> rc_edge (hd hi) = e")
    case True
    then obtain c hs where h: "hi = c # hs" "rc_edge c = e" by (cases hi) auto
    then have "filter (\<lambda>c. e < rc_edge c) hi = hs" using sh by (auto intro!: filter_True)
    moreover have "search_edge e cs = Inr (length lo)" using h se by (simp add: cs)
    ultimately show ?thesis using h cs lo hf by (cases d) (simp_all add: set_child_def)
  next
    case False
    have "filter (\<lambda>c. e < rc_edge c) hi = hi"
    proof (cases hi)
      case (Cons c hs)
      then have "\<not> rc_edge c < e" using hd_dropWhile [of "\<lambda>c. rc_edge c < e" cs] by (simp add: hi_def)
      with False Cons sh show ?thesis by (auto intro!: filter_True)
    qed simp
    moreover have "search_edge e cs = Inl (length lo)"
      using False se by (cases hi) (simp_all add: cs)
    ultimately show ?thesis using cs lo hf by (cases d) (simp_all add: set_child_def)
  qed
qed

lemma set_child_kids:
  assumes "sorted_wrt (<) (map edge_of ks)" "\<And>u. w = Some u \<Longrightarrow> edge_of u = e"
  shows "set_child (map (kid_ref H) ks) e (map_option (trie_id H) w) = map (kid_ref H) (set_kid ks e w)"
proof -
  have "sorted_wrt (<) (map rc_edge (map (kid_ref H) ks))" using assms(1) by (simp add: sorted_wrt_map)
  then show ?thesis using assms(2)
    by (cases w) (simp_all add: set_child_ascending set_kid_def filter_map o_def kid_ref_def)
qed

section \<open>The contract of a store\<close>

locale node_contract =
  fixes S :: "'s node_store" and held :: "'s \<Rightarrow> digest \<rightharpoonup> bytes"
  assumes read_keeps: "held (snd (ns_read S nid s)) = held s"
    and read_held: "held s nid = Some bs \<Longrightarrow> fst (ns_read S nid s) = Ok bs"
    and read_missing: "held s nid = None \<Longrightarrow> \<exists>m. fst (ns_read S nid s) = Err (Idx_Store m)"
    and insert_Ok: "ns_insert S nid bs s = (Ok (), s') \<Longrightarrow> held s' = (held s)(nid \<mapsto> bs) \<and> held s nid \<in> {None, Some bs}"
    and insert_fails: "ns_insert S nid bs s = (Inl f, s') \<Longrightarrow> held s' = held s \<and> (\<exists>m. f = Fail (Idx_Store m))"

interpretation mem: node_contract memory ms_nodes
  by unfold_locales
    (auto simp: memory_def memory_read_def memory_insert_def Let_def split: if_splits option.splits)

section \<open>Trees in a store\<close>

fun all_nodes :: "(trie \<Rightarrow> bool) \<Rightarrow> trie \<Rightarrow> bool" where
  "all_nodes P (Trie l b ks) \<longleftrightarrow> P (Trie l b ks) \<and> (\<forall>u\<in>set ks. all_nodes P u)"

text \<open>The store has the node of the tree; no bytes it has under the digest of the node are others than its
  encoding.\<close>

definition node_held :: "hash \<Rightarrow> (digest \<rightharpoonup> bytes) \<Rightarrow> trie \<Rightarrow> bool" where
  "node_held H c t \<longleftrightarrow> t = t_empty \<or> c (trie_id H t) = Some (node_encode (trie_node H t))"

definition node_genuine :: "hash \<Rightarrow> (digest \<rightharpoonup> bytes) \<Rightarrow> trie \<Rightarrow> bool" where
  "node_genuine H c t \<longleftrightarrow> t = t_empty \<or> trie_id H t \<noteq> empty_root H
     \<and> (\<forall>bs. c (trie_id H t) = Some bs \<and> sha256 H [bs] = trie_id H t \<longrightarrow> bs = node_encode (trie_node H t))"

abbreviation stored :: "hash \<Rightarrow> (digest \<rightharpoonup> bytes) \<Rightarrow> trie \<Rightarrow> bool" where
  "stored H c t \<equiv> all_nodes (node_held H c) t"

abbreviation genuine :: "hash \<Rightarrow> (digest \<rightharpoonup> bytes) \<Rightarrow> trie \<Rightarrow> bool" where
  "genuine H c t \<equiv> all_nodes (node_genuine H c) t"

text \<open>No node but the empty one has the digest of the empty node, which the index takes for the empty tree
  without looking into the store.\<close>

definition empty_safe :: "hash \<Rightarrow> bool" where
  "empty_safe H \<longleftrightarrow> (\<forall>n. node_wf n \<and> node_id H n = empty_root H \<longrightarrow> n = node_empty)"

lemma trie_id_eq: "trie_id H t = sha256 H [node_encode (trie_node H t)]"
  by (simp add: trie_id_def node_id_def)

lemma empty_safeD: "empty_safe H \<Longrightarrow> sha_ok H \<Longrightarrow> t_ok pfx t \<Longrightarrow> trie_id H t = empty_root H \<Longrightarrow> t = t_empty"
proof -
  assume a: "empty_safe H" "sha_ok H" "t_ok pfx t" "trie_id H t = empty_root H"
  have "trie_node H t = node_empty"
    using a(1,4) node_wf_trie [OF a(2,3)] unfolding empty_safe_def trie_id_def by blast
  then show "t = t_empty" by (cases t) (simp add: trie_node_eq node_empty_def)
qed

lemma all_nodes_root: "all_nodes P t \<Longrightarrow> P t"
  by (cases t) simp

lemma all_nodes_kid: "all_nodes P t \<Longrightarrow> u \<in> set (t_kids t) \<Longrightarrow> all_nodes P u"
  by (cases t) auto

lemma all_nodes_mono: "(\<And>u. P u \<Longrightarrow> Q u) \<Longrightarrow> all_nodes P t \<Longrightarrow> all_nodes Q t"
  by (induction t) auto

lemma stored_mono: "stored H c t \<Longrightarrow> c \<subseteq>\<^sub>m c' \<Longrightarrow> stored H c' t"
  by (rule all_nodes_mono [of "node_held H c"]) (auto simp: node_held_def map_le_def, metis domI)

lemma genuine_stored: "stored H c t \<Longrightarrow> t_ok pfx t \<Longrightarrow> empty_safe H \<Longrightarrow> sha_ok H \<Longrightarrow> genuine H c t"
proof (induction t arbitrary: pfx)
  case (Trie l b ks)
  have "node_genuine H c (Trie l b ks)"
    using empty_safeD [OF Trie.prems(3,4,2)] all_nodes_root [OF Trie.prems(1)] by (auto simp: node_genuine_def node_held_def)
  moreover have "genuine H c u" if "u \<in> set ks" for u
    using Trie.IH [OF that] Trie.prems that by auto
  ultimately show ?case by simp
qed


section \<open>Loading a node\<close>

definition edge_fits :: "u8 option \<Rightarrow> trie \<Rightarrow> bool" where
  "edge_fits e t \<longleftrightarrow> (case e of None \<Rightarrow> True | Some e \<Rightarrow> t_label t \<noteq> [] \<and> edge_of t = e)"

lemma validate_position_trie: "t_ok pfx t \<Longrightarrow> validate_position pfx (trie_node H t) = Ok ()"
proof -
  assume "t_ok pfx t"
  then have r: "root_ok pfx t" by (cases t) simp
  show ?thesis
  proof (cases "t_binding t")
    case None
    with r show ?thesis by (simp add: validate_position_def joined_key_def PATH_MAX_BYTES_def root_ok_def)
  next
    case (Some d)
    with r obtain p where "decode_key (pfx @ t_label t) = Ok p"
      using decode_key_Ok by (auto simp: root_ok_def key_ok_def)
    with r Some show ?thesis by (simp add: validate_position_def joined_key_def PATH_MAX_BYTES_def root_ok_def from_codec_def)
  qed
qed

lemma from_codec_simps [simp]: "from_codec (Inr x) = Ok x" "from_codec (Err e) = Idx_Err e"
  by (simp_all add: from_codec_def)

lemma wrong_edge_trie: "edge_fits e t \<Longrightarrow> \<not> wrong_edge e (trie_node H t)"
  by (auto simp: edge_fits_def wrong_edge_def get_at_def hd_conv_nth split: option.splits)

context node_contract
begin

lemma read_cases:
  obtains (got) bs s' where "ns_read S nid s = (Ok bs, s')" "held s nid = Some bs" "held s' = held s"
  | (none) m s' where "ns_read S nid s = (Err (Idx_Store m), s')" "held s nid = None" "held s' = held s"
proof (cases "held s nid")
  case None
  then obtain m where "ns_read S nid s = (Err (Idx_Store m), snd (ns_read S nid s))"
    using read_missing [of s nid] by (metis prod.collapse)
  with None read_keeps show thesis by (intro none)
next
  case (Some bs)
  then have "ns_read S nid s = (Ok bs, snd (ns_read S nid s))" using read_held [of s nid bs] by (metis prod.collapse)
  with Some read_keeps show thesis by (intro got)
qed

text \<open>A node of a tree is loaded as what it is, or, when the store does not have it, the load fails. The
  store keeps its contents.\<close>

lemma load_trie:
  assumes "sha_ok H" "t_ok pfx t" "edge_fits e t" "node_genuine H (held s) t"
  shows "\<exists>r s'. index_load H S (trie_id H t) e pfx s = (r, s') \<and> held s' = held s
     \<and> (r = Ok (trie_node H t) \<or> \<not> node_held H (held s) t \<and> (\<exists>f. r = Err f))"
proof -
  have wf: "node_wf (trie_node H t)" using node_wf_trie assms(1,2) by blast
  note wv = wrong_edge_trie [OF assms(3), of H] validate_position_trie [OF assms(2), of H]
  have fin: "(if wrong_edge e (trie_node H t) then Idx_Err (BadOrdering ''radix incoming child label'') else
     and_then (validate_position pfx (trie_node H t)) (\<lambda>_. Ok (trie_node H t))) = Ok (trie_node H t)"
    using wv by simp
  show ?thesis
  proof (cases "t = t_empty")
    case True
    then show ?thesis using wv by (simp add: index_load_def trie_id_empty trie_node_empty)
  next
    case False
    then have g: "trie_id H t \<noteq> empty_root H"
      "\<And>bs. held s (trie_id H t) = Some bs \<Longrightarrow> sha256 H [bs] = trie_id H t \<Longrightarrow> bs = node_encode (trie_node H t)"
      using assms(4) by (auto simp: node_genuine_def)
    show ?thesis
    proof (cases rule: read_cases [of "trie_id H t" s])
      case (got bs s')
      let ?r = "if length bs > NODE_MAX_BYTES then Idx_Err (BadLength ''radix stored node'') else
          if sha256 H [bs] \<noteq> trie_id H t then Idx_Err (DigestMismatch ''radix stored node'') else from_codec (node_decode bs)"
      show ?thesis
      proof (cases "bs = node_encode (trie_node H t)")
        case True
        have "?r = Ok (trie_node H t)"
          using True node_encode_bound [OF wf] wf node_decode_Ok [of bs "trie_node H t"]
          by (simp add: NODE_MAX_BYTES_def trie_id_eq)
        then show ?thesis using got g(1) fin by (simp add: index_load_def op_then_def)
      next
        case bad: False
        then have "\<exists>f. ?r = Err f" using g(2) [OF got(2)] by auto
        moreover have "\<not> node_held H (held s) t" using bad False got(2) by (simp add: node_held_def)
        ultimately show ?thesis using got g(1) by (auto simp: index_load_def op_then_def split: if_splits)
      qed
    next
      case (none m s')
      then show ?thesis using g(1) False by (simp add: index_load_def op_then_def node_held_def)
    qed
  qed
qed

lemma load_stored:
  assumes "sha_ok H" "empty_safe H" "t_ok pfx t" "edge_fits e t" "stored H (held s) t"
  obtains s' where "index_load H S (trie_id H t) e pfx s = (Ok (trie_node H t), s')" "held s' = held s"
  using load_trie [OF assms(1,3,4)] all_nodes_root [OF assms(5)]
    all_nodes_root [OF genuine_stored [OF assms(5,3,2,1)]] by blast

end

section \<open>Reading\<close>

definition path_at :: "bytes \<Rightarrow> bytes" where
  "path_at k = (case decode_key k of Inr p \<Rightarrow> p | Inl _ \<Rightarrow> [])"

lemma path_at_key: "names_ok ns \<Longrightarrow> path_at (key_of ns) = path_of ns"
  using decode_key_Ok [of "key_of ns" "path_of ns"] by (auto simp: path_at_def)

lemma decode_key_ok: "key_ok k \<Longrightarrow> decode_key k = Ok (path_at k)"
  by (auto simp: key_ok_def path_at_key decode_key_Ok)

lemma path_at_inj: "key_ok a \<Longrightarrow> key_ok b \<Longrightarrow> path_at a = path_at b \<longleftrightarrow> a = b"
  by (auto simp: key_ok_def path_at_key dest: path_of_inj)

text \<open>The loop of \<open>walk\<close> on a tree.\<close>

function t_walk :: "trie \<Rightarrow> bytes \<Rightarrow> bytes \<Rightarrow> (bytes \<times> digest) option \<Rightarrow> bool \<times> (bytes \<times> digest) option" where
  "t_walk (Trie l b ks) pfx k found =
     (if \<not> starts_with k l then (False, found) else
      let r = drop (length l) k;
          found = (case b of None \<Rightarrow> found | Some d \<Rightarrow> Some (path_at (pfx @ l), d))
      in if r = [] then (True, found) else
         case find_kid ks (hd r) of None \<Rightarrow> (False, found) | Some u \<Rightarrow> t_walk u (pfx @ l) r found)"
  by pat_completeness auto
termination
  by (relation "measure (\<lambda>(t, pfx, k, found). size t)") (auto dest!: find_kid_Some dest: kid_size)

declare t_walk.simps [simp del]

lemma t_walk_other: "(\<nexists>r. k = t_label t @ r) \<Longrightarrow> t_walk t pfx k found = (False, found)"
  by (cases t) (auto simp: t_walk.simps starts_with_iff)

lemma t_walk_kids:
  "t_walk (Trie l b ks) pfx (l @ r) found =
     (let found = (case b of None \<Rightarrow> found | Some d \<Rightarrow> Some (path_at (pfx @ l), d))
      in if r = [] then (True, found) else
         case find_kid ks (hd r) of None \<Rightarrow> (False, found) | Some u \<Rightarrow> t_walk u (pfx @ l) r found)"
  by (subst t_walk.simps) (simp add: Let_def)

text \<open>What the walk has found is the longest prefix of the key that is bound.\<close>

lemma t_walk_found:
  "t_ok pfx t \<Longrightarrow> snd (t_walk t pfx k found) = found \<and> (\<forall>x y. k = x @ y \<longrightarrow> t_get t x = None)
   \<or> (\<exists>x y d. k = x @ y \<and> t_get t x = Some d \<and> snd (t_walk t pfx k found) = Some (path_at (pfx @ x), d)
        \<and> (\<forall>x' y'. k = x' @ y' \<and> length x < length x' \<longrightarrow> t_get t x' = None))"
proof (induction t arbitrary: pfx k found)
  case (Trie l b ks)
  show ?case
  proof (cases "\<exists>r. k = l @ r")
    case False
    then have "t_get (Trie l b ks) x = None" if "k = x @ y" for x y using that by (intro t_get_other) auto
    with False show ?thesis using t_walk_other [of k "Trie l b ks"] by simp
  next
    case True
    then obtain r where k: "k = l @ r" by blast
    define f where "f = (case b of None \<Rightarrow> found | Some d \<Rightarrow> Some (path_at (pfx @ l), d))"
    have short: "t_get (Trie l b ks) x = None" if "k = x @ y" "length x < length l" for x y
      using that by (intro t_get_other) auto
    have here: "snd (t_walk (Trie l b ks) pfx k found) = f \<Longrightarrow> (\<And>x y. k = x @ y \<Longrightarrow> length l < length x \<Longrightarrow> t_get (Trie l b ks) x = None) \<Longrightarrow> ?thesis"
    proof (cases b)
      case None
      assume "snd (t_walk (Trie l b ks) pfx k found) = f" and g: "\<And>x y. k = x @ y \<Longrightarrow> length l < length x \<Longrightarrow> t_get (Trie l b ks) x = None"
      moreover have "t_get (Trie l b ks) x = None" if "k = x @ y" for x y
        using short [OF that] g [OF that] that k None by (cases "length x" "length l" rule: linorder_cases) auto
      ultimately show ?thesis using None by (auto simp: f_def)
    next
      case (Some d)
      assume "snd (t_walk (Trie l b ks) pfx k found) = f" and g: "\<And>x y. k = x @ y \<Longrightarrow> length l < length x \<Longrightarrow> t_get (Trie l b ks) x = None"
      then show ?thesis using Some k by (intro disjI2 exI [of _ l] exI [of _ r] exI [of _ d]) (auto simp: f_def)
    qed
    show ?thesis
    proof (cases "r = []")
      case True
      then show ?thesis using k by (intro here) (auto simp: t_walk.simps Let_def f_def starts_with_def)
    next
      case False
      show ?thesis
      proof (cases "find_kid ks (hd r)")
        case None
        have "t_get (Trie l b ks) x = None" if x: "k = x @ y" "length l < length x" for x y
        proof -
          obtain z where z: "x = l @ z" "z \<noteq> []" "r = z @ y" using x k by (auto simp: append_eq_append_conv2)
          with None show ?thesis by (simp add: t_get_kids)
        qed
        moreover have "snd (t_walk (Trie l b ks) pfx k found) = f" using None False k by (simp add: t_walk_kids f_def)
        ultimately show ?thesis by (intro here)
      next
        case (Some u)
        have w: "t_walk (Trie l b ks) pfx k found = t_walk u (pfx @ l) r f"
          using Some False k by (simp add: t_walk_kids f_def)
        have deep: "\<exists>z. x = l @ z \<and> z \<noteq> [] \<and> r = z @ y \<and> t_get (Trie l b ks) x = t_get u z"
          if x: "k = x @ y" "length l < length x" for x y
        proof -
          obtain z where z: "x = l @ z" "z \<noteq> []" "r = z @ y" using x k by (auto simp: append_eq_append_conv2)
          with Some show ?thesis by (simp add: t_get_kids)
        qed
        have u: "u \<in> set ks" "t_ok (pfx @ l) u" "t_label u \<noteq> []"
          using find_kid_Some [OF Some] Trie.prems by (auto simp: root_ok_def)
        from Trie.IH [OF u(1,2), of r f]
        consider "snd (t_walk u (pfx @ l) r f) = f" "\<forall>x y. r = x @ y \<longrightarrow> t_get u x = None"
          | x y d where "r = x @ y" "t_get u x = Some d" "snd (t_walk u (pfx @ l) r f) = Some (path_at ((pfx @ l) @ x), d)"
             "\<forall>x' y'. r = x' @ y' \<and> length x < length x' \<longrightarrow> t_get u x' = None" by blast
        then show ?thesis
        proof cases
          case 1
          then show ?thesis using w deep by (intro here) metis+
        next
          case (2 x y d)
          have "x \<noteq> []" using t_get_kid_hd [OF 2(2) u(3)] by simp
          then have "t_get (Trie l b ks) (l @ x) = Some d" using 2(1,2) Some by (simp add: t_get_kids)
          moreover have "t_get (Trie l b ks) x' = None" if "k = x' @ y'" "length (l @ x) < length x'" for x' y'
            using deep [OF that(1)] that(2) 2(4) by force
          ultimately show ?thesis
            using w k 2(1,3) by (intro disjI2 exI [of _ "l @ x"] exI [of _ y] exI [of _ d]) auto
        qed
      qed
    qed
  qed
qed


lemma t_walk_end: "t_get t k = Some d \<Longrightarrow> fst (t_walk t pfx k found)"
proof (induction t arbitrary: pfx k found)
  case (Trie l b ks)
  obtain r where k: "k = l @ r" using t_get_label Trie.prems by force
  with Trie show ?case
    by (auto simp: t_get_kids t_walk_kids Let_def split: if_splits option.splits dest: find_kid_Some)
qed

text \<open>The two readings of what was found. \<open>longest_bound\<close> tries the ancestors of a path from the longest to the
  shortest.\<close>

definition longest_bound :: "(bytes list \<Rightarrow> digest option) \<Rightarrow> bytes list \<Rightarrow> (bytes \<times> digest) option" where
  "longest_bound m names =
     (case find (\<lambda>i. m (take i names) \<noteq> None) (rev [0..<Suc (length names)]) of
        None \<Rightarrow> None
      | Some i \<Rightarrow> Some (path_of (take i names), the (m (take i names))))"

lemma find_rev_upt:
  "find P (rev [0..<n]) = (if \<exists>i<n. P i then Some (GREATEST i. i < n \<and> P i) else None)"
proof (induction n)
  case (Suc n)
  have "(GREATEST i. i < Suc n \<and> P i) = n" if "P n" using that by (intro Greatest_equality) auto
  moreover have "(\<lambda>i. i < Suc n \<and> P i) = (\<lambda>i. i < n \<and> P i)" if "\<not> P n" using that less_Suc_eq by auto
  ultimately show ?case using Suc less_Suc_eq by auto
qed simp

lemma longest_boundI:
  assumes "i \<le> length names" "m (take i names) = Some d" "\<And>j. i < j \<Longrightarrow> j \<le> length names \<Longrightarrow> m (take j names) = None"
  shows "longest_bound m names = Some (path_of (take i names), d)"
proof -
  have "(GREATEST j. j < Suc (length names) \<and> m (take j names) \<noteq> None) = i"
    using assms by (intro Greatest_equality) (auto, metis le_SucE less_Suc_eq_le not_le option.distinct(1))
  moreover have "\<exists>j<Suc (length names). m (take j names) \<noteq> None" using assms(1,2) by (intro exI [of _ i]) simp
  ultimately show ?thesis using assms(2) unfolding longest_bound_def find_rev_upt by simp
qed

lemma find_in: "find P xs = Some x \<Longrightarrow> x \<in> set xs \<and> P x"
  by (induction xs) (auto split: if_splits)

lemma longest_boundD:
  assumes "longest_bound m names = Some (p, d)"
  obtains i where "i \<le> length names" "m (take i names) = Some d" "p = path_of (take i names)"
proof -
  obtain i where i: "find (\<lambda>i. m (take i names) \<noteq> None) (rev [0..<Suc (length names)]) = Some i"
    "p = path_of (take i names)" "d = the (m (take i names))"
    using assms by (auto simp: longest_bound_def split: option.splits)
  then have "i \<in> set (rev [0..<Suc (length names)])" "m (take i names) \<noteq> None"
    using find_in [OF i(1)] by auto
  with i show thesis by (intro that) auto
qed

lemma longest_bound_None: "longest_bound m names = None \<longleftrightarrow> (\<forall>i\<le>length names. m (take i names) = None)"
  unfolding longest_bound_def find_rev_upt by (auto simp: less_Suc_eq_le)

text \<open>A bound prefix of the key of a path is the key of one of its ancestors.\<close>

lemma key_prefix_take:
  assumes "names_ok names" "key_ok x" "key_of names = x @ y"
  obtains i where "i \<le> length names" "x = key_of (take i names)"
proof -
  obtain ns where ns: "names_ok ns" "x = key_of ns" using assms(2) by (auto simp: key_ok_def)
  have z: "\<forall>n\<in>set ns. 0 \<notin> set n" "\<forall>n\<in>set names. 0 \<notin> set n"
    using ns(1) assms(1) by (auto simp: names_ok_def canonical_name_def)
  have "\<exists>r. key_of names = key_of ns @ r" using assms(3) ns(2) by blast
  then obtain c where "names = ns @ c" using key_prefix_names [OF z] by blast
  then show thesis using that [of "length ns"] ns(2) by simp
qed

lemma key_take_prefix: "\<exists>y. key_of names = key_of (take i names) @ y"
proof -
  have "key_of names = key_of (take i names) @ key_of (drop i names)"
    by (metis append_take_drop_id concat_append key_of_def map_append)
  then show ?thesis by blast
qed

lemma key_take_mono: "i < j \<Longrightarrow> j \<le> length names \<Longrightarrow> length (key_of (take i names)) < length (key_of (take j names))"
proof -
  assume a: "i < j" "j \<le> length names"
  have "take j names = take i names @ sub i (j - i) names" using a by (metis add_diff_inverse_nat less_imp_le not_less sub_def take_add)
  moreover have "sub i (j - i) names \<noteq> []" using a by (simp add: sub_def)
  ultimately show ?thesis by (cases "sub i (j - i) names") (auto simp: key_of_def)
qed

lemma names_ok_take: "names_ok names \<Longrightarrow> names_ok (take i names)"
proof -
  assume n: "names_ok names"
  have "length (join_with slash (take i names)) \<le> length (join_with slash names)"
  proof (cases "take i names = []")
    case False
    then have "length (key_of (take i names)) \<le> length (key_of names)" using key_take_prefix [of names i] by (metis le_add1 length_append)
    with False show ?thesis using length_key_of [of names] length_key_of [of "take i names"] by (auto simp: path_of_def)
  qed auto
  with n show ?thesis by (auto simp: names_ok_def path_of_def dest: in_set_takeD)
qed

lemma t_walk_longest:
  assumes "t_ok [] t" "names_ok names"
  shows "snd (t_walk t [] (key_of names) None) = longest_bound (\<lambda>ns. t_get t (key_of ns)) names"
proof -
  from t_walk_found [OF assms(1), of "key_of names" None]
  consider "snd (t_walk t [] (key_of names) None) = None" "\<forall>x y. key_of names = x @ y \<longrightarrow> t_get t x = None"
    | x y d where "key_of names = x @ y" "t_get t x = Some d" "snd (t_walk t [] (key_of names) None) = Some (path_at x, d)"
       "\<forall>x' y'. key_of names = x' @ y' \<and> length x < length x' \<longrightarrow> t_get t x' = None" by auto
  then show ?thesis
  proof cases
    case 1
    then have "longest_bound (\<lambda>ns. t_get t (key_of ns)) names = None"
      unfolding longest_bound_None using key_take_prefix by metis
    with 1 show ?thesis by simp
  next
    case (2 x y d)
    have "key_ok x" using t_get_Some_key [OF assms(1) 2(2)] by simp
    then obtain i where i: "i \<le> length names" "x = key_of (take i names)" using key_prefix_take [OF assms(2) _ 2(1)] by blast
    have "longest_bound (\<lambda>ns. t_get t (key_of ns)) names = Some (path_of (take i names), d)"
      using i 2(2,4) key_take_prefix key_take_mono by (intro longest_boundI) metis+
    with i 2(3) path_at_key [OF names_ok_take [OF assms(2)]] show ?thesis by simp
  qed
qed

lemma t_walk_get:
  assumes "t_ok [] t" "names_ok names" "t_walk t [] (key_of names) None = (at_end, found)"
  shows "(if at_end then (case found of None \<Rightarrow> None | Some (p, d) \<Rightarrow> if p = path_of names then Some (p, d) else None) else None)
    = map_option (Pair (path_of names)) (t_get t (key_of names))"
proof -
  have f: "found = longest_bound (\<lambda>ns. t_get t (key_of ns)) names" using t_walk_longest [OF assms(1,2)] assms(3) by simp
  show ?thesis
  proof (cases "t_get t (key_of names)")
    case (Some d)
    then have "found = Some (path_of names, d)" using longest_boundI [of "length names" names _ d] f by simp
    then show ?thesis using t_walk_end [OF Some, of "[]" None] assms(3) Some by simp
  next
    case None
    have "p \<noteq> path_of names" if fp: "found = Some (p, d)" for p d
    proof
      assume p: "p = path_of names"
      have "longest_bound (\<lambda>ns. t_get t (key_of ns)) names = Some (p, d)" using fp f by simp
      then obtain i where i: "t_get t (key_of (take i names)) = Some d" "p = path_of (take i names)"
        by (rule longest_boundD)
      have "path_of (take i names) = path_of names" using i(2) p by (rule subst)
      then have "take i names = names" by (rule path_of_inj [OF names_ok_take [OF assms(2)] assms(2)])
      with i(1) None show False by simp
    qed
    then have "(case found of None \<Rightarrow> None | Some (p, d) \<Rightarrow> if p = path_of names then Some (p, d) else None) = None"
      by (cases found) auto
    with None show ?thesis by simp
  qed
qed

section \<open>The walk through a store\<close>

lemma op_then_Ok: "m s = (Inr x, s1) \<Longrightarrow> op_then m f s = f x s1"
  by (simp add: op_then_def)

lemma op_then_fails: "m s = (Inl e, s1) \<Longrightarrow> op_then m f s = (Inl e, s1)"
  by (simp add: op_then_def)

lemma op_then_assoc [simp]: "op_then (op_then m f) g = op_then m (\<lambda>x. op_then (f x) g)"
  by (auto simp: op_then_def split: prod.split sum.split)

lemma slice_key [simp]:
  "slice_of (pfx @ k) 0 (length pfx) = Ok pfx" "slice_of (pfx @ k) (length pfx) (length pfx + length k) = Ok k"
  by (simp_all add: slice_of_def sub_def)

lemma slice_key_at [simp]:
  "slice_of (pfx @ l @ r) 0 (length pfx + length l) = Ok (pfx @ l)"
  "slice_of (pfx @ l @ r) (length pfx + length l) (length pfx + (length l + length r)) = Ok r"
  using slice_key [of "pfx @ l" r] by (simp_all add: add.assoc)

lemma index_key_at [simp]: "r \<noteq> [] \<Longrightarrow> at_index (pfx @ l @ r) (length pfx + length l) = Ok (hd r)"
  by (cases r) (auto simp: at_index_def nth_append)

context node_contract
begin

lemma walk_trie:
  assumes "sha_ok H" "t_ok pfx t" "edge_fits e t" "genuine H (held s) t"
  shows "\<exists>r s'. walk_loop H S (pfx @ k) (trie_id H t) e (length pfx) found s = (r, s') \<and> held s' = held s
     \<and> (r = Ok (t_walk t pfx k found) \<or> \<not> stored H (held s) t \<and> (\<exists>f. r = Err f))"
  using assms(2-4)
proof (induction t arbitrary: pfx k found e s)
  case (Trie l b ks)
  let ?t = "Trie l b ks"
  obtain r1 s1 where ld: "index_load H S (trie_id H ?t) e pfx s = (r1, s1)" "held s1 = held s"
    "r1 = Ok (trie_node H ?t) \<or> \<not> node_held H (held s) ?t \<and> (\<exists>f. r1 = Err f)"
    using load_trie [OF assms(1) Trie.prems(1,2) all_nodes_root [OF Trie.prems(3)]] by blast
  show ?case
  proof (cases "r1 = Ok (trie_node H ?t)")
    case False
    then obtain f where f: "r1 = Err f" "\<not> stored H (held s) ?t" using ld(3) by auto
    then show ?thesis using ld by (subst walk_loop.simps) (simp add: op_then_fails)
  next
    case True
    define nid where "nid = trie_id H ?t"
    note ld2 = op_then_Ok [where m = "index_load H S nid e pfx" and s = s, OF ld(1) [unfolded True, folded nid_def]]
    show ?thesis
    proof (cases "\<exists>r. k = l @ r")
      case False
      then show ?thesis
        using ld(2) t_walk_other [of k ?t] by (subst walk_loop.simps) (simp add: ld2 [unfolded nid_def] starts_with_iff)
    next
      case True
      then obtain r where k: "k = l @ r" by blast
      define f where "f = (case b of None \<Rightarrow> found | Some d \<Rightarrow> Some (path_at (pfx @ l), d))"
      have dk: "b = Some d \<Longrightarrow> decode_key (pfx @ l) = Ok (path_at (pfx @ l))" for d
        using Trie.prems(1) by (intro decode_key_ok) (simp add: root_ok_def)
      have sl: "starts_with (l @ r) l" "starts_with l l"
        "slice_of (pfx @ l @ r) (length pfx) (length pfx + (length l + length r)) = (Ok (l @ r) :: bytes ires)"
        "slice_of (pfx @ l) (length pfx) (length pfx + length l) = (Ok l :: bytes ires)"
        "slice_of (pfx @ l) 0 (length pfx + length l) = (Ok (pfx @ l) :: bytes ires)"
        using starts_with_append [of l "[]"] slice_key(2) [of pfx "l @ r"] slice_key_at [of pfx l "[]"] by simp_all
      have step: "walk_loop H S (pfx @ k) nid e (length pfx) found s =
         (if r = [] then (Ok (True, f), s1) else
          case find_kid ks (hd r) of None \<Rightarrow> (Ok (False, f), s1)
          | Some u \<Rightarrow> walk_loop H S ((pfx @ l) @ r) (trie_id H u) (Some (hd r)) (length (pfx @ l)) f s1)"
        by (subst walk_loop.simps)
          (cases b; cases "r = []"; cases "find_kid ks (hd r)"; simp add: k ld2 Let_def sl dk f_def find_refs)
      show ?thesis
      proof (cases "r = [] \<or> find_kid ks (hd r) = None")
        case True
        then show ?thesis using ld(2) unfolding nid_def [symmetric] step by (auto simp: k t_walk_kids f_def)
      next
        case False
        then obtain u where u: "find_kid ks (hd r) = Some u" by auto
        then have uo: "u \<in> set ks" "edge_of u = hd r" "t_ok (pfx @ l) u" "t_label u \<noteq> []" "genuine H (held s1) u"
          using find_kid_Some [OF u] Trie.prems ld(2) by (auto simp: root_ok_def)
        have "edge_fits (Some (hd r)) u" using uo(2,4) by (simp add: edge_fits_def)
        from Trie.IH [OF uo(1,3) this uo(5), of r f] ld(2) uo(1)
        show ?thesis using False u unfolding nid_def [symmetric] step by (auto simp: k t_walk_kids f_def)
      qed
    qed
  qed
qed

text \<open>Reading a path: on a store that has all nodes of the tree, exactly the map of the tree; on any store, the
  map of the tree or an error.\<close>

lemma index_walk_trie:
  assumes "sha_ok H" "t_ok [] t" "genuine H (held s) t" "names_ok names"
  shows "\<exists>r s'. index_walk H S (trie_id H t) (path_of names) anc s = (r, s') \<and> held s' = held s
     \<and> (r = Ok (if anc then longest_bound (\<lambda>ns. t_get t (key_of ns)) names
               else map_option (Pair (path_of names)) (t_get t (key_of names)))
        \<or> \<not> stored H (held s) t \<and> (\<exists>f. r = Err f))"
proof -
  let ?w = "t_walk t [] (key_of names) None"
  obtain r s' where w: "walk_loop H S (key_of names) (trie_id H t) None 0 None s = (r, s')" "held s' = held s"
    "r = Ok ?w \<or> \<not> stored H (held s) t \<and> (\<exists>f. r = Err f)"
    using walk_trie [OF assms(1,2) _ assms(3), of None "key_of names" None] by (auto simp: edge_fits_def)
  have e: "from_codec (encode_key (path_of names)) = Ok (key_of names)" using encode_key_names [OF assms(4)] by simp
  show ?thesis
  proof (cases "r = Ok ?w")
    case True
    obtain at_end found where p: "?w = (at_end, found)" by force
    then have found: "found = longest_bound (\<lambda>ns. t_get t (key_of ns)) names" using t_walk_longest [OF assms(2,4)] by simp
    have "walk_loop H S (key_of names) (trie_id H t) None 0 None s = (Ok (at_end, found), s')" using w(1) True p by simp
    note w1 = op_then_Ok [where m = "walk_loop H S (key_of names) (trie_id H t) None 0 None" and s = s, OF this]
    show ?thesis
    proof (cases anc)
      case True
      then show ?thesis using w(2) by (auto simp: index_walk_def e w1 found split: option.splits)
    next
      case False
      then have "index_walk H S (trie_id H t) (path_of names) anc s =
        (Ok (if at_end then (case found of None \<Rightarrow> None | Some (p, d) \<Rightarrow> if p = path_of names then Some (p, d) else None) else None), s')"
        by (simp add: index_walk_def e w1 split: option.splits)
      then show ?thesis unfolding t_walk_get [OF assms(2,4) p] using w(2) False by simp
    qed
  next
    case False
    then obtain f where "r = Err f" "\<not> stored H (held s) t" using w(3) by blast
    then show ?thesis using w by (simp add: index_walk_def e op_then_fails)
  qed
qed

end

end
