(* ===== verification/Radix_Update.thy ===== *)
theory Radix_Update
  imports Radix_Refine
begin

text \<open>
  The update of the index on a store, against \<open>t_upd\<close> on trees. \<open>runs\<close> is the triple the proofs use: the
  operation ends with a value of the postcondition or in the state a failed insertion of a node under its own
  digest left, with the error of that insertion, and the store keeps what it has.
\<close>

section \<open>Operations that only add to a store\<close>

definition insert_failed :: "hash \<Rightarrow> 's node_store \<Rightarrow> index_error fault \<Rightarrow> 's \<Rightarrow> bool" where
  "insert_failed H S f s' \<longleftrightarrow> (\<exists>bs s. ns_insert S (sha256 H [bs]) bs s = (Inl f, s')) \<and> (\<exists>m. f = Fail (Idx_Store m))"

definition runs :: "hash \<Rightarrow> 's node_store \<Rightarrow> ('s \<Rightarrow> digest \<rightharpoonup> bytes) \<Rightarrow> ('s, 'a) iop \<Rightarrow> 's \<Rightarrow> ('a \<Rightarrow> 's \<Rightarrow> bool) \<Rightarrow> bool" where
  "runs H S held m s Q \<longleftrightarrow> (case m s of (r, s') \<Rightarrow> held s \<subseteq>\<^sub>m held s' \<and>
     (case r of Inr x \<Rightarrow> Q x s' | Inl f \<Rightarrow> insert_failed H S f s'))"

lemma runs_pure [simp]: "runs H S held (pure_op (Inr x)) s Q \<longleftrightarrow> Q x s"
  by (simp add: runs_def)

lemma runs_then:
  assumes "runs H S held m s P" "\<And>x s1. P x s1 \<Longrightarrow> held s \<subseteq>\<^sub>m held s1 \<Longrightarrow> runs H S held (f x) s1 Q"
  shows "runs H S held (op_then m f) s Q"
proof (cases "m s")
  case (Pair r s1)
  show ?thesis
  proof (cases r)
    case (Inr x)
    then have "P x s1" "held s \<subseteq>\<^sub>m held s1" using assms(1) Pair by (auto simp: runs_def)
    with assms(2) have "runs H S held (f x) s1 Q" by blast
    with \<open>held s \<subseteq>\<^sub>m held s1\<close> show ?thesis
      unfolding runs_def op_then_def Pair Inr by (auto intro: map_le_trans split: prod.splits)
  next
    case (Inl f)
    with assms(1) Pair show ?thesis by (auto simp: runs_def op_then_fails)
  qed
qed

lemma runs_mono: "runs H S held m s P \<Longrightarrow> (\<And>x s'. P x s' \<Longrightarrow> held s \<subseteq>\<^sub>m held s' \<Longrightarrow> Q x s') \<Longrightarrow> runs H S held m s Q"
  by (auto simp: runs_def split: prod.splits sum.splits)

lemma runs_at: "m s = m' z \<Longrightarrow> held s = held z \<Longrightarrow> runs H S held m' z Q \<Longrightarrow> runs H S held m s Q"
  by (simp add: runs_def)

lemma then_pure [simp]: "op_then (pure_op (Inr x)) f = f x" "op_then (Pair (Inr x)) f = f x"
  by (intro ext; simp add: op_then_def)+

lemma t_save_compressed: "compressed t \<Longrightarrow> t \<noteq> t_empty \<Longrightarrow> t_save t = Some t"
  by (induction t rule: t_save.induct) auto

lemma joined_key_ok: "root_ok pfx t \<Longrightarrow> joined_key pfx (t_label t) = Ok (pfx @ t_label t)"
  by (simp add: joined_key_def root_ok_def PATH_MAX_BYTES_def)

context node_contract
begin

lemma runs_store:
  assumes "sha_ok H" "t_ok pfx t" "\<forall>u\<in>set (t_kids t). stored H (held s) u"
  shows "runs H S held (store_node H S pfx (trie_node H t)) s (\<lambda>r s'. r = Some (trie_id H t) \<and> stored H (held s') t)"
proof -
  let ?n = "trie_node H t"
  have wf: "node_wf ?n" using node_wf_trie assms(1,2) by blast
  then have new: "node_new (rn_label ?n) (rn_binding ?n) (rn_children ?n) = Ok ?n"
    by (simp add: node_new_Ok node_wf_def)
  have st: "store_node H S pfx ?n = op_then (ns_insert S (trie_id H t) (node_encode ?n)) (\<lambda>_. pure_op (Ok (Some (trie_id H t))))"
    unfolding store_node_def new validate_position_trie [OF assms(2)] by (simp add: Let_def trie_id_eq)
  show ?thesis
  proof (cases "ns_insert S (trie_id H t) (node_encode ?n) s")
    case (Pair r s')
    show ?thesis
    proof (cases r)
      case (Inl f)
      then have "held s' = held s" "insert_failed H S f s'"
        using insert_fails [of "trie_id H t" "node_encode ?n" s f s'] Pair by (auto simp: insert_failed_def trie_id_eq)
      then show ?thesis using Pair Inl by (simp add: st runs_def op_then_def)
    next
      case (Inr x)
      then have h: "held s' = (held s)(trie_id H t \<mapsto> node_encode ?n)" "held s (trie_id H t) \<in> {None, Some (node_encode ?n)}"
        using insert_Ok Pair by (metis old.unit.exhaust)+
      then have le: "held s \<subseteq>\<^sub>m held s'" by (auto simp: map_le_def)
      have "stored H (held s') t"
        using assms(3) stored_mono [OF _ le] h(1) by (cases t) (auto simp: node_held_def)
      then show ?thesis using Pair Inr le by (simp add: st runs_def op_then_def)
    qed
  qed
qed

text \<open>\<open>save\<close> stores the tree after compression.\<close>

lemma runs_save:
  assumes "sha_ok H" "empty_safe H" "raw_ok pfx t" "\<forall>u\<in>set (t_kids t). stored H (held s) u"
  shows "runs H S held (index_save H S (trie_node H t) pfx) s
    (\<lambda>r s'. r = map_option (trie_id H) (t_save t) \<and> (\<forall>u. t_save t = Some u \<longrightarrow> stored H (held s') u))"
proof -
  consider (none) l where "t = Trie l None []" | (one) l u where "t = Trie l None [u]" | (more) "t_save t = Some t" "t_binding t \<noteq> None \<or> length (t_kids t) > 1"
    by (induction t rule: t_save.induct) auto
  then show ?thesis
  proof cases
    case (none l)
    then show ?thesis by (simp add: index_save_def)
  next
    case (one l u)
    then have u: "t_ok (pfx @ l) u" "t_label u \<noteq> []" "stored H (held s) u" "root_ok pfx t"
      using assms(3,4) by (auto simp: raw_ok_def root_ok_def)
    let ?m = "Trie (l @ t_label u) (t_binding u) (t_kids u)"
    have m: "t_save t = Some ?m" using one by (cases u) simp
    obtain s1 where ld: "index_load H S (trie_id H u) (Some (edge_of u)) (pfx @ l) s = (Ok (trie_node H u), s1)" "held s1 = held s"
      using load_stored [OF assms(1,2) u(1) _ u(3), of "Some (edge_of u)"] u(2) by (auto simp: edge_fits_def)
    have nd: "(trie_node H (Trie l None [u]))\<lparr>rn_label := l @ t_label u, rn_binding := t_binding u, rn_children := map (kid_ref H) (t_kids u)\<rparr> = trie_node H ?m"
      by (simp add: trie_node_eq)
    have jk: "joined_key pfx l = Ok (pfx @ l)" using joined_key_ok [OF u(4)] one by simp
    have "index_save H S (trie_node H t) pfx s = store_node H S pfx (trie_node H ?m) s1"
      using one by (simp add: index_save_def at_index_def jk op_then_Ok [where m = "index_load H S (trie_id H u) (Some (edge_of u)) (pfx @ l)" and s = s, OF ld(1)] nd)
    note eq = this
    have "runs H S held (store_node H S pfx (trie_node H ?m)) s1 (\<lambda>r s'. r = Some (trie_id H ?m) \<and> stored H (held s') ?m)"
      using t_ok_save [OF assms(3) m] all_nodes_kid [OF u(3)] ld(2) by (intro runs_store assms(1)) auto
    then have "runs H S held (store_node H S pfx (trie_node H ?m)) s1
      (\<lambda>r s'. r = map_option (trie_id H) (t_save t) \<and> (\<forall>u. t_save t = Some u \<longrightarrow> stored H (held s') u))"
      unfolding m by simp
    then show ?thesis unfolding runs_def eq ld(2) .
  next
    case more
    then have "index_save H S (trie_node H t) pfx = store_node H S pfx (trie_node H t)"
      by (auto simp: index_save_def)
    then show ?thesis using runs_store [OF assms(1) t_ok_save [OF assms(3) more(1)] assms(4)] more(1) by simp
  qed
qed

text \<open>Saving a compressed tree.\<close>

lemma runs_save_ok:
  assumes "sha_ok H" "empty_safe H" "t_ok pfx t" "t \<noteq> t_empty" "\<forall>u\<in>set (t_kids t). stored H (held s) u"
  shows "runs H S held (index_save H S (trie_node H t) pfx) s (\<lambda>r s'. r = Some (trie_id H t) \<and> stored H (held s') t)"
proof -
  have "raw_ok pfx t" "compressed t" using assms(3) t_ok_raw by blast+
  then show ?thesis using runs_save [OF assms(1,2) _ assms(5)] t_save_compressed [OF _ assms(4)] by simp
qed

lemma runs_leaf:
  assumes "sha_ok H" "empty_safe H" "key_ok (pfx @ k)" "length d = 32"
  shows "runs H S held (op_then (pure_op (from_codec (node_new k (Some d) []))) (\<lambda>leaf. index_save H S leaf pfx)) s
    (\<lambda>r s'. r = Some (trie_id H (t_leaf k d)) \<and> stored H (held s') (t_leaf k d))"
proof -
  have ok: "t_ok pfx (t_leaf k d)" using t_ok_leaf assms(3,4) by blast
  have "node_new k (Some d) [] = Ok (trie_node H (t_leaf k d))"
    using node_wf_trie [OF assms(1) ok] by (simp add: node_new_Ok node_wf_def t_leaf_def trie_node_eq)
  then show ?thesis using runs_save_ok [OF assms(1,2) ok] by (simp add: t_leaf_def)
qed

lemma required_Some [simp]: "required_id (Some x) = Ok x"
  by (simp add: required_id_def)

lemma runs_split:
  assumes "sha_ok H" "empty_safe H" "t_ok pfx (Trie l v ks)" "common_len k l < length l" "key_ok (pfx @ k)" "length d = 32"
    "\<forall>u\<in>set ks. stored H (held s) u"
  shows "runs H S held (split_label H S (pfx @ k) d (trie_node H (Trie l v ks)) (length pfx) (common_len k l)) s
    (\<lambda>r s'. r = Some (trie_id H (t_split d (Trie l v ks) k (common_len k l)))
       \<and> stored H (held s') (t_split d (Trie l v ks) k (common_len k l)))"
proof -
  note sp = split_parts [OF assms(3-6)]
  let ?c = "common_len k l"
  let ?p = "take ?c l" and ?low = "Trie (drop ?c l) v ks" and ?t = "t_split d (Trie l v ks) k ?c"
  have jk: "joined_key pfx ?p = Ok (pfx @ ?p)" using sp(6) joined_key_ok [of pfx "Trie ?p None []"] by (simp add: raw_ok_def)
  have low: "runs H S held (index_save H S (trie_node H ?low) (pfx @ ?p)) s (\<lambda>r s'. r = Some (trie_id H ?low) \<and> stored H (held s') ?low)"
    using sp(2,3) assms(7) by (intro runs_save_ok assms(1,2)) auto
  have tn: "t_ok pfx ?t" "?t \<noteq> t_empty" using t_ok_split [OF assms(3-6)] assms(4) by (auto simp: t_split_def Let_def set_kid_def t_leaf_def)
  have e: "at_index (drop ?c l) 0 = (Ok (l ! ?c) :: u8 ires)" using assms(4) by (simp add: at_index_def)
  have sc: "set_child [] e (Some x) = [\<lparr>rc_edge = e, rc_digest = x\<rparr>]" for e x by (simp add: set_child_ascending)
  have lref: "\<lparr>rc_edge = l ! ?c, rc_digest = trie_id H ?low\<rparr> = kid_ref H ?low" using sp(4) by (simp add: kid_ref_def)
  have sl: "slice_of l 0 ?c = (Ok ?p :: bytes ires)" using common_len_bounds [of k l] by (simp add: slice_of_def sub_def)
  define rest where "rest = (\<lambda>child_id. let parent = \<lparr>rn_label = ?p, rn_binding = None, rn_children = set_child [] (l ! ?c) (Some child_id)\<rparr> in
     op_then
       (if ?c = length k then pure_op (Ok (parent\<lparr>rn_binding := Some d\<rparr>)) else
        op_then (pure_op (slice_of k ?c (length k))) (\<lambda>suffix.
        op_then (pure_op (from_codec (node_new suffix (Some d) []))) (\<lambda>leaf.
        op_then (index_save H S leaf (pfx @ ?p)) (\<lambda>saved.
        op_then (pure_op (required_id saved)) (\<lambda>leaf_id.
        op_then (pure_op (at_index suffix 0)) (\<lambda>edge.
        pure_op (Ok (parent\<lparr>rn_children := set_child (rn_children parent) edge (Some leaf_id)\<rparr>)))))))) (\<lambda>parent.
     index_save H S parent pfx))"
  have body: "split_label H S (pfx @ k) d (trie_node H (Trie l v ks)) (length pfx) ?c =
      op_then (index_save H S (trie_node H ?low) (pfx @ ?p)) (\<lambda>saved. op_then (pure_op (required_id saved)) rest)"
    unfolding split_label_def rest_def using sl jk e by (cases "?c = length k") (simp_all add: Let_def trie_node_eq)
  have "runs H S held (rest (trie_id H ?low)) s1 (\<lambda>r s'. r = Some (trie_id H ?t) \<and> stored H (held s') ?t)"
    if low1: "stored H (held s1) ?low" for s1
  proof (cases "?c = length k")
    case True
    have "rest (trie_id H ?low) = index_save H S (trie_node H ?t) pfx"
      using True lref by (simp add: rest_def sc t_split_def trie_node_eq)
    then show ?thesis using runs_save_ok [OF assms(1,2) tn, of s1] low1 True by (simp add: t_split_def Let_def)
  next
    case False
    note lf = sp(7) [OF False]
    let ?leaf = "t_leaf (drop ?c k) d"
    have suf: "slice_of k ?c (length k) = (Ok (drop ?c k) :: bytes ires)" "at_index (drop ?c k) 0 = (Ok (k ! ?c) :: u8 ires)"
      using lf common_len_bounds(2) [of k l] by (simp_all add: slice_of_def sub_def at_index_def hd_conv_nth)
    have "key_ok ((pfx @ ?p) @ drop ?c k)" using assms(5) sp(1) by simp
    note leaf = runs_leaf [OF assms(1,2) this assms(6), of s1]
    have kids: "set_child [kid_ref H ?low] (k ! ?c) (Some (trie_id H ?leaf)) = map (kid_ref H) (t_kids ?t)"
      using set_child_kids [of "[?low]" "Some ?leaf" "k ! ?c" H] lf False by (simp add: t_split_def Let_def)
    have "rest (trie_id H ?low) = op_then (op_then (pure_op (from_codec (node_new (drop ?c k) (Some d) []))) (\<lambda>leaf. index_save H S leaf (pfx @ ?p)))
        (\<lambda>saved. op_then (pure_op (required_id saved)) (\<lambda>leaf_id.
          index_save H S \<lparr>rn_label = ?p, rn_binding = None, rn_children = set_child [kid_ref H ?low] (k ! ?c) (Some leaf_id)\<rparr> pfx))"
      using False by (simp add: rest_def sc lref suf)
    moreover have "runs H S held (index_save H S \<lparr>rn_label = ?p, rn_binding = None, rn_children = map (kid_ref H) (t_kids ?t)\<rparr> pfx) s2
        (\<lambda>r s'. r = Some (trie_id H ?t) \<and> stored H (held s') ?t)" if "stored H (held s2) ?leaf" "held s1 \<subseteq>\<^sub>m held s2" for s2
    proof -
      have "\<lparr>rn_label = ?p, rn_binding = None, rn_children = map (kid_ref H) (t_kids ?t)\<rparr> = trie_node H ?t"
        using False by (simp add: t_split_def Let_def trie_node_eq)
      moreover have "stored H (held s2) u" if "u \<in> set (t_kids ?t)" for u
        using that \<open>stored H (held s2) ?leaf\<close> stored_mono [OF low1 \<open>held s1 \<subseteq>\<^sub>m held s2\<close>] False
          set_set_kid [of "[?low]" "k ! ?c" "Some ?leaf"] by (auto simp: t_split_def Let_def)
      ultimately show ?thesis using runs_save_ok [OF assms(1,2) tn] by simp
    qed
    ultimately show ?thesis by (auto simp: kids simp del: op_then_assoc intro!: runs_then [OF leaf])
  qed
  then show ?thesis unfolding body by (auto intro!: runs_then [OF low])
qed

end

section \<open>The descent and the climb\<close>

lemma slice_deep [simp]: "slice_of (pfx @ l @ r) 0 (length pfx) = Ok pfx"
    "slice_of (pfx @ l @ r) (length pfx) (length pfx + (length l + length r)) = Ok (l @ r)"
  using slice_key [of pfx "l @ r"] by simp_all

abbreviation saved_as :: "hash \<Rightarrow> ('s \<Rightarrow> digest \<rightharpoonup> bytes) \<Rightarrow> trie option \<Rightarrow> digest option \<Rightarrow> 's \<Rightarrow> bool" where
  "saved_as H held w r s \<equiv> r = map_option (trie_id H) w \<and> (\<forall>u. w = Some u \<longrightarrow> stored H (held s) u)"

context node_contract
begin

lemma runs_put:
  assumes "sha_ok H" "empty_safe H" "raw_ok pfx (Trie l v ks)" "\<forall>u\<in>set ks. stored H (held s) u"
    "\<And>u. w = Some u \<Longrightarrow> t_ok (pfx @ l) u \<and> t_label u \<noteq> [] \<and> edge_of u = e \<and> stored H (held s) u"
  shows "runs H S held (index_save H S ((trie_node H (Trie l v ks))\<lparr>rn_children := set_child (map (kid_ref H) ks) e (map_option (trie_id H) w)\<rparr>) pfx) s
    (saved_as H held (t_save (Trie l v (set_kid ks e w))))"
proof -
  have srt: "sorted_wrt (<) (map edge_of ks)" using assms(3) by (simp add: raw_ok_def root_ok_def)
  have raw: "raw_ok pfx (Trie l v (set_kid ks e w))" using assms(3,5) by (intro raw_ok_set_kid) auto
  have st: "\<forall>u\<in>set (t_kids (Trie l v (set_kid ks e w))). stored H (held s) u"
    using set_set_kid [of ks e w] assms(4,5) by (cases w) auto
  have "set_child (map (kid_ref H) ks) e (map_option (trie_id H) w) = map (kid_ref H) (set_kid ks e w)"
    using set_child_kids [OF srt, of w e H] assms(5) by blast
  then have "(trie_node H (Trie l v ks))\<lparr>rn_children := set_child (map (kid_ref H) ks) e (map_option (trie_id H) w)\<rparr>
      = trie_node H (Trie l v (set_kid ks e w))" by (simp add: trie_node_eq)
  then show ?thesis using runs_save [OF assms(1,2) raw st] by simp
qed

lemma runs_add_leaf:
  assumes "sha_ok H" "empty_safe H" "t_ok pfx (Trie l v ks)" "key_ok (pfx @ l @ r)" "r \<noteq> []" "length d = 32"
    "\<forall>u\<in>set ks. stored H (held s) u"
  shows "runs H S held (add_leaf H S (pfx @ l @ r) d (trie_node H (Trie l v ks)) (length pfx) (length pfx + length l) (hd r)) s
    (saved_as H held (t_save (Trie l v (set_kid ks (hd r) (Some (t_leaf r d))))))"
proof -
  have raw: "raw_ok pfx (Trie l v ks)" using assms(3) t_ok_raw by blast
  have ko: "key_ok ((pfx @ l) @ r)" using assms(4) by simp
  have body: "add_leaf H S (pfx @ l @ r) d (trie_node H (Trie l v ks)) (length pfx) (length pfx + length l) (hd r) =
    op_then (op_then (pure_op (from_codec (node_new r (Some d) []))) (\<lambda>leaf. index_save H S leaf (pfx @ l)))
      (\<lambda>saved. op_then (pure_op (required_id saved)) (\<lambda>leaf_id.
        index_save H S ((trie_node H (Trie l v ks))\<lparr>rn_children := set_child (map (kid_ref H) ks) (hd r) (Some leaf_id)\<rparr>) pfx))"
    by (simp add: add_leaf_def Let_def)
  show ?thesis
    unfolding body
  proof (rule runs_then [OF runs_leaf [OF assms(1,2) ko assms(6)]])
    fix x s1
    assume x: "x = Some (trie_id H (t_leaf r d)) \<and> stored H (held s1) (t_leaf r d)" and le: "held s \<subseteq>\<^sub>m held s1"
    have "t_ok (pfx @ l) (t_leaf r d)" using t_ok_leaf [OF ko assms(6)] .
    then show "runs H S held (op_then (pure_op (required_id x)) (\<lambda>leaf_id.
        index_save H S ((trie_node H (Trie l v ks))\<lparr>rn_children := set_child (map (kid_ref H) ks) (hd r) (Some leaf_id)\<rparr>) pfx)) s1
        (saved_as H held (t_save (Trie l v (set_kid ks (hd r) (Some (t_leaf r d))))))"
      using runs_put [OF assms(1,2) raw, of s1 "Some (t_leaf r d)" "hd r"] x assms(5,7) stored_mono [OF _ le] by (simp add: t_leaf_def)
  qed
qed

text \<open>One step of the descent on a tree the store has.\<close>

lemma descend_step:
  assumes "sha_ok H" "empty_safe H" "t_ok pfx (Trie l v ks)" "edge_fits e (Trie l v ks)" "stored H (held s) (Trie l v ks)"
  obtains s1 where "held s1 = held s"
    and "common_len k l < length l \<Longrightarrow> index_descend H S (pfx @ k) b (trie_id H (Trie l v ks)) e (length pfx) anc s =
       (case b of None \<Rightarrow> (Ok Unchanged, s1)
        | Some d \<Rightarrow> op_then (split_label H S (pfx @ k) d (trie_node H (Trie l v ks)) (length pfx) (common_len k l))
            (\<lambda>r. pure_op (Ok (Changed r anc))) s1)"
    and "\<And>r. k = l @ r \<Longrightarrow> index_descend H S (pfx @ k) b (trie_id H (Trie l v ks)) e (length pfx) anc s =
       (if r = [] then
          (if v = b then (Ok Unchanged, s1) else
           op_then (index_save H S (trie_node H (Trie l b ks)) pfx) (\<lambda>r. pure_op (Ok (Changed r anc))) s1)
        else case find_kid ks (hd r) of
            Some u \<Rightarrow> index_descend H S ((pfx @ l) @ r) b (trie_id H u) (Some (hd r)) (length (pfx @ l)) ((trie_node H (Trie l v ks), hd r, length pfx) # anc) s1
          | None \<Rightarrow> (case b of None \<Rightarrow> (Ok Unchanged, s1)
              | Some d \<Rightarrow> op_then (add_leaf H S (pfx @ l @ r) d (trie_node H (Trie l v ks)) (length pfx) (length pfx + length l) (hd r))
                  (\<lambda>r. pure_op (Ok (Changed r anc))) s1))"
proof -
  define nid where "nid = trie_id H (Trie l v ks)"
  obtain s1 where ld: "index_load H S nid e pfx s = (Ok (trie_node H (Trie l v ks)), s1)" "held s1 = held s"
    using load_stored [OF assms] by (auto simp: nid_def)
  note ld2 = op_then_Ok [where m = "index_load H S nid e pfx" and s = s, OF ld(1)]
  have nf: "(trie_node H (Trie l v ks))\<lparr>rn_binding := b\<rparr> = trie_node H (Trie l b ks)" by (simp add: trie_node_eq)
  show thesis
  proof (rule that [OF ld(2)], unfold nid_def [symmetric])
    assume "common_len k l < length l"
    then show "index_descend H S (pfx @ k) b nid e (length pfx) anc s =
       (case b of None \<Rightarrow> (Ok Unchanged, s1)
        | Some d \<Rightarrow> op_then (split_label H S (pfx @ k) d (trie_node H (Trie l v ks)) (length pfx) (common_len k l))
            (\<lambda>r. pure_op (Ok (Changed r anc))) s1)"
      by (subst index_descend.simps) (simp add: ld2 Let_def split: option.split)
  next
    fix r
    assume k: "k = l @ r"
    have sl: "slice_of (pfx @ l) (length pfx) (length pfx + length l) = (Ok l :: bytes ires)" "common_len l l = length l"
      using slice_key(2) [of pfx l] common_len_append [of l "[]"] by simp_all
    show "index_descend H S (pfx @ k) b nid e (length pfx) anc s =
       (if r = [] then
          (if v = b then (Ok Unchanged, s1) else
           op_then (index_save H S (trie_node H (Trie l b ks)) pfx) (\<lambda>r. pure_op (Ok (Changed r anc))) s1)
        else case find_kid ks (hd r) of
            Some u \<Rightarrow> index_descend H S ((pfx @ l) @ r) b (trie_id H u) (Some (hd r)) (length (pfx @ l)) ((trie_node H (Trie l v ks), hd r, length pfx) # anc) s1
          | None \<Rightarrow> (case b of None \<Rightarrow> (Ok Unchanged, s1)
              | Some d \<Rightarrow> op_then (add_leaf H S (pfx @ l @ r) d (trie_node H (Trie l v ks)) (length pfx) (length pfx + length l) (hd r))
                  (\<lambda>r. pure_op (Ok (Changed r anc))) s1))"
    proof (cases "r = []")
      case True
      then show ?thesis by (subst index_descend.simps) (simp add: ld2 k Let_def sl nf)
    next
      case False
      then show ?thesis
        by (subst index_descend.simps) (cases "find_kid ks (hd r)"; cases b; simp add: ld2 k Let_def find_refs)
    qed
  qed
qed

end

text \<open>A root is the digest of a tree the store has.\<close>

definition rooted :: "hash \<Rightarrow> (digest \<rightharpoonup> bytes) \<Rightarrow> digest \<Rightarrow> trie \<Rightarrow> bool" where
  "rooted H c root t \<longleftrightarrow> t_ok [] t \<and> root = trie_id H t \<and> stored H c t"

lemma runs_step: "m s = m' z \<Longrightarrow> held z = held s \<Longrightarrow> runs H S held (op_then m' F) z Q \<Longrightarrow> runs H S held (op_then m F) s Q"
  by (simp add: runs_def op_then_def)

context node_contract
begin

lemma descend_unchanged:
  assumes "sha_ok H" "empty_safe H"
  shows "t_ok pfx t \<Longrightarrow> edge_fits e t \<Longrightarrow> stored H (held s) t \<Longrightarrow> t_upd b t k = None \<Longrightarrow>
    \<exists>s'. index_descend H S (pfx @ k) b (trie_id H t) e (length pfx) anc s = (Ok Unchanged, s') \<and> held s' = held s"
proof (induction t arbitrary: pfx k e s anc)
  case (Trie l v ks)
  obtain s1 where s1: "held s1 = held s" and
    short: "common_len k l < length l \<Longrightarrow> index_descend H S (pfx @ k) b (trie_id H (Trie l v ks)) e (length pfx) anc s =
       (case b of None \<Rightarrow> (Ok Unchanged, s1) | Some d \<Rightarrow> op_then (split_label H S (pfx @ k) d (trie_node H (Trie l v ks)) (length pfx) (common_len k l))
            (\<lambda>r. pure_op (Ok (Changed r anc))) s1)" and
    long: "\<And>r. k = l @ r \<Longrightarrow> index_descend H S (pfx @ k) b (trie_id H (Trie l v ks)) e (length pfx) anc s =
       (if r = [] then (if v = b then (Ok Unchanged, s1) else op_then (index_save H S (trie_node H (Trie l b ks)) pfx) (\<lambda>r. pure_op (Ok (Changed r anc))) s1)
        else case find_kid ks (hd r) of
            Some u \<Rightarrow> index_descend H S ((pfx @ l) @ r) b (trie_id H u) (Some (hd r)) (length (pfx @ l)) ((trie_node H (Trie l v ks), hd r, length pfx) # anc) s1
          | None \<Rightarrow> (case b of None \<Rightarrow> (Ok Unchanged, s1)
              | Some d \<Rightarrow> op_then (add_leaf H S (pfx @ l @ r) d (trie_node H (Trie l v ks)) (length pfx) (length pfx + length l) (hd r))
                  (\<lambda>r. pure_op (Ok (Changed r anc))) s1))"
    using descend_step [OF assms Trie.prems(1-3), of k b anc] by blast
  show ?case
  proof (cases "common_len k l < length l")
    case True
    then show ?thesis using short Trie.prems(4) s1 by (auto simp: t_upd_short split: option.splits)
  next
    case False
    then obtain r where k: "k = l @ r" using common_len_full by blast
    note up = Trie.prems(4) [unfolded k t_upd_long]
    show ?thesis
    proof (cases "r \<noteq> [] \<and> find_kid ks (hd r) \<noteq> None")
      case True
      then obtain u where u: "find_kid ks (hd r) = Some u" by auto
      then have uo: "u \<in> set ks" "t_ok (pfx @ l) u" "edge_fits (Some (hd r)) u" "stored H (held s1) u" "t_upd b u r = None"
        using find_kid_Some [OF u] Trie.prems(1,3) up True s1 by (auto simp: root_ok_def edge_fits_def split: option.splits)
      from Trie.IH [OF uo] s1 show ?thesis unfolding long [OF k] using True u by simp
    next
      case False
      then show ?thesis using long [OF k] up s1 by (auto split: if_splits option.splits)
    qed
  qed
qed

lemma descend_changed:
  assumes "sha_ok H" "empty_safe H" "\<And>d. b = Some d \<Longrightarrow> length d = 32"
  shows "t_ok pfx t \<Longrightarrow> edge_fits e t \<Longrightarrow> stored H (held s) t \<Longrightarrow> key_ok (pfx @ k) \<Longrightarrow> t_upd b t k = Some w \<Longrightarrow>
    (\<And>x s'. held s \<subseteq>\<^sub>m held s' \<Longrightarrow> saved_as H held w x s' \<Longrightarrow> runs H S held (op_then (index_climb H S (pfx @ k) anc x) G) s' Q) \<Longrightarrow>
    runs H S held (op_then (index_descend H S (pfx @ k) b (trie_id H t) e (length pfx) anc)
      (\<lambda>d. case d of Unchanged \<Rightarrow> U | Changed r a \<Rightarrow> op_then (index_climb H S (pfx @ k) a r) G)) s Q"
proof (induction t arbitrary: pfx k e s anc w)
  case (Trie l v ks)
  let ?F = "\<lambda>d. case d of Unchanged \<Rightarrow> U | Changed r a \<Rightarrow> op_then (index_climb H S (pfx @ k) a r) G"
  obtain s1 where s1: "held s1 = held s" and
    short: "common_len k l < length l \<Longrightarrow> index_descend H S (pfx @ k) b (trie_id H (Trie l v ks)) e (length pfx) anc s =
       (case b of None \<Rightarrow> (Ok Unchanged, s1) | Some d \<Rightarrow> op_then (split_label H S (pfx @ k) d (trie_node H (Trie l v ks)) (length pfx) (common_len k l))
            (\<lambda>r. pure_op (Ok (Changed r anc))) s1)" and
    long: "\<And>r. k = l @ r \<Longrightarrow> index_descend H S (pfx @ k) b (trie_id H (Trie l v ks)) e (length pfx) anc s =
       (if r = [] then (if v = b then (Ok Unchanged, s1) else op_then (index_save H S (trie_node H (Trie l b ks)) pfx) (\<lambda>r. pure_op (Ok (Changed r anc))) s1)
        else case find_kid ks (hd r) of
            Some u \<Rightarrow> index_descend H S ((pfx @ l) @ r) b (trie_id H u) (Some (hd r)) (length (pfx @ l)) ((trie_node H (Trie l v ks), hd r, length pfx) # anc) s1
          | None \<Rightarrow> (case b of None \<Rightarrow> (Ok Unchanged, s1)
              | Some d \<Rightarrow> op_then (add_leaf H S (pfx @ l @ r) d (trie_node H (Trie l v ks)) (length pfx) (length pfx + length l) (hd r))
                  (\<lambda>r. pure_op (Ok (Changed r anc))) s1))"
    using descend_step [OF assms(1,2) Trie.prems(1-3), of k b anc] by blast
  have kids: "\<forall>u\<in>set ks. stored H (held s1) u" using Trie.prems(3) s1 by auto
  have raw: "raw_ok pfx (Trie l v ks)" using Trie.prems(1) t_ok_raw by blast
  have fin: "runs H S held (op_then (op_then m (\<lambda>r. pure_op (Ok (Changed r anc)))) ?F) s1 Q" if "runs H S held m s1 (saved_as H held w)" for m
  proof -
    have "op_then (op_then m (\<lambda>r. pure_op (Ok (Changed r anc)))) ?F = op_then m (\<lambda>r. op_then (index_climb H S (pfx @ k) anc r) G)" by simp
    moreover have "runs H S held (op_then m (\<lambda>r. op_then (index_climb H S (pfx @ k) anc r) G)) s1 Q"
      by (rule runs_then [OF that]) (use Trie.prems(6) s1 in simp)
    ultimately show ?thesis by simp
  qed
  show ?case
  proof (cases "common_len k l < length l")
    case True
    then obtain d where d: "b = Some d" "w = Some (t_split d (Trie l v ks) k (common_len k l))"
      using Trie.prems(5) by (auto simp: t_upd_short split: option.splits)
    have "runs H S held (split_label H S (pfx @ k) d (trie_node H (Trie l v ks)) (length pfx) (common_len k l)) s1 (saved_as H held w)"
      using runs_split [OF assms(1,2) Trie.prems(1) True Trie.prems(4) _ kids, of d] assms(3) d by simp
    note goal = fin [OF this]
    show ?thesis by (rule runs_step [OF _ s1 goal]) (use short [OF True] d(1) in simp)
  next
    case False
    then obtain r where k: "k = l @ r" using common_len_full by blast
    note up = Trie.prems(5) [unfolded k t_upd_long]
    show ?thesis
    proof (cases "r = []")
      case True
      then have w: "v \<noteq> b" "w = t_save (Trie l b ks)" using up by (auto split: if_splits)
      have "raw_ok pfx (Trie l b ks)" using raw assms(3) Trie.prems(4) True k by (simp add: raw_ok_def root_ok_def)
      then have "runs H S held (index_save H S (trie_node H (Trie l b ks)) pfx) s1 (saved_as H held w)"
        using runs_save [OF assms(1,2), of pfx "Trie l b ks" s1] kids w by simp
      note goal = fin [OF this]
      show ?thesis by (rule runs_step [OF _ s1 goal]) (simp add: long [OF k] True w)
    next
      case rne: False
      show ?thesis
      proof (cases "find_kid ks (hd r)")
        case None
        then obtain d where d: "b = Some d" "w = t_save (Trie l v (set_kid ks (hd r) (Some (t_leaf r d))))"
          using up rne by (auto split: option.splits)
        have "runs H S held (add_leaf H S (pfx @ l @ r) d (trie_node H (Trie l v ks)) (length pfx) (length pfx + length l) (hd r)) s1 (saved_as H held w)"
          using runs_add_leaf [OF assms(1,2) Trie.prems(1) _ rne _ kids, of d] assms(3) Trie.prems(4) d k by simp
        note goal = fin [OF this]
        show ?thesis by (rule runs_step [OF _ s1 goal]) (use long [OF k] rne None d(1) in simp)
      next
        case (Some u)
        then obtain w' where w: "t_upd b u r = Some w'" "w = t_save (Trie l v (set_kid ks (hd r) w'))"
          using up rne by (auto split: option.splits)
        have uo: "u \<in> set ks" "t_ok (pfx @ l) u" "edge_fits (Some (hd r)) u" "stored H (held s1) u" "key_ok ((pfx @ l) @ r)"
          using find_kid_Some [OF Some] Trie.prems(1,4) kids k by (auto simp: root_ok_def edge_fits_def)
        have ul: "t_label u \<noteq> []" "edge_of u = hd r" using uo(3) by (simp_all add: edge_fits_def)
        let ?anc = "(trie_node H (Trie l v ks), hd r, length pfx) # anc"
        have climb: "runs H S held (op_then (index_climb H S ((pfx @ l) @ r) ?anc x) G) s' Q"
          if le: "held s1 \<subseteq>\<^sub>m held s'" and sv: "saved_as H held w' x s'" for x s'
        proof -
          have "t_ok (pfx @ l) y \<and> t_label y \<noteq> [] \<and> edge_of y = hd r \<and> stored H (held s') y" if "w' = Some y" for y
            using t_upd_ok [OF uo(2,5) assms(3)] t_upd_edge [of b u r y] w(1) that rne ul sv by simp
          then have put: "runs H S held (index_save H S ((trie_node H (Trie l v ks))\<lparr>rn_children := set_child (map (kid_ref H) ks) (hd r) x\<rparr>) pfx) s'
            (saved_as H held w)"
            using runs_put [OF assms(1,2) raw, of s' w' "hd r"] kids stored_mono [OF _ le] sv w(2) by simp
          have up: "op_then (index_climb H S ((pfx @ l) @ r) ?anc x) G =
              op_then (index_save H S ((trie_node H (Trie l v ks))\<lparr>rn_children := set_child (map (kid_ref H) ks) (hd r) x\<rparr>) pfx)
                (\<lambda>y. op_then (index_climb H S (pfx @ k) anc y) G)" by (simp add: k)
          show ?thesis
            unfolding up
          proof (rule runs_then [OF put])
            fix y s2
            assume "saved_as H held w y s2" "held s' \<subseteq>\<^sub>m held s2"
            with Trie.prems(6) [of s2 y] le s1 map_le_trans show "runs H S held (op_then (index_climb H S (pfx @ k) anc y) G) s2 Q" by metis
          qed
        qed
        have "runs H S held (op_then (index_descend H S ((pfx @ l) @ r) b (trie_id H u) (Some (hd r)) (length (pfx @ l)) ?anc)
          (\<lambda>d. case d of Unchanged \<Rightarrow> U | Changed r' a \<Rightarrow> op_then (index_climb H S ((pfx @ l) @ r) a r') G)) s1 Q"
          by (rule Trie.IH [OF uo w(1) climb])
        then have goal: "runs H S held (op_then (index_descend H S ((pfx @ l) @ r) b (trie_id H u) (Some (hd r)) (length (pfx @ l)) ?anc) ?F) s1 Q"
          unfolding k append.assoc .
        show ?thesis by (rule runs_step [OF _ s1 goal]) (simp add: long [OF k] rne Some)
      qed
    qed
  qed
qed

section \<open>The update\<close>

lemma update_unchanged:
  assumes "sha_ok H" "empty_safe H" "rooted H (held s) root t" "names_ok names" "t_upd b t (key_of names) = None"
  shows "\<exists>s'. index_update H S root (path_of names) b s = (Ok root, s') \<and> held s' = held s"
proof -
  have t: "t_ok [] t" "root = trie_id H t" "stored H (held s) t" using assms(3) by (auto simp: rooted_def)
  obtain s' where d: "index_descend H S (key_of names) b root None 0 [] s = (Ok Unchanged, s')" "held s' = held s"
    using descend_unchanged [OF assms(1,2) t(1) _ t(3) assms(5), of None "[]"] t(2) by (auto simp: edge_fits_def)
  have "index_update H S root (path_of names) b s = (Ok root, s')"
    using encode_key_names [OF assms(4)]
    by (simp add: index_update_def op_then_Ok [where m = "index_descend H S (key_of names) b root None 0 []" and s = s, OF d(1)])
  with d(2) show ?thesis by blast
qed

lemma update_changed:
  assumes "sha_ok H" "empty_safe H" "rooted H (held s) root t" "names_ok names" "\<And>d. b = Some d \<Longrightarrow> length d = 32"
    and "t_upd b t (key_of names) = Some w"
  shows "runs H S held (index_update H S root (path_of names) b) s
     (\<lambda>root' s'. rooted H (held s') root' (case w of None \<Rightarrow> t_empty | Some u \<Rightarrow> u))"
proof -
  have t: "t_ok [] t" "root = trie_id H t" "stored H (held s) t" using assms(3) by (auto simp: rooted_def)
  have key: "key_ok ([] @ key_of names)" using assms(4) by (auto simp: key_ok_def)
  let ?G = "\<lambda>r. pure_op (Ok (case r of Some d \<Rightarrow> d | None \<Rightarrow> empty_root H)) :: ('s, digest) iop"
  have climb: "runs H S held (op_then (index_climb H S ([] @ key_of names) [] x) ?G) s'
      (\<lambda>root' s'. rooted H (held s') root' (case w of None \<Rightarrow> t_empty | Some u \<Rightarrow> u))"
    if "held s \<subseteq>\<^sub>m held s'" "saved_as H held w x s'" for x s'
    using that(2) t_upd_ok [OF t(1) key assms(5)] assms(6) t_ok_empty
    by (cases w) (auto simp: rooted_def trie_id_empty node_held_def runs_def)
  have "runs H S held (op_then (index_descend H S ([] @ key_of names) b (trie_id H t) None (length ([] :: bytes)) [])
      (\<lambda>d. case d of Unchanged \<Rightarrow> pure_op (Ok root) | Changed r a \<Rightarrow> op_then (index_climb H S ([] @ key_of names) a r) ?G)) s
      (\<lambda>root' s'. rooted H (held s') root' (case w of None \<Rightarrow> t_empty | Some u \<Rightarrow> u))"
    by (rule descend_changed [OF assms(1,2,5) t(1) _ t(3) key assms(6) climb]) (simp_all add: edge_fits_def)
  note eq = this [unfolded append_Nil list.size(3), folded t(2)]
  have "index_update H S root (path_of names) b = op_then (index_descend H S (key_of names) b root None 0 [])
      (\<lambda>d. case d of Unchanged \<Rightarrow> pure_op (Ok root) | Changed r a \<Rightarrow> op_then (index_climb H S (key_of names) a r) ?G)"
    using encode_key_names [OF assms(4)] by (simp add: index_update_def)
  with eq show ?thesis by simp
qed

text \<open>The two cases together: the map is updated, what the store had it keeps, so older roots stay readable.\<close>

lemma update_refines:
  assumes "sha_ok H" "empty_safe H" "rooted H (held s) root t" "names_ok names" "\<And>d. b = Some d \<Longrightarrow> length d = 32"
  shows "runs H S held (index_update H S root (path_of names) b) s
     (\<lambda>root' s'. \<exists>t'. rooted H (held s') root' t' \<and> t_get t' = (t_get t)(key_of names := b))"
proof (cases "t_upd b t (key_of names)")
  case None
  have "t_get t (key_of names) = b" using t_upd_get(1) None assms(3) by (auto simp: rooted_def)
  then have "t_get t = (t_get t)(key_of names := b)" by auto
  moreover obtain s' where "index_update H S root (path_of names) b s = (Ok root, s')" "held s' = held s"
    using update_unchanged [OF assms(1-4) None] by blast
  ultimately show ?thesis using assms(3) by (auto simp: runs_def)
next
  case (Some w)
  let ?t' = "case w of None \<Rightarrow> t_empty | Some u \<Rightarrow> u"
  have "t_get t_empty x = None" for x by (simp add: t_get.simps find_kid_def Let_def)
  then have "t_get ?t' = (t_get t)(key_of names := b)"
    using t_upd_get(2) [of "[]" t, OF _ Some] assms(3) by (cases w) (simp_all add: rooted_def fun_eq_iff)
  note tg = this
  show ?thesis
  proof (rule runs_mono [OF update_changed [OF assms Some]])
    fix x s'
    assume "rooted H (held s') x ?t'"
    with tg show "\<exists>t'. rooted H (held s') x t' \<and> t_get t' = (t_get t)(key_of names := b)" by (intro exI conjI)
  qed
qed

lemma rooted_mono: "rooted H (held s) root t \<Longrightarrow> held s \<subseteq>\<^sub>m held s' \<Longrightarrow> rooted H (held s') root t"
  using stored_mono by (auto simp: rooted_def)

end

end
