(* ===== verification/Radix_Client.thy ===== *)
theory Radix_Client
  imports Radix_Update
begin

text \<open>
  What a client of the index sees: a map from paths to bindings. The theorems speak of \<open>get\<close>,
  \<open>longest_prefix\<close> and \<open>update\<close> on any store that keeps the contract \<open>node_contract\<close>; the trees appear only
  in the invariant \<open>rooted\<close>, which holds of the empty index and is kept by every update. The last part is on
  arbitrary stores, also hostile ones: a forged node is never taken for a node of the tree, and no input makes
  an operation panic.
\<close>

section \<open>When an update changes nothing\<close>

lemma t_upd_Some: "t_ok pfx t \<Longrightarrow> t_upd b t k = Some w \<Longrightarrow> t_get t k \<noteq> b"
proof (induction t arbitrary: pfx k w)
  case (Trie l v ks)
  show ?case
  proof (cases "common_len k l < length l")
    case True
    then have "t_get (Trie l v ks) k = None" using common_len_short by (intro t_get_other) simp
    with True Trie.prems(2) show ?thesis by (auto simp: t_upd_short split: option.splits)
  next
    case False
    then obtain r where k: "k = l @ r" using common_len_full by blast
    show ?thesis
    proof (cases "r \<noteq> [] \<and> find_kid ks (hd r) \<noteq> None")
      case True
      then obtain u where u: "find_kid ks (hd r) = Some u" by auto
      then obtain w' where "t_upd b u r = Some w'" using Trie.prems(2) True k by (auto simp: t_upd_long split: option.splits)
      moreover have "u \<in> set ks" "t_ok (pfx @ l) u" using find_kid_Some [OF u] Trie.prems(1) by auto
      ultimately have "t_get u r \<noteq> b" using Trie.IH by blast
      then show ?thesis using True u k by (simp add: t_get_kids)
    next
      case False
      then show ?thesis using Trie.prems(2) k by (auto simp: t_upd_long t_get_kids split: if_splits option.splits)
    qed
  qed
qed

lemma rooted_empty: "rooted H c (empty_root H) t_empty"
  using t_ok_empty by (simp add: rooted_def trie_id_empty node_held_def del: t_ok.simps)

lemma t_get_empty [simp]: "t_get t_empty k = None"
  by (simp add: t_get.simps find_kid_def Let_def)

lemma names_key: "names_ok names \<Longrightarrow> key_ok (key_of names)"
  by (auto simp: key_ok_def)

lemma key_of_inj: "names_ok a \<Longrightarrow> names_ok b \<Longrightarrow> key_of a = key_of b \<longleftrightarrow> a = b"
  using path_at_key path_of_inj by metis

text \<open>Two trees with the same bindings for all paths are the same tree.\<close>

lemma rooted_canonical:
  assumes "rooted H c root t" "rooted H c' root' t'" "\<And>names. names_ok names \<Longrightarrow> t_get t (key_of names) = t_get t' (key_of names)"
  shows "root = root'"
proof -
  have o: "t_ok [] t" "t_ok [] t'" using assms by (auto simp: rooted_def)
  have "t_get t k = t_get t' k" for k
  proof (cases "key_ok k")
    case True
    with assms(3) show ?thesis by (auto simp: key_ok_def)
  next
    case False
    then have "t_get t k = None" "t_get t' k = None"
      using t_get_Some_key [OF o(1), of k] t_get_Some_key [OF o(2), of k] by (cases "t_get t k"; cases "t_get t' k"; simp)+
    then show ?thesis by simp
  qed
  then have "t = t'" using t_canonical [OF o] by blast
  with assms show ?thesis by (simp add: rooted_def)
qed

section \<open>The index as a map\<close>

context node_contract
begin

lemma get_rooted:
  assumes "sha_ok H" "empty_safe H" "rooted H (held s) root t" "names_ok names"
  shows "\<exists>s'. index_get H S root (path_of names) s = (Ok (t_get t (key_of names)), s') \<and> held s' = held s"
proof -
  have t: "t_ok [] t" "root = trie_id H t" "stored H (held s) t" using assms(3) by (auto simp: rooted_def)
  then obtain s' where w: "index_walk H S root (path_of names) False s = (Ok (map_option (Pair (path_of names)) (t_get t (key_of names))), s')"
      "held s' = held s"
    using index_walk_trie [OF assms(1) t(1) genuine_stored [OF t(3,1) assms(2,1)] assms(4), of False] by auto
  then show ?thesis
    by (simp add: index_get_def op_then_Ok [where m = "index_walk H S root (path_of names) False" and s = s, OF w(1)] option.map_comp comp_def option.map_ident)
qed

lemma longest_rooted:
  assumes "sha_ok H" "empty_safe H" "rooted H (held s) root t" "names_ok names"
  shows "\<exists>s'. index_longest_prefix H S root (path_of names) s = (Ok (longest_bound (\<lambda>ns. t_get t (key_of ns)) names), s') \<and> held s' = held s"
proof -
  have t: "t_ok [] t" "root = trie_id H t" "stored H (held s) t" using assms(3) by (auto simp: rooted_def)
  then show ?thesis
    using index_walk_trie [OF assms(1) t(1) genuine_stored [OF t(3,1) assms(2,1)] assms(4), of True]
    unfolding index_longest_prefix_def by auto
qed

text \<open>On a store that may lack or forge nodes.\<close>

lemma get_genuine:
  assumes "sha_ok H" "t_ok [] t" "genuine H (held s) t" "names_ok names"
  shows "fst (index_get H S (trie_id H t) (path_of names) s) = Ok (t_get t (key_of names))
    \<or> (\<exists>f. fst (index_get H S (trie_id H t) (path_of names) s) = Err f)"
proof -
  let ?v = "map_option (Pair (path_of names)) (t_get t (key_of names))"
  obtain r s' where w: "index_walk H S (trie_id H t) (path_of names) False s = (r, s')" "r = Ok ?v \<or> (\<exists>f. r = Err f)"
    using index_walk_trie [OF assms, of False] by auto
  then show ?thesis by (auto simp: index_get_def op_then_def option.map_comp comp_def option.map_ident)
qed

lemma longest_genuine:
  assumes "sha_ok H" "t_ok [] t" "genuine H (held s) t" "names_ok names"
  shows "fst (index_longest_prefix H S (trie_id H t) (path_of names) s) = Ok (longest_bound (\<lambda>ns. t_get t (key_of ns)) names)
    \<or> (\<exists>f. fst (index_longest_prefix H S (trie_id H t) (path_of names) s) = Err f)"
  using index_walk_trie [OF assms, of True] unfolding index_longest_prefix_def by auto

lemma update_noop:
  assumes "sha_ok H" "empty_safe H" "rooted H (held s) root t" "names_ok names" "t_get t (key_of names) = b"
  shows "\<exists>s'. index_update H S root (path_of names) b s = (Ok root, s') \<and> held s' = held s"
  using update_unchanged [OF assms(1-4)] t_upd_Some [of "[]" t b "key_of names"] assms(3,5)
  by (cases "t_upd b t (key_of names)") (auto simp: rooted_def)

end

text \<open>A sequence of updates, as a client makes them.\<close>

fun index_run :: "hash \<Rightarrow> 's node_store \<Rightarrow> digest \<Rightarrow> (bytes list \<times> digest option) list \<Rightarrow> ('s, digest) iop" where
  "index_run H S root [] = pure_op (Ok root)"
| "index_run H S root ((names, b) # edits) = op_then (index_update H S root (path_of names) b) (\<lambda>root. index_run H S root edits)"

definition edits_ok :: "(bytes list \<times> digest option) list \<Rightarrow> bool" where
  "edits_ok edits \<longleftrightarrow> (\<forall>(names, b) \<in> set edits. names_ok names \<and> (\<forall>d. b = Some d \<longrightarrow> length d = 32))"

fun after :: "(bytes list \<times> digest option) list \<Rightarrow> (bytes list \<Rightarrow> digest option) \<Rightarrow> bytes list \<Rightarrow> digest option" where
  "after [] m = m"
| "after ((names, b) # edits) m = after edits (m(names := b))"

lemma edits_ok_Cons: "edits_ok ((names, b) # edits) \<longleftrightarrow> names_ok names \<and> (\<forall>d. b = Some d \<longrightarrow> length d = 32) \<and> edits_ok edits"
  by (auto simp: edits_ok_def)

lemma after_cong: "(\<And>ns. names_ok ns \<Longrightarrow> m ns = m' ns) \<Longrightarrow> names_ok ns \<Longrightarrow> after edits m ns = after edits m' ns"
proof (induction edits m arbitrary: m' rule: after.induct)
  case (2 names b edits m)
  show ?case unfolding after.simps by (rule 2(1)) (use 2 in auto)
qed simp

context node_contract
begin

lemma run_refines:
  assumes "sha_ok H" "empty_safe H"
  shows "edits_ok edits \<Longrightarrow> rooted H (held s) root t \<Longrightarrow>
    runs H S held (index_run H S root edits) s
      (\<lambda>root' s'. \<exists>t'. rooted H (held s') root' t' \<and> (\<forall>ns. names_ok ns \<longrightarrow> t_get t' (key_of ns) = after edits (\<lambda>ns. t_get t (key_of ns)) ns))"
proof (induction edits arbitrary: root t s)
  case Nil
  then show ?case by (auto simp: runs_def)
next
  case (Cons e edits)
  obtain names b where e: "e = (names, b)" by force
  have p: "names_ok names" "\<And>d. b = Some d \<Longrightarrow> length d = 32" "edits_ok edits" using Cons.prems(1) e by (auto simp: edits_ok_Cons)
  show ?case
    unfolding e index_run.simps
  proof (rule runs_then [OF update_refines [OF assms Cons.prems(2) p(1,2)]])
    fix x s1
    assume "\<exists>t'. rooted H (held s1) x t' \<and> t_get t' = (t_get t)(key_of names := b)"
    then obtain t1 where t1: "rooted H (held s1) x t1" "t_get t1 = (t_get t)(key_of names := b)" by blast
    have eq: "after edits (\<lambda>ns. t_get t1 (key_of ns)) ns = after ((names, b) # edits) (\<lambda>ns. t_get t (key_of ns)) ns" if "names_ok ns" for ns
      unfolding after.simps using that p(1) by (intro after_cong) (auto simp: t1(2) key_of_inj)
    show "runs H S held (index_run H S x edits) s1
      (\<lambda>root' s'. \<exists>t'. rooted H (held s') root' t' \<and> (\<forall>ns. names_ok ns \<longrightarrow> t_get t' (key_of ns) = after ((names, b) # edits) (\<lambda>ns. t_get t (key_of ns)) ns))"
      using Cons.IH [OF p(3) t1(1)] eq by (elim runs_mono) auto
  qed
qed

end

section \<open>Arbitrary stores and arguments\<close>

definition store_clean :: "'s node_store \<Rightarrow> bool" where
  "store_clean S \<longleftrightarrow> (\<forall>nid s. clean (fst (ns_read S nid s))) \<and> (\<forall>nid bs s. clean (fst (ns_insert S nid bs s)))"

abbreviation safe :: "('s, 'a) iop \<Rightarrow> 's \<Rightarrow> bool" where
  "safe m s \<equiv> clean (fst (m s))"

lemma safe_then: "safe m s \<Longrightarrow> (\<And>x s1. m s = (Inr x, s1) \<Longrightarrow> safe (f x) s1) \<Longrightarrow> safe (op_then m f) s"
  by (auto simp: op_then_def clean_def split: prod.splits sum.splits)

lemma safe_pure_then: "clean r \<Longrightarrow> (\<And>x. r = Inr x \<Longrightarrow> safe (f x) s) \<Longrightarrow> safe (op_then (pure_op r) f) s"
  by (rule safe_then) auto

lemma clean_from_codec [simp]: "clean m \<Longrightarrow> clean (from_codec m)"
  by (auto simp: from_codec_def split: sum.splits fault.splits)

lemma from_codec_eq_Inr: "from_codec m = Inr x \<longleftrightarrow> m = Inr x"
  by (auto simp: from_codec_def split: sum.splits fault.splits)

lemma clean_positions [simp]: "clean (joined_key pfx label)" "clean (validate_position pfx node)" "clean (required_id x)"
  by (auto simp: joined_key_def validate_position_def required_id_def ok_or_def intro!: clean_and_then split: option.split)

lemma safe_load: "store_clean S \<Longrightarrow> safe (index_load H S nid e pfx) s"
  unfolding index_load_def by (intro safe_then) (auto simp: store_clean_def intro!: safe_then clean_and_then)

lemma safe_store: "store_clean S \<Longrightarrow> safe (store_node H S pfx node) s"
  unfolding store_node_def by (intro safe_pure_then) (auto simp: store_clean_def Let_def intro!: safe_then)

lemma safe_save: "store_clean S \<Longrightarrow> safe (index_save H S node pfx) s"
  unfolding index_save_def
  by (auto intro!: safe_store safe_then [OF _ safe_store] safe_pure_then safe_then [OF safe_load] clean_at_index)

lemma Nil_eq_sub: "[] = sub a n xs \<longleftrightarrow> n = 0 \<or> length xs \<le> a"
  by (auto simp: sub_def)

lemma safe_split:
  assumes "store_clean S" "offset \<le> length key" "common < length (rn_label node)" "common \<le> length key - offset"
  shows "safe (split_label H S key b node offset common) s"
  unfolding split_label_def Let_def using assms
  by (auto simp: slice_of_eq_Inr Nil_eq_sub intro!: safe_pure_then safe_then [OF safe_save] safe_then [OF _ safe_save] clean_slice_of clean_at_index)

lemma safe_leaf:
  assumes "store_clean S" "offset \<le> length key" "parent_offset \<le> length key"
  shows "safe (add_leaf H S key b node parent_offset offset e) s"
  unfolding add_leaf_def Let_def using assms
  by (auto simp: slice_of_eq_Inr intro!: safe_pure_then safe_then [OF safe_save] safe_save clean_slice_of)


lemma load_label_nonempty: "index_load H S nid (Some e) pfx s = (Inr node, s') \<Longrightarrow> rn_label node \<noteq> []"
  by (auto dest: load_edge simp: get_at_def)

text \<open>The descent never leaves the key, and every ancestor it keeps began inside it.\<close>

definition inside :: "bytes \<Rightarrow> (radix_node \<times> u8 \<times> nat) list \<Rightarrow> bool" where
  "inside key ancestors \<longleftrightarrow> (\<forall>(node, e, offset) \<in> set ancestors. offset \<le> length key)"

lemma safe_descend:
  "store_clean S \<Longrightarrow> offset \<le> length key \<Longrightarrow> inside key ancestors \<Longrightarrow>
     safe (index_descend H S key binding nid edge offset ancestors) s
     \<and> (\<forall>r a s'. index_descend H S key binding nid edge offset ancestors s = (Inr (Changed r a), s') \<longrightarrow> inside key a)"
proof (induction H S key binding nid edge offset ancestors s rule: index_descend.induct)
  case (1 H S key binding nid edge offset ancestors s)
  let ?pfx = "take offset key" and ?rem = "drop offset key"
  have sl: "slice_of key 0 offset = (Ok ?pfx :: bytes ires)" "slice_of key offset (length key) = (Ok ?rem :: bytes ires)"
    using 1(3) by (simp_all add: slice_of_def sub_def)
  show ?case
  proof (cases "index_load H S nid edge ?pfx s")
    case (Pair r s1)
    show ?thesis
    proof (cases r)
      case (Inl e)
      with Pair safe_load [OF 1(2), of H nid edge ?pfx s] show ?thesis
        by (subst (1 2) index_descend.simps) (simp add: sl op_then_def clean_def)
    next
      case (Inr node)
      define c where "c = common_len ?rem (rn_label node)"
      have cb: "c \<le> length (rn_label node)" "c \<le> length key - offset"
        using common_len_bounds [of ?rem "rn_label node"] by (simp_all add: c_def)
      have ai: "at_index key (offset + c) = (Ok (key ! (offset + c)) :: u8 ires)" if "offset + c \<noteq> length key"
        using that cb 1(3) by (simp add: at_index_def)
      note ld = op_then_Ok [where m = "index_load H S nid edge ?pfx" and s = s, OF Pair [unfolded Inr]]
      have step: "index_descend H S key binding nid edge offset ancestors s =
         (if c < length (rn_label node) then
            (case binding of None \<Rightarrow> (Ok Unchanged, s1)
             | Some b \<Rightarrow> op_then (split_label H S key b node offset c) (\<lambda>r. pure_op (Ok (Changed r ancestors))) s1)
          else if offset + c = length key then
            (if rn_binding node = binding then (Ok Unchanged, s1) else
             op_then (index_save H S (node\<lparr>rn_binding := binding\<rparr>) ?pfx) (\<lambda>r. pure_op (Ok (Changed r ancestors))) s1)
          else case find (\<lambda>child. rc_edge child = key ! (offset + c)) (rn_children node) of
              Some child \<Rightarrow> index_descend H S key binding (rc_digest child) (Some (key ! (offset + c))) (offset + c)
                 ((node, key ! (offset + c), offset) # ancestors) s1
            | None \<Rightarrow> (case binding of None \<Rightarrow> (Ok Unchanged, s1)
                | Some b \<Rightarrow> op_then (add_leaf H S key b node offset (offset + c) (key ! (offset + c)))
                    (\<lambda>r. pure_op (Ok (Changed r ancestors))) s1))"
        by (subst index_descend.simps)
          (cases "c < length (rn_label node)"; cases "offset + c = length key"; simp add: sl ld Let_def ai c_def [symmetric] split: option.split)
      have last: "clean (fst (op_then m (\<lambda>r. pure_op (Ok (Changed r ancestors))) s1))
          \<and> (\<forall>r a s'. op_then m (\<lambda>r. pure_op (Ok (Changed r ancestors))) s1 = (Inr (Changed r a), s') \<longrightarrow> inside key a)"
        if "safe m s1" for m
        using that 1(4) by (auto simp: op_then_def clean_def split: prod.splits sum.splits)
      show ?thesis
      proof (cases "c < length (rn_label node)")
        case True
        then show ?thesis using last [OF safe_split [OF 1(2,3) True cb(2)]] unfolding step by (simp split: option.split)
      next
        case full: False
        show ?thesis
        proof (cases "offset + c = length key")
          case True
          then show ?thesis using full last [OF safe_save [OF 1(2)]] unfolding step by simp
        next
          case False
          then have lt: "offset + c \<le> length key" using cb 1(3) by linarith
          show ?thesis
          proof (cases "find (\<lambda>child. rc_edge child = key ! (offset + c)) (rn_children node)")
            case None
            then show ?thesis using full False last [OF safe_leaf [OF 1(2) lt 1(3)]] unfolding step by (simp split: option.split)
          next
            case (Some child)
            have "inside key ((node, key ! (offset + c), offset) # ancestors)" using 1(3,4) by (simp add: inside_def)
            moreover have "pure_op (slice_of key 0 offset) s = (Ok ?pfx :: bytes ires, s)"
              "pure_op (slice_of key offset (length key)) s1 = (Ok ?rem :: bytes ires, s1)" by (simp_all add: sl)
            ultimately show ?thesis
              using 1(1) [OF _ Pair [unfolded Inr] _ c_def full refl refl False Some 1(2) lt] full False Some unfolding step by simp
          qed
        qed
      qed
    qed
  qed
qed


lemma safe_climb: "store_clean S \<Longrightarrow> inside key ancestors \<Longrightarrow> safe (index_climb H S key ancestors r) s"
proof (induction H S key ancestors r arbitrary: s rule: index_climb.induct)
  case (2 H S key parent edge parent_offset ancestors replacement)
  then have "parent_offset \<le> length key" "inside key ancestors" by (auto simp: inside_def)
  then show ?case
    using 2 unfolding index_climb.simps
    by (intro safe_pure_then safe_then [OF safe_save] 2(1)) (auto simp: slice_of_eq_Inr intro: clean_slice_of)
qed simp

lemma safe_update: "store_clean S \<Longrightarrow> safe (index_update H S root path binding) s"
proof -
  assume c: "store_clean S"
  have "safe (op_then (index_descend H S key binding root None 0 []) (\<lambda>d. case d of
        Unchanged \<Rightarrow> pure_op (Ok root)
      | Changed replacement ancestors \<Rightarrow>
          op_then (index_climb H S key ancestors replacement) (\<lambda>replacement.
          pure_op (Ok (case replacement of Some d \<Rightarrow> d | None \<Rightarrow> empty_root H))))) s" for key
  proof (rule safe_then)
    note d = safe_descend [OF c, of 0 key "[]" H binding root None s]
    show "safe (index_descend H S key binding root None 0 []) s" using d by (simp add: inside_def)
    fix x s1
    assume x: "index_descend H S key binding root None 0 [] s = (Inr x, s1)"
    show "safe (case x of Unchanged \<Rightarrow> pure_op (Ok root) | Changed replacement ancestors \<Rightarrow>
          op_then (index_climb H S key ancestors replacement) (\<lambda>replacement.
          pure_op (Ok (case replacement of Some d \<Rightarrow> d | None \<Rightarrow> empty_root H)))) s1"
    proof (cases x)
      case (Changed r a)
      then have "inside key a" using d x by (simp add: inside_def)
      with Changed show ?thesis by (auto intro!: safe_then [OF safe_climb [OF c]])
    qed simp
  qed
  then show ?thesis unfolding index_update_def by (intro safe_pure_then) auto
qed

lemma safe_walk_loop: "store_clean S \<Longrightarrow> offset \<le> length key \<Longrightarrow> safe (walk_loop H S key nid edge offset found) s"
proof (induction H S key nid edge offset found s rule: walk_loop.induct)
  case (1 H S key nid edge offset found s)
  let ?pfx = "take offset key" and ?rem = "drop offset key"
  have sl: "slice_of key 0 offset = (Ok ?pfx :: bytes ires)" "slice_of key offset (length key) = (Ok ?rem :: bytes ires)"
    using 1(3) by (simp_all add: slice_of_def sub_def)
  show ?case
  proof (cases "index_load H S nid edge ?pfx s")
    case (Pair r s1)
    show ?thesis
    proof (cases r)
      case (Inl e)
      with Pair safe_load [OF 1(2), of H nid edge ?pfx s] show ?thesis
        by (subst walk_loop.simps) (simp add: sl op_then_def clean_def)
    next
      case (Inr node)
      note ld = op_then_Ok [where m = "index_load H S nid edge ?pfx" and s = s, OF Pair [unfolded Inr]]
      define off where "off = offset + length (rn_label node)"
      show ?thesis
      proof (cases "starts_with ?rem (rn_label node)")
        case False
        then show ?thesis by (subst walk_loop.simps) (simp add: sl ld)
      next
        case st: True
        then have le: "off \<le> length key"
          using 1(3) by (auto simp: off_def starts_with_iff) (metis length_append length_drop le_add1 le_diff_conv2 add.commute)
        then have sl2: "slice_of key 0 off = (Ok (take off key) :: bytes ires)" by (simp add: slice_of_def sub_def)
        have rest: "safe (if off = length key then pure_op (Ok (True, found)) else
            op_then (pure_op (at_index key off)) (\<lambda>next_edge.
            (case find (\<lambda>c. rc_edge c = next_edge) (rn_children node) of
               None \<Rightarrow> pure_op (Ok (False, found))
             | Some child \<Rightarrow> (\<lambda>s. walk_loop H S key (rc_digest child) (Some next_edge) off found s)))) s1" for found
        proof (cases "off = length key \<or> find (\<lambda>c. rc_edge c = key ! off) (rn_children node) = None")
          case False
          then obtain child where child: "find (\<lambda>c. rc_edge c = key ! off) (rn_children node) = Some child" "off \<noteq> length key" by auto
          have pre: "pure_op (slice_of key 0 offset) s = (Ok ?pfx :: bytes ires, s)"
            "pure_op (slice_of key offset (length key)) s1 = (Ok ?rem :: bytes ires, s1)" by (simp_all add: sl)
          show ?thesis
            using 1(1) [OF pre(1) Pair [unfolded Inr] pre(2) _ off_def child(2,1) 1(2) le] st child le by (simp add: at_index_def)
        qed (use le in \<open>auto simp: at_index_def\<close>)
        show ?thesis
          by (subst walk_loop.simps)
            (use st rest in \<open>auto simp: sl ld Let_def off_def [symmetric] sl2 intro!: safe_then safe_pure_then split: option.split\<close>)
      qed
    qed
  qed
qed

lemma safe_walk: "store_clean S \<Longrightarrow> safe (index_walk H S root path ancestors) s"
  unfolding index_walk_def by (intro safe_pure_then safe_then [OF safe_walk_loop]) (auto split: prod.split)

lemma safe_get: "store_clean S \<Longrightarrow> safe (index_get H S root path) s" "store_clean S \<Longrightarrow> safe (index_longest_prefix H S root path) s"
  unfolding index_get_def index_longest_prefix_def by (auto intro: safe_walk safe_then)

section \<open>The root pins the tree\<close>

text \<open>The encodings of the nodes of a tree, the inputs of the digest.\<close>

fun node_inputs :: "hash \<Rightarrow> trie \<Rightarrow> bytes set" where
  "node_inputs H (Trie l b ks) = insert (node_encode (trie_node H (Trie l b ks))) (\<Union>u\<in>set ks. node_inputs H u)"

lemma node_inputs_root: "node_encode (trie_node H t) \<in> node_inputs H t"
  by (cases t) simp

lemma kids_pinned:
  "map (trie_id H) ks = map (trie_id H) js \<Longrightarrow> (\<And>u v. u \<in> set ks \<Longrightarrow> v \<in> set js \<Longrightarrow> trie_id H u = trie_id H v \<Longrightarrow> u = v) \<Longrightarrow> ks = js"
  by (induction ks js rule: list_induct2') auto

lemma trie_id_inj:
  "sha_ok H \<Longrightarrow> t_ok pfx t \<Longrightarrow> t_ok pfx u \<Longrightarrow> collision_free H (node_inputs H t \<union> node_inputs H u) \<Longrightarrow>
     trie_id H t = trie_id H u \<Longrightarrow> t = u"
proof (induction t arbitrary: pfx u)
  case (Trie l b ks)
  obtain m c js where u: "u = Trie m c js" by (cases u)
  have "node_encode (trie_node H (Trie l b ks)) = node_encode (trie_node H u)"
    using collision_freeD [OF Trie.prems(4)] Trie.prems(5) node_inputs_root by (auto simp: trie_id_eq sha256_def)
  moreover have "node_decode (node_encode (trie_node H x)) = Ok (trie_node H x)" if "t_ok pfx x" for x
    using node_decode_Ok node_wf_trie [OF Trie.prems(1) that] by blast
  ultimately have n: "trie_node H (Trie l b ks) = trie_node H u" using Trie.prems(2,3) by (metis sum.inject(2))
  then have lb: "l = m" "b = c" and kj: "map (kid_ref H) ks = map (kid_ref H) js" using u by (simp_all add: trie_node_eq)
  from arg_cong [OF kj, of "map rc_digest"] have ids: "map (trie_id H) ks = map (trie_id H) js" by (simp add: comp_def)
  have "ks = js"
  proof (rule kids_pinned [OF ids])
    fix x y
    assume xy: "x \<in> set ks" "y \<in> set js" "trie_id H x = trie_id H y"
    have "collision_free H (node_inputs H x \<union> node_inputs H y)"
      using Trie.prems(4) by (rule collision_free_mono) (use xy u in auto)
    with Trie.IH [OF xy(1) Trie.prems(1), of "pfx @ l" y] xy Trie.prems(2,3) u lb show "x = y" by auto
  qed
  with u lb show ?case by simp
qed

section \<open>A sample index\<close>

text \<open>Two bindings, at \<^verbatim>\<open>/a\<close> and \<^verbatim>\<open>/a/b\<close>, in the store of the tests, under a digest that tells the two
  nodes apart by their lengths.\<close>

definition demo_hash :: hash where
  "demo_hash m = (if m = node_encode node_empty then replicate 32 0 else replicate 31 1 @ [of_nat (length m)])"

definition demo_kid :: trie where
  "demo_kid = Trie [0x62, 0] (Some (replicate 32 7)) []"

definition demo_tree :: trie where
  "demo_tree = Trie [0x61, 0] (Some (replicate 32 5)) [demo_kid]"

definition demo_root :: digest where
  "demo_root = trie_id demo_hash demo_tree"

definition demo_store :: memory_store where
  "demo_store = memory_default\<lparr>ms_nodes := Map.empty(trie_id demo_hash demo_kid \<mapsto> node_encode (trie_node demo_hash demo_kid),
     demo_root \<mapsto> node_encode (trie_node demo_hash demo_tree))\<rparr>"

lemma demo_hash_ok [simp]: "sha_ok demo_hash"
  by (simp add: sha_ok_def demo_hash_def)

lemma demo_empty_safe [simp]: "empty_safe demo_hash"
proof -
  have wf: "node_wf node_empty" by (simp add: node_wf_def local_shape_def node_empty_def)
  have "n = node_empty" if n: "node_wf n" "node_id demo_hash n = empty_root demo_hash" for n
  proof -
    have "replicate 31 (1 :: u8) @ x \<noteq> replicate 32 0" for x by (simp add: numeral_eq_Suc)
    then have "node_encode n = node_encode node_empty"
      using n(2) by (auto simp: node_id_def empty_root_def sha256_def demo_hash_def split: if_splits)
    moreover have "node_decode (node_encode n) = Ok n" "node_decode (node_encode node_empty) = Ok node_empty"
      using n(1) wf node_decode_Ok by blast+
    ultimately show ?thesis by simp
  qed
  then show ?thesis by (simp add: empty_safe_def)
qed

lemma demo_names: "names_ok [[0x61]]" "names_ok [[0x61], [0x62]]" "names_ok [[0x63]]" "names_ok []"
  "key_of [[0x61]] = [0x61, 0]" "key_of [[0x61], [0x62]] = [0x61, 0, 0x62, 0]"
  by (simp_all add: names_ok_def canonical_name_def is_utf8_Cons_ascii path_of_def key_of_def slash_def dot_def)

lemma demo_tree_ok: "t_ok [] demo_tree"
proof -
  have "key_ok [0x61, 0]" "key_ok [0x61, 0, 0x62, 0]" using demo_names names_key by metis+
  then show ?thesis by (simp add: demo_tree_def demo_kid_def root_ok_def)
qed

lemma demo_ids: "demo_root \<noteq> trie_id demo_hash demo_kid"
  by (simp add: demo_root_def trie_id_eq sha256_def demo_hash_def node_encode_eq demo_tree_def demo_kid_def trie_node_eq node_empty_def
      radix_child_bytes_def kid_ref_def)

lemma demo_rooted: "rooted demo_hash (ms_nodes demo_store) demo_root demo_tree"
proof -
  have "node_held demo_hash (ms_nodes demo_store) demo_kid" "node_held demo_hash (ms_nodes demo_store) demo_tree"
    using demo_ids by (simp_all add: node_held_def demo_store_def demo_root_def)
  then have "stored demo_hash (ms_nodes demo_store) demo_tree" by (simp add: demo_tree_def demo_kid_def)
  with demo_tree_ok show ?thesis by (simp add: rooted_def demo_root_def)
qed

lemma demo_get: "t_get demo_tree (key_of [[0x61]]) = Some (replicate 32 5)" "t_get demo_tree (key_of [[0x61], [0x62]]) = Some (replicate 32 7)"
  unfolding demo_names by (simp_all add: demo_tree_def demo_kid_def t_get.simps starts_with_def find_kid_def)

section \<open>Properties\<close>

text \<open>C2. An update of an index on any store that keeps the contract of \<open>NodeStore\<close> binds the path, or unbinds it,
  and leaves every other binding as it was; the tree stays in canonical form, the store only gains nodes, so the
  old root and every other root read as before. The update fails only when the store refuses to insert a node
  under its own digest, with the error of the store and in the state that refusal left. When the path is bound as
  wanted already, the same root is returned and nothing is written.\<close>

theorem index_update_exact:
  assumes "node_contract S held" "sha_ok H" "empty_safe H" "rooted H (held s) root t"
    and "names_ok names" "\<forall>d. b = Some d \<longrightarrow> length d = 32"
  shows "(case index_update H S root (path_of names) b s of
       (Inr root', s') \<Rightarrow> held s \<subseteq>\<^sub>m held s' \<and> (\<exists>t'. rooted H (held s') root' t' \<and> t_get t' = (t_get t)(key_of names := b))
     | (Inl f, s') \<Rightarrow> held s \<subseteq>\<^sub>m held s' \<and> insert_failed H S f s')
    \<and> (t_get t (key_of names) = b \<longrightarrow>
       (\<exists>s'. index_update H S root (path_of names) b s = (Ok root, s') \<and> held s' = held s))"
proof -
  have "\<And>d. b = Some d \<Longrightarrow> length d = 32" using assms(6) by blast
  note up = node_contract.update_refines [where b = b, OF assms(1-5) this]
  show ?thesis
    using up node_contract.update_noop [OF assms(1-5), of b] by (auto simp: runs_def split: prod.splits sum.splits)
qed

lemma demo_root_held: "ms_nodes demo_store demo_root = Some (node_encode (trie_node demo_hash demo_tree))"
  by (simp add: demo_store_def)

theorem index_update_exact_witness:
  "case index_update demo_hash memory demo_root (path_of [[0x63]]) (Some (replicate 32 9)) demo_store of
     (Inr root', s') \<Rightarrow> \<exists>t'. rooted demo_hash (ms_nodes s') root' t' \<and> t_get t' (key_of [[0x63]]) = Some (replicate 32 9)
   | (Inl f, s') \<Rightarrow> ms_nodes s' demo_root = ms_nodes demo_store demo_root"
proof -
  have "\<forall>d. Some (replicate 32 9) = Some d \<longrightarrow> length (d :: digest) = 32" by simp
  note up = index_update_exact [OF mem.node_contract_axioms demo_hash_ok demo_empty_safe demo_rooted demo_names(3) this, THEN conjunct1]
  have le: "ms_nodes s' demo_root = ms_nodes demo_store demo_root" if "ms_nodes demo_store \<subseteq>\<^sub>m ms_nodes s'" for s'
    using that domI [of "ms_nodes demo_store", OF demo_root_held] by (metis map_le_def)
  show ?thesis
  proof (cases "index_update demo_hash memory demo_root (path_of [[0x63]]) (Some (replicate 32 9)) demo_store")
    case (Pair r s')
    then show ?thesis
    proof (cases r)
      case (Inl f)
      then have "ms_nodes demo_store \<subseteq>\<^sub>m ms_nodes s'" using up Pair by simp
      then show ?thesis using le Inl Pair by simp
    next
      case (Inr root')
      then obtain t' where "rooted demo_hash (ms_nodes s') root' t'" "t_get t' = (t_get demo_tree)(key_of [[0x63]] := Some (replicate 32 9))"
        using up Pair by auto
      then have "\<exists>t'. rooted demo_hash (ms_nodes s') root' t' \<and> t_get t' (key_of [[0x63]]) = Some (replicate 32 9)"
        by (intro exI [of _ t']) simp
      then show ?thesis using Pair Inr by simp
    qed
  qed
qed

text \<open>C6. Reading an index: \<open>get\<close> returns the binding of the path, \<open>longest_prefix\<close> the longest ancestor that is
  bound, by whole names and not by bytes, with its binding. Both return \<open>None\<close> only when there is none, never
  fail, and leave the contents of the store alone.\<close>

theorem index_reads_exact:
  assumes "node_contract S held" "sha_ok H" "empty_safe H" "rooted H (held s) root t" "names_ok names"
  shows "(\<exists>s'. index_get H S root (path_of names) s = (Ok (t_get t (key_of names)), s') \<and> held s' = held s)
    \<and> (\<exists>s'. index_longest_prefix H S root (path_of names) s = (Ok (longest_bound (\<lambda>ns. t_get t (key_of ns)) names), s') \<and> held s' = held s)"
  using node_contract.get_rooted [OF assms] node_contract.longest_rooted [OF assms] by blast

theorem index_reads_exact_witness:
  "fst (index_get demo_hash memory demo_root (path_of [[0x61], [0x62]]) demo_store) = Ok (Some (replicate 32 7))"
  using index_reads_exact [OF mem.node_contract_axioms demo_hash_ok demo_empty_safe demo_rooted demo_names(2)] demo_get by auto

text \<open>C8. The index does not depend on its history: two sequences of updates from the empty index end in the same
  root exactly when they leave the same bindings, in whatever order they were made and whatever was bound and
  unbound on the way.\<close>

theorem index_history_independent:
  assumes "node_contract S held" "sha_ok H" "empty_safe H" "edits_ok es" "edits_ok fs"
    and "index_run H S (empty_root H) es s = (Ok root, s1)" "index_run H S (empty_root H) fs s1 = (Ok root', s2)"
  shows "root = root' \<longleftrightarrow> (\<forall>ns. names_ok ns \<longrightarrow> after es (\<lambda>_. None) ns = after fs (\<lambda>_. None) ns)"
proof -
  obtain t where t: "rooted H (held s1) root t" "\<And>ns. names_ok ns \<Longrightarrow> t_get t (key_of ns) = after es (\<lambda>_. None) ns"
    using node_contract.run_refines [OF assms(1-4) rooted_empty, of s] assms(6) by (auto simp: runs_def)
  obtain u where u: "rooted H (held s2) root' u" "\<And>ns. names_ok ns \<Longrightarrow> t_get u (key_of ns) = after fs (\<lambda>_. None) ns"
    and le: "held s1 \<subseteq>\<^sub>m held s2"
    using node_contract.run_refines [OF assms(1-3,5) rooted_empty, of s1] assms(7) by (auto simp: runs_def)
  have t2: "rooted H (held s2) root t" by (rule node_contract.rooted_mono [OF assms(1) t(1) le])
  show ?thesis
  proof
    assume "root = root'"
    then have "t_get t (key_of ns) = t_get u (key_of ns)" if "names_ok ns" for ns
      using node_contract.get_rooted [OF assms(1-3) t2 that] node_contract.get_rooted [OF assms(1-3) u(1) that] by auto
    then show "\<forall>ns. names_ok ns \<longrightarrow> after es (\<lambda>_. None) ns = after fs (\<lambda>_. None) ns" using t(2) u(2) by metis
  next
    assume "\<forall>ns. names_ok ns \<longrightarrow> after es (\<lambda>_. None) ns = after fs (\<lambda>_. None) ns"
    then show "root = root'" using t(2) u(2) by (intro rooted_canonical [OF t2 u(1)]) metis
  qed
qed

lemma demo_bind:
  assumes "ms_fail_write_at s = None" "ms_nodes s (trie_id demo_hash (t_leaf [] d)) \<in> {None, Some (node_encode (trie_node demo_hash (t_leaf [] d)))}"
    and "length d = 32"
  shows "index_update demo_hash memory (empty_root demo_hash) (path_of []) (Some d) s =
    (Ok (trie_id demo_hash (t_leaf [] d)), s\<lparr>ms_writes := ms_writes s + 1,
       ms_nodes := (ms_nodes s)(trie_id demo_hash (t_leaf [] d) \<mapsto> node_encode (trie_node demo_hash (t_leaf [] d))),
       ms_written := insert (trie_id demo_hash (t_leaf [] d)) (ms_written s)\<rparr>)"
proof -
  let ?n = "trie_node demo_hash (t_leaf [] d)"
  have n: "?n = \<lparr>rn_label = [], rn_binding = Some d, rn_children = []\<rparr>" by (simp add: t_leaf_def trie_node_eq)
  have ok: "t_ok [] (t_leaf [] d)" using t_ok_leaf [of "[]" "[]" d] names_key [OF demo_names(4)] assms(3) by (simp add: key_of_def)
  have wf: "node_new [] (Some d) [] = Ok ?n" using node_wf_trie [OF demo_hash_ok ok] by (simp add: node_new_Ok node_wf_def n)
  have vp: "validate_position [] ?n = Ok ()" "validate_position [] node_empty = Ok ()"
    using validate_position_trie [OF ok, of demo_hash] validate_position_trie [OF t_ok_empty, of demo_hash] by (simp_all add: trie_node_empty)
  have ek: "encode_key (path_of []) = Ok []" using encode_key_names [OF demo_names(4)] by (simp add: key_of_def)
  have e: "slice_of [] 0 0 = (Ok [] :: bytes ires)" by (simp add: slice_of_def)
  have up: "node_empty\<lparr>rn_binding := Some d\<rparr> = ?n" by (simp add: node_empty_def n)
  have ins: "ns_insert memory (trie_id demo_hash (t_leaf [] d)) (node_encode ?n) s = (Ok (), s\<lparr>ms_writes := ms_writes s + 1,
       ms_nodes := (ms_nodes s)(trie_id demo_hash (t_leaf [] d) \<mapsto> node_encode ?n),
       ms_written := insert (trie_id demo_hash (t_leaf [] d)) (ms_written s)\<rparr>)"
    using assms(1,2) by (auto simp: memory_def memory_insert_def Let_def)
  have load: "index_load demo_hash memory (empty_root demo_hash) None [] s = (Ok node_empty, s)"
    by (simp add: index_load_def wrong_edge_def vp)
  have st: "index_save demo_hash memory ?n [] = op_then (ns_insert memory (trie_id demo_hash (t_leaf [] d)) (node_encode ?n))
      (\<lambda>_. pure_op (Ok (Some (trie_id demo_hash (t_leaf [] d)))))"
  proof -
    have new: "node_new (rn_label ?n) (rn_binding ?n) (rn_children ?n) = Ok ?n" using wf by (simp add: t_leaf_def)
    have "index_save demo_hash memory ?n [] = store_node demo_hash memory [] ?n" by (simp add: index_save_def t_leaf_def)
    then show ?thesis unfolding store_node_def new vp(1) by (simp add: Let_def trie_id_eq)
  qed
  let ?z = "s\<lparr>ms_writes := ms_writes s + 1,
       ms_nodes := (ms_nodes s)(trie_id demo_hash (t_leaf [] d) \<mapsto> node_encode ?n),
       ms_written := insert (trie_id demo_hash (t_leaf [] d)) (ms_written s)\<rparr>"
  have ds: "index_descend demo_hash memory [] (Some d) (empty_root demo_hash) None 0 [] s =
      (Ok (Changed (Some (trie_id demo_hash (t_leaf [] d))) []), ?z)"
    by (subst index_descend.simps)
      (simp add: e op_then_Ok [where m = "index_load demo_hash memory (empty_root demo_hash) None []" and s = s, OF load]
        up st op_then_Ok [where m = "ns_insert memory (trie_id demo_hash (t_leaf [] d)) (node_encode ?n)" and s = s, OF ins],
       simp add: node_empty_def up [unfolded node_empty_def] st
         op_then_Ok [where m = "ns_insert memory (trie_id demo_hash (t_leaf [] d)) (node_encode ?n)" and s = s, OF ins])
  show ?thesis
    unfolding index_update_def ek
    by (simp add: op_then_Ok [where m = "index_descend demo_hash memory [] (Some d) (empty_root demo_hash) None 0 []" and s = s, OF ds])
qed

text \<open>C16. Against a store that lacks nodes, alters them or answers with others, a read of an honest root returns
  the binding of the tree or an error, as long as the store has no second preimage of the digest of a node of the
  tree.\<close>

theorem index_reads_authentic:
  assumes "node_contract S held" "sha_ok H" "t_ok [] t" "genuine H (held s) t" "names_ok names"
  shows "(fst (index_get H S (trie_id H t) (path_of names) s) = Ok v \<longrightarrow> v = t_get t (key_of names))
    \<and> (fst (index_longest_prefix H S (trie_id H t) (path_of names) s) = Ok w \<longrightarrow> w = longest_bound (\<lambda>ns. t_get t (key_of ns)) names)"
  using node_contract.get_genuine [OF assms] node_contract.longest_genuine [OF assms] by auto

text \<open>C27. No input makes the index panic or loop: whatever the root, the path and the binding are and whatever
  bytes the store returns, every operation ends in a value or an error.\<close>

theorem index_total:
  assumes "store_clean S"
  shows "clean (fst (index_get H S root path s)) \<and> clean (fst (index_longest_prefix H S root path s))
    \<and> clean (fst (index_update H S root path b s))"
  using safe_get [OF assms] safe_update [OF assms] by blast


text \<open>Witnesses of the three properties: two histories on the store of the tests, a store with a node missing, and
  the store of the tests for the last.\<close>

lemma memory_clean: "store_clean memory"
  by (auto simp: store_clean_def memory_def memory_read_def memory_insert_def Let_def ok_or_def split: option.split)

theorem index_total_witness: "clean (fst (index_update demo_hash memory (replicate 32 3) [slash, slash] None memory_default))"
  using index_total [OF memory_clean] by blast

theorem index_history_independent_witness:
  "\<exists>root s1 s2. index_run demo_hash memory (empty_root demo_hash) [([], Some (replicate 32 9))] memory_default = (Ok root, s1)
     \<and> index_run demo_hash memory (empty_root demo_hash) [([], None)] s1 = (Ok (empty_root demo_hash), s2)
     \<and> root \<noteq> empty_root demo_hash"
proof -
  let ?d = "replicate 32 9 :: digest"
  let ?es = "[([], Some ?d)] :: (bytes list \<times> digest option) list" and ?fs = "[([], None)] :: (bytes list \<times> digest option) list"
  have ok: "edits_ok ?es" "edits_ok ?fs" using demo_names(4) by (simp_all add: edits_ok_def)
  obtain s1 where "index_update demo_hash memory (empty_root demo_hash) (path_of []) (Some ?d) memory_default = (Ok (trie_id demo_hash (t_leaf [] ?d)), s1)"
    using demo_bind [of memory_default ?d] by (simp add: memory_default_def)
  then have r1: "index_run demo_hash memory (empty_root demo_hash) ?es memory_default = (Ok (trie_id demo_hash (t_leaf [] ?d)), s1)"
    by (simp add: op_then_def)
  obtain s2 where "index_update demo_hash memory (empty_root demo_hash) (path_of []) None s1 = (Ok (empty_root demo_hash), s2)"
    using mem.update_noop [OF demo_hash_ok demo_empty_safe rooted_empty demo_names(4), of None s1] by auto
  then have r2: "index_run demo_hash memory (empty_root demo_hash) ?fs s1 = (Ok (empty_root demo_hash), s2)"
    by (simp add: op_then_def)
  have "\<not> (\<forall>ns. names_ok ns \<longrightarrow> after ?es (\<lambda>_. None) ns = after ?fs (\<lambda>_. None) ns)" using demo_names(4) by auto
  with index_history_independent [OF mem.node_contract_axioms demo_hash_ok demo_empty_safe ok r1 r2] r1 r2 show ?thesis by blast
qed

theorem index_reads_authentic_witness:
  "\<exists>s. ms_nodes s demo_root = None \<and> (\<forall>v. fst (index_get demo_hash memory demo_root (path_of [[0x61]]) s) = Ok v \<longrightarrow> v = Some (replicate 32 5))"
proof -
  let ?s = "demo_store\<lparr>ms_nodes := Map.empty(trie_id demo_hash demo_kid \<mapsto> node_encode (trie_node demo_hash demo_kid))\<rparr>"
  have e: "trie_id demo_hash t \<noteq> empty_root demo_hash" if "t_ok [] t \<or> t_ok [0x61, 0] t" "t \<noteq> t_empty" for t
    using that empty_safeD [OF demo_empty_safe demo_hash_ok] by blast
  have "t_ok [0x61, 0] demo_kid" using demo_tree_ok by (simp add: demo_tree_def)
  then have "node_genuine demo_hash (ms_nodes ?s) demo_kid" "node_genuine demo_hash (ms_nodes ?s) demo_tree"
    using e [of demo_kid] e [of demo_tree] demo_tree_ok demo_ids
    by (auto simp: node_genuine_def demo_root_def)
  then have "genuine demo_hash (ms_nodes ?s) demo_tree" by (simp add: demo_tree_def demo_kid_def)
  from index_reads_authentic [OF mem.node_contract_axioms demo_hash_ok demo_tree_ok this demo_names(1)]
  have "\<forall>v. fst (index_get demo_hash memory demo_root (path_of [[0x61]]) ?s) = Ok v \<longrightarrow> v = Some (replicate 32 5)"
    using demo_get(1) unfolding demo_root_def by blast
  moreover have "ms_nodes ?s demo_root = None" using demo_ids by simp
  ultimately show ?thesis by blast
qed

end
