(* ===== verification/Readme_Example.thy ===== *)
theory Readme_Example
  imports Metapage_Build Tree_Stream Chunkmap
begin

text \<open>
  \<^verbatim>\<open>examples/readme_examples.rs\<close>: the snippets of the README as one program that calls the page builder, the
  frame encoders, the stream parser and the Merkle proofs one after the other. A \<open>?\<close> is a bind, an \<open>assert!\<close>
  that fails is \<open>Crash\<close>. The property is that the program runs to its end, whatever the digest computes.
\<close>

section \<open>The program\<close>

definition ensure :: "bool \<Rightarrow> unit res" where
  "ensure b = (if b then Ok () else Crash)"

definition readme_entries :: "entry list res" where
  "readme_entries =
     and_then (entry_file Regular (ascii ''README.md'') 23 (replicate 32 7)) (\<lambda>readme.
     Ok [readme, entry_dir (ascii ''src'') (replicate 32 9)])"

definition readme_page :: "hash \<Rightarrow> bytes res" where
  "readme_page H =
     and_then readme_entries (\<lambda>entries.
     and_then (page_build H entries) (\<lambda>bytes.
     and_then (page_decode bytes) (\<lambda>(page, total).
     and_then (page_encode page) (\<lambda>encoded.
     and_then (ensure (encoded = bytes)) (\<lambda>_.
     and_then (total_entries page) (\<lambda>count.
     and_then (ensure (count = total)) (\<lambda>_. Ok bytes)))))))"

definition readme_stream :: "hash \<Rightarrow> 's zstd_lib option \<Rightarrow> bytes \<Rightarrow> unit res" where
  "readme_stream H feat bytes =
     (let stream_id = 1 in
      and_then (meta_encode H \<lparr>mp_pages = [(page_id H bytes, bytes)]\<rparr> stream_id 0) (\<lambda>stream.
      let stream = stream @ end_encode H
            \<lparr>ep_request_item_count = 1, ep_unique_unit_count = 1, ep_logical_bytes = of_nat (length bytes),
             ep_request_body_sha256 = replicate 32 0\<rparr> stream_id 1 in
      and_then (parse_stream H feat stream) (\<lambda>frames.
      ensure (frames \<noteq> [] \<and> (case last frames of Frame_End _ \<Rightarrow> True | _ \<Rightarrow> False)))))"

definition readme_leaves :: "digest list" where
  "readme_leaves = map (\<lambda>i. replicate 32 (of_nat i)) [0..<600]"

definition readme_proof :: "hash \<Rightarrow> unit res" where
  "readme_proof H =
     and_then (merkle_root H readme_leaves) (\<lambda>root.
     and_then (leaf_proof H readme_leaves 42) (\<lambda>proof.
     and_then (at_index readme_leaves 42) (\<lambda>leaf.
     verify_leaf H 600 42 leaf proof root)))"

definition readme_main :: "hash \<Rightarrow> 's zstd_lib option \<Rightarrow> unit res" where
  "readme_main H feat =
     and_then (readme_page H) (\<lambda>bytes.
     and_then (readme_stream H feat bytes) (\<lambda>_. readme_proof H))"

section \<open>It runs to its end\<close>

definition readme_dir :: "entry list" where
  "readme_dir =
     [\<lparr>e_kind = Regular, e_name = ascii ''README.md'', e_size = 23, e_content_id = replicate 32 7, e_child_root = replicate 32 0\<rparr>,
      \<lparr>e_kind = Directory, e_name = ascii ''src'', e_size = 0, e_content_id = replicate 32 0, e_child_root = replicate 32 9\<rparr>]"

lemma readme_dir_page:
  "dir_ok readme_dir" "page_wf (Leaf readme_dir)" "page_valid (Leaf readme_dir)" "page_total (Leaf readme_dir) = 2"
proof -
  have "is_ok (page_encode (Leaf readme_dir))" by code_simp
  then show v: "page_valid (Leaf readme_dir)" using page_encode_Ok by (auto simp: is_ok_iff)
  then show "dir_ok readme_dir"
    by (auto simp: readme_dir_def dir_ok_def page_valid_def page_shape_ok_def ascii_def)
  show "page_wf (Leaf readme_dir)" by (simp add: page_wf_def readme_dir_def entry_wf_def is_dir_def)
  show "page_total (Leaf readme_dir) = 2" by (simp add: page_total_def readme_dir_def)
qed

lemma readme_page_Ok: "readme_page H = Ok (page_bytes (Leaf readme_dir))"
proof -
  have a: "readme_entries = Ok readme_dir" by (simp add: readme_entries_def entry_file_def entry_dir_def readme_dir_def)
  have b: "total_entries (Leaf readme_dir) = Ok 2" using total_entries_Ok [of "Leaf readme_dir"] readme_dir_page(4) by simp
  have c: "page_encode (Leaf readme_dir) = Ok (page_bytes (Leaf readme_dir))" using page_encode_Ok readme_dir_page(3) by blast
  have d: "page_decode (page_bytes (Leaf readme_dir)) = Ok (Leaf readme_dir, 2)"
    using page_decode_bytes [OF readme_dir_page(2,3)] readme_dir_page(4) by simp
  have e: "page_build H readme_dir = Ok (page_bytes (Leaf readme_dir))" by (rule page_build_leaf [OF readme_dir_page(1,3)])
  show ?thesis by (simp add: readme_page_def a b c d e ensure_def)
qed

text \<open>A META frame of one page and the END frame behind it are a stream, for any page that fits.\<close>

lemma readme_stream_Ok:
  assumes "sha_ok H" "feat_ok feat" "length bytes \<le> 16384"
  shows "readme_stream H feat bytes = Ok ()"
proof -
  let ?m = "\<lparr>mp_pages = [(page_id H bytes, bytes)]\<rparr>"
  let ?e = "\<lparr>ep_request_item_count = 1, ep_unique_unit_count = 1, ep_logical_bytes = of_nat (length bytes),
             ep_request_body_sha256 = replicate 32 0\<rparr>"
  have "length (meta_raw ?m) \<le> 1048576" using assms by (simp add: meta_raw_def page_row_def page_id_def)
  with assms have "\<forall>f\<in>set [Frame_Meta ?m, Frame_End ?e]. frame_wf H f"
    by (simp add: meta_wf_def end_wf_def page_id_def)
  from encode_stream_frames [OF assms(1) _ this, of 1 0 feat] obtain b
    where b: "encode_stream H 1 0 [Frame_Meta ?m, Frame_End ?e] = Ok b" "frames_at H feat 1 0 [Frame_Meta ?m, Frame_End ?e] b"
    by auto
  then obtain s where s: "meta_encode H ?m 1 0 = Ok s" "b = s @ end_encode H ?e 1 1"
    by (auto simp: and_then_eq_Inr)
  have "valid_stream H feat [Frame_Meta ?m, Frame_End ?e] b"
    using b(2) by (auto simp: valid_stream_def stream_shape_def)
  from parse_stream_complete [OF assms(1,2) this] have "parse_stream H feat b = Ok [Frame_Meta ?m, Frame_End ?e]" by simp
  then show ?thesis by (simp add: readme_stream_def s ensure_def Let_def)
qed

lemma readme_proof_Ok: "readme_proof H = Ok ()"
proof -
  have l: "length readme_leaves = 600" "readme_leaves \<noteq> []" by (simp_all add: readme_leaves_def)
  have "leaf_proof H readme_leaves 42 = Ok (rev (path_spec H readme_leaves 42))" using leaf_proof_spec [of 42 readme_leaves H] l by simp
  moreover have "verify_leaf H 600 42 (readme_leaves ! 42) (rev (path_spec H readme_leaves 42)) (merkle_spec H readme_leaves) = Ok ()"
    using own_proof_verifies [of 42 readme_leaves H] l by simp
  ultimately show ?thesis using l by (simp add: readme_proof_def merkle_root_spec at_index_def)
qed

text \<open>C40. The program of the README runs to its end: the page it builds decodes and encodes to the same bytes with
  the announced total, the stream it assembles is parsed and ends in an END frame, and the proof for leaf 42 of
  600 verifies; no call fails and no assertion is violated, whatever 32-byte digest is used.\<close>

theorem readme_main_ok:
  assumes "sha_ok H" "feat_ok feat"
  shows "readme_main H feat = Ok ()"
proof -
  have "length (page_bytes (Leaf readme_dir)) \<le> 16384" using readme_dir_page(3) by (simp add: page_valid_def)
  then show ?thesis using assms by (simp add: readme_main_def readme_page_Ok readme_stream_Ok readme_proof_Ok)
qed

theorem readme_main_ok_witness: "readme_main zero_hash (Some stored_zstd) = Ok ()"
  by (rule readme_main_ok) simp_all

end
