(* ===== verification/Page_Transfer.thy ===== *)
theory Page_Transfer
  imports Metapage_Build Tree_Stream
begin

text \<open>
  Pages on the way from a server to a client: what \<open>Page::build\<close> makes travels in META frames through the encoders
  and \<open>parse_stream\<close>. The first property is about honest peers, the second about a client that reads a stream
  from anyone and knows the digests it asked for. The composition models no function of the crate; a server and
  a client make these calls.
\<close>

section \<open>The pages of a built directory\<close>

lemma built_decodes:
  assumes "sha_ok H"
  shows "built H es q \<Longrightarrow> dir_ok es \<Longrightarrow> \<forall>e\<in>set es. entry_wf e \<Longrightarrow> length es < 2 ^ 63 \<Longrightarrow>
    \<exists>p. page_wf p \<and> page_valid p \<and> q = page_bytes p"
proof (induction rule: built.induct)
  case (root es b)
  from assms root(1,3,4) show ?case by (cases rule: page_build_cases) auto
next
  case (child es p t gs l g b)
  have "\<not> page_valid (Leaf es)" using child.hyps(1) by (auto simp: leaf_attempt_eq split: if_splits)
  note two = not_leaf_two [OF child.prems(1,2) this]
  have "split_ok es p t gs"
    using build_split_Ok [OF two(1)] child.prems(1) child.hyps(2) by (auto simp: dir_ok_def)
  note g = group_props [OF this child.prems(1) child.hyps(3)]
  have "dir_ok g" "\<forall>e\<in>set g. entry_wf e" "length g < 2 ^ 63" using g child.prems(2,3) by auto
  then show ?case by (rule child.IH)
qed

definition page_frame :: "hash \<Rightarrow> bytes \<Rightarrow> frame" where
  "page_frame H q = Frame_Meta \<lparr>mp_pages = [(page_id H q, q)]\<rparr>"

lemma page_frame_wf: "sha_ok H \<Longrightarrow> length q \<le> 16384 \<Longrightarrow> frame_wf H (page_frame H q)"
  by (simp add: page_frame_def meta_wf_def meta_raw_def page_row_def page_id_def)

lemma parse_stream_payloads:
  assumes "sha_ok H" "feat_ok feat" "length buf < 2 ^ 64" "parse_stream H feat buf = Ok fs" "f \<in> set fs"
  shows "\<exists>raw. frame_payload H f raw"
proof -
  have "f \<in> set fs \<Longrightarrow> \<exists>raw. frame_payload H f raw" if "frames_at H feat sid n fs b" for sid n b
    using that by (induction rule: frames_at.induct) (auto simp: wire_frame_def)
  then show ?thesis using assms parse_stream_Ok [OF assms(1-3)] by (auto simp: valid_stream_def)
qed

section \<open>Properties\<close>

text \<open>C10. A directory travels: the pages built for it, any of them in any order, each in a META frame and all
  followed by END, make a stream that the receiver parses to exactly these frames, and every page decodes.\<close>

theorem directory_transfer:
  assumes "sha_ok H" "feat_ok feat" "\<forall>e\<in>set es. entry_wf e" "length es < 2 ^ 63" "\<forall>q\<in>set qs. built H es q"
    and "length qs < 2 ^ 63" "end_wf ep" "sid \<noteq> 0" "page_build H es = Ok root"
  shows "\<exists>b. encode_stream H sid 0 (map (page_frame H) qs @ [Frame_End ep]) = Ok b
    \<and> parse_stream H feat b = Ok (map (page_frame H) qs @ [Frame_End ep])
    \<and> (\<forall>q\<in>set qs. \<exists>p n. page_decode q = Ok (p, n) \<and> page_encode p = Ok q)"
proof -
  let ?fs = "map (page_frame H) qs @ [Frame_End ep]"
  have pg: "\<exists>p. page_wf p \<and> page_valid p \<and> q = page_bytes p" if "q \<in> set qs" for q
    using built_decodes [OF assms(1) _ page_build_dir_ok [OF assms(9)] assms(3,4)] assms(5) that by blast
  have wf: "\<forall>f\<in>set ?fs. frame_wf H f" using pg assms(1,7) by (force simp: page_valid_def intro!: page_frame_wf)
  obtain b where b: "encode_stream H sid 0 ?fs = Ok b" "frames_at H feat sid 0 ?fs b"
    using encode_stream_frames [OF assms(1,8) wf] by blast
  have "stream_shape ?fs" by (auto simp: stream_shape_def page_frame_def)
  then have "parse_stream H feat b = Ok ?fs"
    using parse_stream_complete [OF assms(1,2), of ?fs b] b(2) assms(6) by (auto simp: valid_stream_def)
  moreover have "\<exists>p n. page_decode q = Ok (p, n) \<and> page_encode p = Ok q" if "q \<in> set qs" for q
    using pg [OF that] page_decode_bytes page_encode_Ok by blast
  ultimately show ?thesis using b(1) by blast
qed

theorem directory_transfer_witness:
  "\<exists>H q b. page_build H sample_dir = Ok q \<and> encode_stream H 3 0 (map (page_frame H) [q, q] @ [sample_end]) = Ok b
     \<and> parse_stream H (Some stored_zstd) b = Ok (map (page_frame H) [q, q] @ [sample_end])"
proof -
  obtain H q where H: "sha_ok H" "page_build H sample_dir = Ok q" by (rule sample_dir_built)
  obtain ep where e: "sample_end = Frame_End ep" "end_wf ep" using sample_end_wf by (auto simp: sample_end_def)
  have "\<forall>x\<in>set [q, q]. built H sample_dir x" using H(2) by (auto intro: built.root)
  from directory_transfer [OF H(1) feat_ok_samples(2) sample_dir_facts(2) _ this _ e(2) _ H(2), of 3] H(2) e(1)
  show ?thesis by (auto simp: sample_dir_facts(1))
qed

text \<open>C12. What a client takes from a stream is what it asked for, whoever sent it: a page delivered under the id of
  a page is that page, and an object delivered under the digest of a content is that content, unless the two
  collide under the digest.\<close>

theorem delivered_authentic:
  assumes "sha_ok H" "feat_ok feat" "length buf < 2 ^ 64" "parse_stream H feat buf = Ok fs"
  shows "(Frame_Meta m \<in> set fs \<and> (page_id H q, page) \<in> set (mp_pages m) \<and> no_page_collision H {q, page} \<longrightarrow> page = q)
    \<and> (Frame_Object ob \<in> set fs \<and> (sha256 H [content], data) \<in> set (op_objects ob) \<and> collision_free H {content, data}
         \<longrightarrow> data = content)"
proof -
  have m: "meta_wf H m" if "Frame_Meta m \<in> set fs" using parse_stream_payloads [OF assms that] by auto
  have o: "object_wf H ob" if "Frame_Object ob \<in> set fs" using parse_stream_payloads [OF assms that] by auto
  have "page = q" if "Frame_Meta m \<in> set fs" "(page_id H q, page) \<in> set (mp_pages m)" "no_page_collision H {q, page}"
  proof -
    have "page_id H q = page_id H page" using m [OF that(1)] that(2) by (auto simp: meta_wf_def list_all_iff)
    then show ?thesis using no_page_collisionD [OF that(3), of q page] by simp
  qed
  moreover have "data = content" if "Frame_Object ob \<in> set fs" "(sha256 H [content], data) \<in> set (op_objects ob)" "collision_free H {content, data}"
  proof -
    have "sha256 H [content] = sha256 H [data]" using o [OF that(1)] that(2) by (auto simp: object_wf_def list_all_iff)
    then show ?thesis using collision_freeD [OF that(3), of content data] by (simp add: sha256_def)
  qed
  ultimately show ?thesis by blast
qed

theorem delivered_authentic_witness:
  "\<exists>b. parse_stream zero_hash (None :: unit zstd_lib option) b = Ok [sample_object, sample_end]
     \<and> (\<forall>data. (sha256 zero_hash [[1, 2, 3]], data) \<in> set [(replicate 32 0, [1, 2, 3])] \<and> collision_free zero_hash {[1, 2, 3], data}
         \<longrightarrow> data = [1, 2, 3])"
proof -
  obtain b where b: "frames_at zero_hash (None :: unit zstd_lib option) 9 0 [sample_object, sample_end] b" "length b = 223"
    by (rule sample_stream)
  then have p: "parse_stream zero_hash (None :: unit zstd_lib option) b = Ok [sample_object, sample_end]"
    using sample_shape by (intro parse_stream_complete) (auto simp: valid_stream_def)
  have "length b < 2 ^ 64" using b(2) by simp
  note d = delivered_authentic [OF zero_hash_ok feat_ok_samples(1) this p, THEN conjunct2,
      of "\<lparr>op_objects = [(replicate 32 0, [1, 2, 3])]\<rparr>" "[1, 2, 3]"]
  show ?thesis using p d by (intro exI [of _ b]) (simp add: sample_object_def)
qed

end
