(* ===== verification/Test_Lib.thy ===== *)
theory Test_Lib
  imports Codec_Lib
begin

text \<open>
  The vocabulary of the unit tests of the repository. A test is a function without arguments that panics when an
  assertion fails; here it is a truth value, true when the test runs to its end. An \<open>unwrap()\<close> whose value the rest
  of the test uses is \<open>unwrapped\<close>, \<open>is_err()\<close> is \<open>is_err\<close>, which is false of a panic, and a \<open>matches!\<close> on an error
  is an equality or a case distinction. What the tests do to a buffer are updates of a list.

  The theorems that the tests pass check the model against the expectations of the authors of the code. The digest
  stays a parameter: what a test says of SHA-256, that two inputs do not collide, is a hypothesis.
\<close>

definition unwrapped :: "('e, 'a) outcome \<Rightarrow> ('a \<Rightarrow> bool) \<Rightarrow> bool" where
  "unwrapped m rest = (case m of Inr x \<Rightarrow> rest x | Inl _ \<Rightarrow> False)"

definition is_err :: "('e, 'a) outcome \<Rightarrow> bool" where
  "is_err m = (case m of Inl (Fail e) \<Rightarrow> True | _ \<Rightarrow> False)"

text \<open>\<open>buf[off..].copy_from_slice(bs)\<close>\<close>

definition put_slice :: "nat \<Rightarrow> bytes \<Rightarrow> bytes \<Rightarrow> bytes" where
  "put_slice off bs buf = take off buf @ bs @ drop (off + length bs) buf"

lemma unwrapped_simps [simp]: "unwrapped (Inr x) rest = rest x" "\<not> unwrapped (Inl e) rest"
  by (simp_all add: unwrapped_def)

lemma is_err_simps [simp]: "is_err (Inl (Fail e))" "\<not> is_err (Inr x)" "\<not> is_err (Inl Panic)" "\<not> is_err (Inl Diverge)"
  by (simp_all add: is_err_def)

lemma is_err_clean: "clean m \<Longrightarrow> is_err m \<longleftrightarrow> \<not> is_ok m"
  by (cases m rule: sum.exhaust; cases "projl m") (auto simp: is_err_def split: fault.splits)

lemma is_err_iff: "is_err m \<longleftrightarrow> (\<exists>e. m = Inl (Fail e))"
  by (auto simp: is_err_def split: sum.splits fault.splits)

lemma is_err_ok_or [simp]: "is_err (ok_or x e) \<longleftrightarrow> x = None"
  by (cases x) simp_all

lemma unwrapped_iff: "unwrapped m rest \<longleftrightarrow> (\<exists>x. m = Inr x \<and> rest x)"
  by (cases m) simp_all

lemma length_put_slice [simp]: "off + length bs \<le> length buf \<Longrightarrow> length (put_slice off bs buf) = length buf"
  by (simp add: put_slice_def)

section \<open>The names of \<^verbatim>\<open>src/lib.rs\<close>\<close>

definition test_name_rules :: bool where
  "test_name_rules \<longleftrightarrow>
     is_ok (validate_name (ascii ''a.txt''))
     \<and> is_err (validate_name [])
     \<and> is_err (validate_name (replicate 256 0x61))
     \<and> is_ok (validate_name (replicate 255 0x61))
     \<and> is_err (validate_name (ascii ''a/b''))
     \<and> is_err (validate_name (ascii ''a'' @ [0] @ ascii ''b''))
     \<and> is_err (validate_name (ascii ''.''))
     \<and> is_err (validate_name (ascii ''..''))
     \<and> is_err (validate_name [0xFF, 0xFE])"

theorem name_rules_pass: "test_name_rules"
  by code_simp

end
