(* ===== verification/Chunkmap_Tests.thy ===== *)
theory Chunkmap_Tests
  imports Test_Lib Chunkmap "HOL-Library.Code_Target_Nat"
begin

text \<open>The unit tests of \<^verbatim>\<open>src/chunkmap.rs\<close>.\<close>

unbundle bit_operations_syntax

definition fake_digest :: "u8 \<Rightarrow> nat \<Rightarrow> digest" where
  "fake_digest seed i =
     (let d = replicate 32 seed; d = d[0 := of_nat (i AND 0xFF)] in d[1 := of_nat (drop_bit 8 i AND 0xFF)])"

definition test_map_roundtrip_and_map_id :: "hash \<Rightarrow> bool" where
  "test_map_roundtrip_and_map_id H \<longleftrightarrow>
     unwrapped (chunk_map_new (replicate 32 1) (5 * 1024 * 1024) (replicate 32 2)) (\<lambda>m.
       chunk_count m = 5 \<and> page_count m = 1
       \<and> (let bytes = chunk_map_encode m in
            length bytes = 100 \<and> chunk_map_decode bytes = Ok m
            \<and> map_id H m = sha256 H [MAP_DOMAIN, bytes]))
     \<and> unwrapped (chunk_map_new (replicate 32 1) 1 (replicate 32 2)) (\<lambda>m2.
          chunk_count m2 = 1 \<and> chunk_len m2 0 = Ok 1)"

definition test_map_field_validation :: bool where
  "test_map_field_validation \<longleftrightarrow>
     unwrapped (chunk_map_new (replicate 32 1) 1024 (replicate 32 2)) (\<lambda>m.
       is_err (chunk_map_decode ((chunk_map_encode m)[4 := 3]))
       \<and> is_err (chunk_map_decode (put_slice 48 (le_bytes (512 :: u32)) (chunk_map_encode m)))
       \<and> is_err (chunk_map_decode (put_slice 52 (le_bytes (99 :: u64)) (chunk_map_encode m))))
     \<and> is_err (chunk_map_new (replicate 32 1) 0 (replicate 32 2))"

definition test_leaf_roundtrip_and_last_page_rule :: bool where
  "test_leaf_roundtrip_and_last_page_rule \<longleftrightarrow>
     (let leaf = \<lparr>page_index = 0, chunk_sha256 = replicate 256 (replicate 32 9)\<rparr> in
      unwrapped (chunk_leaf_encode leaf) (\<lambda>bytes.
        length bytes = 16 + 32 * 256 \<and> chunk_leaf_decode bytes = Ok leaf))
     \<and> is_err (chunk_leaf_encode \<lparr>page_index = 0, chunk_sha256 = []\<rparr>)
     \<and> is_err (chunk_leaf_encode \<lparr>page_index = 0, chunk_sha256 = replicate 257 (replicate 32 9)\<rparr>)
     \<and> expected_count 600 0 = 256 \<and> expected_count 600 1 = 256
     \<and> expected_count 600 2 = 88 \<and> expected_count 256 0 = 256"

definition test_chunk_len_rules :: bool where
  "test_chunk_len_rules \<longleftrightarrow>
     (let sz = 2 * ucast CHUNK_SIZE + 512 * 1024 in
      unwrapped (chunk_map_new (replicate 32 1) sz (replicate 32 2)) (\<lambda>m.
        chunk_count m = 3 \<and> chunk_len m 0 = Ok (ucast CHUNK_SIZE) \<and> chunk_len m 1 = Ok (ucast CHUNK_SIZE)
        \<and> chunk_len m 2 = Ok (512 * 1024) \<and> is_err (chunk_len m 3)))
     \<and> unwrapped (chunk_map_new (replicate 32 1) (3 * ucast CHUNK_SIZE) (replicate 32 2)) (\<lambda>m.
          chunk_len m 2 = Ok (ucast CHUNK_SIZE))"

definition test_merkle_single_and_multi :: "hash \<Rightarrow> bool" where
  "test_merkle_single_and_multi H \<longleftrightarrow>
     (let leaves = [fake_digest 1 0] in merkle_root H leaves = Ok (leaves ! 0))
     \<and> (let leaves = [fake_digest 1 0, fake_digest 1 1]; expect = branch_hash H (leaves ! 0) (leaves ! 1) 1 1
        in merkle_root H leaves = Ok expect)
     \<and> (let leaves = [fake_digest 1 0, fake_digest 1 1, fake_digest 1 2] in
        unwrapped (build_subtree H (take 2 leaves)) (\<lambda>(lroot, lc).
        unwrapped (build_subtree H (drop 2 leaves)) (\<lambda>(rroot, rc).
        merkle_root H leaves = Ok (branch_hash H lroot rroot lc rc))))"

text \<open>The body of the loop over the sizes, and the change it makes to the first step of a proof.\<close>

definition flip_digest :: "proof_step list \<Rightarrow> proof_step list" where
  "flip_digest proof = (let step = hd proof; d = digest step in proof[0 := step\<lparr>digest := d[0 := d ! 0 XOR 1]\<rparr>])"

definition test_proofs_of_size :: "hash \<Rightarrow> nat \<Rightarrow> bool" where
  "test_proofs_of_size H n \<longleftrightarrow>
     (let leaves = map (fake_digest 3) [0..<n] in
      unwrapped (merkle_root H leaves) (\<lambda>root.
        list_all (\<lambda>i. unwrapped (leaf_proof H leaves (of_nat i)) (\<lambda>proof.
          verify_leaf H (of_nat n) (of_nat i) (leaves ! i) proof root = Ok ())) [0..<n]
        \<and> unwrapped (leaf_proof H leaves 0) (\<lambda>proof. proof \<noteq> []
            \<and> is_err (verify_leaf H (of_nat n) 0 (leaves ! 0) (flip_digest proof) root))
        \<and> is_err (verify_leaf H (of_nat n) 0 (leaves ! 0) [] root)
        \<and> unwrapped (leaf_proof H leaves 0) (\<lambda>proof.
            is_err (verify_leaf H (of_nat n) 0 (replicate 32 0xFF) proof root))))"

definition test_proof_roundtrip_all_positions :: "hash \<Rightarrow> bool" where
  "test_proof_roundtrip_all_positions H \<longleftrightarrow> list_all (test_proofs_of_size H) [2, 3, 4, 5, 7, 8, 9, 600]"

definition test_proof_shape_is_derived_independently :: bool where
  "test_proof_shape_is_derived_independently \<longleftrightarrow>
     expected_proof_shape 5 4 = Ok [(Left, 4)]
     \<and> expected_proof_shape 5 0 = Ok [(Right, 1), (Right, 2), (Right, 1)]
     \<and> is_err (expected_proof_shape 0 0)
     \<and> is_err (expected_proof_shape 5 5)"

definition test_range_arithmetic :: bool where
  "test_range_arithmetic \<longleftrightarrow>
     (let sz = 100 * 1024 * 1024 in
      range_chunks 0 (64 * 1024) sz = Ok (0, 0)
      \<and> range_chunks (100 * 1024 * 1024 - 1) 1 sz = Ok (99, 99)
      \<and> range_chunks (ucast CHUNK_SIZE - 1) 2 sz = Ok (0, 1)
      \<and> is_err (range_chunks 0 0 sz)
      \<and> is_err (range_chunks sz 1 sz)
      \<and> range_chunks (sz - 1) (- 1) sz = Ok (99, 99))"

theorem map_roundtrip_and_map_id_pass: "test_map_roundtrip_and_map_id H"
  unfolding test_map_roundtrip_and_map_id_def map_id_def Let_def by code_simp

theorem map_field_validation_pass: "test_map_field_validation"
  by code_simp

theorem leaf_roundtrip_and_last_page_rule_pass: "test_leaf_roundtrip_and_last_page_rule"
proof -
  let ?l = "\<lparr>page_index = 0, chunk_sha256 = replicate 256 (replicate 32 9)\<rparr>"
  have "chunk_leaf_wf ?l" by (simp add: chunk_leaf_wf_def CHUNKS_PER_PAGE_def)
  moreover obtain b where b: "chunk_leaf_encode ?l = Ok b" by (simp add: chunk_leaf_encode_def CHUNKS_PER_PAGE_def Let_def)
  ultimately have d: "chunk_leaf_decode b = Ok ?l" using leaf_codec.dec_enc by blast
  have "length b = 8208" using b
    by (auto simp: chunk_leaf_encode_def CHUNKS_PER_PAGE_def Let_def foldl_append write_defs LEAF_MAGIC_def ascii_def length_concat sum_list_replicate)
  moreover have "expected_count 600 0 = 256" "expected_count 600 1 = 256" "expected_count 600 2 = 88" "expected_count 256 0 = 256"
    by code_simp+
  moreover have "is_err (chunk_leaf_encode \<lparr>page_index = 0, chunk_sha256 = []\<rparr>)"
    "is_err (chunk_leaf_encode \<lparr>page_index = 0, chunk_sha256 = replicate 257 (replicate 32 9)\<rparr>)"
    by (simp_all add: chunk_leaf_encode_def CHUNKS_PER_PAGE_def)
  ultimately show ?thesis by (simp add: test_leaf_roundtrip_and_last_page_rule_def b d)
qed

theorem chunk_len_rules_pass: "test_chunk_len_rules"
  by code_simp

lemma split_points: "split_point 2 = 1" "split_point 3 = 2" "split_point 4 = 2" "split_point 5 = 4"
  by (simp_all add: split_point.simps)

theorem proof_shape_is_derived_independently_pass: "test_proof_shape_is_derived_independently"
proof -
  have "shape_spec 5 4 = [(Left, 4)]" "shape_spec 5 0 = [(Right, 1), (Right, 2), (Right, 1)]"
    by (simp_all add: shape_spec_node split_points)
  then have "expected_proof_shape 5 4 = Ok [(Left, 4)]" "expected_proof_shape 5 0 = Ok [(Right, 1), (Right, 2), (Right, 1)]"
    using expected_proof_shape_spec [of 4 5] expected_proof_shape_spec [of 0 5] by simp_all
  then show ?thesis by (simp add: test_proof_shape_is_derived_independently_def expected_proof_shape_def)
qed

theorem range_arithmetic_pass: "test_range_arithmetic"
  by code_simp

theorem merkle_single_and_multi_pass: "test_merkle_single_and_multi H"
proof -
  have "merkle_spec H [a, b] = branch_hash H a b 1 1" for a b
    using merkle_spec_node [of "[a, b]" H] by (simp add: split_points numeral_2_eq_2 [symmetric])
  moreover have "merkle_spec H [a, b, c] = branch_hash H (merkle_spec H [a, b]) c 2 1" for a b c
    using merkle_spec_node [of "[a, b, c]" H] by (simp add: split_points numeral_3_eq_3 [symmetric])
  ultimately show ?thesis
    by (simp add: test_merkle_single_and_multi_def merkle_root_spec build_subtree_spec Let_def)
qed

section \<open>The loop over all positions\<close>

text \<open>The inputs a test hashes: those of the tree, and those of the two proofs that must be refused.\<close>

definition proof_inputs :: "hash \<Rightarrow> nat \<Rightarrow> bytes set" where
  "proof_inputs H n =
     (let ls = map (fake_digest 3) [0..<n]; p = rev (path_spec H ls 0) in
      merkle_inputs H ls \<union> climb_inputs H (ls ! 0) (rev (flip_digest p)) \<union> climb_inputs H (replicate 32 0xFF) (rev p))"

lemma length_fake_digest [simp]: "length (fake_digest seed i) = 32"
  by (simp add: fake_digest_def Let_def)

lemma flip_digest_differs:
  assumes "p \<noteq> []" "proof_wf p"
  shows "flip_digest p \<noteq> p" "proof_wf (flip_digest p)" "length (flip_digest p) = length p"
proof -
  obtain t ts where p: "p = t # ts" using assms(1) by (cases p) auto
  have l: "length (digest t) = 32" using assms(2) by (simp add: p proof_wf_def)
  have "(digest t ! 0 XOR 1) XOR digest t ! 0 = 1" by (simp add: xor.commute xor.left_commute)
  then have "digest t ! 0 XOR 1 \<noteq> digest t ! 0" by (metis xor_self_eq zero_neq_one)
  then have "(digest t)[0 := digest t ! 0 XOR 1] \<noteq> digest t"
    using l by (metis nth_list_update_eq zero_less_numeral)
  moreover have "flip_digest p = t\<lparr>digest := (digest t)[0 := digest t ! 0 XOR 1]\<rparr> # ts" by (simp add: flip_digest_def p Let_def)
  ultimately show "flip_digest p \<noteq> p" unfolding p by (cases t) simp
  show "proof_wf (flip_digest p)" "length (flip_digest p) = length p"
    using assms(2) by (simp_all add: flip_digest_def p proof_wf_def Let_def)
qed

lemma path_spec_wf:
  "ls \<noteq> [] \<Longrightarrow> sha_ok H \<Longrightarrow> \<forall>l\<in>set ls. length l = 32 \<Longrightarrow> proof_wf (path_spec H ls i)"
proof (induction ls arbitrary: i rule: merkle_induct)
  case (Node ls)
  let ?k = "split_point (length ls)"
  note s = split_list [OF Node.hyps]
  have w: "\<forall>l\<in>set (take ?k ls). length l = 32" "\<forall>l\<in>set (drop ?k ls). length l = 32"
    using Node.prems(2) by (auto dest: in_set_takeD in_set_dropD)
  note ih = Node.IH(1) [OF Node.prems(1) w(1)] Node.IH(2) [OF Node.prems(1) w(2)]
  show ?case
    using ih length_merkle_spec [OF s(3) Node.prems(1) w(1)] length_merkle_spec [OF s(4) Node.prems(1) w(2)]
    by (simp add: path_spec_node [OF Node.hyps] proof_wf_def Let_def)
qed (simp add: path_spec.simps proof_wf_def)

text \<open>A leaf or a proof that is not the one of the tree is refused.\<close>

lemma forged_refused:
  assumes "ls \<noteq> []" "length ls < 2 ^ 64" "sha_ok H" "\<forall>l\<in>set ls. length l = 32" "length leaf = 32" "proof_wf p"
    and "collision_free H (merkle_inputs H ls \<union> climb_inputs H leaf (rev p))"
    and "leaf \<noteq> ls ! 0 \<or> p \<noteq> rev (path_spec H ls 0)"
  shows "is_err (verify_leaf H (of_nat (length ls)) 0 leaf p (merkle_spec H ls))"
proof -
  have "verify_leaf H (of_nat (length ls)) 0 leaf p (merkle_spec H ls) \<noteq> Ok ()"
  proof
    assume "verify_leaf H (of_nat (length ls)) 0 leaf p (merkle_spec H ls) = Ok ()"
    then have "climb_spec H leaf (rev p) = merkle_spec H ls"
      "map (\<lambda>s. (side s, sibling_pages s)) (rev p) = shape_spec (length ls) 0"
      using assms(2) by (simp_all add: verify_leaf_iff unat_of_nat_u64)
    then have "leaf = ls ! 0 \<and> rev p = path_spec H ls 0"
      using assms by (intro climb_sound [OF assms(1,2)]) (simp_all add: proof_wf_def)
    with assms(8) show False by (metis rev_rev_ident)
  qed
  then show ?thesis by (simp add: is_err_clean verify_leaf_clean is_ok_iff)
qed

lemma path_not_Nil: "2 \<le> length ls \<Longrightarrow> rev (path_spec H ls i) \<noteq> []"
  by (subst path_spec_node) (simp_all only: Let_def rev_is_Nil_conv if_splits list.distinct, simp)

lemma proofs_of_size_pass:
  assumes "2 \<le> n" "n < 2 ^ 64" "sha_ok H" "collision_free H (proof_inputs H n)"
  shows "test_proofs_of_size H n"
proof -
  define ls where "ls = map (fake_digest 3) [0..<n]"
  let ?bad = "replicate 32 0xFF :: digest" and ?p = "rev (path_spec H ls 0)"
  have ne: "ls \<noteq> []" and n: "length ls < 2 ^ 64" "length ls = n" and w: "\<forall>l\<in>set ls. length l = 32"
    using assms(1,2) by (auto simp: ls_def)
  have l0: "ls ! 0 = fake_digest 3 0" using assms(1) by (simp add: ls_def)
  have root: "merkle_root H ls = Ok (merkle_spec H ls)" by (rule merkle_root_spec [OF ne n(1)])
  have pne: "?p \<noteq> []" by (rule path_not_Nil) (simp add: n(2) assms(1))
  have pw: "proof_wf ?p" using path_spec_wf [OF ne assms(3) w] by (simp add: proof_wf_def)
  have cf: "collision_free H (merkle_inputs H ls \<union> climb_inputs H (ls ! 0) (rev (flip_digest ?p)))"
    "collision_free H (merkle_inputs H ls \<union> climb_inputs H ?bad (rev ?p))" "collision_free H (merkle_inputs H ls \<union> climb_inputs H (ls ! 0) (rev []))"
    using assms(4) by (auto intro: collision_free_mono simp: proof_inputs_def ls_def Let_def)
  have bad: "?bad \<noteq> ls ! 0" unfolding l0 by (simp add: fake_digest_def Let_def list_eq_iff_nth_eq exI [of _ 0])
  note refuse = forged_refused [OF ne n(1) assms(3) w, unfolded n(2)]
  have "is_err (verify_leaf H (of_nat n) 0 (ls ! 0) (flip_digest ?p) (merkle_spec H ls))"
    using flip_digest_differs [OF pne pw] l0 by (intro refuse cf(1)) simp_all
  moreover have "is_err (verify_leaf H (of_nat n) 0 (ls ! 0) [] (merkle_spec H ls))"
    using pne l0 by (intro refuse cf(3)) (auto simp: proof_wf_def)
  moreover have "is_err (verify_leaf H (of_nat n) 0 ?bad ?p (merkle_spec H ls))"
    using bad pw by (intro refuse cf(2)) simp_all
  moreover have "verify_leaf H (of_nat n) (of_nat i) (ls ! i) (rev (path_spec H ls i)) (merkle_spec H ls) = Ok ()"
    "leaf_proof H ls (of_nat i) = Ok (rev (path_spec H ls i))" if "i < n" for i
    using own_proof_verifies [of "of_nat i" ls H] leaf_proof_spec [of "of_nat i" ls H] that assms(2) n by (simp_all add: unat_of_nat_u64)
  moreover have "leaf_proof H ls 0 = Ok ?p" using leaf_proof_spec [of 0 ls H] assms(1) n by simp
  ultimately show ?thesis using pne
    by (simp add: test_proofs_of_size_def Let_def root list_all_iff flip: ls_def)
qed

theorem proof_roundtrip_all_positions_pass:
  assumes "sha_ok H" "\<forall>n\<in>{2, 3, 4, 5, 7, 8, 9, 600}. collision_free H (proof_inputs H n)"
  shows "test_proof_roundtrip_all_positions H"
  using assms by (simp add: test_proof_roundtrip_all_positions_def proofs_of_size_pass)

end
