(* ===== verification/Descriptor_Tests.thy ===== *)
theory Descriptor_Tests
  imports Test_Lib Descriptor "HOL-Library.Code_Target_Nat"
begin

text \<open>The unit tests of \<^verbatim>\<open>src/descriptor.rs\<close>. A string is the list of its UTF-8 bytes.\<close>

unbundle bit_operations_syntax

definition sample_descriptor :: serving_descriptor where
  "sample_descriptor = \<lparr>instance_uuid = replicate 16 7, namespace_view_id = replicate 32 1,
     scope = ascii ''/'', metadata_root = replicate 32 2\<rparr>"

definition test_roundtrip_root_scope :: bool where
  "test_roundtrip_root_scope \<longleftrightarrow>
     (let d = sample_descriptor in
      unwrapped (descriptor_encode d) (\<lambda>bytes.
        length bytes = 99 \<and> sub 0 4 bytes = ascii ''MSD2'' \<and> descriptor_decode bytes = Ok d))"

definition test_snapshot_id_is_domain_separated :: "hash \<Rightarrow> bool" where
  "test_snapshot_id_is_domain_separated H \<longleftrightarrow>
     (let d = sample_descriptor in
      unwrapped (descriptor_encode d) (\<lambda>bytes.
      unwrapped (snapshot_id H d) (\<lambda>sid.
        sid = sha256 H [ascii ''mega.mst2.descriptor'' @ [0], bytes]
        \<and> (let d2 = d\<lparr>metadata_root := (metadata_root d)[0 := metadata_root d ! 0 XOR 1]\<rparr> in
            unwrapped (snapshot_id H d2) (\<lambda>sid2. sid2 \<noteq> sid)))))"

definition test_rejects_bad_versions_and_reserved :: bool where
  "test_rejects_bad_versions_and_reserved \<longleftrightarrow>
     unwrapped (descriptor_encode sample_descriptor) (\<lambda>bytes.
       is_err (descriptor_decode (bytes[4 := 3]))
       \<and> is_err (descriptor_decode (bytes[6 := 2]))
       \<and> is_err (descriptor_decode (bytes[64 + 1 + 1 := 1]))
       \<and> (let n = length bytes in
          unwrapped (descriptor_decode (bytes[n - 1 := bytes ! (n - 1) XOR 1])) (\<lambda>d. metadata_root d \<noteq> replicate 32 2)))"

definition test_rejects_bad_length_and_scope :: bool where
  "test_rejects_bad_length_and_scope \<longleftrightarrow>
     unwrapped (descriptor_encode sample_descriptor) (\<lambda>bytes. is_err (descriptor_decode (bytes @ [0])))
     \<and> is_err (descriptor_encode (sample_descriptor\<lparr>scope := ascii ''relative''\<rparr>))
     \<and> is_err (descriptor_encode (sample_descriptor\<lparr>scope := ascii ''/a/..''\<rparr>))
     \<and> is_err (descriptor_encode (sample_descriptor\<lparr>scope := ascii ''/a//b''\<rparr>))
     \<and> is_err (descriptor_encode (sample_descriptor\<lparr>scope := ascii ''/a/''\<rparr>))"

definition test_scope_component_length_limit :: bool where
  "test_scope_component_length_limit \<longleftrightarrow>
     is_ok (descriptor_encode (sample_descriptor\<lparr>scope := slash # replicate 255 0x61\<rparr>))
     \<and> is_err (descriptor_encode (sample_descriptor\<lparr>scope := slash # replicate 256 0x61\<rparr>))"

text \<open>\<open>"a".repeat(n)\<close> is \<open>replicate n 0x61\<close>; the letter e with an acute accent is the bytes \<open>C3 A9\<close>.\<close>

definition test_scope_limits_count_utf8_bytes_and_components :: bool where
  "test_scope_limits_count_utf8_bytes_and_components \<longleftrightarrow>
     (let longest = slash # join_with slash (replicate 15 (replicate 255 0x61)) @ [slash, 0x61];
          longest = longest @ replicate 254 0x62;
          d = sample_descriptor\<lparr>scope := longest\<rparr>;
          oversized = take (length longest - 1) longest @ [slash, 0x63] in
      length longest = 4096
      \<and> unwrapped (descriptor_encode d) (\<lambda>bytes. descriptor_decode bytes = Ok d)
      \<and> length oversized = 4097
      \<and> is_err (validate_scope oversized))
     \<and> (let deepest = slash # join_with slash (replicate 256 [0x61]);
            d = sample_descriptor\<lparr>scope := deepest\<rparr> in
        unwrapped (descriptor_encode d) (\<lambda>bytes. descriptor_decode bytes = Ok d)
        \<and> is_err (descriptor_encode (d\<lparr>scope := deepest @ [slash, 0x61]\<rparr>)))
     \<and> is_ok (validate_scope (slash # concat (replicate 127 [0xC3, 0xA9])))
     \<and> is_err (validate_scope (slash # concat (replicate 128 [0xC3, 0xA9])))
     \<and> is_err (validate_scope (slash # join_with slash (replicate 40000 [0x61])))"

definition test_decoder_rejects_over_limit_scope_and_nil_instance :: bool where
  "test_decoder_rejects_over_limit_scope_and_nil_instance \<longleftrightarrow>
     unwrapped (descriptor_encode sample_descriptor) (\<lambda>bytes.
       (let tail_fields = drop 59 bytes in
        list_all (\<lambda>s.
          let forged = take 56 bytes; forged = write_u16 forged (of_nat (length s)); forged = forged @ s @ tail_fields
          in is_err (descriptor_decode forged))
          [slash # replicate 256 0x61,
           slash # join_with slash (replicate 257 [0x61]),
           slash # join_with slash (replicate 17 (replicate 255 0x61))])
       \<and> is_err (descriptor_decode (put_slice 8 (replicate 16 0) bytes)))
     \<and> is_err (descriptor_encode (sample_descriptor\<lparr>instance_uuid := replicate 16 0\<rparr>))"

section \<open>They pass\<close>

theorem roundtrip_root_scope_pass: "test_roundtrip_root_scope"
  by code_simp

theorem rejects_bad_versions_and_reserved_pass: "test_rejects_bad_versions_and_reserved"
  by code_simp

theorem rejects_bad_length_and_scope_pass: "test_rejects_bad_length_and_scope"
  by code_simp

definition flipped_descriptor :: serving_descriptor where
  "flipped_descriptor = sample_descriptor\<lparr>metadata_root := (metadata_root sample_descriptor)[0 := metadata_root sample_descriptor ! 0 XOR 1]\<rparr>"

lemma sample_encodings:
  obtains x y where "descriptor_encode sample_descriptor = Ok x" "descriptor_encode flipped_descriptor = Ok y" "x \<noteq> y"
proof -
  have "is_ok (descriptor_encode sample_descriptor)" "is_ok (descriptor_encode flipped_descriptor)"
    "descriptor_encode sample_descriptor \<noteq> descriptor_encode flipped_descriptor" by code_simp+
  then show ?thesis using that by (force simp: is_ok_iff)
qed

theorem snapshot_id_is_domain_separated_pass:
  assumes "\<And>x y. descriptor_encode sample_descriptor = Ok x \<Longrightarrow> descriptor_encode flipped_descriptor = Ok y
      \<Longrightarrow> collision_free H {DOMAIN @ x, DOMAIN @ y}"
  shows "test_snapshot_id_is_domain_separated H"
proof -
  obtain x y where e: "descriptor_encode sample_descriptor = Ok x" "descriptor_encode flipped_descriptor = Ok y" "x \<noteq> y"
    by (rule sample_encodings)
  have "H (DOMAIN @ x) \<noteq> H (DOMAIN @ y)" using collision_freeD [OF assms [OF e(1,2)]] e(3) by blast
  then show ?thesis
    using e(1,2) by (simp add: test_snapshot_id_is_domain_separated_def snapshot_id_def sha256_def DOMAIN_def Let_def
      flipped_descriptor_def)
qed

section \<open>Scopes by their components\<close>

lemma length_join: "ps \<noteq> [] \<Longrightarrow> length (join_with c ps) + 1 = sum_list (map length ps) + length ps"
  by (induction c ps rule: join_with.induct) auto

lemma canonical_joined:
  assumes "ps \<noteq> []" "\<forall>p\<in>set ps. p \<noteq> [] \<and> slash \<notin> set p"
  shows "canonical_scope (slash # join_with slash ps) \<longleftrightarrow>
    length ps \<le> 256 \<and> (\<forall>p\<in>set ps. scope_component p) \<and> sum_list (map length ps) + length ps \<le> 4096"
proof -
  have "comps = ps" if "\<forall>c\<in>set comps. scope_component c" "slash # join_with slash ps = scope_of comps" for comps
  proof (cases "comps = []")
    case True
    then have "join_with slash ps = []" using that(2) by (simp add: scope_of_def)
    then have "sum_list (map length ps) + length ps = 1" using length_join [OF assms(1), of slash] by simp
    with assms have False by (cases ps) auto
    then show ?thesis ..
  next
    case False
    then have "join_with slash ps = join_with slash comps" using that(2) by (simp add: scope_of_def join_slash)
    then show ?thesis using split_join [of ps slash] split_join [of comps slash] assms False that(1)
      by (simp add: scope_component_def)
  qed
  moreover have "slash # join_with slash ps = scope_of ps" using assms(1) by (simp add: scope_of_def join_slash)
  moreover have "length (slash # join_with slash ps) = sum_list (map length ps) + length ps" using length_join [OF assms(1), of slash] by simp
  ultimately show ?thesis unfolding canonical_scope_def by metis
qed

lemma scope_err: "is_err (validate_scope s) \<longleftrightarrow> \<not> canonical_scope s" "is_ok (validate_scope s) \<longleftrightarrow> canonical_scope s"
  using validate_scope_canonical [of s] by (simp_all add: is_err_clean is_ok_iff)

lemma scoped_encode:
  "is_err (descriptor_encode (sample_descriptor\<lparr>scope := s\<rparr>)) \<longleftrightarrow> \<not> canonical_scope s"
  "is_ok (descriptor_encode (sample_descriptor\<lparr>scope := s\<rparr>)) \<longleftrightarrow> canonical_scope s"
proof -
  have u: "validate_instance_uuid (instance_uuid sample_descriptor) = Ok ()"
    by (simp add: sample_descriptor_def validate_instance_uuid_def replicate_eq_replicate)
  have l: "length (instance_uuid sample_descriptor) = 16" "length (namespace_view_id sample_descriptor) = 32"
    "length (metadata_root sample_descriptor) = 32" by (simp_all add: sample_descriptor_def)
  have "descriptor_encode (sample_descriptor\<lparr>scope := s\<rparr>) = Inl f \<longleftrightarrow> validate_scope s = Inl f" for f
    using u l by (cases "validate_scope s") (simp_all add: descriptor_encode_def write_defs Let_def BASE_LENGTH_def)
  note eq = this
  then show "is_err (descriptor_encode (sample_descriptor\<lparr>scope := s\<rparr>)) \<longleftrightarrow> \<not> canonical_scope s"
    using scope_err(1) [of s] by (simp add: is_err_iff)
  have "is_ok m \<longleftrightarrow> (\<forall>f. m \<noteq> Inl f)" for m :: "'x + 'y" by (cases m) auto
  then show "is_ok (descriptor_encode (sample_descriptor\<lparr>scope := s\<rparr>)) \<longleftrightarrow> canonical_scope s"
    using scope_err(2) [of s] eq by metis
qed

lemma scoped_roundtrip:
  assumes "canonical_scope s" "is_utf8 s"
  shows "unwrapped (descriptor_encode (sample_descriptor\<lparr>scope := s\<rparr>)) (\<lambda>bytes. descriptor_decode bytes = Ok (sample_descriptor\<lparr>scope := s\<rparr>))"
proof -
  have "descriptor_wf (sample_descriptor\<lparr>scope := s\<rparr>)" using assms(2) by (simp add: descriptor_wf_def sample_descriptor_def)
  then show ?thesis using scoped_encode(2) [of s] assms(1) by (auto simp: is_ok_iff descriptor_decode_encode)
qed

lemma plain_component: "c \<notin> {0, slash, dot} \<Longrightarrow> scope_component (replicate n c) \<longleftrightarrow> 0 < n \<and> n \<le> 255"
  by (cases n) (auto simp: scope_component_def)

theorem scope_component_length_limit_pass: "test_scope_component_length_limit"
  using canonical_joined [of "[replicate 255 0x61]"] canonical_joined [of "[replicate 256 0x61]"]
  by (simp add: test_scope_component_length_limit_def scoped_encode plain_component slash_def dot_def)

lemma join_with_snoc: "ps \<noteq> [] \<Longrightarrow> join_with c (ps @ [q]) = join_with c ps @ c # q"
  by (induction c ps rule: join_with.induct) auto

lemma joined_ascii: "\<forall>p\<in>set ps. \<forall>b\<in>set p. b < 0x80 \<Longrightarrow> is_utf8 (slash # join_with slash ps)"
  using set_join_with [of slash ps] by (intro is_utf8_ascii) (auto simp: slash_def)

lemma not_too_long: "4096 < length s \<Longrightarrow> \<not> canonical_scope s"
  by (simp add: canonical_scope_def)

theorem scope_limits_count_utf8_bytes_and_components_pass: "test_scope_limits_count_utf8_bytes_and_components"
proof -
  let ?long = "replicate 15 (replicate 255 0x61) @ [0x61 # replicate 254 (0x62 :: u8)]"
  let ?deep = "replicate 256 [0x61 :: u8]"
  have long: "slash # join_with slash ?long = (slash # join_with slash (replicate 15 (replicate 255 0x61)) @ [slash, 0x61]) @ replicate 254 0x62"
    by (simp add: join_with_snoc)
  have c: "scope_component (0x61 # replicate 254 0x62)" "scope_component [0x61]" "scope_component (replicate 255 0x61)"
    using plain_component [of "0x61" 255] by (simp_all add: scope_component_def slash_def dot_def)
  have lc: "canonical_scope (slash # join_with slash ?long)" "length (slash # join_with slash ?long) = 4096"
    using canonical_joined [of ?long] length_join [of ?long slash] c
    by (simp_all add: slash_def sum_list_replicate)
  have dc: "canonical_scope (slash # join_with slash ?deep)" "\<not> canonical_scope (slash # join_with slash (?deep @ [[0x61]]))"
    using canonical_joined [of ?deep] canonical_joined [of "?deep @ [[0x61]]"] c by (simp_all add: slash_def sum_list_replicate)
  have e: "canonical_scope (slash # concat (replicate n [0xC3, 0xA9])) \<longleftrightarrow> n \<le> 127" if "0 < n" for n
  proof -
    have "concat (replicate n [0xC3, 0xA9]) ! 0 = (0xC3 :: u8)" using that by (cases n) simp_all
    then have "concat (replicate n [0xC3, 0xA9]) \<noteq> [dot]" "concat (replicate n [0xC3, 0xA9]) \<noteq> [dot, dot]"
      by (auto simp: dot_def dest: arg_cong [where f = "\<lambda>xs. xs ! 0"])
    then show ?thesis
      using canonical_joined [of "[concat (replicate n [0xC3, 0xA9])]"] that
      by (auto simp: scope_component_def slash_def length_concat sum_list_replicate)
  qed
  have "length (slash # join_with slash (replicate 40000 [0x61 :: u8])) = 80000"
    using length_join [of "replicate 40000 [0x61 :: u8]" slash] by (simp add: sum_list_replicate)
  then have big: "\<not> canonical_scope (slash # join_with slash (replicate 40000 [0x61]))" by (simp add: not_too_long)
  have u: "is_utf8 (slash # join_with slash ?long)" "is_utf8 (slash # join_with slash ?deep)"
    by (intro joined_ascii; auto)+
  have "\<not> canonical_scope (take (length (slash # join_with slash ?long) - 1) (slash # join_with slash ?long) @ [slash, 0x63])"
    using lc(2) by (intro not_too_long) simp
  then show ?thesis
    using lc dc big e [of 127] e [of 128] scoped_roundtrip [OF lc(1) u(1)] scoped_roundtrip [OF dc(1) u(2)]
    unfolding test_scope_limits_count_utf8_bytes_and_components_def Let_def long [symmetric] scope_err
    by (simp add: scoped_encode join_with_snoc)
qed

text \<open>A scope written into the wire form by hand is read as it is.\<close>

lemma forged_scope:
  assumes "length hd56 = 56" "length tail_fields = 40" "length s < 2 ^ 16" "\<not> canonical_scope s"
  shows "is_err (descriptor_decode (hd56 @ le_bytes (of_nat (length s) :: u16) @ s @ tail_fields))" (is "is_err (descriptor_decode ?b)")
proof -
  have False if d: "descriptor_decode ?b = Ok d" for d
  proof -
    have e: "descriptor_wf d" "descriptor_encode d = Ok ?b" using d msd2.dec_iff by blast+
    note f = descriptor_bytes [OF e]
    have "length ?b = 98 + length s" using assms by simp
    then have n: "length (scope d) = length s" using f(4) by simp
    have "sub 58 (length s) ?b = s" using assms by (simp add: sub_def)
    moreover have "sub 58 (length s) ?b = scope d" unfolding f(5) using e(1) n by (simp add: sub_def descriptor_wf_def)
    ultimately have "scope d = s" by simp
    moreover have "canonical_scope (scope d)" using e(2) by (auto simp: descriptor_encode_def and_then_eq_Inr simp flip: validate_scope_canonical)
    ultimately show False using assms(4) by simp
  qed
  then show ?thesis by (auto simp: is_err_clean clean_descriptor_decode is_ok_iff)
qed

theorem decoder_rejects_over_limit_scope_and_nil_instance_pass: "test_decoder_rejects_over_limit_scope_and_nil_instance"
proof -
  obtain x where x: "descriptor_encode sample_descriptor = Ok x" by (rule sample_encodings)
  have l: "length x = 99" using roundtrip_root_scope_pass x by (simp add: test_roundtrip_root_scope_def Let_def)
  have "unwrapped (descriptor_encode sample_descriptor) (\<lambda>bytes. is_err (descriptor_decode (put_slice 8 (replicate 16 0) bytes)))"
    "is_err (descriptor_encode (sample_descriptor\<lparr>instance_uuid := replicate 16 0\<rparr>))" by code_simp+
  moreover have "\<not> canonical_scope (slash # replicate 256 0x61)" "\<not> canonical_scope (slash # join_with slash (replicate 257 [0x61]))"
    "\<not> canonical_scope (slash # join_with slash (replicate 17 (replicate 255 0x61)))"
    using canonical_joined [of "[replicate 256 0x61]"] canonical_joined [of "replicate 257 [0x61]"] canonical_joined [of "replicate 17 (replicate 255 0x61)"]
    by (simp_all add: slash_def dot_def plain_component sum_list_replicate)
  moreover have "length (join_with slash (replicate 257 [0x61 :: u8])) < 65535" "length (join_with slash (replicate 17 (replicate 255 (0x61 :: u8)))) < 65535"
    using length_join [of "replicate 257 [0x61 :: u8]" slash] length_join [of "replicate 17 (replicate 255 (0x61 :: u8))" slash]
    by (simp_all add: sum_list_replicate)
  ultimately show ?thesis
    using x l forged_scope [of "take 56 x" "drop 59 x" "slash # replicate 256 0x61"]
      forged_scope [of "take 56 x" "drop 59 x" "slash # join_with slash (replicate 257 [0x61])"]
      forged_scope [of "take 56 x" "drop 59 x" "slash # join_with slash (replicate 17 (replicate 255 0x61))"]
    by (simp add: test_decoder_rejects_over_limit_scope_and_nil_instance_def write_defs Let_def)
qed

end
