(* ===== verification/Metapage_Tests.thy ===== *)
theory Metapage_Tests
  imports Test_Lib Metapage_Build "HOL-Library.Code_Target_Nat"
begin

text \<open>
  The unit tests of \<^verbatim>\<open>src/metapage.rs\<close>. Where a test builds pages, the digest is a parameter. Fixtures with formatted
  names (\<open>format!\<close>) are lists over a range of numbers.
\<close>

unbundle bit_operations_syntax

definition cid :: "u8 \<Rightarrow> digest" where
  "cid b = replicate 32 b"

text \<open>A vector of entries, each made by \<open>Entry::file\<close> or \<open>Entry::dir\<close>.\<close>

definition with_entries :: "entry res list \<Rightarrow> (entry list \<Rightarrow> bool) \<Rightarrow> bool" where
  "with_entries made rest = unwrapped (traverse (\<lambda>m. m) made) rest"

definition is_branch :: "page \<Rightarrow> bool" where
  "is_branch p = (case p of Branch _ _ _ \<Rightarrow> True | Leaf _ \<Rightarrow> False)"

section \<open>Pages without a tree\<close>

definition test_empty_leaf_is_twenty_bytes :: bool where
  "test_empty_leaf_is_twenty_bytes \<longleftrightarrow>
     unwrapped (page_encode (Leaf [])) (\<lambda>bytes.
       length bytes = 20
       \<and> unwrapped (page_decode bytes) (\<lambda>(page, n).
           (case page of Leaf entries \<Rightarrow> entries = [] | _ \<Rightarrow> False) \<and> n = 0))"

definition test_entry_roundtrip_all_kinds :: "hash \<Rightarrow> bool" where
  "test_entry_roundtrip_all_kinds H \<longleftrightarrow>
     with_entries
       [entry_file Regular (ascii ''a.txt'') 5 (cid 1),
        entry_file Symlink (ascii ''lnk'') 3 (cid 3),
        entry_file Executable (ascii ''run.sh'') 100 (cid 2),
        Ok (entry_dir (ascii ''sub'') (cid 4))] (\<lambda>entries.
     unwrapped (page_encode (Leaf entries)) (\<lambda>bytes.
     unwrapped (page_decode bytes) (\<lambda>(page, n).
       page = Leaf entries \<and> n = 4 \<and> page_build H entries = Ok bytes)))"

definition test_file_mode_bits :: bool where
  "test_file_mode_bits \<longleftrightarrow>
     entry_kind_mode Regular = 420 \<and> entry_kind_mode Executable = 493 \<and> entry_kind_mode Directory = 493"

definition test_unsorted_names_rejected :: bool where
  "test_unsorted_names_rejected \<longleftrightarrow>
     with_entries [entry_file Regular (ascii ''b'') 1 (cid 1), entry_file Regular (ascii ''a'') 1 (cid 2)]
       (\<lambda>entries. is_err (page_encode (Leaf entries)))"

definition test_duplicate_names_rejected :: bool where
  "test_duplicate_names_rejected \<longleftrightarrow>
     with_entries [entry_file Regular (ascii ''a'') 1 (cid 1), entry_file Regular (ascii ''a'') 1 (cid 2)]
       (\<lambda>entries. is_err (page_encode (Leaf entries)))"

definition test_branch_tampering_detected_by_page_id :: "hash \<Rightarrow> bool" where
  "test_branch_tampering_detected_by_page_id H \<longleftrightarrow>
     with_entries [entry_file Regular (ascii ''a'') 1 (cid 1)] (\<lambda>entries.
     unwrapped (page_encode (Leaf entries)) (\<lambda>bytes.
       let pid = page_id H bytes; bytes2 = bytes[length bytes - 1 := last bytes XOR 1]
       in page_id H bytes2 \<noteq> pid \<and> is_ok (page_decode bytes2)))"

definition test_trailing_bytes_rejected :: bool where
  "test_trailing_bytes_rejected \<longleftrightarrow>
     unwrapped (page_encode (Leaf [])) (\<lambda>bytes. is_err (page_decode (bytes @ [0])))"

definition test_bad_page_kind_rejected :: bool where
  "test_bad_page_kind_rejected \<longleftrightarrow>
     unwrapped (page_encode (Leaf [])) (\<lambda>bytes. is_err (page_decode (bytes[4 := 7])))"

definition branch_with_counts :: "u64 list \<Rightarrow> page" where
  "branch_with_counts counts = Branch [] None
     (map (\<lambda>(index, count). \<lparr>label = of_nat index, subtree_entries = count, child_page_id = cid (of_nat index + 1)\<rparr>)
       (enumerate 0 counts))"

definition test_branch_count_overflow_is_an_error_without_panicking :: bool where
  "test_branch_count_overflow_is_an_error_without_panicking \<longleftrightarrow>
     unwrapped (page_encode (branch_with_counts [1, 1])) (\<lambda>bytes.
       let first_count = PAGE_HEADER_LEN + 3 + 1; second_count = first_count + 41;
           bytes = put_slice 8 (le_bytes (0 :: u64)) bytes;
           bytes = put_slice first_count (le_bytes (- 1 :: u64)) bytes;
           bytes = put_slice second_count (le_bytes (1 :: u64)) bytes
       in (case page_decode bytes of Inl (Fail (Overflow _)) \<Rightarrow> True | _ \<Rightarrow> False))
     \<and> is_err (page_encode (branch_with_counts [- 1, 1]))"

definition test_branch_total_entries_accepts_the_limit_and_rejects_larger_values :: bool where
  "test_branch_total_entries_accepts_the_limit_and_rejects_larger_values \<longleftrightarrow>
     unwrapped (page_encode (branch_with_counts [MAX_TOTAL_ENTRIES - 1, 1])) (\<lambda>bytes.
       unwrapped (page_decode bytes) (\<lambda>r. snd r = MAX_TOTAL_ENTRIES)
       \<and> is_err (page_encode (branch_with_counts [MAX_TOTAL_ENTRIES, 1]))
       \<and> is_err (page_decode (put_slice 8 (le_bytes (MAX_TOTAL_ENTRIES + 1)) bytes)))"

definition with_prefix :: "bytes \<Rightarrow> page \<Rightarrow> page" where
  "with_prefix p branch = (case branch of Branch _ t cs \<Rightarrow> Branch p t cs | Leaf es \<Rightarrow> Leaf es)"

definition test_branch_prefix_length_is_bounded_without_requiring_independent_utf8 :: bool where
  "test_branch_prefix_length_is_bounded_without_requiring_independent_utf8 \<longleftrightarrow>
     (let branch = with_prefix (replicate MAX_DEPTH 0xC3) (branch_with_counts [1, 1]) in
      unwrapped (page_encode branch) (\<lambda>bytes.
        unwrapped (page_decode bytes) (\<lambda>r. fst r = branch)
        \<and> is_err (page_encode (with_prefix (replicate MAX_DEPTH 0xC3 @ [0xC3]) branch))
        \<and> (let forged = put_slice PAGE_HEADER_LEN (le_bytes (of_nat (MAX_DEPTH + 1) :: u16)) bytes;
               at = PAGE_HEADER_LEN + 2 + MAX_DEPTH;
               forged = take at forged @ [0xC3] @ drop at forged;
               payload_len = of_nat (length forged - PAGE_HEADER_LEN) :: u32;
               forged = put_slice 16 (le_bytes payload_len) forged
           in is_err (page_decode forged))))"

section \<open>They pass\<close>

text \<open>Evaluation by the simplifier: what the encoder returns is \<open>page_bytes\<close>, whose fields have literal bytes.\<close>

lemma replicate_numeral: "replicate (numeral n) x = x # replicate (pred_numeral n) x"
  by (simp add: numeral_eq_Suc)

lemma to_le_literal: "to_le 2 v = [of_nat v, of_nat (v div 256)]"
  "to_le 4 v = [of_nat v, of_nat (v div 256), of_nat (v div 256 div 256), of_nat (v div 256 div 256 div 256)]"
  "to_le 8 v = to_le 4 v @ to_le 4 (v div 256 div 256 div 256 div 256)"
proof -
  have n: "2 = Suc (Suc 0)" "4 = Suc (Suc (Suc (Suc 0)))" "8 = Suc (Suc (Suc (Suc (Suc (Suc (Suc (Suc 0)))))))" by simp_all
  show "to_le 2 v = [of_nat v, of_nat (v div 256)]" unfolding n(1) by (simp only: to_le.simps)
  show "to_le 4 v = [of_nat v, of_nat (v div 256), of_nat (v div 256 div 256), of_nat (v div 256 div 256 div 256)]"
    unfolding n(2) by (simp only: to_le.simps)
  show "to_le 8 v = to_le 4 v @ to_le 4 (v div 256 div 256 div 256 div 256)"
    unfolding n(2,3) by (simp only: to_le.simps append.simps)
qed

lemma unwrapped_encode: "unwrapped (page_encode p) rest \<longleftrightarrow> page_valid p \<and> rest (page_bytes p)"
  by (auto simp: unwrapped_iff page_encode_Ok)

lemma is_err_encode: "is_err (page_encode p) \<longleftrightarrow> \<not> page_valid p"
  by (auto simp: is_err_clean is_ok_iff page_encode_Ok)

lemmas made_entries = with_entries_def entry_file_def entry_dir_def cid_def

lemmas valid_page = page_valid_def page_shape_ok_def page_total_def page_body_def entry_valid_def is_dir_def entry_bytes_def
  child_bytes_def counts_sum_def canonical_name_def ascii_def is_utf8_Cons_ascii slash_def dot_def

lemmas literal_page = page_bytes_def page_kind_field_def page_count_field_def MTP2_MAGIC_def le_bytes_def to_le_literal

lemma empty_leaf: "page_valid (Leaf [])" "page_wf (Leaf [])" "page_bytes (Leaf []) = ascii ''MTP2'' @ replicate 16 0"
  by (simp_all add: valid_page page_wf_def literal_page replicate_numeral)

theorem empty_leaf_is_twenty_bytes_pass: "test_empty_leaf_is_twenty_bytes"
  using page_decode_bytes [OF empty_leaf(2,1)] empty_leaf
  by (simp add: test_empty_leaf_is_twenty_bytes_def unwrapped_encode page_total_def ascii_def)

theorem file_mode_bits_pass: "test_file_mode_bits"
  by (simp add: test_file_mode_bits_def)

theorem unsorted_names_rejected_pass: "test_unsorted_names_rejected"
  by (simp add: test_unsorted_names_rejected_def made_entries is_err_encode valid_page)

theorem duplicate_names_rejected_pass: "test_duplicate_names_rejected"
  by (simp add: test_duplicate_names_rejected_def made_entries is_err_encode valid_page)

lemmas decode_literal = page_decode_def PAGE_HEADER_LEN_def PAGE_MAX_BYTES_def slice_of_def sub_def at_index_def read_u16_def read_u32_def
  read_u64_def get_range_def from_le_bytes_def MAX_TOTAL_ENTRIES_def MTP2_MAGIC_def ascii_def

theorem trailing_bytes_rejected_pass: "test_trailing_bytes_rejected"
  by (simp add: test_trailing_bytes_rejected_def unwrapped_encode empty_leaf is_err_iff decode_literal replicate_numeral)

theorem bad_page_kind_rejected_pass: "test_bad_page_kind_rejected"
  by (simp add: test_bad_page_kind_rejected_def unwrapped_encode empty_leaf is_err_iff decode_literal replicate_numeral)

text \<open>A directory of one file, and the same page with the last bit of its content id flipped.\<close>

definition file_a :: "digest \<Rightarrow> page" where
  "file_a c = Leaf [\<lparr>e_kind = Regular, e_name = [0x61], e_size = 1, e_content_id = c, e_child_root = replicate 32 0\<rparr>]"

lemma literal_numbers: "le_bytes (1 :: u16) = [1, 0]" "le_bytes (2 :: u16) = [2, 0]" "le_bytes (0 :: u16) = [0, 0]"
  "le_bytes (44 :: u32) = [44, 0, 0, 0]" "le_bytes (85 :: u32) = [85, 0, 0, 0]" "le_bytes (1 :: u64) = [1, 0, 0, 0, 0, 0, 0, 0]"
  by (simp_all add: le_bytes_def to_le_literal)

lemma file_a:
  assumes "length c = 32"
  shows "page_valid (file_a c)" "page_wf (file_a c)"
    "page_bytes (file_a c) = MTP2_MAGIC @ [0, 0, 1, 0, 1, 0, 0, 0, 0, 0, 0, 0, 44, 0, 0, 0, 1, 1, 0, 0x61, 1, 0, 0, 0, 0, 0, 0, 0] @ c"
proof -
  show "page_valid (file_a c)" "page_wf (file_a c)"
    using assms by (simp_all add: file_a_def valid_page page_wf_def entry_wf_def)
  show "page_bytes (file_a c) = MTP2_MAGIC @ [0, 0, 1, 0, 1, 0, 0, 0, 0, 0, 0, 0, 44, 0, 0, 0, 1, 1, 0, 0x61, 1, 0, 0, 0, 0, 0, 0, 0] @ c"
    using assms by (simp add: file_a_def page_bytes_def page_kind_field_def page_count_field_def page_total_def page_body_def entry_bytes_def is_dir_def
      literal_numbers write_defs)
qed

lemma file_a_inject: "length c = 32 \<Longrightarrow> length c' = 32 \<Longrightarrow> page_bytes (file_a c) = page_bytes (file_a c') \<longleftrightarrow> c = c'"
  by (simp only: file_a(3) append_eq_append_conv same_append_eq append_assoc)

lemma file_a_flip: "length c = 32 \<Longrightarrow>
    (page_bytes (file_a c))[length (page_bytes (file_a c)) - 1 := last (page_bytes (file_a c)) XOR 1] = page_bytes (file_a (c[31 := last c XOR 1]))"
  by (subst (1 2 3) file_a(3); simp add: file_a(3) list_update_append MTP2_MAGIC_def ascii_def last_append)

theorem branch_tampering_detected_by_page_id_pass:
  assumes "no_page_collision H {page_bytes (file_a (cid 1)), page_bytes (file_a ((cid 1)[31 := 0]))}"
  shows "test_branch_tampering_detected_by_page_id H"
proof -
  have l: "length (cid 1) = 32" "length ((cid 1)[31 := 0]) = 32" "cid 1 \<noteq> (cid 1)[31 := 0]" "last (cid 1) = 1"
    by (simp_all add: cid_def replicate_numeral)
  have made: "entry_file Regular (ascii ''a'') 1 (cid 1) = Ok \<lparr>e_kind = Regular, e_name = [0x61], e_size = 1, e_content_id = cid 1, e_child_root = replicate 32 0\<rparr>"
    by (simp add: entry_file_def ascii_def)
  obtain b b' where b: "b = page_bytes (file_a (cid 1))" "b' = page_bytes (file_a ((cid 1)[31 := 0]))" by blast
  have "b \<noteq> b'" unfolding b file_a_inject [OF l(1,2)] by (rule l(3))
  moreover have "page_id H b' = page_id H b \<Longrightarrow> b' = b" by (rule no_page_collisionD [OF assms]) (simp_all only: b insert_iff simp_thms)
  ultimately have "page_id H b' \<noteq> page_id H b" by argo
  moreover have "b[length b - 1 := last b XOR 1] = b'"
    unfolding b file_a_flip [OF l(1)] by (simp add: l(4))
  moreover have "is_ok (page_decode b')" using page_decode_bytes [OF file_a(2) [OF l(2)] file_a(1) [OF l(2)]] b by simp
  ultimately show ?thesis using file_a(1) [OF l(1)]
    by (simp add: test_branch_tampering_detected_by_page_id_def with_entries_def made unwrapped_encode Let_def
      file_a_def [symmetric] b(1) [symmetric] del: length_page_bytes)
qed

lemma counted_page: "branch_with_counts [a, b] = Branch [] None
    [\<lparr>label = 0, subtree_entries = a, child_page_id = cid 1\<rparr>, \<lparr>label = 1, subtree_entries = b, child_page_id = cid 2\<rparr>]"
  by (simp add: branch_with_counts_def)

lemma counted_valid: "page_valid (branch_with_counts [a, b]) \<longleftrightarrow> a \<noteq> 0 \<and> b \<noteq> 0 \<and> unat a + unat b < 2 ^ 63"
  by (auto simp: counted_page valid_page cid_def)

lemma counted_bytes: "page_bytes (branch_with_counts [a, b]) =
    MTP2_MAGIC @ [1, 0, 2, 0] @ le_bytes (a + b) @ [85, 0, 0, 0, 0, 0, 0] @ [0] @ le_bytes a @ cid 1 @ [1] @ le_bytes b @ cid 2"
  by (simp add: counted_page page_bytes_def page_body_def page_total_def counts_sum_def child_bytes_def page_kind_field_def page_count_field_def
    cid_def literal_numbers)

lemma counted_wf: "page_wf (branch_with_counts [a, b])"
  by (simp add: counted_page page_wf_def child_wf_def cid_def)

lemma length_cid [simp]: "length (cid b) = 32"
  by (simp add: cid_def)

lemma kinds_page:
  assumes "es = [\<lparr>e_kind = Regular, e_name = ascii ''a.txt'', e_size = 5, e_content_id = cid 1, e_child_root = replicate 32 0\<rparr>,
     \<lparr>e_kind = Symlink, e_name = ascii ''lnk'', e_size = 3, e_content_id = cid 3, e_child_root = replicate 32 0\<rparr>,
     \<lparr>e_kind = Executable, e_name = ascii ''run.sh'', e_size = 100, e_content_id = cid 2, e_child_root = replicate 32 0\<rparr>,
     \<lparr>e_kind = Directory, e_name = ascii ''sub'', e_size = 0, e_content_id = replicate 32 0, e_child_root = cid 4\<rparr>]"
  shows "page_valid (Leaf es)" "page_wf (Leaf es)" "dir_ok es"
  using assms by (simp_all add: valid_page page_wf_def entry_wf_def dir_ok_def entry_ok_def cid_def MAX_DEPTH_def)

theorem entry_roundtrip_all_kinds_pass: "test_entry_roundtrip_all_kinds H"
proof -
  obtain es where es: "es = [\<lparr>e_kind = Regular, e_name = ascii ''a.txt'', e_size = 5, e_content_id = cid 1, e_child_root = replicate 32 0\<rparr>,
     \<lparr>e_kind = Symlink, e_name = ascii ''lnk'', e_size = 3, e_content_id = cid 3, e_child_root = replicate 32 0\<rparr>,
     \<lparr>e_kind = Executable, e_name = ascii ''run.sh'', e_size = 100, e_content_id = cid 2, e_child_root = replicate 32 0\<rparr>,
     \<lparr>e_kind = Directory, e_name = ascii ''sub'', e_size = 0, e_content_id = replicate 32 0, e_child_root = cid 4\<rparr>]" by blast
  have t: "page_total (Leaf es) = 4" using es by (simp add: page_total_def)
  show ?thesis using page_decode_bytes [OF kinds_page(2) [OF es] kinds_page(1) [OF es]] page_build_leaf [OF kinds_page(3) [OF es] kinds_page(1) [OF es]] kinds_page(1) [OF es] t
    by (simp add: test_entry_roundtrip_all_kinds_def with_entries_def entry_file_def entry_dir_def es [symmetric] unwrapped_encode)
qed

theorem branch_total_entries_accepts_the_limit_and_rejects_larger_values_pass:
  "test_branch_total_entries_accepts_the_limit_and_rejects_larger_values"
proof -
  let ?p = "branch_with_counts [MAX_TOTAL_ENTRIES - 1, 1]"
  have m: "MAX_TOTAL_ENTRIES = 9223372036854775807" by (simp add: MAX_TOTAL_ENTRIES_def)
  have v: "page_valid ?p" "\<not> page_valid (branch_with_counts [MAX_TOTAL_ENTRIES, 1])" by (simp_all add: counted_valid m)
  have t: "of_nat (page_total ?p) = MAX_TOTAL_ENTRIES" by (simp add: counted_page page_total_def counts_sum_def m)
  have "is_err (page_decode (put_slice 8 (le_bytes (MAX_TOTAL_ENTRIES + 1)) (page_bytes ?p)))"
    unfolding is_err_clean [OF clean_page_decode] is_ok_iff
  proof
    assume "\<exists>x. page_decode (put_slice 8 (le_bytes (MAX_TOTAL_ENTRIES + 1)) (page_bytes ?p)) = Ok x"
    then obtain q n where "page_decode (put_slice 8 (le_bytes (MAX_TOTAL_ENTRIES + 1)) (page_bytes ?p)) = Ok (q, n)" by force
    then have q: "page_valid q" "put_slice 8 (le_bytes (MAX_TOTAL_ENTRIES + 1)) (page_bytes ?p) = page_bytes q" unfolding page_decode_Ok by blast+
    have "sub 8 8 (page_bytes q) = le_bytes (of_nat (page_total q) :: u64)" by (simp add: page_bytes_def sub_def)
    moreover have "sub 8 8 (put_slice 8 (le_bytes (MAX_TOTAL_ENTRIES + 1)) (page_bytes ?p)) = le_bytes (MAX_TOTAL_ENTRIES + 1)"
      by (simp add: put_slice_def sub_def counted_bytes)
    ultimately have "of_nat (page_total q) = MAX_TOTAL_ENTRIES + 1" using q(2) by (simp add: le_bytes_inject)
    moreover have "page_total q < 2 ^ 63" using q(1) by (auto simp: page_valid_def page_shape_ok_def page_total_def split: page.splits)
    ultimately show False using unat_of_nat_u64 [of "page_total q"] by (simp add: m)
  qed
  then show ?thesis using v t page_decode_bytes [OF counted_wf v(1)]
    by (simp add: test_branch_total_entries_accepts_the_limit_and_rejects_larger_values_def unwrapped_encode is_err_encode)
qed

text \<open>A page with a well-formed branch header is judged by its payload.\<close>

lemma page_decode_branch_header:
  assumes "length payload \<le> 16364" "tot \<le> MAX_TOTAL_ENTRIES"
  shows "page_decode (MTP2_MAGIC @ [1, 0] @ le_bytes (of_nat n :: u16) @ le_bytes tot @ le_bytes (of_nat (length payload) :: u32) @ payload)
    = branch_page_decode (unat (of_nat n :: u16)) tot payload"
proof -
  let ?b = "MTP2_MAGIC @ [1, 0] @ le_bytes (of_nat n :: u16) @ le_bytes tot @ le_bytes (of_nat (length payload) :: u32) @ payload"
  have "unat (of_nat (length payload) :: u32) = length payload" using assms(1) by (simp add: unat_of_nat take_bit_nat_eq_self)
  moreover have "sub 6 2 ?b = le_bytes (of_nat n :: u16)" "sub 8 8 ?b = le_bytes tot"
    "sub 16 4 ?b = le_bytes (of_nat (length payload) :: u32)"
    by (simp_all add: sub_def)
  moreover have "\<not> MAX_TOTAL_ENTRIES < tot" using assms(2) by (simp add: not_less)
  ultimately show ?thesis using assms(1)
    by (simp add: Let_def page_decode_def PAGE_HEADER_LEN_def PAGE_MAX_BYTES_def read_u16_eq_Ok [THEN iffD2] read_u32_eq_Ok [THEN iffD2]
      read_u64_eq_Ok [THEN iffD2] slice_of_def at_index_def nth_append sub_def)
qed

theorem branch_count_overflow_is_an_error_without_panicking_pass: "test_branch_count_overflow_is_an_error_without_panicking"
proof -
  let ?p = "branch_with_counts [1, 1]" and ?pay = "[0, 0, 0, 0] @ le_bytes (- 1 :: u64) @ cid 1 @ [1] @ le_bytes (1 :: u64) @ cid 2"
  have v: "page_valid ?p" "\<not> page_valid (branch_with_counts [- 1, 1])"
    by (simp_all add: counted_valid unsigned_minus_1_eq_mask mask_eq_exp_minus_1)
  have f: "put_slice (20 + 3 + 1 + 41) (le_bytes (1 :: u64)) (put_slice (20 + 3 + 1) (le_bytes (- 1 :: u64)) (put_slice 8 (le_bytes (0 :: u64)) (page_bytes ?p)))
      = MTP2_MAGIC @ [1, 0] @ le_bytes (of_nat 2 :: u16) @ le_bytes (0 :: u64) @ le_bytes (of_nat (length ?pay) :: u32) @ ?pay"
    by (simp add: counted_bytes put_slice_def literal_numbers)
  obtain pay where pay: "pay = ?pay" by blast
  have r: "read_u16 pay 0 = Ok 0" unfolding pay by (simp add: read_u16_eq_Ok literal_numbers sub_def)
  have l: "length pay = 85" "pay ! 2 = 0" unfolding pay by simp_all
  have c: "children_loop pay 2 3 None [] = Ok ([\<lparr>label = 0, subtree_entries = - 1, child_page_id = cid 1\<rparr>,
      \<lparr>label = 1, subtree_entries = 1, child_page_id = cid 2\<rparr>], 85)"
    using children_loop_encode [of "[\<lparr>label = 0, subtree_entries = - 1, child_page_id = cid 1\<rparr>,
      \<lparr>label = 1, subtree_entries = 1, child_page_id = cid 2\<rparr>]" None 3 ?pay "[]"] unfolding pay
    by (simp add: child_wf_def child_bytes_def sub_def numeral_2_eq_2)
  have "branch_page_decode 2 0 pay = Err (Overflow ''branch child counts'')"
    by (simp add: branch_page_decode_def r l c Let_def MAX_DEPTH_def get_range_def at_index_def read_terminal_def BRANCH_MAX_CHILDREN_def
      checked_add64_def unsigned_minus_1_eq_mask mask_eq_exp_minus_1 numeral_2_eq_2 [symmetric])
  then have "page_decode (MTP2_MAGIC @ [1, 0] @ le_bytes (of_nat 2 :: u16) @ le_bytes (0 :: u64) @ le_bytes (of_nat (length ?pay) :: u32) @ ?pay)
      = Err (Overflow ''branch child counts'')"
    using page_decode_branch_header [of pay 0 2] l unfolding pay by simp
  then show ?thesis using v
    by (simp only: test_branch_count_overflow_is_an_error_without_panicking_def unwrapped_encode is_err_encode PAGE_HEADER_LEN_def f Let_def
      HOL.simp_thms sum.case fault.case codec_error.case)
qed

lemma prefixed_bytes:
  assumes "length p \<le> 255"
  shows "page_valid (with_prefix p (branch_with_counts [1, 1]))" "page_wf (with_prefix p (branch_with_counts [1, 1]))"
    "page_bytes (with_prefix p (branch_with_counts [1, 1])) = MTP2_MAGIC @ [1, 0, 2, 0] @ le_bytes (2 :: u64) @ le_bytes (85 + of_nat (length p) :: u32)
      @ le_bytes (of_nat (length p) :: u16) @ p @ [0] @ concat (map child_bytes (case branch_with_counts [1, 1] of Branch _ _ cs \<Rightarrow> cs | _ \<Rightarrow> []))"
  using assms by (simp_all add: with_prefix_def counted_page valid_page cid_def page_wf_def child_wf_def page_bytes_def
    page_total_def page_kind_field_def page_count_field_def literal_numbers add.commute)

lemma prefix_too_long: "length p \<ge> 256 \<Longrightarrow> \<not> page_valid (with_prefix p (branch_with_counts [1, 1]))"
  by (simp add: with_prefix_def counted_page valid_page)

theorem branch_prefix_length_is_bounded_without_requiring_independent_utf8_pass:
  "test_branch_prefix_length_is_bounded_without_requiring_independent_utf8"
proof -
  obtain p :: bytes where p: "p = replicate 255 0xC3" by blast
  have lp: "length p = 255" "p @ [0xC3] = replicate 256 0xC3" using p by (simp_all add: replicate_append_same flip: replicate_Suc)
  obtain rest where rest: "rest = [0] @ concat (map child_bytes (case branch_with_counts [1, 1] of Branch _ _ cs \<Rightarrow> cs | _ \<Rightarrow> []))" by blast
  have lr: "length rest = 83" unfolding rest by (simp add: counted_page child_bytes_def)
  obtain q where q: "q = with_prefix p (branch_with_counts [1, 1])" by blast
  have b: "page_bytes q = MTP2_MAGIC @ [1, 0, 2, 0] @ le_bytes (2 :: u64) @ le_bytes (340 :: u32) @ le_bytes (255 :: u16) @ p @ rest"
    unfolding q rest using prefixed_bytes(3) [of p] lp by simp
  have v: "page_valid q" "page_wf q" "\<not> page_valid (with_prefix (p @ [0xC3]) q)"
    using prefixed_bytes(1,2) [of p] prefix_too_long [of "p @ [0xC3]"] lp(1) unfolding q by (simp_all add: with_prefix_def counted_page)
  let ?pay = "le_bytes (256 :: u16) @ p @ [0xC3] @ rest"
  have "branch_page_decode 2 2 ?pay = Err (BadLength ''branch prefix over 255 bytes'')"
    by (simp add: branch_page_decode_def read_u16_eq_Ok [THEN iffD2] sub_def MAX_DEPTH_def)
  then have "page_decode (MTP2_MAGIC @ [1, 0, 2, 0] @ le_bytes (2 :: u64) @ le_bytes (341 :: u32) @ ?pay) = Err (BadLength ''branch prefix over 255 bytes'')"
    using page_decode_branch_header [of ?pay 2 2] lp lr by (simp add: MAX_TOTAL_ENTRIES_def literal_numbers)
  moreover obtain f1 where f1: "f1 = put_slice 20 (le_bytes (256 :: u16)) (page_bytes q)" by blast
  then have f1': "f1 = MTP2_MAGIC @ [1, 0, 2, 0] @ le_bytes (2 :: u64) @ le_bytes (340 :: u32) @ le_bytes (256 :: u16) @ p @ rest"
    unfolding b by (simp add: put_slice_def)
  obtain f2 where f2: "f2 = take 277 f1 @ [0xC3] @ drop 277 f1" by blast
  then have f2': "f2 = MTP2_MAGIC @ [1, 0, 2, 0] @ le_bytes (2 :: u64) @ le_bytes (340 :: u32) @ ?pay" "length f2 = 361"
    using lp lr unfolding f1' by simp_all
  have f3: "put_slice 16 (le_bytes (341 :: u32)) f2 = MTP2_MAGIC @ [1, 0, 2, 0] @ le_bytes (2 :: u64) @ le_bytes (341 :: u32) @ ?pay"
    unfolding f2'(1) by (simp add: put_slice_def)
  ultimately have "is_err (page_decode (put_slice 16 (le_bytes (of_nat (length f2 - 20) :: u32)) f2))" by (simp add: f2'(2) f3 is_err_iff)
  then show ?thesis using v page_decode_bytes [OF v(2,1)]
    unfolding test_branch_prefix_length_is_bounded_without_requiring_independent_utf8_def Let_def MAX_DEPTH_def PAGE_HEADER_LEN_def p [symmetric]
      q [symmetric] unwrapped_encode is_err_encode f1 f2 by (simp add: unwrapped_iff)
qed

end
