(* ===== verification/Page_Build_Tests.thy ===== *)
theory Page_Build_Tests
  imports Metapage_Tests "HOL-Library.Multiset"
begin

text \<open>
  The unit tests of \<^verbatim>\<open>src/metapage.rs\<close> that build directories of many files. Their names are formatted numbers:
  \<open>pad_digits\<close> is \<open>format!\<close> with a width, for the numbers that fit it. Sorting is the stable \<open>sort_key\<close>, as
  \<open>sort_by\<close> is. A test that compares page ids passes if the digest does not collide on the pages it compares.
\<close>

unbundle bit_operations_syntax

definition digit_char :: "nat \<Rightarrow> u8" where
  "digit_char d = of_nat (if d < 10 then 48 + d else 87 + d)"

fun pad_digits :: "nat \<Rightarrow> nat \<Rightarrow> nat \<Rightarrow> bytes" where
  "pad_digits base 0 i = []"
| "pad_digits base (Suc w) i = pad_digits base w (i div base) @ [digit_char (i mod base)]"

lemma length_pad_digits [simp]: "length (pad_digits base w i) = w"
  by (induction w arbitrary: i) simp_all

lemma list_less_append: "length xs = length ys \<Longrightarrow> xs < ys \<Longrightarrow> xs @ as < ys @ (bs :: 'a::linorder list)"
  by (induction xs ys rule: list_induct2) auto

lemma digit_char_mono: "d < e \<Longrightarrow> e < 16 \<Longrightarrow> digit_char d < digit_char e"
  by (simp add: digit_char_def word_less_nat_alt unat_of_nat)

lemma pad_digits_mono: "i < j \<Longrightarrow> j < base ^ w \<Longrightarrow> 0 < base \<Longrightarrow> base \<le> 16 \<Longrightarrow> pad_digits base w i < pad_digits base w j"
proof (induction w arbitrary: i j)
  case (Suc w)
  have j: "j div base < base ^ w" using Suc.prems by (simp add: less_mult_imp_div_less mult.commute)
  consider "i div base < j div base" | "i div base = j div base" using div_le_mono [of i j base] Suc.prems(1) by linarith
  then show ?case
  proof cases
    case 1
    then show ?thesis using Suc.IH [OF 1 j] Suc.prems by (simp add: list_less_append)
  next
    case 2
    then have "i mod base < j mod base" using Suc.prems(1) by (metis div_mult_mod_eq nat_add_left_cancel_less)
    moreover have "j mod base < 16" using Suc.prems(3,4) by (metis less_le_trans mod_less_divisor)
    ultimately show ?thesis using 2 by (simp add: append_less_iff digit_char_mono)
  qed
qed simp

lemma set_pad_digits: "c \<in> set (pad_digits base w i) \<Longrightarrow> 0 < base \<Longrightarrow> base \<le> 16 \<Longrightarrow> 48 \<le> c \<and> c < 0x80"
proof (induction w arbitrary: i)
  case (Suc w)
  have "i mod base < 16" using Suc.prems(2,3) by (metis less_le_trans mod_less_divisor)
  then have "48 \<le> digit_char (i mod base) \<and> digit_char (i mod base) < 0x80"
    by (simp add: digit_char_def word_less_nat_alt word_le_nat_alt unat_of_nat)
  then show ?case using Suc by auto
qed simp

text \<open>The files of a test, one for each number.\<close>

definition file_of :: "(nat \<Rightarrow> bytes) \<Rightarrow> (nat \<Rightarrow> u64) \<Rightarrow> (nat \<Rightarrow> u8) \<Rightarrow> nat \<Rightarrow> entry" where
  "file_of nm sz c i = \<lparr>e_kind = Regular, e_name = nm i, e_size = sz i, e_content_id = cid (c i), e_child_root = replicate 32 0\<rparr>"

lemma with_files: "with_entries (map (\<lambda>i. entry_file Regular (nm i) (sz i) (cid (c i))) is) rest \<longleftrightarrow> rest (map (file_of nm sz c) is)"
proof -
  have "traverse (\<lambda>m. m) (map (\<lambda>i. entry_file Regular (nm i) (sz i) (cid (c i))) is) = Ok (map (file_of nm sz c) is)"
    by (induction "is") (simp_all add: entry_file_def file_of_def)
  then show ?thesis by (simp add: with_entries_def)
qed

lemma numbered_files:
  assumes "n \<le> base ^ w" "0 < base" "base \<le> 16" "0 < w" "length pre + w \<le> 255" "\<forall>b\<in>set pre. b \<noteq> 0 \<and> b \<noteq> slash \<and> b \<noteq> dot \<and> b < 0x80"
  shows "dir_ok (map (file_of (\<lambda>i. pre @ pad_digits base w i) sz c) [0..<n])"
proof -
  have "canonical_name (pre @ pad_digits base w i)" for i
  proof -
    have "b \<noteq> 0 \<and> b \<noteq> slash \<and> b \<noteq> dot \<and> b < 0x80" if "48 \<le> b \<and> b < 0x80" for b :: u8 using that by (auto simp: slash_def dot_def)
    then have l: "b \<noteq> 0 \<and> b \<noteq> slash \<and> b \<noteq> dot \<and> b < 0x80" if "b \<in> set (pre @ pad_digits base w i)" for b
      using that assms(6) set_pad_digits [OF _ assms(2,3)] by (metis Un_iff set_append)
    have "is_utf8 (pre @ pad_digits base w i)" by (rule is_utf8_ascii) (use l in blast)
    moreover have "0 \<notin> set (pre @ pad_digits base w i)" "slash \<notin> set (pre @ pad_digits base w i)" "dot \<notin> set (pre @ pad_digits base w i)"
      using l by blast+
    moreover have "s \<noteq> [dot]" "s \<noteq> [dot, dot]" if "dot \<notin> set s" for s using that by auto
    moreover have "pre @ pad_digits base w i \<noteq> []" using assms(4) by (cases w) auto
    ultimately show ?thesis using assms(5) unfolding canonical_name_def by auto
  qed
  then have "\<forall>e\<in>set (map (file_of (\<lambda>i. pre @ pad_digits base w i) sz c) [0..<n]). entry_valid e"
    by (auto simp: entry_valid_def file_of_def is_dir_def)
  moreover have "sorted_wrt (<) (map e_name (map (file_of (\<lambda>i. pre @ pad_digits base w i) sz c) [0..<n]))"
    using assms(1-3) by (auto simp: sorted_wrt_map file_of_def append_less_iff pad_digits_mono intro!: sorted_wrt_mono_rel [OF _ sorted_wrt_upt [of 0 n]])
  ultimately show "dir_ok (map (file_of (\<lambda>i. pre @ pad_digits base w i) sz c) [0..<n])" unfolding dir_ok_def by blast
qed

lemma files_wf: "\<forall>e\<in>set (map (file_of nm sz c) ns). entry_wf e"
  by (auto simp: file_of_def entry_wf_def is_dir_def)

definition test_over_128_entries_must_split :: "hash \<Rightarrow> bool" where
  "test_over_128_entries_must_split H \<longleftrightarrow>
     with_entries (map (\<lambda>i. entry_file Regular (ascii ''n'' @ pad_digits 10 3 i) 1 (cid 1)) [0..<129]) (\<lambda>entries.
       is_err (page_encode (Leaf entries))
       \<and> unwrapped (page_build H entries) (\<lambda>root.
         unwrapped (page_decode root) (\<lambda>(page, n). is_branch page \<and> n = 129)))"

definition test_different_insertion_order_same_root :: "hash \<Rightarrow> bool" where
  "test_different_insertion_order_same_root H \<longleftrightarrow>
     with_entries (map (\<lambda>i. entry_file Regular (ascii ''entry-'' @ pad_digits 10 4 i) (of_nat i) (cid (of_nat (i mod 251)))) [0..<200])
       (\<lambda>a. let b = a; a = rev a; a = sort_key e_name a; b = sort_key e_name b in
         unwrapped (page_build H a) (\<lambda>ra. unwrapped (page_build H b) (\<lambda>rb. ra = rb)))"

definition test_leaf_over_16kib_must_split :: "hash \<Rightarrow> bool" where
  "test_leaf_over_16kib_must_split H \<longleftrightarrow>
     with_entries (map (\<lambda>i. entry_file Regular (pad_digits 16 32 i) 1 (cid 1)) [0..<128]) (\<lambda>entries.
     unwrapped (page_encode (Leaf entries)) (\<lambda>leaf.
       unwrapped (page_build H entries) (\<lambda>root. unwrapped (page_decode root) (\<lambda>(page, _).
         if length leaf > PAGE_MAX_BYTES then is_branch page else \<not> is_branch page))))"

definition test_descending_past_a_leaf_is_rejected :: "hash \<Rightarrow> bool" where
  "test_descending_past_a_leaf_is_rejected H \<longleftrightarrow>
     with_entries [entry_file Regular (ascii ''a'') 1 (cid 1), entry_file Regular (ascii ''b'') 1 (cid 2)] (\<lambda>entries.
       unwrapped (page_build H entries) (\<lambda>root. unwrapped (page_decode root) (\<lambda>r. \<not> is_branch (fst r)))
       \<and> is_err (pages_along_route H entries (ascii ''a'')))"

definition test_empty_directory_yields_its_empty_leaf :: "hash \<Rightarrow> bool" where
  "test_empty_directory_yields_its_empty_leaf H \<longleftrightarrow>
     unwrapped (pages_along_route H [] []) (\<lambda>pages.
       length pages = 1
       \<and> unwrapped (page_decode (pages ! 0)) (\<lambda>r. case fst r of Leaf entries \<Rightarrow> entries = [] | _ \<Rightarrow> False)
       \<and> is_err (pages_along_route H [] (ascii ''x'')))"

text \<open>What is built of a directory decodes, and is a branch when one leaf does not hold the directory.\<close>

lemma built_root:
  assumes "sha_ok H" "dir_ok es" "\<forall>e\<in>set es. entry_wf e" "length es < 2 ^ 63"
  obtains root p where "page_build H es = Ok root" "page_decode root = Ok (p, of_nat (length es))" "is_branch p \<longleftrightarrow> \<not> page_valid (Leaf es)"
proof -
  obtain root where b: "page_build H es = Ok root" using page_build_total [OF assms] by blast
  from assms(1) b assms(3,4) show thesis
  proof (cases rule: page_build_cases)
    case leaf
    then show thesis using that [OF b, of "Leaf es"] page_decode_bytes [OF leaf(1,2)] by (simp add: is_branch_def page_total_def)
  next
    case (branch p t gs cs)
    then show thesis using that [OF b, of "Branch p t cs"] page_decode_bytes [OF branch(6,7)] by (simp add: is_branch_def)
  qed
qed

lemma big_leaf: "128 < length es \<Longrightarrow> \<not> page_valid (Leaf es)"
  by (simp add: page_valid_def page_shape_ok_def)

theorem over_128_entries_must_split_pass:
  assumes "sha_ok H"
  shows "test_over_128_entries_must_split H"
proof -
  let ?es = "map (file_of (\<lambda>i. ascii ''n'' @ pad_digits 10 3 i) (\<lambda>_. 1) (\<lambda>_. 1)) [0..<129]"
  have n: "dir_ok ?es" by (rule numbered_files) (simp_all add: ascii_def slash_def dot_def)
  have v: "\<not> page_valid (Leaf ?es)" by (rule big_leaf) simp
  obtain root p where "page_build H ?es = Ok root" "page_decode root = Ok (p, 129)" "is_branch p"
    using built_root [OF assms n files_wf] v by auto
  then show ?thesis using v by (simp add: test_over_128_entries_must_split_def with_files is_err_encode del: upt_rec_numeral)
qed

lemma dir_names: "dir_ok es \<Longrightarrow> inj_on e_name (set es)" "dir_ok es \<Longrightarrow> sort_key e_name es = es"
  unfolding dir_ok_def strict_sorted_iff by (simp_all add: sort_key_id_if_sorted distinct_map)

theorem different_insertion_order_same_root_pass:
  assumes "sha_ok H"
  shows "test_different_insertion_order_same_root H"
proof -
  let ?es = "map (file_of (\<lambda>i. ascii ''entry-'' @ pad_digits 10 4 i) of_nat (\<lambda>i. of_nat (i mod 251))) [0..<200]"
  have n: "dir_ok ?es" by (rule numbered_files) (simp_all add: ascii_def slash_def dot_def)
  obtain root where "page_build H ?es = Ok root" using built_root [OF assms n files_wf] by auto
  moreover have "sort_key e_name (rev ?es) = sort_key e_name ?es"
    by (rule sort_key_inj_key_eq) (use dir_names(1) [OF n] in simp_all)
  ultimately show ?thesis
    by (simp only: test_different_insertion_order_same_root_def with_files Let_def dir_names(2) [OF n] unwrapped_simps)
qed

text \<open>128 names of 32 hexadecimal digits take 20 + 128 * 75 bytes, which fit one page: the test runs its second branch.\<close>

theorem leaf_over_16kib_must_split_pass:
  assumes "sha_ok H"
  shows "test_leaf_over_16kib_must_split H"
proof -
  let ?es = "map (file_of (\<lambda>i. pad_digits 16 32 i) (\<lambda>_. 1) (\<lambda>_. 1)) [0..<128]"
  have n: "dir_ok ?es" using numbered_files [of 128 16 32 "[]"] by simp
  have "length (page_body (Leaf ?es)) = 9600"
    by (simp add: page_body_def length_concat comp_def file_of_def entry_bytes_def is_dir_def sum_list_triv del: upt_rec_numeral)
  moreover have "page_shape_ok (Leaf ?es)" using n by (simp add: page_shape_ok_def dir_ok_def ascending_from_iff del: upt_rec_numeral)
  ultimately have v: "page_valid (Leaf ?es)" "\<not> PAGE_MAX_BYTES < length (page_bytes (Leaf ?es))" by (simp_all add: page_valid_def PAGE_MAX_BYTES_def)
  obtain root p where "page_build H ?es = Ok root" "page_decode root = Ok (p, 128)" "\<not> is_branch p"
    using built_root [OF assms n files_wf] v by auto
  then show ?thesis using v by (simp add: test_leaf_over_16kib_must_split_def with_files unwrapped_encode del: upt_rec_numeral length_page_bytes)
qed

theorem empty_directory_yields_its_empty_leaf_pass: "test_empty_directory_yields_its_empty_leaf H"
proof -
  have "page_build H [] = Ok (page_bytes (Leaf []))" by (rule page_build_leaf) (simp_all add: dir_ok_def empty_leaf)
  then show ?thesis using page_decode_bytes [OF empty_leaf(2,1)]
    by (simp add: test_empty_directory_yields_its_empty_leaf_def pages_along_route_def ascii_def)
qed

theorem descending_past_a_leaf_is_rejected_pass: "test_descending_past_a_leaf_is_rejected H"
proof -
  let ?nm = "\<lambda>i. if i = 0 then ascii ''a'' else ascii ''b''" and ?c = "\<lambda>i. if i = 0 then 1 else 2"
  let ?es = "map (file_of ?nm (\<lambda>_. 1) ?c) [0, 1]"
  have d: "dir_ok ?es" "page_valid (Leaf ?es)"
    by (simp_all add: dir_ok_def file_of_def valid_page)
  have "page_build H ?es = Ok (page_bytes (Leaf ?es))" by (rule page_build_leaf [OF d])
  moreover have "page_decode (page_bytes (Leaf ?es)) = Ok (Leaf ?es, of_nat (page_total (Leaf ?es)))"
    by (rule page_decode_bytes [OF _ d(2)]) (unfold page_wf_def page.case, rule files_wf)
  moreover have "test_descending_past_a_leaf_is_rejected H \<longleftrightarrow>
      unwrapped (page_build H ?es) (\<lambda>root. unwrapped (page_decode root) (\<lambda>r. \<not> is_branch (fst r)))
       \<and> is_err (pages_along_route H ?es (ascii ''a''))"
    using with_files [of ?nm "\<lambda>_. 1" ?c "[0, 1]"] by (simp add: test_descending_past_a_leaf_is_rejected_def)
  moreover have "ascii ''a'' = [0x61]" by (simp add: ascii_def)
  ultimately show ?thesis by (simp add: pages_along_route_def is_branch_def del: list.map)
qed

definition many_files :: "nat \<Rightarrow> (entry list \<Rightarrow> bool) \<Rightarrow> bool" where
  "many_files n rest =
     with_entries (map (\<lambda>i. entry_file Regular (ascii ''a'' @ pad_digits 10 6 i) (of_nat i) (cid (of_nat i))) [0..<n])
       (\<lambda>v. rest (sort_key e_name v))"

definition test_empty_route_returns_the_root_page :: "hash \<Rightarrow> bool" where
  "test_empty_route_returns_the_root_page H \<longleftrightarrow>
     many_files 600 (\<lambda>entries.
     unwrapped (page_build H entries) (\<lambda>root.
     unwrapped (pages_along_route H entries []) (\<lambda>pages.
       length pages = 1 \<and> pages ! 0 = root \<and> unwrapped (page_decode root) (\<lambda>r. is_branch (fst r)))))"

text \<open>\<open>let Page::Branch { children, .. } = page else { panic! }\<close>\<close>

definition branch_children_of :: "page \<Rightarrow> (branch_child list \<Rightarrow> bool) \<Rightarrow> bool" where
  "branch_children_of page rest = (case page of Branch _ _ children \<Rightarrow> rest children | Leaf _ \<Rightarrow> False)"

definition test_route_walk_matches_the_parent_page_children :: "hash \<Rightarrow> bool" where
  "test_route_walk_matches_the_parent_page_children H \<longleftrightarrow>
     many_files 600 (\<lambda>entries.
     unwrapped (page_build H entries) (\<lambda>root.
     unwrapped (page_decode root) (\<lambda>(page, _).
     branch_children_of page (\<lambda>children.
       list_all (\<lambda>child.
         unwrapped (pages_along_route H entries [label child]) (\<lambda>pages.
           length pages = 2 \<and> pages ! 0 = root \<and> page_id H (pages ! 1) = child_page_id child)) children))))"

text \<open>One round of the loop of \<open>two_level_route_resolves_to_a_leaf\<close>: what it adds to \<open>saw_two_level\<close>.\<close>

definition two_level_round :: "hash \<Rightarrow> entry list \<Rightarrow> bytes \<Rightarrow> branch_child \<Rightarrow> nat res" where
  "two_level_round H entries root child =
     (case pages_along_route H entries [label child] of
        Inl (Fail _) \<Rightarrow> Ok 0
      | Inl _ \<Rightarrow> Crash
      | Inr pages \<Rightarrow>
          and_then (at_index pages 1) (\<lambda>page1.
          and_then (page_decode page1) (\<lambda>(subpage, _).
          case subpage of
            Leaf _ \<Rightarrow> Ok 0
          | Branch _ _ grand \<Rightarrow>
              and_then (at_index grand 0) (\<lambda>first.
              and_then (pages_along_route H entries [label child, label first]) (\<lambda>deep.
              if length deep = 3 \<and> deep ! 0 = root \<and> deep ! 1 = page1 \<and> page_id H (deep ! 2) = child_page_id first
              then Ok 1 else Crash)))))"

definition test_two_level_route_resolves_to_a_leaf :: "hash \<Rightarrow> bool" where
  "test_two_level_route_resolves_to_a_leaf H \<longleftrightarrow>
     many_files 4000 (\<lambda>entries.
     unwrapped (page_build H entries) (\<lambda>root.
     unwrapped (page_decode root) (\<lambda>(page, _).
     branch_children_of page (\<lambda>children.
       unwrapped (traverse (two_level_round H entries root) children) (\<lambda>saw_two_level. sum_list saw_two_level > 0)))))"

definition test_unknown_route_label_is_an_error_not_an_empty_result :: "hash \<Rightarrow> bool" where
  "test_unknown_route_label_is_an_error_not_an_empty_result H \<longleftrightarrow>
     many_files 600 (\<lambda>entries.
     unwrapped (page_build H entries) (\<lambda>root.
     unwrapped (page_decode root) (\<lambda>(page, _).
     branch_children_of page (\<lambda>children.
       case find (\<lambda>l. \<not> list_ex (\<lambda>c. label c = l) children) (map of_nat [0x61..<0x7B] @ map of_nat [0x41..<0x5B]) of
         Some missing \<Rightarrow> is_err (pages_along_route H entries [missing])
       | None \<Rightarrow> False))))"

text \<open>The root of a directory that needs a branch: its labels are those below which there are entries.\<close>

lemma built_branch:
  assumes H: "sha_ok H" and d: "dir_ok es" and wf: "\<forall>e\<in>set es. entry_wf e" "length es < 2 ^ 63" and v: "\<not> page_valid (Leaf es)"
  obtains root t cs where "page_build H es = Ok root"
    "page_decode root = Ok (Branch (Longest_common_prefix (set (map e_name es))) t cs, of_nat (length es))"
    "cs \<noteq> []" "distinct (map label cs)" "\<And>l. l \<in> set (map label cs) \<longleftrightarrow> below es l \<noteq> []"
proof -
  obtain root where b: "page_build H es = Ok root" using page_build_total [OF H d wf] by blast
  from H b wf show thesis
  proof (cases rule: page_build_cases)
    case (branch p t gs cs)
    have sp: "groups_ok p gs" "p = Longest_common_prefix (set (map e_name es))" "gs \<noteq> []" using branch(4) unfolding split_ok_def by (auto split: if_splits)
    have "map label cs = map fst gs" using branch(5) by (induction rule: list_all2_induct) (simp_all add: built_child_def)
    moreover have "l \<in> set (map fst gs) \<longleftrightarrow> below es l \<noteq> []" for l using below_group [OF branch(4), of l] by force
    moreover have "page_decode root = Ok (Branch p t cs, of_nat (length es))" using branch by (simp add: page_decode_bytes)
    ultimately show thesis using that [OF b, of t cs] groups_labels(1) [OF sp(1)] sp(2,3) by (metis map_is_Nil_conv)
  qed (use v in simp)
qed

text \<open>The children of that root, and where a route of one label leads.\<close>

lemma built_branch_child:
  assumes H: "sha_ok H" and d: "dir_ok es" and wf: "\<forall>e\<in>set es. entry_wf e" "length es < 2 ^ 63" and v: "\<not> page_valid (Leaf es)"
    and b: "page_build H es = Ok root" "page_decode root = Ok (Branch p t cs, n)" and c: "c \<in> set cs" and l: "below es (label c) \<noteq> []"
  obtains bs where "page_build H (below es (label c)) = Ok bs" "pages_along_route H es [label c] = Ok [root, bs]" "page_id H bs = child_page_id c"
    "verify_received_child H root (label c) bs = Ok ()"
    "\<And>acc ls. route_loop H es root acc (label c # ls) = route_loop H (below es (label c)) bs (acc @ [bs]) ls"
    "\<And>ls. pages_along_route H es (label c # ls) = route_loop H (below es (label c)) bs [root, bs] ls"
    "\<forall>e\<in>set (below es (label c)). entry_wf e" "length (below es (label c)) < 2 ^ 63" "dir_ok (below es (label c))"
proof (rule route_loop_step [OF H wf b(1) v l])
  fix bs
  assume s: "page_build H (below es (label c)) = Ok bs" "verify_received_child H root (label c) bs = Ok ()"
    "\<And>acc ls. route_loop H es root acc (label c # ls) = route_loop H (below es (label c)) bs (acc @ [bs]) ls"
    "\<forall>e\<in>set (below es (label c)). entry_wf e" "length (below es (label c)) < 2 ^ 63" "dir_ok (below es (label c))"
  have "es \<noteq> []" using l by (auto simp: below_def)
  then have r: "pages_along_route H es (label c # ls) = route_loop H (below es (label c)) bs [root, bs] ls" for ls
    using b(1) s(3) by (simp add: pages_along_route_def)
  obtain c' where c': "c' \<in> set cs" "label c' = label c" "page_id H bs = child_page_id c'"
    using s(2) b(2) unfolding verify_received_child_Ok by auto
  have "distinct (map label cs)" using b(2) by (simp add: page_decode_Ok page_valid_def page_shape_ok_def ascending_from_iff strict_sorted_iff)
  with c c' have "c' = c" by (auto simp: distinct_map inj_on_def)
  then show thesis using that [OF s(1) _ _ s(2,3) r s(4-6)] r [of "[]"] c'(3) by simp
qed

section \<open>The files of \<open>many_files\<close>\<close>

definition many :: "nat \<Rightarrow> entry list" where
  "many n = map (file_of (\<lambda>i. ascii ''a'' @ pad_digits 10 6 i) of_nat of_nat) [0..<n]"

lemma pad_digits_Cons: "pad_digits base (Suc w) i = digit_char (i div base ^ w mod base) # pad_digits base w i"
proof (induction w arbitrary: i)
  case (Suc w)
  show ?case by (subst pad_digits.simps(2), subst Suc.IH) (simp add: div_mult2_eq)
qed simp

lemma many_dir: "n \<le> 1000000 \<Longrightarrow> dir_ok (many n)" "\<forall>e\<in>set (many n). entry_wf e" "length (many n) = n"
  unfolding many_def by (rule numbered_files; simp add: ascii_def slash_def dot_def) (rule files_wf, simp)

lemma many_files: "n \<le> 1000000 \<Longrightarrow> many_files n rest \<longleftrightarrow> rest (many n)"
  using dir_names(2) [OF many_dir(1)] by (simp add: many_files_def with_files many_def)

lemma many_root:
  assumes "128 < n" "n \<le> 1000000"
  shows "\<not> page_valid (Leaf (many n))" "length (many n) < 2 ^ 63"
  using assms by (simp_all add: many_dir(3) big_leaf)

theorem empty_route_returns_the_root_page_pass:
  assumes "sha_ok H"
  shows "test_empty_route_returns_the_root_page H"
proof -
  have v: "\<not> page_valid (Leaf (many 600))" "length (many 600) < 2 ^ 63" by (rule many_root; simp)+
  obtain root p where b: "page_build H (many 600) = Ok root" "page_decode root = Ok (p, of_nat (length (many 600)))" "is_branch p"
    using built_root [OF assms many_dir(1,2) v(2)] v(1) by auto
  have "many 600 \<noteq> []" using many_dir(3) [of 600] by auto
  then have "pages_along_route H (many 600) [] = Ok [root]" using b(1) by (simp add: pages_along_route_def)
  then show ?thesis using b by (simp add: test_empty_route_returns_the_root_page_def many_files)
qed

theorem route_walk_matches_the_parent_page_children_pass:
  assumes "sha_ok H"
  shows "test_route_walk_matches_the_parent_page_children H"
proof -
  have v: "\<not> page_valid (Leaf (many 600))" "length (many 600) < 2 ^ 63" by (rule many_root; simp)+
  have d: "dir_ok (many 600)" by (rule many_dir(1)) simp
  obtain root p t cs where b: "page_build H (many 600) = Ok root" "page_decode root = Ok (Branch p t cs, of_nat (length (many 600)))"
    "\<And>l. l \<in> set (map label cs) \<longleftrightarrow> below (many 600) l \<noteq> []"
    using built_branch [OF assms d many_dir(2) v(2,1)] by metis
  have "\<exists>bs. pages_along_route H (many 600) [label c] = Ok [root, bs] \<and> page_id H bs = child_page_id c" if c: "c \<in> set cs" for c
    using built_branch_child [OF assms d many_dir(2) v(2,1) b(1,2) c] b(3) [of "label c"] c by (metis image_eqI set_map)
  then show ?thesis using b(1,2)
    by (force simp: test_route_walk_matches_the_parent_page_children_def many_files branch_children_of_def list_all_iff unwrapped_iff)
qed

lemma common_prefix_eq:
  assumes "\<forall>x\<in>L. prefix p x" "p @ a # as \<in> L" "p @ b # bs \<in> L" "a \<noteq> b"
  shows "Longest_common_prefix L = p"
proof -
  let ?q = "Longest_common_prefix L"
  have "prefix p ?q" by (rule Longest_common_prefix_max_prefix) (use assms(1,2) in blast)+
  then obtain r where r: "?q = p @ r" by (auto simp: prefix_def)
  have "prefix ?q (p @ a # as)" "prefix ?q (p @ b # bs)" by (rule Longest_common_prefix_prefix; fact)+
  then have "r = []" unfolding r using assms(4) by (cases r) auto
  then show ?thesis using r by simp
qed

text \<open>Names in decimal: the entries below a digit are those with that digit after the common prefix.\<close>

lemma digit_char_inject: "d < 10 \<Longrightarrow> e < 10 \<Longrightarrow> digit_char d = digit_char e \<longleftrightarrow> d = e"
  using digit_char_mono [of d e] digit_char_mono [of e d] by (cases d e rule: linorder_cases) auto

lemma pad_zeros: "i < base ^ w \<Longrightarrow> 0 < base \<Longrightarrow> pad_digits base (m + w) i = replicate m 48 @ pad_digits base w i"
proof (induction m)
  case (Suc m)
  have "base ^ w \<le> base ^ (m + w)" using Suc.prems(2) by (intro power_increasing) simp_all
  then have "i < base ^ (m + w)" using Suc.prems(1) by simp
  then have "i div base ^ (m + w) = 0" by simp
  then show ?case using Suc pad_digits_Cons [of base "m + w" i] by (simp add: digit_char_def del: pad_digits.simps(2))
qed simp

lemma numbered_name:
  assumes "i < 10 ^ Suc k"
  shows "pre @ pad_digits 10 (m + Suc k) i = (pre @ replicate m 48) @ digit_char (i div 10 ^ k) # pad_digits 10 k i"
proof -
  have "i div 10 ^ k < 10" using assms by (simp add: less_mult_imp_div_less)
  then show ?thesis using pad_zeros [OF assms, of m] pad_digits_Cons [of 10 k i] by (simp del: pad_digits.simps(2))
qed

lemma numbered_below:
  fixes m k n :: nat
  assumes es: "es = map (file_of (\<lambda>i. pre @ pad_digits 10 (m + Suc k) i) sz c) [0..<n]" and n: "10 ^ k < n" "n \<le> 10 ^ Suc k"
  shows "Longest_common_prefix (set (map e_name es)) = pre @ replicate m 48"
    "below es l = map (file_of (\<lambda>i. pre @ pad_digits 10 (m + Suc k) i) sz c) (filter (\<lambda>i. l = digit_char (i div 10 ^ k)) [0..<n])"
proof -
  let ?f = "file_of (\<lambda>i. pre @ pad_digits 10 (m + Suc k) i) sz c"
  have nm: "e_name (?f i) = (pre @ replicate m 48) @ digit_char (i div 10 ^ k) # pad_digits 10 k i" if "i < n" for i
    using numbered_name [of i k pre m] that n(2) by (simp add: file_of_def)
  show p: "Longest_common_prefix (set (map e_name es)) = pre @ replicate m 48"
  proof (rule common_prefix_eq)
    show "\<forall>x\<in>set (map e_name es). prefix (pre @ replicate m 48) x" unfolding es using nm by auto
    have "e_name (?f i) \<in> set (map e_name es)" if "i < n" for i using that unfolding es by force
    from this [of 0] this [of "10 ^ k"] show "(pre @ replicate m 48) @ digit_char 0 # pad_digits 10 k 0 \<in> set (map e_name es)"
      "(pre @ replicate m 48) @ digit_char 1 # pad_digits 10 k (10 ^ k) \<in> set (map e_name es)"
      using nm [of 0] nm [of "10 ^ k"] n(1) by simp_all
    show "digit_char 0 \<noteq> digit_char 1" by (simp add: digit_char_inject)
  qed
  have "prefix ((pre @ replicate m 48) @ [l]) (e_name (?f i)) \<longleftrightarrow> l = digit_char (i div 10 ^ k)" if "i < n" for i
    unfolding nm [OF that] by simp
  then show "below es l = map ?f (filter (\<lambda>i. l = digit_char (i div 10 ^ k)) [0..<n])"
    unfolding below_def p unfolding es filter_map comp_def by (intro arg_cong [of _ _ "map ?f"] filter_cong) simp_all
qed

theorem unknown_route_label_is_an_error_not_an_empty_result_pass:
  assumes "sha_ok H"
  shows "test_unknown_route_label_is_an_error_not_an_empty_result H"
proof -
  have v: "\<not> page_valid (Leaf (many 600))" "length (many 600) < 2 ^ 63" by (rule many_root; simp)+
  have d: "dir_ok (many 600)" by (rule many_dir(1)) simp
  obtain root t cs where b: "page_build H (many 600) = Ok root"
    "page_decode root = Ok (Branch (Longest_common_prefix (set (map e_name (many 600)))) t cs, of_nat (length (many 600)))"
    "\<And>l. l \<in> set (map label cs) \<longleftrightarrow> below (many 600) l \<noteq> []"
    using built_branch [OF assms d many_dir(2) v(2,1)] by metis
  have "digit_char (i div 100) \<noteq> 0x61" if "i < 600" for i
    using digit_char_mono [of "i div 100" 10] that by (auto simp: digit_char_def)
  then have e: "below (many 600) 0x61 = []"
    using numbered_below(2) [of "many 600" "ascii ''a''" 3 2 of_nat of_nat 600 "0x61"] by (auto simp: many_def filter_empty_conv)
  then have "\<not> list_ex (\<lambda>c. label c = 0x61) cs" using b(3) [of "0x61"] by (force simp: list_ex_iff)
  then have f: "find (\<lambda>l. \<not> list_ex (\<lambda>c. label c = l) cs) (map of_nat [0x61..<0x7B] @ map of_nat [0x41..<0x5B]) = Some 0x61"
    by (simp add: upt_conv_Cons)
  have "many 600 \<noteq> []" using many_dir(3) [of 600] by auto
  moreover have "\<exists>w. route_loop H (many 600) root [root] [0x61] = Err (BadOrdering w)"
    using route_loop_spec [OF assms many_dir(2) v(2) b(1), of "[0x61]" "[root]"] e by simp
  ultimately have "is_err (pages_along_route H (many 600) [0x61])" using b(1) by (auto simp: pages_along_route_def)
  then show ?thesis using b(1,2) f
    by (simp add: test_unknown_route_label_is_an_error_not_an_empty_result_def many_files branch_children_of_def)
qed

lemma length_filter_upt: "(\<And>i. i < a \<Longrightarrow> P i) \<Longrightarrow> a \<le> n \<Longrightarrow> a \<le> length (filter P [0..<n])"
  using upt_add_eq_append [of 0 a "n - a"] by simp

text \<open>A round counts the children whose page is a branch.\<close>

lemma two_level_round:
  assumes H: "sha_ok H" and d: "dir_ok es" and wf: "\<forall>e\<in>set es. entry_wf e" "length es < 2 ^ 63" and v: "\<not> page_valid (Leaf es)"
    and b: "page_build H es = Ok root" "page_decode root = Ok (Branch p t cs, n)" and c: "c \<in> set cs" and l: "below es (label c) \<noteq> []"
  shows "two_level_round H es root c = Ok (if page_valid (Leaf (below es (label c))) then 0 else 1)"
proof (rule built_branch_child [OF H d wf v b c l])
  fix bs
  let ?g = "below es (label c)"
  assume s: "page_build H ?g = Ok bs" "pages_along_route H es [label c] = Ok [root, bs]"
    "\<And>ls. pages_along_route H es (label c # ls) = route_loop H ?g bs [root, bs] ls"
    "\<forall>e\<in>set ?g. entry_wf e" "length ?g < 2 ^ 63" "dir_ok ?g"
  show ?thesis
  proof (cases "page_valid (Leaf ?g)")
    case True
    then have "page_decode bs = Ok (Leaf ?g, of_nat (page_total (Leaf ?g)))"
      using page_build_leaf [OF s(6) True, of H] s(1,4) by (simp add: page_decode_bytes page_wf_def)
    with True s(2) show ?thesis by (simp add: two_level_round_def at_index_def)
  next
    case False
    obtain root' p' t' grand where g: "page_build H ?g = Ok root'" "page_decode root' = Ok (Branch p' t' grand, of_nat (length ?g))"
      "grand \<noteq> []" "\<And>l. l \<in> set (map label grand) \<longleftrightarrow> below ?g l \<noteq> []"
      using built_branch [OF H s(6,4,5) False] by metis
    have r: "root' = bs" using g(1) s(1) by simp
    have f: "grand ! 0 \<in> set grand" using g(3) by simp
    then have l': "below ?g (label (grand ! 0)) \<noteq> []" using g(4) by force
    show ?thesis
    proof (rule built_branch_child [OF H s(6,4,5) False g(1,2) f l'])
      fix bs'
      assume "page_id H bs' = child_page_id (grand ! 0)"
        "\<And>acc ls. route_loop H ?g root' acc (label (grand ! 0) # ls) = route_loop H (below ?g (label (grand ! 0))) bs' (acc @ [bs']) ls"
      then show ?thesis using s(2,3) g(2,3) False r by (simp add: two_level_round_def at_index_def numeral_2_eq_2)
    qed
  qed
qed

theorem two_level_route_resolves_to_a_leaf_pass:
  assumes "sha_ok H"
  shows "test_two_level_route_resolves_to_a_leaf H"
proof -
  let ?es = "many 4000" and ?cnt = "\<lambda>c. if page_valid (Leaf (below (many 4000) (label c))) then 0 else (1 :: nat)"
  have v: "\<not> page_valid (Leaf ?es)" "length ?es < 2 ^ 63" by (rule many_root; simp)+
  have d: "dir_ok ?es" by (rule many_dir(1)) simp
  obtain root p t cs where b: "page_build H ?es = Ok root" "page_decode root = Ok (Branch p t cs, of_nat (length ?es))"
    "\<And>l. l \<in> set (map label cs) \<longleftrightarrow> below ?es l \<noteq> []"
    using built_branch [OF assms d many_dir(2) v(2,1)] by metis
  have "two_level_round H ?es root c = Ok (?cnt c)" if c: "c \<in> set cs" for c
    using two_level_round [OF assms d many_dir(2) v(2,1) b(1,2) c] b(3) [of "label c"] c by force
  then have "traverse (two_level_round H ?es root) cs = Ok (map ?cnt cs)" unfolding traverse_eq_Inr by (simp add: list_all2_conv_all_nth)
  moreover have "0 < sum_list (map ?cnt cs)"
  proof -
    have g: "below ?es 48 = map (file_of (\<lambda>i. ascii ''a'' @ pad_digits 10 6 i) of_nat of_nat) (filter (\<lambda>i. 48 = digit_char (i div 1000)) [0..<4000])"
      using numbered_below(2) [of ?es "ascii ''a''" 2 3 of_nat of_nat 4000 48] by (simp add: many_def)
    have "128 < length (below ?es 48)"
      unfolding g length_map by (rule less_le_trans [OF _ length_filter_upt [of 1000]]) (auto simp: digit_char_def)
    then have n: "\<not> page_valid (Leaf (below ?es 48))" "below ?es 48 \<noteq> []" by (auto simp: big_leaf)
    then obtain c where c: "c \<in> set cs" "label c = 48" using b(3) [of 48] by auto
    then have "?cnt c \<in> set (map ?cnt cs)" by force
    with n(1) c(2) show ?thesis using member_le_sum_list [of "?cnt c" "map ?cnt cs"] by simp
  qed
  ultimately show ?thesis using b(1,2)
    by (simp add: test_two_level_route_resolves_to_a_leaf_def many_files branch_children_of_def)
qed

section \<open>Received pages\<close>

definition test_received_child_uses_the_domain_separated_page_identity :: "hash \<Rightarrow> bool" where
  "test_received_child_uses_the_domain_separated_page_identity H \<longleftrightarrow>
     many_files 600 (\<lambda>entries.
     unwrapped (page_build H entries) (\<lambda>root.
     unwrapped (page_decode root) (\<lambda>(parent, _).
     branch_children_of parent (\<lambda>children.
     unwrapped (at_index children 0 :: branch_child res) (\<lambda>first. let lbl = label first in
     unwrapped (pages_along_route H entries [lbl]) (\<lambda>pages.
     unwrapped (at_index pages 1 :: bytes res) (\<lambda>page1.
       is_ok (verify_received_child H root lbl page1)
       \<and> (let tampered = page1[length page1 - 1 := last page1 XOR 1]
          in case verify_received_child H root lbl tampered of Inl (Fail (DigestMismatch _)) \<Rightarrow> True | _ \<Rightarrow> False)
       \<and> (case parent of
            Leaf _ \<Rightarrow> False
          | Branch p t children \<Rightarrow>
              unwrapped (page_encode (Branch p t (children[0 := (children ! 0)\<lparr>child_page_id := sha256 H [page1]\<rparr>]))) (\<lambda>parent_bytes.
                is_err (verify_received_child H parent_bytes lbl page1))))))))))"

definition parent_for_child :: "hash \<Rightarrow> bytes \<Rightarrow> u8 \<Rightarrow> bytes \<Rightarrow> (bytes \<Rightarrow> bool) \<Rightarrow> bool" where
  "parent_for_child H p lbl child rest =
     unwrapped (page_decode child) (\<lambda>(_, n).
     unwrapped (page_encode (Branch p None
       [\<lparr>label = lbl, subtree_entries = n, child_page_id = page_id H child\<rparr>,
        \<lparr>label = lbl + 1, subtree_entries = 1, child_page_id = cid 7\<rparr>])) rest)"

definition is_bad_ordering :: "'a res \<Rightarrow> bool" where
  "is_bad_ordering r = (case r of Inl (Fail (BadOrdering _)) \<Rightarrow> True | _ \<Rightarrow> False)"

definition test_received_child_rejects_a_mismatched_parent_count :: "hash \<Rightarrow> bool" where
  "test_received_child_rejects_a_mismatched_parent_count H \<longleftrightarrow>
     with_entries [entry_file Regular (ascii ''ab'') 1 (cid 1)] (\<lambda>entries.
     unwrapped (page_encode (Leaf entries)) (\<lambda>child.
     parent_for_child H (ascii ''a'') 0x62 child (\<lambda>parent.
       is_ok (verify_received_child H parent 0x62 child)
       \<and> unwrapped (page_decode parent) (\<lambda>(page, _).
           case page of
             Leaf _ \<Rightarrow> False
           | Branch p t children \<Rightarrow>
               unwrapped (page_encode (Branch p t (children[0 := (children ! 0)\<lparr>subtree_entries := subtree_entries (children ! 0) + 1\<rparr>])))
                 (\<lambda>parent. is_bad_ordering (verify_received_child H parent 0x62 child))))))"

definition test_received_leaf_checks_every_name_in_the_byte_partition :: "hash \<Rightarrow> bool" where
  "test_received_leaf_checks_every_name_in_the_byte_partition H \<longleftrightarrow>
     with_entries [entry_file Regular [0xC3, 0xA9] 1 (cid 1), entry_file Regular [0xC3, 0xAA] 1 (cid 2)] (\<lambda>entries.
     unwrapped (page_encode (Leaf entries)) (\<lambda>child.
     parent_for_child H [] 0xC3 child (\<lambda>parent.
       is_ok (verify_received_child H parent 0xC3 child)
       \<and> with_entries [entry_file Regular (ascii ''wrong'') 1 (cid 3), entry_file Regular [0xC3, 0xA9] 1 (cid 1)] (\<lambda>entries.
         unwrapped (page_encode (Leaf entries)) (\<lambda>wrong_child.
         parent_for_child H [] 0xC3 wrong_child (\<lambda>parent.
           is_bad_ordering (verify_received_child H parent 0xC3 wrong_child)))))))"

definition test_received_branch_preserves_compressed_prefix_and_terminal_partition :: "hash \<Rightarrow> bool" where
  "test_received_branch_preserves_compressed_prefix_and_terminal_partition H \<longleftrightarrow>
     with_entries [entry_file Regular (ascii ''abcd'') 1 (cid 1)] (\<lambda>entries.
     unwrapped (page_encode (Branch (ascii ''abcd'') (Some (entries ! 0))
       [\<lparr>label = 0x65, subtree_entries = 200, child_page_id = cid 2\<rparr>])) (\<lambda>child.
     parent_for_child H (ascii ''a'') 0x62 child (\<lambda>parent.
       is_ok (verify_received_child H parent 0x62 child)
       \<and> parent_for_child H (ascii ''a'') 0x63 child (\<lambda>parent.
           is_bad_ordering (verify_received_child H parent 0x63 child)))))"

text \<open>The parent of a test is the page of its child, its neighbour and nothing else.\<close>

definition parent_page :: "bytes \<Rightarrow> u8 \<Rightarrow> u64 \<Rightarrow> digest \<Rightarrow> page" where
  "parent_page p lbl n i = Branch p None
     [\<lparr>label = lbl, subtree_entries = n, child_page_id = i\<rparr>, \<lparr>label = lbl + 1, subtree_entries = 1, child_page_id = cid 7\<rparr>]"

lemma parent_page:
  assumes "length i = 32" "length p \<le> 255" "n \<noteq> 0" "unat n < 1000" "lbl < lbl + 1"
  shows "page_valid (parent_page p lbl n i)" "page_wf (parent_page p lbl n i)"
    "\<exists>k. page_decode (page_bytes (parent_page p lbl n i)) = Ok (parent_page p lbl n i, k)"
proof -
  show v: "page_valid (parent_page p lbl n i)" "page_wf (parent_page p lbl n i)"
    using assms by (auto simp: parent_page_def valid_page page_wf_def child_wf_def)
  show "\<exists>k. page_decode (page_bytes (parent_page p lbl n i)) = Ok (parent_page p lbl n i, k)" using page_decode_bytes [OF v(2,1)] by blast
qed

lemma parent_for_child:
  assumes "sha_ok H" "page_decode child = Ok (q, n)" "length p \<le> 255" "n \<noteq> 0" "unat n < 1000" "lbl < lbl + 1"
  shows "parent_for_child H p lbl child rest \<longleftrightarrow> rest (page_bytes (parent_page p lbl n (page_id H child)))"
    "page_under (p @ [lbl]) q \<Longrightarrow> is_ok (verify_received_child H (page_bytes (parent_page p lbl n (page_id H child))) lbl child)"
proof -
  have i: "length (page_id H child) = 32" using assms(1) by (simp add: page_id_def sha256_def sha_ok_def)
  note pp = parent_page [OF i assms(3-6)]
  show "parent_for_child H p lbl child rest \<longleftrightarrow> rest (page_bytes (parent_page p lbl n (page_id H child)))"
    using assms(2) pp(1) by (simp add: parent_for_child_def unwrapped_encode parent_page_def)
  show "is_ok (verify_received_child H (page_bytes (parent_page p lbl n (page_id H child))) lbl child)" if "page_under (p @ [lbl]) q"
    using pp(3) that assms(2)
    by (cases q) (auto simp: verify_received_child_def parent_page_def page_under_def starts_with_iff prefix_def list_all_iff)
qed

text \<open>When the id of the received page is the committed one, what remains are the entry count and the partition.\<close>

lemma verify_bad_ordering:
  assumes "length i = 32" "length p \<le> 255" "n \<noteq> 0" "unat n < 1000" "lbl < lbl + 1"
    and "page_id H child = i" "page_decode child = Ok (q, m)" "m \<noteq> n \<or> \<not> page_under (p @ [lbl]) q"
  shows "is_bad_ordering (verify_received_child H (page_bytes (parent_page p lbl n i)) lbl child)"
proof -
  obtain k where "page_decode (page_bytes (parent_page p lbl n i)) = Ok (parent_page p lbl n i, k)" using parent_page(3) [OF assms(1-5)] by blast
  then show ?thesis using assms(6-8)
    by (cases q) (auto simp: verify_received_child_def parent_page_def is_bad_ordering_def page_under_def starts_with_iff prefix_def list_all_iff)
qed

definition reg :: "bytes \<Rightarrow> u8 \<Rightarrow> entry" where
  "reg nm b = \<lparr>e_kind = Regular, e_name = nm, e_size = 1, e_content_id = cid b, e_child_root = replicate 32 0\<rparr>"

lemma reg_simps [simp]: "e_name (reg nm b) = nm" "entry_file Regular nm 1 (cid b) = Ok (reg nm b)" "entry_wf (reg nm b)"
  "entry_valid (reg nm b) \<longleftrightarrow> canonical_name nm" "length (entry_bytes (reg nm b)) = 43 + length nm"
  by (simp_all add: reg_def entry_file_def entry_wf_def entry_valid_def is_dir_def entry_bytes_def)

lemma made_regular: "with_entries [entry_file Regular nm 1 (cid b)] rest \<longleftrightarrow> rest [reg nm b]"
  "with_entries [entry_file Regular nm 1 (cid b), entry_file Regular nm' 1 (cid b')] rest \<longleftrightarrow> rest [reg nm b, reg nm' b']"
  by (simp_all add: with_entries_def)

lemma small_page:
  assumes "list_all (\<lambda>e. entry_valid e \<and> entry_wf e) es" "ascending_from None (map e_name es)" "length es \<le> 5" "length (page_body (Leaf es)) \<le> 1000"
  shows "page_valid (Leaf es)" "page_decode (page_bytes (Leaf es)) = Ok (Leaf es, of_nat (length es))"
proof -
  show v: "page_valid (Leaf es)" using assms by (simp add: page_valid_def page_shape_ok_def list_all_iff)
  show "page_decode (page_bytes (Leaf es)) = Ok (Leaf es, of_nat (length es))"
    using page_decode_bytes [OF _ v] assms(1) by (simp add: page_total_def page_wf_def list_all_iff)
qed

lemma text_bytes: "ascii ''ab'' = [0x61, 0x62]" "ascii ''a'' = [0x61]" "ascii ''abcd'' = [0x61, 0x62, 0x63, 0x64]"
  "ascii ''wrong'' = [0x77, 0x72, 0x6F, 0x6E, 0x67]"
  by (simp_all add: ascii_def)

theorem received_child_rejects_a_mismatched_parent_count_pass:
  assumes "sha_ok H"
  shows "test_received_child_rejects_a_mismatched_parent_count H"
proof -
  let ?es = "[reg [0x61, 0x62] 1]"
  obtain c where c: "c = page_bytes (Leaf ?es)" by blast
  have v: "page_valid (Leaf ?es)" "page_decode c = Ok (Leaf ?es, 1)"
    using small_page [of ?es] by (simp_all add: c page_body_def canonical_name_def is_utf8_Cons_ascii slash_def dot_def)
  have i: "length (page_id H c) = 32" using assms by (simp add: page_id_def sha256_def sha_ok_def)
  have u: "page_under ([0x61] @ [0x62]) (Leaf ?es)" by (simp add: page_under_def)
  obtain k where k: "page_decode (page_bytes (parent_page [0x61] 0x62 1 (page_id H c))) = Ok (parent_page [0x61] 0x62 1 (page_id H c), k)"
    using parent_page(3) [OF i, of "[0x61]" 1 "0x62"] by auto
  have b: "is_bad_ordering (verify_received_child H (page_bytes (parent_page [0x61] 0x62 2 (page_id H c))) 0x62 c)"
    by (rule verify_bad_ordering [OF i _ _ _ _ refl v(2)]) simp_all
  have p: "page_valid (parent_page [0x61] 0x62 2 (page_id H c))" by (rule parent_page(1) [OF i]) simp_all
  have o: "is_ok (verify_received_child H (page_bytes (parent_page [0x61] 0x62 1 (page_id H c))) 0x62 c)"
    by (rule parent_for_child(2) [OF assms v(2) _ _ _ _ u]) simp_all
  have f: "parent_for_child H [0x61] 0x62 c rest \<longleftrightarrow> rest (page_bytes (parent_page [0x61] 0x62 1 (page_id H c)))" for rest
    by (rule parent_for_child(1) [OF assms v(2)]) simp_all
  show ?thesis
    using v(1) o k b p
    by (simp only: test_received_child_rejects_a_mismatched_parent_count_def made_regular text_bytes unwrapped_encode c [symmetric] f)
      (simp add: parent_page_def unwrapped_encode)
qed

theorem received_leaf_checks_every_name_in_the_byte_partition_pass:
  assumes "sha_ok H"
  shows "test_received_leaf_checks_every_name_in_the_byte_partition H"
proof -
  let ?es = "[reg [0xC3, 0xA9] 1, reg [0xC3, 0xAA] 2]" and ?ws = "[reg [0x77, 0x72, 0x6F, 0x6E, 0x67] 3, reg [0xC3, 0xA9] 1]"
  obtain c w where c: "c = page_bytes (Leaf ?es)" "w = page_bytes (Leaf ?ws)" by blast
  have u8: "canonical_name [0xC3, 0xA9]" "canonical_name [0xC3, 0xAA]" "canonical_name [0x77, 0x72, 0x6F, 0x6E, 0x67]" by code_simp+
  have v: "page_valid (Leaf ?es)" "page_decode c = Ok (Leaf ?es, 2)" "page_valid (Leaf ?ws)" "page_decode w = Ok (Leaf ?ws, 2)"
    using small_page [of ?es] small_page [of ?ws] u8 by (simp_all add: c page_body_def)
  have i: "length (page_id H w) = 32" using assms by (simp add: page_id_def sha256_def sha_ok_def)
  have o: "is_ok (verify_received_child H (page_bytes (parent_page [] 0xC3 2 (page_id H c))) 0xC3 c)"
    by (rule parent_for_child(2) [OF assms v(2)]) (simp_all add: page_under_def)
  have b: "is_bad_ordering (verify_received_child H (page_bytes (parent_page [] 0xC3 2 (page_id H w))) 0xC3 w)"
    by (rule verify_bad_ordering [OF i _ _ _ _ refl v(4)]) (simp_all add: page_under_def)
  have f: "parent_for_child H [] 0xC3 c rest \<longleftrightarrow> rest (page_bytes (parent_page [] 0xC3 2 (page_id H c)))"
    "parent_for_child H [] 0xC3 w rest \<longleftrightarrow> rest (page_bytes (parent_page [] 0xC3 2 (page_id H w)))" for rest
    by (rule parent_for_child(1) [OF assms v(2)] parent_for_child(1) [OF assms v(4)]; simp)+
  show ?thesis
    by (simp only: test_received_leaf_checks_every_name_in_the_byte_partition_def made_regular text_bytes unwrapped_encode v(1,3)
      c [symmetric] f o b HOL.simp_thms)
qed

theorem received_branch_preserves_compressed_prefix_and_terminal_partition_pass:
  assumes "sha_ok H"
  shows "test_received_branch_preserves_compressed_prefix_and_terminal_partition H"
proof -
  let ?q = "Branch [0x61, 0x62, 0x63, 0x64] (Some (reg [0x61, 0x62, 0x63, 0x64] 1)) [\<lparr>label = 0x65, subtree_entries = 200, child_page_id = cid 2\<rparr>]"
  obtain c where c: "c = page_bytes ?q" by blast
  have v: "page_valid ?q" "page_wf ?q"
    by (simp_all add: page_valid_def page_shape_ok_def page_total_def page_body_def child_bytes_def counts_sum_def page_wf_def child_wf_def
      canonical_name_def is_utf8_Cons_ascii slash_def dot_def)
  have d: "page_decode c = Ok (?q, 201)"
    using page_decode_bytes [OF v(2,1)] by (simp add: c page_total_def counts_sum_def)
  have i: "length (page_id H c) = 32" using assms by (simp add: page_id_def sha256_def sha_ok_def)
  have o: "is_ok (verify_received_child H (page_bytes (parent_page [0x61] 0x62 201 (page_id H c))) 0x62 c)"
    by (rule parent_for_child(2) [OF assms d]) (simp_all add: page_under_def)
  have b: "is_bad_ordering (verify_received_child H (page_bytes (parent_page [0x61] 0x63 201 (page_id H c))) 0x63 c)"
    by (rule verify_bad_ordering [OF i _ _ _ _ refl d]) (simp_all add: page_under_def)
  have f: "parent_for_child H [0x61] 0x62 c rest \<longleftrightarrow> rest (page_bytes (parent_page [0x61] 0x62 201 (page_id H c)))"
    "parent_for_child H [0x61] 0x63 c rest \<longleftrightarrow> rest (page_bytes (parent_page [0x61] 0x63 201 (page_id H c)))" for rest
    by (rule parent_for_child(1) [OF assms d]; simp)+
  show ?thesis
    by (simp only: test_received_branch_preserves_compressed_prefix_and_terminal_partition_def made_regular text_bytes unwrapped_encode v(1)
      nth_Cons_0 c [symmetric] f o b HOL.simp_thms)
qed

text \<open>Another id in the first child: the page stays valid, and the child it had is refused.\<close>

lemma rebound_child:
  assumes "page_decode root = Ok (Branch p t (c # cs), n)" "length i = 32"
  shows "page_valid (Branch p t (c\<lparr>child_page_id := i\<rparr> # cs))"
    "\<exists>k. page_decode (page_bytes (Branch p t (c\<lparr>child_page_id := i\<rparr> # cs))) = Ok (Branch p t (c\<lparr>child_page_id := i\<rparr> # cs), k)"
proof -
  have "page_wf (Branch p t (c # cs))" "page_valid (Branch p t (c # cs))" using assms(1) by (simp_all add: page_decode_Ok)
  then have v: "page_valid (Branch p t (c\<lparr>child_page_id := i\<rparr> # cs))" "page_wf (Branch p t (c\<lparr>child_page_id := i\<rparr> # cs))"
    using assms(2) by (simp_all add: page_valid_def page_wf_def page_shape_ok_def page_total_def counts_sum_def page_body_def child_wf_def child_bytes_def)
  then show "page_valid (Branch p t (c\<lparr>child_page_id := i\<rparr> # cs))" by simp
  show "\<exists>k. page_decode (page_bytes (Branch p t (c\<lparr>child_page_id := i\<rparr> # cs))) = Ok (Branch p t (c\<lparr>child_page_id := i\<rparr> # cs), k)"
    using page_decode_bytes [OF v(2,1)] by blast
qed

lemma wrong_id_refused:
  assumes "page_decode root = Ok (Branch p t (c # cs), n)" "page_id H b \<noteq> child_page_id c"
  shows "verify_received_child H root (label c) b = Err (DigestMismatch ''received page does not match parent's child_page_id'')"
  using assms by (simp add: verify_received_child_def)

lemma three_ids:
  assumes "collision_free H {PAGE_DOMAIN @ b, PAGE_DOMAIN @ b', b}" "b' \<noteq> b"
  shows "page_id H b' \<noteq> page_id H b" "page_id H b \<noteq> sha256 H [b]"
proof -
  have "PAGE_DOMAIN @ b' \<noteq> PAGE_DOMAIN @ b" using assms(2) by simp
  moreover have "PAGE_DOMAIN @ b \<noteq> b" by (simp add: PAGE_DOMAIN_def)
  ultimately have "H (PAGE_DOMAIN @ b') \<noteq> H (PAGE_DOMAIN @ b)" "H (PAGE_DOMAIN @ b) \<noteq> H b"
    using inj_on_eq_iff [OF assms(1) [unfolded collision_free_def]] by simp_all
  then show "page_id H b' \<noteq> page_id H b" "page_id H b \<noteq> sha256 H [b]" by (simp_all add: page_id_def sha256_def)
qed

lemma flip_last: "bs \<noteq> [] \<Longrightarrow> bs[length bs - 1 := last bs XOR 1] \<noteq> (bs :: bytes)"
proof (cases bs rule: rev_cases)
  case (snoc xs x)
  have "(x XOR 1) XOR x = 1" by (simp add: xor.commute xor.left_commute)
  then have "x XOR 1 \<noteq> x" by (metis xor_self_eq zero_neq_one)
  then show ?thesis by (simp add: snoc)
qed simp

theorem received_child_uses_the_domain_separated_page_identity_pass:
  assumes "sha_ok H"
    and "\<And>l b. page_build H (below (many 600) l) = Ok b \<Longrightarrow>
      collision_free H {PAGE_DOMAIN @ b, PAGE_DOMAIN @ b[length b - 1 := last b XOR 1], b}"
  shows "test_received_child_uses_the_domain_separated_page_identity H"
proof -
  let ?es = "many 600"
  have v: "\<not> page_valid (Leaf ?es)" "length ?es < 2 ^ 63" by (rule many_root; simp)+
  have d: "dir_ok ?es" by (rule many_dir(1)) simp
  obtain root p t cs' where b': "page_build H ?es = Ok root" "page_decode root = Ok (Branch p t cs', of_nat (length ?es))" "cs' \<noteq> []"
    "\<And>l. l \<in> set (map label cs') \<longleftrightarrow> below ?es l \<noteq> []"
    using built_branch [OF assms(1) d many_dir(2) v(2,1)] by metis
  then obtain c cs where cs: "cs' = c # cs" by (cases cs') auto
  note b = b' [unfolded cs]
  have l: "below ?es (label c) \<noteq> []" using b(4) [of "label c"] by simp
  show ?thesis
  proof (rule built_branch_child [OF assms(1) d many_dir(2) v(2,1) b(1,2) _ l])
    fix bs
    assume s: "page_build H (below ?es (label c)) = Ok bs" "pages_along_route H ?es [label c] = Ok [root, bs]"
      "page_id H bs = child_page_id c" "verify_received_child H root (label c) bs = Ok ()"
    have "bs \<noteq> []" using s(4) by (auto simp: verify_received_child_Ok page_decode_def PAGE_HEADER_LEN_def)
    note ids = three_ids [OF assms(2) [OF s(1)] flip_last [OF this]]
    let ?i = "sha256 H [bs]"
    have i: "length ?i = 32" using assms(1) by (simp add: sha256_def sha_ok_def)
    obtain k where k: "page_decode (page_bytes (Branch p t (c\<lparr>child_page_id := ?i\<rparr> # cs))) = Ok (Branch p t (c\<lparr>child_page_id := ?i\<rparr> # cs), k)"
      using rebound_child(2) [OF b(2) i] by blast
    have r: "is_err (verify_received_child H (page_bytes (Branch p t (c\<lparr>child_page_id := ?i\<rparr> # cs))) (label c) bs)"
      using wrong_id_refused [OF k] ids(2) by simp
    show ?thesis
      using b(1,2) s wrong_id_refused [OF b(2)] ids(1) rebound_child(1) [OF b(2) i] r
      by (simp add: test_received_child_uses_the_domain_separated_page_identity_def many_files branch_children_of_def at_index_def Let_def
        unwrapped_encode)
  qed simp
qed

section \<open>One changed file\<close>

definition changing_files :: "nat \<Rightarrow> (entry list \<Rightarrow> bool) \<Rightarrow> bool" where
  "changing_files v rest =
     with_entries (map (\<lambda>i. entry_file Regular (ascii ''f'' @ pad_digits 10 4 i) (of_nat i) (cid (of_nat (i mod 251)))) [0..<300]) (\<lambda>es.
       if v = 1 then with_entries [entry_file Regular (ascii ''f0299'') 999 (cid 250)] (\<lambda>new. rest (sort_key e_name (es[299 := new ! 0])))
       else rest (sort_key e_name es))"

definition test_single_file_change_shares_siblings :: "hash \<Rightarrow> bool" where
  "test_single_file_change_shares_siblings H \<longleftrightarrow>
     changing_files 0 (\<lambda>before. unwrapped (page_build H before) (\<lambda>r1.
     changing_files 1 (\<lambda>after. unwrapped (page_build H after) (\<lambda>r2.
       page_id H r1 \<noteq> page_id H r2
       \<and> unwrapped (page_decode r1) (\<lambda>(p1, _). unwrapped (page_decode r2) (\<lambda>(p2, _).
           branch_children_of p1 (\<lambda>c1. branch_children_of p2 (\<lambda>c2.
             Suc (length (filter (\<lambda>(a, b). child_page_id a = child_page_id b) (zip c1 c2))) = length c1))))))))"

definition changed :: "nat \<Rightarrow> entry list" where
  "changed v = map (file_of (\<lambda>i. ascii ''f'' @ pad_digits 10 4 i) (\<lambda>i. if v = 1 \<and> i = 299 then 999 else of_nat i)
     (\<lambda>i. if v = 1 \<and> i = 299 then 250 else of_nat (i mod 251))) [0..<300]"

lemma changed_dir: "dir_ok (changed v)" "\<forall>e\<in>set (changed v). entry_wf e" "length (changed v) = 300"
  unfolding changed_def by (rule numbered_files; simp add: ascii_def slash_def dot_def) (rule files_wf, simp)

lemma changed_leaf: "\<not> page_valid (Leaf (changed v))" "length (changed v) < 2 ^ 63"
  by (simp_all add: changed_dir(3) big_leaf)

lemma changing_files: "changing_files 0 rest \<longleftrightarrow> rest (changed 0)" "changing_files 1 rest \<longleftrightarrow> rest (changed 1)"
proof -
  show "changing_files 0 rest \<longleftrightarrow> rest (changed 0)"
    using dir_names(2) [OF changed_dir(1) [of 0]] by (simp add: changing_files_def with_files changed_def del: upt_rec_numeral)
  let ?new = "\<lparr>e_kind = Regular, e_name = ascii ''f0299'', e_size = 999, e_content_id = cid 250, e_child_root = replicate 32 0\<rparr>"
  have "pad_digits 10 (Suc (Suc (Suc (Suc 0)))) 299 = [48, 50, 57, 57]" by (simp add: digit_char_def)
  moreover have "Suc (Suc (Suc (Suc 0))) = 4" by simp
  ultimately have n: "ascii ''f'' @ pad_digits 10 4 299 = ascii ''f0299''" by (simp add: ascii_def)
  have "(map (file_of (\<lambda>i. ascii ''f'' @ pad_digits 10 4 i) of_nat (\<lambda>i. of_nat (i mod 251))) [0..<300])[299 := ?new] = changed 1"
    unfolding changed_def
    by (rule nth_equalityI) (simp_all only: length_list_update length_map nth_list_update length_upt nth_map nth_upt file_of_def split: if_split, auto simp: n)
  moreover have "with_entries [entry_file Regular (ascii ''f0299'') 999 (cid 250)] r \<longleftrightarrow> r [?new]" for r
    by (simp add: with_entries_def entry_file_def)
  ultimately show "changing_files 1 rest \<longleftrightarrow> rest (changed 1)"
    using dir_names(2) [OF changed_dir(1) [of 1]]
    by (simp only: changing_files_def with_files if_True HOL.simp_thms nth_Cons_0)
qed

lemma changed_below:
  "below (changed v) l = map (file_of (\<lambda>i. ascii ''f'' @ pad_digits 10 4 i) (\<lambda>i. if v = 1 \<and> i = 299 then 999 else of_nat i)
     (\<lambda>i. if v = 1 \<and> i = 299 then 250 else of_nat (i mod 251))) (filter (\<lambda>i. l = digit_char (i div 100)) [0..<300])"
  using numbered_below(2) [of "changed v" "ascii ''f''" 1 2 _ _ 300 l] by (simp add: changed_def)

lemma changed_below_eq: "below (changed 0) l = below (changed 1) l \<longleftrightarrow> l \<noteq> digit_char 2" "below (changed v) (digit_char 2) \<noteq> []"
  "below (changed 0) l \<noteq> [] \<longleftrightarrow> below (changed 1) l \<noteq> []"
proof -
  have m: "299 \<in> set (filter (\<lambda>i. l = digit_char (i div 100)) [0..<300]) \<longleftrightarrow> l = digit_char 2" by simp
  show "below (changed 0) l = below (changed 1) l \<longleftrightarrow> l \<noteq> digit_char 2"
    unfolding changed_below map_eq_conv m [symmetric] by (auto simp: file_of_def simp del: set_filter)
  show "below (changed v) (digit_char 2) \<noteq> []" unfolding changed_below by (auto simp: filter_empty_conv intro!: bexI [of _ 200])
  show "below (changed 0) l \<noteq> [] \<longleftrightarrow> below (changed 1) l \<noteq> []" unfolding changed_below by simp
qed

text \<open>The pages below a label are the same page exactly when the files below it are the same.\<close>

lemma below_built:
  assumes "below es l \<noteq> []" "\<not> page_valid (Leaf es)" "dir_ok es" "2 \<le> length es"
  shows "{b. built H (below es l) b} \<subseteq> {b. built H es b}"
proof -
  obtain p t gs where sp: "build_split es = Ok (p, t, gs)" "split_ok es p t gs"
    using build_split_Ok [OF assms(4)] assms(3) unfolding dir_ok_def by blast
  have "(l, below es l) \<in> set gs" using below_group [OF sp(2)] assms(1) by simp
  then show ?thesis by (rule built_group [OF assms(2) sp(1)])
qed

lemma changed_ids:
  assumes H: "sha_ok H" and nc: "no_page_collision H ({b. built H (changed 0) b} \<union> {b. built H (changed 1) b})"
    and b: "page_build H (below (changed 0) l) = Ok b0" "page_build H (below (changed 1) l) = Ok b1"
    and l: "below (changed 0) l \<noteq> []" "below (changed 1) l \<noteq> []"
    and wf: "\<forall>e\<in>set (below (changed 0) l). entry_wf e" "length (below (changed 0) l) < 2 ^ 63"
      "\<forall>e\<in>set (below (changed 1) l). entry_wf e" "length (below (changed 1) l) < 2 ^ 63"
  shows "page_id H b0 = page_id H b1 \<longleftrightarrow> l \<noteq> digit_char 2"
proof
  have two: "2 \<le> length (changed v)" for v by (simp add: changed_dir(3))
  have sub: "{b. built H (below (changed 0) l) b} \<union> {b. built H (below (changed 1) l) b} \<subseteq> {b. built H (changed 0) b} \<union> {b. built H (changed 1) b}"
    by (intro Un_mono below_built l changed_leaf changed_dir(1) two)
  assume "page_id H b0 = page_id H b1"
  moreover have "b0 \<in> {b. built H (changed 0) b} \<union> {b. built H (changed 1) b}"
    by (rule subsetD [OF sub], rule UnI1, rule CollectI, rule built.root, rule b(1))
  moreover have "b1 \<in> {b. built H (changed 0) b} \<union> {b. built H (changed 1) b}"
    by (rule subsetD [OF sub], rule UnI2, rule CollectI, rule built.root, rule b(2))
  ultimately have e: "b0 = b1" by (rule no_page_collisionD [OF nc, rotated 2])
  have "below (changed 0) l = below (changed 1) l"
    by (rule page_build_inj [OF H b(1) b(2) [folded e] wf no_page_collision_mono [OF nc sub]])
  then show "l \<noteq> digit_char 2" by (simp only: changed_below_eq(1) simp_thms)
next
  assume "l \<noteq> digit_char 2"
  then show "page_id H b0 = page_id H b1" using b changed_below_eq(1) [of l] by simp
qed

text \<open>Two lists of children with the same labels that agree on all labels but one.\<close>

lemma count_agreeing:
  assumes "map label cs = map label ds" "distinct (map label cs)" "l \<in> set (map label cs)"
    and "\<And>c d. (c, d) \<in> set (zip cs ds) \<Longrightarrow> label c = label d \<Longrightarrow> child_page_id c = child_page_id d \<longleftrightarrow> label c \<noteq> l"
  shows "Suc (length (filter (\<lambda>(c, d). child_page_id c = child_page_id d) (zip cs ds))) = length cs"
proof -
  have len: "length cs = length ds" using assms(1) by (rule map_eq_imp_length_eq)
  have "label c = label d" if "(c, d) \<in> set (zip cs ds)" for c d
    using that assms(1) len by (metis in_set_zip nth_map fst_conv snd_conv)
  then have "filter (\<lambda>(c, d). child_page_id c = child_page_id d) (zip cs ds) = filter (\<lambda>x. label (fst x) \<noteq> l) (zip cs ds)"
    using assms(4) by (intro filter_cong) auto
  also have "length \<dots> = length (filter (\<lambda>k. k \<noteq> l) (map label (map fst (zip cs ds))))" by (simp add: filter_map comp_def)
  also have "\<dots> = length (remove1 l (map label cs))"
    using len assms(2) by (simp add: distinct_remove1_removeAll removeAll_filter_not_eq eq_commute)
  also have "\<dots> = length cs - 1" using assms(3) by (simp add: length_remove1)
  finally show ?thesis using assms(3) by (cases cs) auto
qed

theorem single_file_change_shares_siblings_pass:
  assumes H: "sha_ok H" and nc: "no_page_collision H ({b. built H (changed 0) b} \<union> {b. built H (changed 1) b})"
  shows "test_single_file_change_shares_siblings H"
proof -
  note built = built_branch [OF H changed_dir(1,2) changed_leaf(2,1)]
  obtain r0 p0 t0 cs where b0: "page_build H (changed 0) = Ok r0" "page_decode r0 = Ok (Branch p0 t0 cs, of_nat (length (changed 0)))"
    "distinct (map label cs)" "\<And>l. l \<in> set (map label cs) \<longleftrightarrow> below (changed 0) l \<noteq> []" using built [of 0] by metis
  obtain r1 p1 t1 ds where b1: "page_build H (changed 1) = Ok r1" "page_decode r1 = Ok (Branch p1 t1 ds, of_nat (length (changed 1)))"
    "distinct (map label ds)" "\<And>l. l \<in> set (map label ds) \<longleftrightarrow> below (changed 1) l \<noteq> []" using built [of 1] by metis
  have "sorted (map label cs)" "sorted (map label ds)"
    using b0(2) b1(2) by (simp_all add: page_decode_Ok page_valid_def page_shape_ok_def ascending_from_iff strict_sorted_iff)
  moreover have "set (map label cs) = set (map label ds)" using b0(4) b1(4) changed_below_eq(3) by blast
  ultimately have same: "map label cs = map label ds" using b0(3) b1(3) by (intro sorted_distinct_set_unique)
  have ids: "child_page_id c = child_page_id d \<longleftrightarrow> label c \<noteq> digit_char 2" if cd: "(c, d) \<in> set (zip cs ds)" "label c = label d" for c d
  proof -
    have mem: "c \<in> set cs" "d \<in> set ds" using cd(1) by (auto dest: set_zip_leftD set_zip_rightD)
    have l: "below (changed 0) (label c) \<noteq> []" "below (changed 1) (label d) \<noteq> []" using b0(4) b1(4) mem by force+
    show ?thesis
    proof (rule built_branch_child [OF H changed_dir(1,2) changed_leaf(2,1) b0(1,2) mem(1) l(1)],
        rule built_branch_child [OF H changed_dir(1,2) changed_leaf(2,1) b1(1,2) mem(2) l(2)])
      fix x y
      assume "page_build H (below (changed 0) (label c)) = Ok x" "page_id H x = child_page_id c"
        "\<forall>e\<in>set (below (changed 0) (label c)). entry_wf e" "length (below (changed 0) (label c)) < 2 ^ 63"
        "page_build H (below (changed 1) (label d)) = Ok y" "page_id H y = child_page_id d"
        "\<forall>e\<in>set (below (changed 1) (label d)). entry_wf e" "length (below (changed 1) (label d)) < 2 ^ 63"
      then show ?thesis using changed_ids [OF H nc, of "label c" x y] l cd(2) by simp
    qed
  qed
  have "digit_char 2 \<in> set (map label cs)" using b0(4) changed_below_eq(2) by blast
  then have n: "Suc (length (filter (\<lambda>(a, b). child_page_id a = child_page_id b) (zip cs ds))) = length cs"
    using ids by (intro count_agreeing [OF same b0(3)])
  have "changed 0 \<noteq> changed 1" using changed_below_eq(1) by metis
  then have "r0 \<noteq> r1" using page_build_inj [OF H b0(1) _ changed_dir(2) changed_leaf(2) changed_dir(2) changed_leaf(2) nc] b1(1) by blast
  then have "page_id H r0 \<noteq> page_id H r1" using no_page_collisionD [OF nc, of r0 r1] b0(1) b1(1) by (auto intro: built.root)
  then show ?thesis using b0(1,2) b1(1,2) n
    by (simp add: test_single_file_change_shares_siblings_def changing_files branch_children_of_def del: One_nat_def)
qed

end
