(* ===== verification/Treeframe_Tests.thy ===== *)
theory Treeframe_Tests
  imports Metapage_Tests Tree_Stream
begin

text \<open>
  The unit tests of \<^verbatim>\<open>src/treeframe.rs\<close> that do not depend on how well libzstd compresses, with and without the cargo
  feature (\<open>feat\<close>). What they rely on of SHA-256 is named in each theorem: that the digests of two short inputs differ.
\<close>

unbundle bit_operations_syntax

definition test_sid :: u32 where "test_sid = 42"

definition is_digest_mismatch :: "'a res \<Rightarrow> bool" where
  "is_digest_mismatch r = (case r of Inl (Fail (DigestMismatch _)) \<Rightarrow> True | _ \<Rightarrow> False)"

definition is_bad_length :: "'a res \<Rightarrow> bool" where
  "is_bad_length r = (case r of Inl (Fail (BadLength _)) \<Rightarrow> True | _ \<Rightarrow> False)"

definition is_bad_constant :: "'a res \<Rightarrow> bool" where
  "is_bad_constant r = (case r of Inl (Fail (BadConstant _)) \<Rightarrow> True | _ \<Rightarrow> False)"

definition sample_page :: "(bytes \<Rightarrow> bool) \<Rightarrow> bool" where
  "sample_page rest =
     with_entries [entry_file Regular (ascii ''a'') 1 (replicate 32 9)] (\<lambda>entries. unwrapped (page_encode (Leaf entries)) rest)"

section \<open>Frames\<close>

definition test_meta_frame_roundtrip :: "hash \<Rightarrow> 's zstd_lib option \<Rightarrow> bool" where
  "test_meta_frame_roundtrip H feat \<longleftrightarrow>
     sample_page (\<lambda>page. let p = \<lparr>mp_pages = [(page_id H page, page)]\<rparr> in
       unwrapped (meta_encode H p test_sid 0) (\<lambda>bytes.
       unwrapped (parse_frame H feat bytes) (\<lambda>(frame, used). used = length bytes \<and> frame = Frame_Meta p)))"

definition test_object_frame_roundtrip_and_digest :: "hash \<Rightarrow> 's zstd_lib option \<Rightarrow> bool" where
  "test_object_frame_roundtrip_and_digest H feat \<longleftrightarrow>
     (let d1 = sha256 H [ascii ''hello'']; d2 = sha256 H [[]];
          p = \<lparr>op_objects = [(d1, ascii ''hello''), (d2, [])]\<rparr> in
      unwrapped (object_encode H p test_sid 0) (\<lambda>bytes.
      unwrapped (parse_frame H feat bytes) (\<lambda>(frame, _). frame = Frame_Object p)))"

definition test_object_digest_mismatch_rejected :: "hash \<Rightarrow> 's zstd_lib option \<Rightarrow> bool" where
  "test_object_digest_mismatch_rejected H feat \<longleftrightarrow>
     (let payload = write_u16 [] 1;
          payload = write_u16 payload 0;
          payload = payload @ replicate 32 1;
          payload = write_u32 payload 5;
          payload = write_u32 payload 0;
          payload = payload @ ascii ''xxxxx'';
          bytes = frame_bytes H KIND_OBJECT payload test_sid 0
      in is_digest_mismatch (parse_frame H feat bytes))"

definition test_chunk_frame_roundtrip :: "hash \<Rightarrow> 's zstd_lib option \<Rightarrow> bool" where
  "test_chunk_frame_roundtrip H feat \<longleftrightarrow>
     (let p = \<lparr>cp_map_id = replicate 32 3, cp_file_content_id = replicate 32 4, cp_chunk_index = 7,
               cp_chunk_bytes = replicate 1000 0xAB\<rparr> in
      unwrapped (chunk_encode H p test_sid 3) (\<lambda>bytes.
      unwrapped (parse_frame H feat bytes) (\<lambda>(frame, _). frame = Frame_Chunk p)))"

definition test_end_frame_exact_48 :: "hash \<Rightarrow> 's zstd_lib option \<Rightarrow> bool" where
  "test_end_frame_exact_48 H feat \<longleftrightarrow>
     (let p = \<lparr>ep_request_item_count = 2, ep_unique_unit_count = 2, ep_logical_bytes = 1024, ep_request_body_sha256 = replicate 32 5\<rparr>;
          bytes = end_encode H p test_sid 1;
          payload = write_u32 [] 2;
          payload = write_u32 payload 2;
          payload = write_u64 payload 1024;
          payload = payload @ replicate 32 5;
          payload = payload @ [0];
          bad = frame_bytes H KIND_END payload test_sid 1
      in unwrapped (parse_frame H feat bytes) (\<lambda>(frame, _). frame = Frame_End p) \<and> is_err (parse_frame H feat bad))"

text \<open>\<open>parse_error_json(std::str::from_utf8(bad).unwrap()).is_err()\<close>\<close>

definition error_json_refused :: "bytes \<Rightarrow> bool" where
  "error_json_refused bad = (case from_utf8 bad of None \<Rightarrow> False | Some s \<Rightarrow> is_err (parse_error_json s))"

definition test_error_frame_closed_schema :: "hash \<Rightarrow> 's zstd_lib option \<Rightarrow> bool" where
  \<open>test_error_frame_closed_schema H feat \<longleftrightarrow>
     (let p = \<lparr>err_code = ascii ''SNAPSHOT_NOT_READY'', retryable = True, request_id = ascii ''req-1''\<rparr> in
      unwrapped (error_encode H p test_sid 0) (\<lambda>bytes.
      unwrapped (parse_frame H feat bytes) (\<lambda>(frame, _). frame = Frame_Error p)))
     \<and> error_json_refused (ascii ''{"code":"X","retryable":false,"request_id":"r","extra":1}'')
     \<and> error_json_refused (ascii ''{"code":"X","retryable":false}'')
     \<and> error_json_refused (ascii ''{"code":"X","code":"Y","retryable":false,"request_id":"r"}'')\<close>

definition test_stream_rules :: "hash \<Rightarrow> 's zstd_lib option \<Rightarrow> bool" where
  "test_stream_rules H feat \<longleftrightarrow>
     sample_page (\<lambda>page.
       let meta = \<lparr>mp_pages = [(page_id H page, page)]\<rparr>;
           fin = \<lparr>ep_request_item_count = 1, ep_unique_unit_count = 1, ep_logical_bytes = of_nat (length page),
                  ep_request_body_sha256 = replicate 32 7\<rparr> in
       unwrapped (meta_encode H meta test_sid 0) (\<lambda>one.
         let stream = one @ end_encode H fin test_sid 1 in
         unwrapped (parse_stream H feat stream) (\<lambda>frames. length frames = 2)
         \<and> is_err (parse_stream H feat (one @ end_encode H fin test_sid 2))
         \<and> is_err (parse_stream H feat (one @ end_encode H fin 43 1))
         \<and> is_err (parse_stream H feat one)
         \<and> is_err (parse_stream H feat (stream @ end_encode H fin test_sid 2))))"

definition test_oversized_lengths_and_unknown_kinds_fail_before_reading_payload :: "hash \<Rightarrow> 's zstd_lib option \<Rightarrow> bool" where
  "test_oversized_lengths_and_unknown_kinds_fail_before_reading_payload H feat \<longleftrightarrow>
     list_all (\<lambda>(kind, limit).
       let raw_len = of_nat (limit + 1) in is_bad_length (parse_frame H feat (header kind 0 raw_len raw_len 1 0 (replicate 32 0))))
       [(KIND_META, META_MAX_RAW), (KIND_OBJECT, OBJECT_MAX_RAW), (KIND_CHUNK, 76 + unat CHUNK_MAX_LEN),
        (KIND_END, 48), (KIND_ERROR, ERROR_MAX_BYTES)]
     \<and> is_bad_length (parse_frame H feat (header KIND_OBJECT FLAG_ZSTD (of_nat DATA_MAX_WIRE + 1) 100 1 0 (replicate 32 0)))
     \<and> parse_frame H feat (header 99 FLAG_ZSTD 1 1 1 0 (replicate 32 0)) = Err (BadConstant ''frame kind'')"

definition test_header_rules :: "hash \<Rightarrow> 's zstd_lib option \<Rightarrow> bool" where
  "test_header_rules H feat \<longleftrightarrow>
     (let p = \<lparr>ep_request_item_count = 0, ep_unique_unit_count = 0, ep_logical_bytes = 0, ep_request_body_sha256 = replicate 32 0\<rparr>;
          bytes = end_encode H p test_sid 0; n = length bytes
      in is_err (parse_frame H feat (bytes[7 := FLAG_ZSTD]))
       \<and> is_err (parse_frame H feat (put_slice 20 (le_bytes (0 :: u32)) bytes))
       \<and> is_err (parse_frame H feat (put_slice 8 (le_bytes (128 :: u32)) bytes))
       \<and> is_err (parse_frame H feat (bytes[6 := 9]))
       \<and> is_digest_mismatch (parse_frame H feat (bytes[n - 1 := bytes ! (n - 1) XOR 1])))"

lemma encoded_parses:
  assumes "sha_ok H" "feat_ok feat" "frame_wf H f" "sid \<noteq> 0"
  obtains b where "encode_frame H f sid sequ = Ok b" "parse_frame H feat b = Ok (f, length b)" "wire_frame H feat sid sequ f b"
proof (rule encode_frame_wire [OF assms(1,3,4), of sequ feat])
  fix b assume b: "encode_frame H f sid sequ = Ok b" "wire_frame H feat sid sequ f b"
  then have "parse_frame H feat b = Ok (f, length b)" unfolding parse_frame_Ok [OF assms(1,2)] by (metis append_Nil2)
  with b show thesis by (intro that)
qed

lemma test_sid [simp]: "test_sid \<noteq> 0" "test_sid \<noteq> 43" "43 \<noteq> test_sid"
  by (simp_all add: test_sid_def)

text \<open>The page of the tests.\<close>

lemma sample_page: "sample_page rest \<longleftrightarrow> rest (page_bytes (file_a (replicate 32 9)))"
  using file_a(1) [of "replicate 32 9"]
  by (simp add: sample_page_def with_entries_def entry_file_def ascii_def unwrapped_encode file_a_def)

lemma sample_page_length: "length (page_bytes (file_a (replicate 32 9))) = 64"
  by (subst file_a(3)) (simp_all del: length_page_bytes)

lemma sample_meta_wf: "sha_ok H \<Longrightarrow> meta_wf H \<lparr>mp_pages = [(page_id H (page_bytes (file_a (replicate 32 9))), page_bytes (file_a (replicate 32 9)))]\<rparr>"
  using sample_page_length by (simp add: meta_wf_def meta_raw_def page_row_def page_id_def sha256_def sha_ok_def del: length_page_bytes)

theorem meta_frame_roundtrip_pass:
  assumes "sha_ok H" "feat_ok feat"
  shows "test_meta_frame_roundtrip H feat"
proof (rule encoded_parses [OF assms, of "Frame_Meta _", simplified, OF sample_meta_wf [OF assms(1)] test_sid(1), of 0])
qed (simp add: test_meta_frame_roundtrip_def sample_page)

theorem chunk_frame_roundtrip_pass:
  assumes "sha_ok H" "feat_ok feat"
  shows "test_chunk_frame_roundtrip H feat"
proof -
  let ?p = "\<lparr>cp_map_id = replicate 32 3, cp_file_content_id = replicate 32 4, cp_chunk_index = 7, cp_chunk_bytes = replicate 1000 0xAB\<rparr>"
  have "frame_wf H (Frame_Chunk ?p)" by (simp add: chunk_wf_def)
  then obtain b where "encode_frame H (Frame_Chunk ?p) test_sid 3 = Ok b" "parse_frame H feat b = Ok (Frame_Chunk ?p, length b)"
    by (rule encoded_parses [OF assms _ test_sid(1)])
  then show ?thesis by (simp add: test_chunk_frame_roundtrip_def)
qed

theorem object_frame_roundtrip_and_digest_pass:
  assumes "sha_ok H" "feat_ok feat" "collision_free H {ascii ''hello'', []}"
  shows "test_object_frame_roundtrip_and_digest H feat"
proof -
  let ?p = "\<lparr>op_objects = [(sha256 H [ascii ''hello''], ascii ''hello''), (sha256 H [[]], [])]\<rparr>"
  have ne: "ascii ''hello'' \<noteq> []" "length (ascii ''hello'') = 5" by (simp_all add: ascii_def)
  then have "H (ascii ''hello'') \<noteq> H []" using collision_freeD [OF assms(3), of "ascii ''hello''" "[]"] by auto
  then have "frame_wf H (Frame_Object ?p)" using assms(1) ne by (simp add: object_wf_def object_raw_def sha256_def sha_ok_def)
  then obtain b where "encode_frame H (Frame_Object ?p) test_sid 0 = Ok b" "parse_frame H feat b = Ok (Frame_Object ?p, length b)"
    by (rule encoded_parses [OF assms(1,2) _ test_sid(1)])
  then show ?thesis by (simp add: test_object_frame_roundtrip_and_digest_def)
qed

lemma parse_identity:
  assumes "sha_ok H" "length raw \<le> 1048576" "sid \<noteq> 0" "raw_limit kind = Ok limit" "length raw \<le> limit"
  shows "parse_frame H feat (frame_bytes H kind raw sid sequ) = and_then (decode_payload H kind raw (of_nat (length raw))) (\<lambda>frame. Ok (frame, 64 + length raw))"
proof -
  have "unat (of_nat (length raw) :: u32) = length raw" using assms(2) by (simp add: unat_of_nat take_bit_nat_eq_self)
  moreover have "length (sha256 H [raw]) = 32" using assms(1) by (simp add: sha256_def sha_ok_def)
  ultimately show ?thesis using assms(2-5)
    by (simp add: frame_bytes_def Let_def parse_header recover_payload_def DATA_MAX_WIRE_def)
qed

theorem object_digest_mismatch_rejected_pass:
  assumes "sha_ok H" "H (ascii ''xxxxx'') \<noteq> replicate 32 1"
  shows "test_object_digest_mismatch_rejected H feat"
proof -
  let ?x = "ascii ''xxxxx''"
  have x: "length ?x = 5" by (simp add: ascii_def)
  obtain raw where raw: "raw = le_bytes (1 :: u16) @ le_bytes (0 :: u16) @ replicate 32 1 @ le_bytes (5 :: u32) @ le_bytes (0 :: u32) @ ?x" by blast
  have len: "length raw = 49" by (simp add: raw x)
  have "decode_object H raw = Err (DigestMismatch ''object content'')"
  proof -
    have "read_u16 raw 0 = Ok 1" "read_u16 raw 2 = Ok 0" by (simp_all add: read_u16_eq_Ok raw sub_def)
    moreover have "get_range raw 44 49 = Some ?x" by (simp add: get_range_def len raw sub_def x)
    moreover have "slice_of raw 4 44 = (Ok (replicate 32 1 @ le_bytes (5 :: u32) @ le_bytes (0 :: u32)) :: bytes res)"
      by (simp add: slice_of_def len raw sub_def)
    moreover have "read_u32 (replicate 32 1 @ le_bytes (5 :: u32) @ le_bytes (0 :: u32)) 32 = Ok 5"
      "read_u32 (replicate 32 1 @ le_bytes (5 :: u32) @ le_bytes (0 :: u32)) 36 = Ok 0" by (simp_all add: read_u32_eq_Ok sub_def)
    moreover have "slice_of (replicate 32 1 @ le_bytes (5 :: u32) @ le_bytes (0 :: u32)) 0 32 = (Ok (replicate 32 1) :: bytes res)"
      by (simp add: slice_of_def sub_def)
    moreover have "get_range ?x 0 5 = Some ?x" by (simp add: get_range_def x sub_def)
    ultimately show ?thesis using assms(2)
      by (simp add: decode_object_def OBJECT_MAX_RAW_def OBJECT_MAX_COUNT_def OBJECT_MAX_LEN_def len Let_def checked_add32_def sha256_def)
  qed
  then show ?thesis
    using parse_identity [OF assms(1), of raw test_sid KIND_OBJECT 1048576 feat 0] len
    by (simp add: test_object_digest_mismatch_rejected_def write_defs raw [symmetric] raw_limit_def OBJECT_MAX_RAW_def decode_payload_def
      is_digest_mismatch_def)
qed

theorem end_frame_exact_48_pass:
  assumes "sha_ok H" "feat_ok feat"
  shows "test_end_frame_exact_48 H feat"
proof -
  let ?p = "\<lparr>ep_request_item_count = 2, ep_unique_unit_count = 2, ep_logical_bytes = 1024, ep_request_body_sha256 = replicate 32 5\<rparr>"
  obtain raw where raw: "raw = le_bytes (2 :: u32) @ le_bytes (2 :: u32) @ le_bytes (1024 :: u64) @ replicate 32 5 @ [0]" by blast
  have "frame_wf H (Frame_End ?p)" by (simp add: end_wf_def)
  then obtain b where b: "encode_frame H (Frame_End ?p) test_sid 1 = Ok b" "parse_frame H feat b = Ok (Frame_End ?p, length b)"
    by (rule encoded_parses [OF assms _ test_sid(1)])
  have len: "length raw = 49" by (simp add: raw)
  have "is_err (parse_frame H feat (frame_bytes H KIND_END raw test_sid 1))"
  proof -
    have "parse_frame H feat (frame_bytes H KIND_END raw test_sid 1) = Err (BadLength ''frame payload exceeds kind limit'')"
      using assms(1) len
      by (simp add: frame_bytes_def Let_def parse_header sha256_def sha_ok_def raw_limit_def)
    then show ?thesis by simp
  qed
  then show ?thesis using b by (simp add: test_end_frame_exact_48_def write_defs raw [symmetric] del: append_Cons)
qed

theorem oversized_lengths_and_unknown_kinds_fail_before_reading_payload_pass:
  "test_oversized_lengths_and_unknown_kinds_fail_before_reading_payload H feat"
proof -
  note bare = parse_header [where dg = "replicate 32 0" and rest = "[]", unfolded append_Nil2]
  show ?thesis
    by (simp add: test_oversized_lengths_and_unknown_kinds_fail_before_reading_payload_def bare raw_limit_def is_bad_length_def FLAG_ZSTD_def
      kind_defs META_MAX_RAW_def OBJECT_MAX_RAW_def CHUNK_MAX_LEN_def ERROR_MAX_BYTES_def DATA_MAX_WIRE_def)
qed

text \<open>A stream of these two frames with another number, another id, no end or something behind the end is refused.\<close>

lemma two_frames_exact:
  assumes H: "sha_ok H" and F: "feat_ok feat" and a: "wire_frame H feat sid 0 f a" and b: "wire_frame H feat sid' n g b"
    and p: "parse_stream H feat (a @ b) = Ok fs" "length (a @ b) < 2 ^ 64"
  shows "fs = [f, g] \<and> sid' = sid \<and> n = 1"
proof -
  obtain s where fr: "frames_at H feat s 0 fs (a @ b)" using p unfolding parse_stream_Ok [OF H F p(2)] valid_stream_def by blast
  have ne: "a \<noteq> []" "b \<noteq> []" using wire_frame_length [OF H a] wire_frame_length [OF H b] by auto
  obtain f' fs' a' r where fs: "fs = f' # fs'" "a @ b = a' @ r" "wire_frame H feat s (of_nat 0) f' a'" "frames_at H feat s (0 + 1) fs' r"
    using fr ne by (cases fs) (auto simp: frames_at_simps)
  then have 1: "f = f'" "b = r" "sid = s" using wire_frame_unique [OF H F a fs(3,2)] by simp_all
  obtain g' gs b' r' where gs: "fs' = g' # gs" "b = b' @ r'" "wire_frame H feat s (of_nat (0 + 1)) g' b'" "frames_at H feat s (0 + 1 + 1) gs r'"
    using fs(4) 1(2) ne by (cases fs') (auto simp: frames_at_simps)
  have 2: "g = g'" "[] = r'" "sid' = s" "n = of_nat (0 + 1)" using wire_frame_unique [OF H F b gs(3), of "[]" r'] gs(2) by simp_all
  have "gs = []" using gs(4) 2(2) wire_frame_length [OF H] by (cases gs) (fastforce simp: frames_at_simps)+
  then show ?thesis using 1 2 fs(1) gs(1) by simp
qed

lemma continued_frames:
  assumes "sha_ok H" "feat_ok feat" "frames_at H feat sid 0 fs a" "parse_stream H feat (a @ c) = Ok gs" "length (a @ c) < 2 ^ 64"
  obtains hs where "gs = fs @ hs" "stream_shape gs" "hs = [] \<longleftrightarrow> c = []"
proof -
  obtain s where g: "frames_at H feat s 0 gs (a @ c)" "stream_shape gs"
    using assms(4) unfolding parse_stream_Ok [OF assms(1,2,5)] valid_stream_def by blast
  obtain hs where hs: "gs = fs @ hs" "frames_at H feat s (0 + length fs) hs c"
    using frames_at_prefix [OF assms(1-3) g(1) frames_at_shorter [OF assms(1-3) g(1)]] by blast
  have "hs = [] \<longleftrightarrow> c = []" using hs(2) frames_at_length [OF assms(1) hs(2)] by (cases hs) (auto simp: frames_at_simps)
  with hs(1) g(2) show thesis by (intro that)
qed

theorem stream_rules_pass:
  assumes "sha_ok H" "feat_ok feat"
  shows "test_stream_rules H feat"
proof -
  let ?page = "page_bytes (file_a (replicate 32 9))"
  let ?m = "Frame_Meta \<lparr>mp_pages = [(page_id H ?page, ?page)]\<rparr>"
  obtain fin where fin: "fin = \<lparr>ep_request_item_count = 1, ep_unique_unit_count = 1, ep_logical_bytes = of_nat (length ?page),
      ep_request_body_sha256 = replicate 32 7\<rparr>" by blast
  have wf: "frame_wf H ?m" "frame_wf H (Frame_End fin)" using sample_meta_wf [OF assms(1)] by (simp_all add: fin end_wf_def)
  obtain one where one: "encode_frame H ?m test_sid 0 = Ok one" "wire_frame H feat test_sid 0 ?m one"
    by (rule encoded_parses [OF assms wf(1) test_sid(1)])
  have w: "wire_frame H feat sid n (Frame_End fin) (end_encode H fin sid n)" if s: "sid \<noteq> 0" for sid n
    by (rule encoded_parses [OF assms wf(2) s, of n]) simp
  have l: "length (end_encode H fin sid n) = 112" for sid n
    using assms(1) by (simp add: end_encode_def frame_bytes_def Let_def header_eq length_header_bytes sha256_def sha_ok_def end_raw_def fin)
  have l1: "length one < 2000"
    using one(1) assms(1) sample_page_length
    by (simp add: encode_frame_Ok del: encode_frame.simps length_page_bytes) (simp add: frame_bytes_def Let_def header_eq length_header_bytes sha256_def
      sha_ok_def meta_raw_def page_row_def page_id_def del: length_page_bytes)
  let ?s = "one @ end_encode H fin test_sid 1"
  have fr: "frames_at H feat test_sid 0 [?m] one" "frames_at H feat test_sid 0 [?m, Frame_End fin] ?s"
    using one(2) w [OF test_sid(1), of 1] by (auto simp: frames_at_simps)
  have short: "length (one @ x) < 2 ^ 64" if "length x \<le> 300" for x using that l1 by simp
  have short2: "length (one @ end_encode H fin s n) < 2 ^ 64" "length (end_encode H fin s n) \<le> 300"
    "length (?s @ end_encode H fin s n) < 2 ^ 64" for s n using l1 by (simp_all add: l)
  have refused: "is_err (parse_stream H feat (one @ x))" if "length x \<le> 300" "\<And>fs. parse_stream H feat (one @ x) \<noteq> Ok fs" for x
    using parse_stream_clean [OF assms short [OF that(1)]] that(2) by (auto simp: is_err_clean is_ok_iff)
  have "parse_stream H feat ?s = Ok [?m, Frame_End fin]"
    using fr(2) by (intro parse_stream_complete [OF assms]) (auto simp: valid_stream_def stream_shape_def)
  moreover have "is_err (parse_stream H feat (one @ end_encode H fin test_sid 2))"
    by (rule refused [OF short2(2)]) (use two_frames_exact [OF assms one(2) w [OF test_sid(1), of 2] _ short2(1)] in auto)
  moreover have "is_err (parse_stream H feat (one @ end_encode H fin 43 1))"
    by (rule refused [OF short2(2)]) (use two_frames_exact [OF assms one(2) w [of 43 1] _ short2(1)] in auto)
  moreover have "is_err (parse_stream H feat (one @ []))"
  proof (rule refused)
    fix fs show "parse_stream H feat (one @ []) \<noteq> Ok fs"
      using continued_frames [OF assms fr(1), of "[]" fs] short [of "[]"] by (auto simp: stream_shape_def)
  qed simp
  moreover have "is_err (parse_stream H feat (one @ end_encode H fin test_sid 1 @ end_encode H fin test_sid 2))"
  proof (rule refused)
    fix fs show "parse_stream H feat (one @ end_encode H fin test_sid 1 @ end_encode H fin test_sid 2) \<noteq> Ok fs"
    proof
      assume p: "parse_stream H feat (one @ end_encode H fin test_sid 1 @ end_encode H fin test_sid 2) = Ok fs"
      have ne: "end_encode H fin test_sid 2 \<noteq> []" using l [of test_sid 2] by auto
      have q: "parse_stream H feat (?s @ end_encode H fin test_sid 2) = Ok fs" using p by simp
      obtain hs where "fs = [?m, Frame_End fin] @ hs" "stream_shape fs" "hs \<noteq> []"
        by (rule continued_frames [OF assms fr(2) q short2(3)]) (simp add: ne)
      then show False by (auto simp: stream_shape_def)
    qed
  qed (simp add: l)
  ultimately show ?thesis using one(1)
    by (simp add: test_stream_rules_def sample_page Let_def fin [symmetric] del: length_page_bytes)
qed

text \<open>The bytes of an END frame, and what the changes of the test do to them.\<close>

lemma header_fields:
  assumes "length dg = 32"
  shows "(header kind flags wl rl sid sequ dg @ rest)[7 := flags'] = header kind flags' wl rl sid sequ dg @ rest"
    "(header kind flags wl rl sid sequ dg @ rest)[6 := kind'] = header kind' flags wl rl sid sequ dg @ rest"
    "put_slice 20 (le_bytes sid') (header kind flags wl rl sid sequ dg @ rest) = header kind flags wl rl sid' sequ dg @ rest"
    "length (header kind flags wl rl sid sequ dg) = 64"
  using assms by (simp_all add: header_eq header_bytes_def put_slice_def list_update_append)

lemma other_header_len:
  assumes "feat_ok feat" "length dg = 32"
  shows "is_err (parse_frame H feat (put_slice 8 (le_bytes (128 :: u32)) (header kind flags wl rl sid sequ dg @ rest)))"
proof -
  let ?b = "put_slice 8 (le_bytes (128 :: u32)) (header kind flags wl rl sid sequ dg @ rest)"
  have s: "sub 8 4 ?b = le_bytes (128 :: u32)" using assms(2) by (simp add: sub_def put_slice_def header_eq header_bytes_def)
  have "parse_frame H feat ?b \<noteq> Ok (f, n)" for f n
  proof
    assume "parse_frame H feat ?b = Ok (f, n)"
    then obtain h wire r where "?b = header_bytes h @ wire @ r" "length (fh_payload_sha256 h) = 32" unfolding parse_frame_fields by blast
    then have "sub 8 4 ?b = le_bytes (64 :: u32)" by (rule header_parts(5) [rotated])
    then show False using s by (simp add: le_bytes_inject)
  qed
  then show ?thesis using clean_parse_frame [OF assms(1), of H ?b] by (auto simp: is_err_clean is_ok_iff)
qed

theorem header_rules_pass:
  assumes "sha_ok H" "feat_ok feat" "H (replicate 47 0 @ [1]) \<noteq> H (replicate 48 0)"
  shows "test_header_rules H feat"
proof -
  let ?p = "\<lparr>ep_request_item_count = 0, ep_unique_unit_count = 0, ep_logical_bytes = 0, ep_request_body_sha256 = replicate 32 0\<rparr>"
  obtain dg where dg: "dg = sha256 H [replicate 48 0]" by blast
  have ld: "length dg = 32" using assms(1) by (simp add: dg sha256_def sha_ok_def)
  have raw: "end_raw ?p = replicate 48 0" by (simp add: end_raw_def le_bytes_def to_le_literal replicate_numeral)
  have b: "end_encode H ?p test_sid 0 = header KIND_END 0 48 48 test_sid 0 dg @ replicate 48 0"
    by (simp add: end_encode_def frame_bytes_def Let_def raw dg)
  have f: "(header KIND_END 0 48 48 test_sid 0 dg @ replicate 48 0)[111 := 1] = header KIND_END 0 48 48 test_sid 0 dg @ replicate 47 0 @ [1]"
    using header_fields(4) [OF ld] by (simp add: list_update_append replicate_numeral)
  have x: "(header KIND_END 0 48 48 test_sid 0 dg @ replicate 48 0) ! 111 XOR 1 = 1"
    using header_fields(4) [OF ld] by (simp add: nth_append)
  have d: "sha256 H [replicate 47 0 @ [1]] \<noteq> dg" using assms(3) by (simp add: dg sha256_def)
  have "is_digest_mismatch (parse_frame H feat (header KIND_END 0 48 48 test_sid 0 dg @ replicate 47 0 @ [1]))"
    using d by (simp add: parse_header [OF ld] raw_limit_def recover_payload_def DATA_MAX_WIRE_def is_digest_mismatch_def)
  moreover have "length (header KIND_END 0 48 48 test_sid 0 dg @ replicate 48 0) - 1 = 111" using header_fields(4) [OF ld] by simp
  ultimately show ?thesis
    using other_header_len [OF assms(2) ld]
    by (simp only: test_header_rules_def b Let_def f x header_fields [OF ld])
      (simp add: parse_header [OF ld] raw_limit_def FLAG_ZSTD_def kind_defs)
qed

theorem error_frame_closed_schema_pass:
  assumes "sha_ok H" "feat_ok feat"
  shows "test_error_frame_closed_schema H feat"
proof -
  let ?p = "\<lparr>err_code = ascii ''SNAPSHOT_NOT_READY'', retryable = True, request_id = ascii ''req-1''\<rparr>"
  have "is_utf8 (err_code ?p) \<and> is_utf8 (request_id ?p) \<and> length (error_json ?p) \<le> 4096" by code_simp
  then have "frame_wf H (Frame_Error ?p)" by simp
  then obtain b where "encode_frame H (Frame_Error ?p) test_sid 0 = Ok b" "parse_frame H feat b = Ok (Frame_Error ?p, length b)"
    by (rule encoded_parses [OF assms _ test_sid(1)])
  moreover have \<open>error_json_refused (ascii ''{"code":"X","retryable":false,"request_id":"r","extra":1}'')
     \<and> error_json_refused (ascii ''{"code":"X","retryable":false}'')
     \<and> error_json_refused (ascii ''{"code":"X","code":"Y","retryable":false,"request_id":"r"}'')\<close> by code_simp
  ultimately show ?thesis by (simp add: test_error_frame_closed_schema_def)
qed

end
