(* ===== verification/Zstd_Tests.thy ===== *)
theory Zstd_Tests
  imports Treeframe_Tests
begin

text \<open>
  The unit tests of \<^verbatim>\<open>src/zstd1.rs\<close>, and of \<^verbatim>\<open>src/treeframe.rs\<close> with the cargo feature zstd, that follow from the documented
  behaviour of libzstd (\<open>zstd_documented\<close>, \<open>zstd_bounded\<close>). That it compresses a certain input, and below a certain
  length, is a hypothesis of the theorem where a test expects it, and so is that it ends the frame in the call that delivers
  the last byte (\<open>ends_promptly\<close>), without which the tests that decompress would fail. The tests on frames made by hand
  or by another encoder, and on the error of a cut one, are about libzstd itself and are not here.
\<close>

unbundle bit_operations_syntax

section \<open>\<^verbatim>\<open>src/zstd1.rs\<close>\<close>

definition test_roundtrip_strict :: "'s zstd_lib \<Rightarrow> bool" where
  "test_roundtrip_strict Z \<longleftrightarrow>
     (let payload = replicate 200000 7 in
      unwrapped (zstd_compress Z payload 3) (\<lambda>wire.
        starts_with wire [0x28, 0xB5, 0x2F, 0xFD] \<and> length wire < length payload
        \<and> unwrapped (decompress_strict Z wire (length payload)) (\<lambda>back. back = payload)))"

definition test_rejects_window_over_8mib :: "'s zstd_lib \<Rightarrow> bool" where
  "test_rejects_window_over_8mib Z \<longleftrightarrow>
     is_err (decompress_strict Z [0x28, 0xB5, 0x2F, 0xFD, 0x00, 0xA0, 0x00, 0x00, 0x01, 0x42] 1)"

definition test_rejects_non_frame_and_skippable_magic :: "'s zstd_lib \<Rightarrow> bool" where
  "test_rejects_non_frame_and_skippable_magic Z \<longleftrightarrow>
     is_err (decompress_strict Z (ascii ''not a zstd frame'') 17)
     \<and> is_err (decompress_strict Z [0x50, 0x2A, 0x4D, 0x18, 0, 0, 0, 0] 0)"

definition test_full_mib_chunk_payload_fits_under_the_cap :: "'s zstd_lib \<Rightarrow> bool" where
  "test_full_mib_chunk_payload_fits_under_the_cap Z \<longleftrightarrow>
     (let payload_len = 1048576 + 76; payload = replicate payload_len 0xA5; over = replicate (MAX_RAW_PAYLOAD + 1) 0xA5 in
      unwrapped (zstd_compress Z payload 1) (\<lambda>wire.
        unwrapped (decompress_strict Z wire payload_len) (\<lambda>back. back = payload))
      \<and> unwrapped (zstd_compress Z over 1) (\<lambda>wire. is_err (decompress_strict Z wire (length over))))"

definition test_rejects_short_and_overlong_output :: "'s zstd_lib \<Rightarrow> bool" where
  "test_rejects_short_and_overlong_output Z \<longleftrightarrow>
     (let payload = replicate 40000 3 in
      unwrapped (zstd_compress Z payload 3) (\<lambda>wire.
        is_err (decompress_strict Z wire (40000 - 1)) \<and> is_err (decompress_strict Z wire 40001)))"

definition test_rejects_concatenation_and_trailing_bytes :: "'s zstd_lib \<Rightarrow> bool" where
  "test_rejects_concatenation_and_trailing_bytes Z \<longleftrightarrow>
     (let payload = replicate 40000 9 in
      unwrapped (zstd_compress Z payload 3) (\<lambda>wire.
        let doubled = wire @ wire; padded = wire @ [0] in
        is_err (decompress_strict Z doubled 80000) \<and> is_err (decompress_strict Z padded 40000)))"

section \<open>\<^verbatim>\<open>src/treeframe.rs\<close> with the feature\<close>

definition object_of :: "hash \<Rightarrow> u8 \<Rightarrow> nat \<Rightarrow> object_payload" where
  "object_of H n rep = (let data = replicate rep n; cid = sha256 H [data] in \<lparr>op_objects = [(cid, data)]\<rparr>)"

definition test_zstd_roundtrip_through_parse_stream :: "hash \<Rightarrow> 's zstd_lib \<Rightarrow> bool" where
  "test_zstd_roundtrip_through_parse_stream H Z \<longleftrightarrow>
     (let raw = object_of H 0xAB 100000 in
      unwrapped (object_encode_zstd Z H raw 7 0) (\<lambda>encoded.
        length encoded < 100000 \<and> encoded ! 7 AND FLAG_ZSTD = FLAG_ZSTD
        \<and> (let fin = end_encode H \<lparr>ep_request_item_count = 1, ep_unique_unit_count = 1, ep_logical_bytes = 100000,
                 ep_request_body_sha256 = replicate 32 9\<rparr> 7 1
           in unwrapped (parse_stream H (Some Z) (encoded @ fin)) (\<lambda>frames.
                length frames = 2
                \<and> (case frames ! 0 of Frame_Object ob \<Rightarrow> ob = raw | _ \<Rightarrow> False)
                \<and> (case frames ! 1 of Frame_End _ \<Rightarrow> True | _ \<Rightarrow> False)))))"

definition test_identity_frames_still_decode :: "hash \<Rightarrow> 's zstd_lib \<Rightarrow> bool" where
  "test_identity_frames_still_decode H Z \<longleftrightarrow>
     (let raw = object_of H 0x01 1000 in
      unwrapped (object_encode H raw 1 0) (\<lambda>encoded.
      unwrapped (parse_frame H (Some Z) encoded) (\<lambda>(f, used). used = length encoded \<and> f = Frame_Object raw)))"

definition test_raw_digest_is_checked_even_when_object_content_is_valid :: "hash \<Rightarrow> 's zstd_lib \<Rightarrow> bool" where
  "test_raw_digest_is_checked_even_when_object_content_is_valid H Z \<longleftrightarrow>
     unwrapped (object_encode_zstd Z H (object_of H 0x45 20000) 1 0) (\<lambda>encoded.
       is_digest_mismatch (parse_frame H (Some Z) (encoded[32 := encoded ! 32 XOR 1])))"

definition test_both_encodings_refuse_oversized_chunks_before_encoding :: "hash \<Rightarrow> 's zstd_lib \<Rightarrow> bool" where
  "test_both_encodings_refuse_oversized_chunks_before_encoding H Z \<longleftrightarrow>
     (let chunk = \<lparr>cp_map_id = replicate 32 1, cp_file_content_id = replicate 32 2, cp_chunk_index = 0,
                   cp_chunk_bytes = replicate (unat CHUNK_MAX_LEN + 1) 0x61\<rparr> in
      is_bad_length (chunk_encode H chunk 1 0) \<and> is_bad_length (chunk_encode_zstd Z H chunk 1 0))"

definition test_end_and_error_frames_are_never_compressed :: "hash \<Rightarrow> 's zstd_lib \<Rightarrow> bool" where
  "test_end_and_error_frames_are_never_compressed H Z \<longleftrightarrow>
     (let fin = end_encode H \<lparr>ep_request_item_count = 0, ep_unique_unit_count = 0, ep_logical_bytes = 0,
            ep_request_body_sha256 = replicate 32 0\<rparr> 1 1
      in is_bad_constant (parse_frame H (Some Z) (fin[7 := FLAG_ZSTD])))"

definition test_concatenated_zstd_frames_are_rejected :: "hash \<Rightarrow> 's zstd_lib \<Rightarrow> bool" where
  "test_concatenated_zstd_frames_are_rejected H Z \<longleftrightarrow>
     (let obj = object_of H 0x22 50000 in
      unwrapped (object_encode H obj 1 0) (\<lambda>identity.
      unwrapped (object_encode_zstd Z H obj 1 0) (\<lambda>p.
        let wire1 = drop 64 p; doubled = wire1 @ wire1;
            out = header KIND_OBJECT FLAG_ZSTD (of_nat (length doubled)) (of_nat (length identity - 64)) 1 0
              (sha256 H [drop 64 identity]) @ doubled
        in is_err (parse_frame H (Some Z) out))))"

definition test_trailing_bytes_after_frame_are_rejected :: "hash \<Rightarrow> 's zstd_lib \<Rightarrow> bool" where
  "test_trailing_bytes_after_frame_are_rejected H Z \<longleftrightarrow>
     (let obj = object_of H 0x33 50000 in
      unwrapped (object_encode H obj 1 0) (\<lambda>identity.
      unwrapped (object_encode_zstd Z H obj 1 0) (\<lambda>p.
        let wire = drop 64 p; padded = wire @ [0];
            out = header KIND_OBJECT FLAG_ZSTD (of_nat (length padded)) (of_nat (length identity - 64)) 1 0
              (sha256 H [drop 64 identity]) @ padded
        in is_err (parse_frame H (Some Z) out))))"

definition test_skippable_frame_magic_is_rejected :: "hash \<Rightarrow> 's zstd_lib \<Rightarrow> bool" where
  "test_skippable_frame_magic_is_rejected H Z \<longleftrightarrow>
     (let wire = [0x50, 0x2A, 0x4D, 0x18, 0, 0, 0, 0] @ replicate 16 0xAA;
          out = header KIND_OBJECT FLAG_ZSTD (of_nat (length wire)) (of_nat (length wire)) 1 0 (sha256 H [wire]) @ wire
      in is_err (parse_frame H (Some Z) out))"

definition test_oversized_window_is_rejected_in_zstd1_tests :: "hash \<Rightarrow> 's zstd_lib \<Rightarrow> bool" where
  "test_oversized_window_is_rejected_in_zstd1_tests H Z \<longleftrightarrow>
     unwrapped (object_encode_zstd Z H (object_of H 0x55 200000) 1 0) (\<lambda>p.
       p ! 7 AND FLAG_ZSTD \<noteq> 0 \<and> is_ok (parse_frame H (Some Z) p))"

section \<open>They pass\<close>

theorem roundtrip_strict_pass:
  assumes "zstd_ok Z" "zstd_documented Z" "z_compress Z (replicate 200000 7) 3 = Some w" "length w < 200000"
    "ends_promptly Z w (replicate 200000 7)"
  shows "test_roundtrip_strict Z"
proof -
  have c: "zstd_compress Z (replicate 200000 7) 3 = Ok w" using assms(3) by (simp add: zstd_compress_def)
  then have "decompress_strict Z w 200000 = Ok (replicate 200000 7)"
    using decompress_zstd_compress [OF assms(1,2) c] assms(5) by (simp add: MAX_RAW_PAYLOAD_def)
  moreover have "starts_with w [0x28, 0xB5, 0x2F, 0xFD]"
    using standard_frame_header [OF compressed_frame(1) [OF assms(2) c]] by (simp add: MAX_RAW_PAYLOAD_def ZSTD_MAGIC_def)
  ultimately show ?thesis using c assms(4) by (simp add: test_roundtrip_strict_def Let_def)
qed

theorem rejects_window_over_8mib_pass: "test_rejects_window_over_8mib Z"
proof -
  have "validate_frame_header [0x28, 0xB5, 0x2F, 0xFD, 0x00, 0xA0, 0x00, 0x00, 0x01, 0x42] 1 = Err (BadLength ''zstd window exceeds 8MiB'')"
    by (simp add: validate_frame_header_def Let_def get_at_def check_window_eq window_size_def)
  then show ?thesis by (simp add: test_rejects_window_over_8mib_def decompress_strict_def MAX_RAW_PAYLOAD_def ZSTD_MAGIC_def)
qed

theorem rejects_non_frame_and_skippable_magic_pass: "test_rejects_non_frame_and_skippable_magic Z"
  by (simp add: test_rejects_non_frame_and_skippable_magic_def decompress_strict_def MAX_RAW_PAYLOAD_def ZSTD_MAGIC_def ascii_def)

theorem full_mib_chunk_payload_fits_under_the_cap_pass:
  assumes "zstd_ok Z" "zstd_documented Z" "z_compress Z (replicate 1048652 0xA5) 1 = Some w" "z_compress Z (replicate 1048653 0xA5) 1 = Some v"
    "ends_promptly Z w (replicate 1048652 0xA5)"
  shows "test_full_mib_chunk_payload_fits_under_the_cap Z"
proof -
  have c: "zstd_compress Z (replicate 1048652 0xA5) 1 = Ok w" "zstd_compress Z (replicate 1048653 0xA5) 1 = Ok v"
    using assms(3,4) by (simp_all add: zstd_compress_def)
  then have "decompress_strict Z w 1048652 = Ok (replicate 1048652 0xA5)"
    using decompress_zstd_compress [OF assms(1,2) c(1)] assms(5) by (simp add: MAX_RAW_PAYLOAD_def)
  then show ?thesis using c
    by (simp add: test_full_mib_chunk_payload_fits_under_the_cap_def Let_def MAX_RAW_PAYLOAD_def decompress_strict_def)
qed

lemma zstd_flag: "FLAG_ZSTD \<noteq> 0"
  by (simp add: FLAG_ZSTD_def)

lemma sha256_len: "sha_ok H \<Longrightarrow> length (sha256 H [x]) = 32"
  by (simp add: sha256_def sha_ok_def)

text \<open>An object frame, compressed.\<close>

lemma object_of_wf: "sha_ok H \<Longrightarrow> rep \<le> 262144 \<Longrightarrow> frame_wf H (Frame_Object (object_of H n rep))"
  by (simp add: object_of_def Let_def object_wf_def object_raw_def sha256_def sha_ok_def)

definition object_payload_of :: "hash \<Rightarrow> u8 \<Rightarrow> nat \<Rightarrow> bytes" where
  "object_payload_of H n rep = object_raw (object_of H n rep)"

lemma compressed_object:
  assumes "sha_ok H" "rep \<le> 262144" "sid \<noteq> 0" "z_compress Z (object_payload_of H n rep) 3 = Some w"
  obtains b where "object_encode_zstd Z H (object_of H n rep) sid sequ = Ok b"
    "b = header KIND_OBJECT FLAG_ZSTD (of_nat (length w)) (of_nat (length (object_payload_of H n rep))) sid sequ (sha256 H [object_payload_of H n rep]) @ w"
    "drop 64 b = w"
    "zstd_ok Z \<Longrightarrow> zstd_documented Z \<Longrightarrow> zstd_bounded Z \<Longrightarrow> ends_promptly Z w (object_payload_of H n rep) \<Longrightarrow>
       wire_frame H (Some Z) sid sequ (Frame_Object (object_of H n rep)) b"
proof -
  let ?f = "Frame_Object (object_of H n rep)"
  have wf: "frame_wf H ?f" by (rule object_of_wf [OF assms(1,2)])
  obtain b where b: "b = header KIND_OBJECT FLAG_ZSTD (of_nat (length w)) (of_nat (length (object_payload_of H n rep))) sid sequ (sha256 H [object_payload_of H n rep]) @ w"
    by blast
  have d: "drop 64 b = w" using sha256_len [OF assms(1)] by (simp add: b header_eq length_header_bytes)
  have fb: "frame_bytes_zstd Z H (frame_kind ?f) (frame_raw ?f) sid sequ = Ok b"
    using assms(4) b by (simp add: frame_bytes_zstd_def zstd_compress_def object_payload_of_def Let_def)
  have t: "\<not> terminal ?f" by simp
  have "encode_frame_zstd Z H ?f sid sequ = Ok b"
    unfolding encode_frame_zstd_Ok [OF t] using fb frame_wf_encodable [OF assms(1) wf] by blast
  then have e: "object_encode_zstd Z H (object_of H n rep) sid sequ = Ok b" by simp
  have "wire_frame H (Some Z) sid sequ ?f b"
    if "zstd_ok Z" "zstd_documented Z" "zstd_bounded Z" "ends_promptly Z w (object_payload_of H n rep)"
    using that d by (intro frame_bytes_zstd_wire [OF assms(1) frame_wf_payload [OF wf] assms(3) t that(1-3) fb]) (simp add: object_payload_of_def)
  with e b d show thesis by (rule that)
qed

lemma compressed_bytes:
  assumes "sha_ok H" "b = header KIND_OBJECT FLAG_ZSTD wl rl sid sequ (sha256 H [raw]) @ w"
  shows "b ! 7 = FLAG_ZSTD" "length b = 64 + length w"
  using assms by (simp_all add: header_eq header_bytes_def sha256_def sha_ok_def nth_append)

lemma zstd_feat: "zstd_ok Z \<Longrightarrow> feat_ok (Some Z)"
  by (simp add: feat_ok_def)

theorem identity_frames_still_decode_pass:
  assumes "sha_ok H" "zstd_ok Z"
  shows "test_identity_frames_still_decode H Z"
proof -
  have wf: "frame_wf H (Frame_Object (object_of H 0x01 1000))" by (rule object_of_wf [OF assms(1)]) simp
  obtain b where "encode_frame H (Frame_Object (object_of H 0x01 1000)) 1 0 = Ok b"
    "parse_frame H (Some Z) b = Ok (Frame_Object (object_of H 0x01 1000), length b)"
    by (rule encoded_parses [OF assms(1) zstd_feat [OF assms(2)] wf, of 1 0]) simp_all
  then show ?thesis by (simp add: test_identity_frames_still_decode_def)
qed

theorem oversized_window_is_rejected_in_zstd1_tests_pass:
  assumes "sha_ok H" "zstd_ok Z" "zstd_documented Z" "zstd_bounded Z" "z_compress Z (object_payload_of H 0x55 200000) 3 = Some w"
    "ends_promptly Z w (object_payload_of H 0x55 200000)"
  shows "test_oversized_window_is_rejected_in_zstd1_tests H Z"
proof (rule compressed_object [OF assms(1) _ _ assms(5), of 1 0])
  fix b
  assume b: "object_encode_zstd Z H (object_of H 0x55 200000) 1 0 = Ok b"
    "b = header KIND_OBJECT FLAG_ZSTD (of_nat (length w)) (of_nat (length (object_payload_of H 0x55 200000))) 1 0 (sha256 H [object_payload_of H 0x55 200000]) @ w"
    "zstd_ok Z \<Longrightarrow> zstd_documented Z \<Longrightarrow> zstd_bounded Z \<Longrightarrow> ends_promptly Z w (object_payload_of H 0x55 200000) \<Longrightarrow>
       wire_frame H (Some Z) 1 0 (Frame_Object (object_of H 0x55 200000)) b"
  have "parse_frame H (Some Z) b = Ok (Frame_Object (object_of H 0x55 200000), length b)"
    unfolding parse_frame_Ok [OF assms(1) zstd_feat [OF assms(2)]] using b(3) [OF assms(2-4,6)] by (metis append_Nil2)
  then show ?thesis using b(1) compressed_bytes(1) [OF assms(1) b(2)]
    by (simp add: test_oversized_window_is_rejected_in_zstd1_tests_def FLAG_ZSTD_def)
qed simp_all

theorem zstd_roundtrip_through_parse_stream_pass:
  assumes "sha_ok H" "zstd_ok Z" "zstd_documented Z" "zstd_bounded Z" "z_compress Z (object_payload_of H 0xAB 100000) 3 = Some w"
    "ends_promptly Z w (object_payload_of H 0xAB 100000)"
    "length w < 99936"
  shows "test_zstd_roundtrip_through_parse_stream H Z"
proof (rule compressed_object [OF assms(1) _ _ assms(5), of 7 0])
  fix b
  let ?ob = "Frame_Object (object_of H 0xAB 100000)"
  assume b: "object_encode_zstd Z H (object_of H 0xAB 100000) 7 0 = Ok b"
    "b = header KIND_OBJECT FLAG_ZSTD (of_nat (length w)) (of_nat (length (object_payload_of H 0xAB 100000))) 7 0 (sha256 H [object_payload_of H 0xAB 100000]) @ w"
    "zstd_ok Z \<Longrightarrow> zstd_documented Z \<Longrightarrow> zstd_bounded Z \<Longrightarrow> ends_promptly Z w (object_payload_of H 0xAB 100000) \<Longrightarrow>
       wire_frame H (Some Z) 7 0 ?ob b"
  obtain fin where fin: "fin = \<lparr>ep_request_item_count = 1, ep_unique_unit_count = 1, ep_logical_bytes = 100000,
    ep_request_body_sha256 = replicate 32 9\<rparr>" by blast
  have "frame_wf H (Frame_End fin)" by (simp add: fin end_wf_def)
  then have e: "wire_frame H (Some Z) 7 1 (Frame_End fin) (end_encode H fin 7 1)"
    by (rule encoded_parses [OF assms(1) zstd_feat [OF assms(2)], of _ 7 1]) simp_all
  have "frames_at H (Some Z) 7 0 [?ob, Frame_End fin] (b @ end_encode H fin 7 1)" using b(3) [OF assms(2-4,6)] e by (auto simp: frames_at_simps)
  then have "parse_stream H (Some Z) (b @ end_encode H fin 7 1) = Ok [?ob, Frame_End fin]"
    by (intro parse_stream_complete [OF assms(1) zstd_feat [OF assms(2)]]) (auto simp: valid_stream_def stream_shape_def)
  then show ?thesis using b(1) compressed_bytes [OF assms(1) b(2)] assms(7)
    by (simp add: test_zstd_roundtrip_through_parse_stream_def Let_def fin [symmetric])
qed simp_all

theorem raw_digest_is_checked_even_when_object_content_is_valid_pass:
  assumes "sha_ok H" "zstd_ok Z" "zstd_documented Z" "zstd_bounded Z" "z_compress Z (object_payload_of H 0x45 20000) 3 = Some w"
    "ends_promptly Z w (object_payload_of H 0x45 20000)"
  shows "test_raw_digest_is_checked_even_when_object_content_is_valid H Z"
proof (rule compressed_object [OF assms(1) _ _ assms(5), of 1 0])
  fix b
  let ?raw = "object_payload_of H 0x45 20000"
  assume b: "object_encode_zstd Z H (object_of H 0x45 20000) 1 0 = Ok b"
    "b = header KIND_OBJECT FLAG_ZSTD (of_nat (length w)) (of_nat (length ?raw)) 1 0 (sha256 H [?raw]) @ w"
  obtain dg where dg: "dg = sha256 H [?raw]" by blast
  have ld: "length dg = 32" using assms(1) by (simp add: dg sha256_def sha_ok_def)
  obtain dg' where dg': "dg' = dg[0 := dg ! 0 XOR 1]" by blast
  have "(dg ! 0 XOR 1) XOR dg ! 0 = 1" by (simp add: xor.commute xor.left_commute)
  then have "dg ! 0 XOR 1 \<noteq> dg ! 0" by (metis xor_self_eq zero_neq_one)
  then have ne: "dg \<noteq> dg'" "length dg' = 32" using ld by (simp_all add: dg' list_update_same_conv eq_commute [of dg])
  have f: "b[32 := b ! 32 XOR 1] = header KIND_OBJECT FLAG_ZSTD (of_nat (length w)) (of_nat (length ?raw)) 1 0 dg' @ w"
    using ld by (simp add: b(2) dg [symmetric] dg' header_eq header_bytes_def list_update_append nth_append)
  have lr: "length ?raw = 20044" by (simp add: object_payload_of_def object_of_def object_raw_def Let_def sha256_len [OF assms(1)])
  have "length w \<le> length ?raw + length ?raw div 256 + 64" using assms(4,5) unfolding zstd_bounded_def by blast
  then have lw: "length w \<le> 30000" by (simp add: lr)
  then have u: "unat (of_nat (length w) :: u32) = length w" by (simp add: unat_of_nat take_bit_nat_eq_self)
  have "decompress_strict Z w (length ?raw) = Ok ?raw"
    using decompress_zstd_compress [OF assms(2,3), of ?raw 3 w] assms(5,6) by (simp add: zstd_compress_def lr MAX_RAW_PAYLOAD_def)
  then have "recover_payload (Some Z) FLAG_ZSTD w 20044 = Ok ?raw" by (simp add: recover_payload_def FLAG_ZSTD_def lr)
  then have "is_digest_mismatch (parse_frame H (Some Z) (b[32 := b ! 32 XOR 1]))"
    unfolding f using ne lw
    by (simp add: parse_header u lr raw_limit_def OBJECT_MAX_RAW_def DATA_MAX_WIRE_def is_digest_mismatch_def dg [symmetric] flag_bits zstd_flag)
  then show ?thesis using b(1) by (simp add: test_raw_digest_is_checked_even_when_object_content_is_valid_def)
qed simp_all

text \<open>A frame under a length that is not that of its content, or with bytes behind it, in a library of any speed.\<close>

lemma frame_refused:
  assumes "zstd_ok Z" "zstd_documented Z" "zstd_compress Z p level = Ok w" "r \<noteq> [] \<or> n \<noteq> length p"
  shows "is_err (decompress_strict Z (w @ r) n)"
proof -
  have "decompress_strict Z (w @ r) n \<noteq> Ok out" for out
    using decompress_only_frame [OF assms(1) compressed_frame(2) [OF assms(2,3)], of "w @ r" n out] assms(4) by auto
  with clean_decompress_strict [OF assms(1), of "w @ r" n] show ?thesis
    by (cases "decompress_strict Z (w @ r) n") (auto simp: is_err_clean is_ok_def)
qed

lemma compressed_nonempty: "zstd_documented Z \<Longrightarrow> zstd_compress Z p level = Ok w \<Longrightarrow> w \<noteq> []"
  using compressed_frame(1) [of Z p level w] by (auto simp: standard_frame_def)

theorem rejects_short_and_overlong_output_pass:
  assumes "zstd_ok Z" "zstd_documented Z" "z_compress Z (replicate 40000 3) 3 = Some w"
  shows "test_rejects_short_and_overlong_output Z"
proof -
  have c: "zstd_compress Z (replicate 40000 3) 3 = Ok w" using assms(3) by (simp add: zstd_compress_def)
  have "is_err (decompress_strict Z (w @ []) n)" if "n \<noteq> 40000" for n
    using that by (intro frame_refused [OF assms(1,2) c]) simp_all
  from this [of 39999] this [of 40001] c show ?thesis by (simp add: test_rejects_short_and_overlong_output_def Let_def)
qed

theorem rejects_concatenation_and_trailing_bytes_pass:
  assumes "zstd_ok Z" "zstd_documented Z" "z_compress Z (replicate 40000 9) 3 = Some w"
  shows "test_rejects_concatenation_and_trailing_bytes Z"
proof -
  have c: "zstd_compress Z (replicate 40000 9) 3 = Ok w" using assms(3) by (simp add: zstd_compress_def)
  have "is_err (decompress_strict Z (w @ r) n)" if "r \<noteq> []" for r n
    using that by (intro frame_refused [OF assms(1,2) c]) simp_all
  from this [of w] this [of "[0]"] c compressed_nonempty [OF assms(2) c] show ?thesis
    by (simp add: test_rejects_concatenation_and_trailing_bytes_def Let_def)
qed

lemma longer_frame_refused:
  assumes "sha_ok H" "zstd_ok Z" "zstd_documented Z" "zstd_compress Z p level = Ok w" "r \<noteq> []" "length (w @ r) < 2 ^ 32" "length dg = 32"
  shows "is_err (parse_frame H (Some Z) (header KIND_OBJECT FLAG_ZSTD (of_nat (length (w @ r))) rl 1 0 dg @ w @ r))"
proof -
  have u: "unat (of_nat (length (w @ r)) :: u32) = length (w @ r)" using assms(6) by (intro unat_u32_of_nat) simp
  have "is_err (decompress_strict Z (w @ r) (unat rl))"
    using assms(5) by (intro frame_refused [OF assms(2-4)]) simp_all
  then obtain e where "decompress_strict Z (w @ r) (unat rl) = Err e" by (auto simp: is_err_iff)
  then have "recover_payload (Some Z) FLAG_ZSTD (w @ r) rl = Err e" by (simp add: recover_payload_def FLAG_ZSTD_def)
  then have "parse_frame H (Some Z) (header KIND_OBJECT FLAG_ZSTD (of_nat (length (w @ r))) rl 1 0 dg @ w @ r) \<noteq> Ok x" for x
    using assms(7) u by (simp add: parse_header raw_limit_def flag_bits zstd_flag)
  with clean_parse_frame [OF zstd_feat [OF assms(2)]] show ?thesis by (metis is_err_clean is_ok_iff)
qed

text \<open>What the two tests on frames begin with.\<close>

lemma object_encodings:
  assumes "sha_ok H" "rep \<le> 262144" "z_compress Z (object_payload_of H n rep) 3 = Some w"
  obtains identity p where "object_encode H (object_of H n rep) 1 0 = Ok identity" "object_encode_zstd Z H (object_of H n rep) 1 0 = Ok p"
    "drop 64 p = w" "length p - 64 = length w"
proof -
  obtain identity where "encode_frame H (Frame_Object (object_of H n rep)) 1 0 = Ok identity"
    by (rule encode_frame_wire [OF assms(1) object_of_wf [OF assms(1,2), where n = n], where sid = 1 and sequ = 0]) simp_all
  then have "object_encode H (object_of H n rep) 1 0 = Ok identity" by simp
  moreover obtain p where "object_encode_zstd Z H (object_of H n rep) 1 0 = Ok p" "drop 64 p = w"
    by (rule compressed_object [OF assms(1,2) _ assms(3), of 1 0]) simp_all
  ultimately show thesis using that by (metis length_drop)
qed

theorem concatenated_zstd_frames_are_rejected_pass:
  assumes "sha_ok H" "zstd_ok Z" "zstd_documented Z" "z_compress Z (object_payload_of H 0x22 50000) 3 = Some w" "length w < 2 ^ 31"
  shows "test_concatenated_zstd_frames_are_rejected H Z"
proof -
  have c: "zstd_compress Z (object_payload_of H 0x22 50000) 3 = Ok w" using assms(4) by (simp add: zstd_compress_def)
  obtain identity p where "object_encode H (object_of H 0x22 50000) 1 0 = Ok identity"
    "object_encode_zstd Z H (object_of H 0x22 50000) 1 0 = Ok p" "drop 64 p = w" "length p - 64 = length w"
    by (rule object_encodings [OF assms(1) _ assms(4)]) simp
  with longer_frame_refused [OF assms(1-3) c compressed_nonempty [OF assms(3) c] _ sha256_len [OF assms(1)]] assms(5)
  show ?thesis by (simp add: test_concatenated_zstd_frames_are_rejected_def Let_def)
qed

theorem trailing_bytes_after_frame_are_rejected_pass:
  assumes "sha_ok H" "zstd_ok Z" "zstd_documented Z" "z_compress Z (object_payload_of H 0x33 50000) 3 = Some w" "length w < 2 ^ 31"
  shows "test_trailing_bytes_after_frame_are_rejected H Z"
proof -
  have c: "zstd_compress Z (object_payload_of H 0x33 50000) 3 = Ok w" using assms(4) by (simp add: zstd_compress_def)
  obtain identity p where "object_encode H (object_of H 0x33 50000) 1 0 = Ok identity"
    "object_encode_zstd Z H (object_of H 0x33 50000) 1 0 = Ok p" "drop 64 p = w" "length p - 64 = length w"
    by (rule object_encodings [OF assms(1) _ assms(4)]) simp
  with longer_frame_refused [OF assms(1-3) c, of "[0]"] sha256_len [OF assms(1)] assms(5)
  show ?thesis by (simp add: test_trailing_bytes_after_frame_are_rejected_def Let_def)
qed

theorem both_encodings_refuse_oversized_chunks_before_encoding_pass:
  "test_both_encodings_refuse_oversized_chunks_before_encoding H Z"
  by (simp add: test_both_encodings_refuse_oversized_chunks_before_encoding_def chunk_encode_def chunk_encode_zstd_def is_bad_length_def)

theorem end_and_error_frames_are_never_compressed_pass:
  assumes "sha_ok H"
  shows "test_end_and_error_frames_are_never_compressed H Z"
  using assms
  by (simp add: test_end_and_error_frames_are_never_compressed_def end_encode_def frame_bytes_def Let_def header_fields(1) parse_header
    sha256_def sha_ok_def is_bad_constant_def FLAG_ZSTD_def)

theorem skippable_frame_magic_is_rejected_pass:
  assumes "sha_ok H"
  shows "test_skippable_frame_magic_is_rejected H Z"
proof -
  obtain w :: bytes where w: "w = [0x50, 0x2A, 0x4D, 0x18, 0, 0, 0, 0] @ replicate 16 0xAA" by blast
  have "decompress_strict Z w 24 = Err (BadConstant ''zstd payload is not one standard frame'')"
    by (simp add: decompress_strict_def w MAX_RAW_PAYLOAD_def ZSTD_MAGIC_def)
  then have "recover_payload (Some Z) FLAG_ZSTD w 24 = Err (BadConstant ''zstd payload is not one standard frame'')"
    by (simp add: recover_payload_def FLAG_ZSTD_def)
  moreover have "length w = 24" by (simp add: w)
  ultimately show ?thesis using sha256_len [OF assms, of w]
    by (simp add: test_skippable_frame_magic_is_rejected_def w [symmetric] Let_def parse_header raw_limit_def OBJECT_MAX_RAW_def DATA_MAX_WIRE_def
      flag_bits zstd_flag del: append_Cons)
qed

end
