(* ===== verification/Spec2Isabelle.thy ===== *)
theory Spec2Isabelle
  imports Chunkmap Descriptor Metapage_Build Tree_Stream Radix_Client Readme_Example Page_Transfer
    Chunkmap_Tests Descriptor_Tests Page_Build_Tests Zstd_Tests
begin

text \<open>
  Verification of mst2-codec, the wire formats of MST/2: bytes in, bytes out. A server writes descriptors,
  directory pages, chunk maps, frames and namespace manifests; a client parses and verifies them. Both sides
  use this code, so what is proved here is what one side may rely on when the other has written.

  \<^bold>\<open>The parts and how they interact.\<close> A serving descriptor (\<^verbatim>\<open>src/descriptor.rs\<close>) names a namespace view and the root
  page of a directory, and its digest is the snapshot id. The view (\<^verbatim>\<open>src/namespace.rs\<close>) names the root of an
  index of bindings, a radix tree of nodes (\<^verbatim>\<open>src/namespace/radix.rs\<close>) in a store reached through a trait
  (\<^verbatim>\<open>src/namespace/radix/index.rs\<close>). A directory is a tree of pages named by their digests (\<^verbatim>\<open>src/metapage.rs\<close>), a
  large file a chunk map whose pages are the leaves of a Merkle tree (\<^verbatim>\<open>src/chunkmap.rs\<close>). Pages and contents travel
  in frames, several of which make a stream (\<^verbatim>\<open>src/treeframe.rs\<close>), compressed or not (\<^verbatim>\<open>src/zstd1.rs\<close>). The errors,
  the readers of little-endian fields and the rule for names are shared (\<^verbatim>\<open>src/lib.rs\<close>).

  \<^bold>\<open>Theories and sources.\<close>
  \<^item> \<open>Codec_Prelude\<close>, \<open>Rust_Str\<close>: what the crate uses of Rust: outcomes, slices, integers as bytes, \<open>str\<close> and UTF-8.
    An operation returns \<open>Ok x\<close>, \<open>Err e\<close> (a \<open>CodecError\<close> or \<open>IndexError\<close>) or \<open>Crash\<close>, a panic: a slice or index out
    of range, an overflow, a failed assertion. \<open>clean\<close> says that an outcome is no panic. A \<open>?\<close> is \<open>and_then\<close>.
  \<^item> \<open>Codec_Lib\<close>: \<^verbatim>\<open>lib.rs\<close>, and the locale \<open>strict_codec\<close>: a decoder that accepts exactly what the encoder writes
    for well-formed values. It is interpreted on the codec of every format, and gives round trips, one byte string
    per value, and identities that determine the value.
  \<^item> \<open>Chunkmap\<close>, \<open>Descriptor\<close>: \<^verbatim>\<open>chunkmap.rs\<close> and \<^verbatim>\<open>descriptor.rs\<close>, whole files.
  \<^item> \<open>Metapage\<close>: entries and the codec of a page. \<open>Metapage_Build\<close>: \<open>Page::build\<close>, route walks and the check of a
    received child. \<open>built H es p\<close> says that \<open>p\<close> is a page of the tree built for the entries \<open>es\<close>.
  \<^item> \<open>Error_Json\<close>: the ERROR payload, its JSON scanner and writer. \<open>Tree_Payload\<close>: the other payloads.
    \<open>Treeframe\<close>: \<open>parse_frame\<close> and the frame encoders. \<open>Tree_Stream\<close>: \<open>parse_stream\<close>.
  \<^item> \<open>Zstd1\<close>: the strict envelope around libzstd. \<open>Zstd_Library\<close>: what libzstd documents of the frames it writes and
    of the calls that decode them, and what follows for the envelope.
  \<^item> \<open>Namespace\<close>, \<open>Radix\<close>, \<open>Radix_Index\<close>: manifests, nodes and keys, and the persistent index, as the code has them.
    \<open>Radix_Index\<close> passes the state of the store through every operation (\<open>iop\<close>); the store of the tests,
    \<^verbatim>\<open>src/namespace/radix/index/tests.rs\<close>, is \<open>memory\<close>.
  \<^item> \<open>Radix_Trie\<close>: the abstract index, a tree of values with its canonical form \<open>t_ok\<close>, lookup \<open>t_get\<close> and update
    \<open>t_upd\<close>. \<open>Radix_Refine\<close>: the contract of a store (the locale \<open>node_contract\<close>, interpreted on \<open>memory\<close>), and loads
    and reads against the trees. \<open>Radix_Update\<close>: updates against the trees. \<open>Radix_Client\<close>: what a client sees.
  \<^item> \<open>Page_Transfer\<close>: pages of a built directory on their way through the frame encoders and \<open>parse_stream\<close>.
  \<^item> \<open>Readme_Example\<close>: the program \<^verbatim>\<open>examples/readme_examples.rs\<close>, which calls several parts in turn.
  \<^item> \<open>Test_Lib\<close>, \<open>Chunkmap_Tests\<close>, \<open>Descriptor_Tests\<close>, \<open>Metapage_Tests\<close>, \<open>Page_Build_Tests\<close>, \<open>Treeframe_Tests\<close> and
    \<open>Zstd_Tests\<close>: the unit tests at the end of the source files, transcribed as truth values \<open>test_<name>\<close> and proved to
    pass (\<open><name>_pass\<close>). They check the model against what the authors of the code expect of it.
  \<^item> This theory: what spans the parts, namely what one snapshot id pins and that no decoder panics.

  \<^bold>\<open>What the lemmas show.\<close>
  \<^item> Codecs. Each format has a specification of its bytes (\<open>page_bytes\<close>, \<open>meta_raw\<close>, \<open>wire_frame\<close>, \<open>error_text\<close>, ...) and a
    predicate of well-formed values; decoders are characterised as an equivalence on every input, so that an
    accepted byte string is the only one for its value and everything else is an error. The texts of ERROR payloads
    have many forms; their grammar \<open>error_text_in\<close> is written for JSON (\<open>Rfc8259\<close>) and for the language of the
    scanner (\<open>Scanner\<close>), which are related by the two escapes on which they differ.
  \<^item> Streams. \<open>stream_step\<close> is the body of the loop of \<open>parse_stream\<close>, \<open>stream_reach\<close> the states it passes through; the
    invariant of these states gives that a stream is accepted exactly when it is a gapless sequence of frames, and that
    the frames of the part read so far are those of every accepted body that begins with it.
  \<^item> Compression. The header check and the streaming loop are described exactly over any library. For frames of a
    library that does what its documentation says, the outcome of decompression is determined, and no other bytes
    pass for the frame.
  \<^item> Trees of digests. Proofs and pages are authentic unless inputs that were hashed collide; the inputs are
    named in each statement (\<open>collision_free\<close>, \<open>no_page_collision\<close>).
  \<^item> The index. On every store that keeps the contract an update refines the update of a map and keeps the tree
    canonical, so that the root does not depend on the history; on a store that lacks or forges nodes reads
    return the truth or an error.

  \<^bold>\<open>Parameters and hypotheses.\<close> SHA-256 (crate sha2) is a function \<open>H\<close>; \<open>sha_ok H\<close> says that digests have 32 bytes.
  Collision hypotheses are about the finite set of inputs named in the statement, except \<open>empty_safe H\<close>, that no
  node but the empty one has the digest of the empty node, which the index takes for the empty tree. libzstd is a
  record of functions \<open>zstd_lib\<close>; \<open>zstd_ok\<close> says that the streaming call stays inside the two buffers, moves forward
  and does not alter what it wrote before, as its documentation promises. \<open>zstd_documented\<close> is what it promises of its own
  frames: their header is that of RFC 8878 with the size of the content and a window of at most 8 MiB at the levels 1
  to 19, and calls that decode them deliver the content, stay within the frame, and return zero exactly when it is
  completely read and written. \<open>zstd_bounded\<close> is the documented bound of the compressor's output. It is not documented
  that the call which delivers the last byte ends the frame (\<open>ends_promptly\<close>); the statements say what happens in
  either case, and \<open>stored_zstd\<close> and \<open>slow_zstd\<close> are libraries of both kinds. \<open>feat\<close> is the cargo feature zstd: \<open>None\<close>
  is the build without it. The implementations of the trait \<open>NodeStore\<close> are a record of its two methods.

  \<^bold>\<open>Integers, bounds and fuel.\<close> Fields of fixed width are words, and the arithmetic on them is checked or wraps as
  the code has it. Lengths and offsets (\<open>usize\<close>) are natural numbers; no buffer in memory is longer than \<open>2 ^ 63\<close>
  bytes, and statements where a length is cast or added say which bound they need. Loops are recursions with a
  measure, except the streaming loop of \<open>Zstd1\<close>, whose fuel is the length of the input plus that of the output plus
  1: every turn consumes or produces a byte or leaves the loop, so the fuel never ends
  (\<open>decompress_strict_clean\<close>). The loop of \<open>parse_stream\<close> decreases the bytes left, the descents of the index the
  bytes of the key left, and the recursion of \<open>Page::build\<close> the entries.

  \<^bold>\<open>Not modelled.\<close> The crates sha2, zstd and zstd-safe, which are parameters; the accessors that only return a
  constant or a field, which are the constants and the fields of the records; \<^verbatim>\<open>tests/vectors.rs\<close> and
  \<^verbatim>\<open>src/namespace/tests.rs\<close>, which read fixture files with \<open>std::fs\<close> and a JSON crate and hold no logic of the codec;
  the unit tests whose outcome is decided inside libzstd, on frames made by hand or by another encoder, on the error of
  a cut frame and on a wrong length (three of \<^verbatim>\<open>src/zstd1.rs\<close>, two of \<^verbatim>\<open>src/treeframe.rs\<close>); the unit tests of the nodes and of the index, which
  sample what the properties of \<open>Radix\<close> and \<open>Radix_Client\<close> state in general, except the store they run on, which is
  modelled. The capacity hints and copies of the code have no counterpart, since they do not change results.
\<close>

section \<open>What one snapshot id pins\<close>

text \<open>C5. The snapshot id is the root of trust of all parts: two peers that agree on it agree on the descriptor, on
  the view it names, on every binding of the index the view names, and on every entry of the directory whose
  root page it names, unless inputs they hashed collide.\<close>

theorem snapshot_pins_all:
  assumes "sha_ok H" "snapshot_id H d = snapshot_id H e"
    and "descriptor_wf d" "descriptor_wf e" "descriptor_encode d = Ok x" "descriptor_encode e = Ok y" "collision_free H {DOMAIN @ x, DOMAIN @ y}"
    and "view_wf v" "view_wf w" "view_id H v = namespace_view_id d" "view_id H w = namespace_view_id e"
      "collision_free H {view_encode v, view_encode w}"
    and "t_ok [] t" "t_ok [] u" "trie_id H t = nv_bindings_root v" "trie_id H u = nv_bindings_root w"
      "collision_free H (node_inputs H t \<union> node_inputs H u)"
    and "\<forall>e\<in>set es. entry_wf e" "length es < 2 ^ 63" "\<forall>e\<in>set fs. entry_wf e" "length fs < 2 ^ 63"
      "page_build H es = Ok a" "page_build H fs = Ok b" "page_id H a = metadata_root d" "page_id H b = metadata_root e"
      "no_page_collision H ({p. built H es p} \<union> {p. built H fs p})"
  shows "d = e \<and> v = w \<and> t_get t = t_get u \<and> es = fs"
proof -
  have d: "d = e" using assms(2-7) by (intro snapshot_id_pins_descriptor [of d e x y H]) auto
  have "view_encode v = view_encode w"
    using assms(10-12) d collision_freeD [of H "{view_encode v, view_encode w}" "view_encode v" "view_encode w"]
    by (auto simp: view_id_def sha256_def)
  then have v: "v = w" using view_codec.enc_inj [OF assms(8,9)] by simp
  have t: "t = u" using assms(15,16) v by (intro trie_id_inj [OF assms(1,13,14,17)]) simp
  have "a = b" using assms(26) by (rule no_page_collisionD) (use assms(22-25) d in \<open>auto intro: built.root\<close>)
  then have "es = fs" using assms(18-23,26) by (intro page_build_inj [OF assms(1), of es a fs]) simp_all
  with d v t show ?thesis by simp
qed

theorem snapshot_pins_all_witness:
  "\<exists>d v. descriptor_wf d \<and> view_wf v \<and> view_id zero_hash v = namespace_view_id d \<and> trie_id zero_hash (t_leaf [] (replicate 32 9)) = nv_bindings_root v
     \<and> page_id zero_hash (page_bytes (Leaf one_file)) = metadata_root d \<and> is_ok (descriptor_encode d)
     \<and> (d = d \<and> v = v \<and> t_get (t_leaf [] (replicate 32 9)) = t_get (t_leaf [] (replicate 32 9)) \<and> one_file = one_file)"
proof -
  let ?d = "\<lparr>instance_uuid = replicate 16 7, namespace_view_id = replicate 32 0, scope = [slash], metadata_root = replicate 32 0\<rparr>"
  let ?v = "sample_view\<lparr>nv_bindings_root := replicate 32 0\<rparr>" and ?t = "t_leaf [] (replicate 32 9)"
  have d: "descriptor_wf ?d" by (simp add: descriptor_wf_def is_utf8_Cons_ascii slash_def)
  have "validate_instance_uuid (instance_uuid ?d) = Ok ()" "validate_scope (scope ?d) = Ok ()"
    by (simp_all add: validate_instance_uuid_def validate_scope_def starts_with_def slash_def replicate_eq_replicate)
  then obtain x where x: "descriptor_encode ?d = Ok x"
    by (simp add: descriptor_encode_def write_defs Let_def BASE_LENGTH_def)
  have v: "view_wf ?v" using sample_manifests(3) by (simp add: view_wf_def)
  have id: "view_id zero_hash ?v = replicate 32 0" "trie_id zero_hash ?t = replicate 32 0" "page_id zero_hash p = replicate 32 0" for p
    by (simp_all add: view_id_def trie_id_eq page_id_def sha256_def zero_hash_def)
  have t: "t_ok [] ?t" using t_ok_leaf [of "[]" "[]" "replicate 32 9"] names_key [OF demo_names(4)] by (simp add: key_of_def)
  have n: "node_inputs zero_hash ?t = {node_encode (trie_node zero_hash ?t)}" by (simp add: t_leaf_def)
  have c: "collision_free zero_hash {p}" "no_page_collision zero_hash {p}" for p by (simp_all add: collision_free_def no_page_collision_def)
  have "?d = ?d \<and> ?v = ?v \<and> t_get ?t = t_get ?t \<and> one_file = one_file"
    by (rule snapshot_pins_all [OF zero_hash_ok refl d d x x _ v v _ _ _ t t _ _ _ one_file_page(1,2,1,2,3,3)])
      (simp_all add: id n c one_file_page(4))
  with d v id x show ?thesis by (intro exI [of _ ?d] exI [of _ ?v]) simp
qed

section \<open>No input makes a decoder panic\<close>

text \<open>C13. Whatever bytes arrive, every decoder and validator of the crate that reads them returns a value or an
  error: no index or slice out of range, no overflow, no failed assertion, no endless loop.\<close>

theorem decoders_total:
  assumes "sha_ok H" "feat_ok feat" "length buf < 2 ^ 64"
  shows "clean (validate_name buf) \<and> clean (chunk_map_decode buf) \<and> clean (chunk_leaf_decode buf)
    \<and> clean (descriptor_decode buf) \<and> clean (validate_scope buf) \<and> clean (entry_decode buf off) \<and> clean (page_decode buf)
    \<and> clean (parse_frame H feat buf) \<and> clean (parse_stream H feat buf)
    \<and> clean (source_decode buf) \<and> clean (binding_decode buf) \<and> clean (view_decode buf)
    \<and> clean (node_decode buf) \<and> clean (encode_key buf) \<and> clean (decode_key buf)"
  using parse_stream_clean [OF assms] clean_parse_frame [OF assms(2)] clean_descriptor_decode by simp

theorem decoders_total_witness: "clean (parse_stream zero_hash (Some stored_zstd) (replicate 200 255))"
  using decoders_total [of zero_hash "Some stored_zstd" "replicate 200 255"] by simp

end
